(* ===== verification/Prelude.thy ===== *)
theory Prelude
  imports Complex_Main "HOL-Library.Word" "HOL-Library.Multiset"
begin

text \<open>
  What every component shares: the machine integer types, the two pieces of the C++ standard
  library that all components lean on (\<open>std::clamp\<close> on \<open>int\<close> and on \<open>float\<close>, and the draws a
  random engine makes), the collections of facts the proofs use, and the generic lemmas on
  lists, multisets and words.
\<close>

section \<open>Machine integers\<close>

type_synonym u8 = "8 word"
type_synonym u16 = "16 word"
type_synonym u32 = "32 word"
type_synonym u64 = "64 word"

text \<open>
  A C++ \<open>int\<close> is modelled by \<open>int\<close>; the predicate says that a value fits the 32 bits it has.
  Time points and durations are \<open>int\<close> nanoseconds, as \<open>std::chrono::steady_clock\<close> counts them
  on the platform the program is built for; the predicate for 64 bits is used where a bound
  on them is stated.
\<close>

definition in_int32 :: "int \<Rightarrow> bool" where
  "in_int32 i \<longleftrightarrow> - (2 ^ 31) \<le> i \<and> i < 2 ^ 31"

definition in_int64 :: "int \<Rightarrow> bool" where
  "in_int64 i \<longleftrightarrow> - (2 ^ 63) \<le> i \<and> i < 2 ^ 63"

abbreviation ns_per_ms :: int where
  "ns_per_ms \<equiv> 1000000"

section \<open>Collections of facts\<close>

named_theorems cfg_simps \<open>defining equations of the configuration setters and getters\<close>
named_theorems inv_intros \<open>preservation of the component invariants\<close>
named_theorems op_defs \<open>definitions unfolded to run an operation\<close>

section \<open>std::clamp and comparisons on float\<close>

definition clamp_int :: "int \<Rightarrow> int \<Rightarrow> int \<Rightarrow> int" where
  "clamp_int v lo hi = (if v < lo then lo else if hi < v then hi else v)"

lemma clamp_int_bounds: "lo \<le> hi \<Longrightarrow> lo \<le> clamp_int v lo hi \<and> clamp_int v lo hi \<le> hi"
  by (simp add: clamp_int_def)

lemma clamp_int_id: "lo \<le> v \<Longrightarrow> v \<le> hi \<Longrightarrow> clamp_int v lo hi = v"
  by (simp add: clamp_int_def)

lemma clamp_int_idem: "lo \<le> hi \<Longrightarrow> clamp_int (clamp_int v lo hi) lo hi = clamp_int v lo hi"
  by (simp add: clamp_int_def)

text \<open>
  A \<open>float\<close> is a finite value, an infinity or a NaN. The core compares and stores rates and
  never does arithmetic on them, so a finite value is the rational number it denotes (both zeros
  are \<open>0\<close>: no comparison tells them apart); the one division, in the main window, rounds. Every comparison with a NaN is false.
\<close>

datatype float32 = NaN | NegInf | Fin rat | PosInf

fun f_less :: "float32 \<Rightarrow> float32 \<Rightarrow> bool" where
  "f_less NaN _ = False"
| "f_less _ NaN = False"
| "f_less NegInf y = (y \<noteq> NegInf)"
| "f_less (Fin a) NegInf = False"
| "f_less (Fin a) (Fin b) = (a < b)"
| "f_less (Fin a) PosInf = True"
| "f_less PosInf _ = False"

definition f_le :: "float32 \<Rightarrow> float32 \<Rightarrow> bool" where
  "f_le x y \<longleftrightarrow> f_less x y \<or> (x \<noteq> NaN \<and> x = y)"

definition clamp_float :: "float32 \<Rightarrow> float32 \<Rightarrow> float32 \<Rightarrow> float32" where
  "clamp_float v lo hi = (if f_less v lo then lo else if f_less hi v then hi else v)"

text \<open>A stored rate: inside the unit interval, or the NaN that \<open>std::clamp\<close> lets through.\<close>

fun unit_rate :: "float32 \<Rightarrow> bool" where
  "unit_rate (Fin q) = (0 \<le> q \<and> q \<le> 1)"
| "unit_rate _ = False"

lemma clamp_float_unit: "v \<noteq> NaN \<Longrightarrow> unit_rate (clamp_float v (Fin 0) (Fin 1))"
  by (cases v) (auto simp: clamp_float_def)

lemma clamp_float_NaN [simp]: "clamp_float NaN lo hi = NaN"
  by (cases hi) (auto simp: clamp_float_def)

lemma clamp_float_id: "unit_rate v \<Longrightarrow> clamp_float v (Fin 0) (Fin 1) = v"
  by (cases v) (auto simp: clamp_float_def)

section \<open>Draws from a random engine\<close>

text \<open>
  \<open>std::mt19937\<close> is seeded from \<open>std::random_device\<close>, so its values are the environment's. The
  model takes the two distributions the program draws from as functions of the engine's state.
  What the standard promises of them is \<open>rng_lawful\<close>.
\<close>

record 'g rng_ops =
  draw_real :: "'g \<Rightarrow> rat \<times> 'g"
  draw_int :: "int \<Rightarrow> int \<Rightarrow> 'g \<Rightarrow> int \<times> 'g"

definition rng_lawful :: "'g rng_ops \<Rightarrow> bool" where
  "rng_lawful R \<longleftrightarrow>
     (\<forall>g. 0 \<le> fst (draw_real R g) \<and> fst (draw_real R g) < 1) \<and>
     (\<forall>a b g. a \<le> b \<longrightarrow> a \<le> fst (draw_int R a b g) \<and> fst (draw_int R a b g) \<le> b)"

lemma draw_int_bounds:
  "rng_lawful R \<Longrightarrow> a \<le> b \<Longrightarrow> draw_int R a b g = (i, g') \<Longrightarrow> a \<le> i \<and> i \<le> b"
  by (metis fst_conv rng_lawful_def)

text \<open>An engine that always draws the least value it may: it shows that lawful engines exist.\<close>

definition least_rng :: "unit rng_ops" where
  "least_rng = \<lparr>draw_real = (\<lambda>g. (0, g)), draw_int = (\<lambda>a b g. (a, g))\<rparr>"

lemma least_rng_lawful [simp]: "rng_lawful least_rng"
  by (simp add: rng_lawful_def least_rng_def)

section \<open>Lists and multisets\<close>

lemma sorted_wrt_snoc:
  "sorted_wrt P (xs @ [x]) \<longleftrightarrow> sorted_wrt P xs \<and> (\<forall>y \<in> set xs. P y x)"
  by (auto simp: sorted_wrt_append)

text \<open>
  Walking back from the newest element while a key stays above a bound finds all elements above
  the bound, when the keys are sorted.
\<close>

lemma takeWhile_sorted_filter:
  assumes "sorted_wrt (\<lambda>a b. f b \<le> f a) xs"
  shows "takeWhile (\<lambda>x. (k::'b::linorder) < f x) xs = filter (\<lambda>x. k < f x) xs"
  using assms
proof (induction xs)
  case (Cons x xs)
  show ?case
  proof (cases "k < f x")
    case False
    then have "\<forall>y \<in> set xs. \<not> k < f y"
      using Cons.prems by fastforce
    then have "filter (\<lambda>y. k < f y) xs = []"
      by (simp add: filter_empty_conv)
    with False show ?thesis by simp
  qed (use Cons in auto)
qed simp

section \<open>Words\<close>

lemma unat_add_no_wrap:
  "unat (a :: 'a::len word) + unat b < 2 ^ LENGTH('a) \<Longrightarrow> unat (a + b) = unat a + unat b"
  by (simp add: unat_word_ariths)

lemma unat_Suc_no_wrap:
  "unat (a :: 'a::len word) + 1 < 2 ^ LENGTH('a) \<Longrightarrow> unat (a + 1) = unat a + 1"
proof -
  assume a: "unat a + 1 < 2 ^ LENGTH('a)"
  have "unat (1 :: 'a word) = 1" by simp
  then show ?thesis using a unat_add_no_wrap [of a 1] by simp
qed

end
