(* ===== verification/Interfaces.thy ===== *)
theory Interfaces
  imports Prelude
begin

text \<open>
  The contracts between components, as locales: a bounded FIFO (what \<open>DelayQueue\<close> relies on in
  \<open>rigtorp::SPSCQueue\<close>) and a min-priority queue (what \<open>ScheduledPacketQueue\<close> relies on in
  \<open>std::priority_queue\<close>), the runs of everything that reacts to events, and objects that own a resource
  until their scope ends. The two loops the program writes against the queues are the functions
  \<open>drain_fifo\<close> and \<open>pop_while\<close>; the lemmas about the loops are proved once, inside the locales.
\<close>

section \<open>A bounded FIFO\<close>

text \<open>
  \<open>push\<close> is \<open>None\<close> where the code would spin on a full queue. \<open>front\<close> returns the queue too,
  because a look at the front may refresh a cached index; a client looks before it pops.
\<close>

locale bounded_fifo =
  fixes push :: "'a \<Rightarrow> 'q \<Rightarrow> 'q option"
    and front :: "'q \<Rightarrow> 'a option \<times> 'q"
    and pop :: "'q \<Rightarrow> 'q"
    and items :: "'q \<Rightarrow> 'a list"
    and room :: "'q \<Rightarrow> nat"
    and inv :: "'q \<Rightarrow> bool"
  assumes push_ok: "inv q \<Longrightarrow> length (items q) < room q \<Longrightarrow>
      \<exists>q'. push x q = Some q' \<and> inv q' \<and> items q' = items q @ [x] \<and> room q' = room q"
    and push_full: "inv q \<Longrightarrow> room q \<le> length (items q) \<Longrightarrow> push x q = None"
    and front_value: "inv q \<Longrightarrow> fst (front q) = (if items q = [] then None else Some (hd (items q)))"
    and front_frame: "inv q \<Longrightarrow>
      inv (snd (front q)) \<and> items (snd (front q)) = items q \<and> room (snd (front q)) = room q"
    and pop_ok: "inv q \<Longrightarrow> items q \<noteq> [] \<Longrightarrow>
      inv (pop (snd (front q))) \<and> items (pop (snd (front q))) = tl (items q) \<and>
      room (pop (snd (front q))) = room q"
    and bounded: "inv q \<Longrightarrow> length (items q) \<le> room q"

text \<open>
  \<open>while (q.front()) { use(*q.front()); q.pop(); }\<close>: the list is what the body saw, in order.
  The loop looks twice, once in its test and once in its body. The fuel bounds the rounds;
  \<open>drain_all\<close> below says that one more than the length is enough.
\<close>

fun drain_fifo :: "('q \<Rightarrow> 'a option \<times> 'q) \<Rightarrow> ('q \<Rightarrow> 'q) \<Rightarrow> nat \<Rightarrow> 'q \<Rightarrow> 'a list \<times> 'q" where
  "drain_fifo front pop 0 q = ([], q)"
| "drain_fifo front pop (Suc n) q =
     (case front q of
        (None, q1) \<Rightarrow> ([], q1)
      | (Some _, q1) \<Rightarrow>
          (case front q1 of
             (None, q2) \<Rightarrow> ([], q2)
           | (Some x, q2) \<Rightarrow> (case drain_fifo front pop n (pop q2) of (xs, q3) \<Rightarrow> (x # xs, q3))))"

text \<open>Pushing a list, one element after the other; \<open>None\<close> if one of the pushes would spin.\<close>

fun push_all :: "('a \<Rightarrow> 'q \<Rightarrow> 'q option) \<Rightarrow> 'a list \<Rightarrow> 'q \<Rightarrow> 'q option" where
  "push_all push [] q = Some q"
| "push_all push (x # xs) q = (case push x q of None \<Rightarrow> None | Some q' \<Rightarrow> push_all push xs q')"

context bounded_fifo
begin

lemma front_empty: "inv q \<Longrightarrow> items q = [] \<Longrightarrow> fst (front q) = None"
  by (simp add: front_value)

lemma front_cons: "inv q \<Longrightarrow> items q = x # xs \<Longrightarrow> fst (front q) = Some x"
  by (simp add: front_value)

lemma drain_all:
  assumes "inv q" and "length (items q) < n"
  shows "fst (drain_fifo front pop n q) = items q \<and>
    inv (snd (drain_fifo front pop n q)) \<and>
    items (snd (drain_fifo front pop n q)) = [] \<and>
    room (snd (drain_fifo front pop n q)) = room q"
  using assms
proof (induction n arbitrary: q)
  case (Suc n)
  obtain r q1 where fr: "front q = (r, q1)" by force
  with front_frame [OF Suc.prems(1)] have q1: "inv q1" "items q1 = items q" "room q1 = room q"
    by simp_all
  show ?case
  proof (cases "items q")
    case Nil
    with fr front_value [OF Suc.prems(1)] q1 show ?thesis by simp
  next
    case (Cons x xs)
    obtain r' q2 where fr2: "front q1 = (r', q2)" by force
    have r: "r = Some x" "r' = Some x"
      using Cons q1 fr fr2 front_value [OF Suc.prems(1)] front_value [OF q1(1)] by simp_all
    from Cons q1 pop_ok [OF q1(1)] fr2
    have p: "inv (pop q2)" "items (pop q2) = xs" "room (pop q2) = room q" by simp_all
    from p Cons Suc.prems(2) have "length (items (pop q2)) < n" by simp
    from Suc.IH [OF p(1) this] p Cons fr fr2 r show ?thesis by (simp add: case_prod_beta)
  qed
qed simp

lemma push_all_ok:
  assumes "inv q" and "length (items q) + length xs \<le> room q"
  shows "\<exists>q'. push_all push xs q = Some q' \<and> inv q' \<and> items q' = items q @ xs \<and> room q' = room q"
  using assms
proof (induction xs arbitrary: q)
  case (Cons x xs)
  then have "length (items q) < room q" by simp
  from push_ok [OF Cons.prems(1) this, of x] obtain q1 where
    q1: "push x q = Some q1" "inv q1" "items q1 = items q @ [x]" "room q1 = room q" by blast
  from Cons.prems(2) q1 have "length (items q1) + length xs \<le> room q1" by simp
  from Cons.IH [OF q1(2) this] q1 show ?case by auto
qed simp

end

section \<open>A min-priority queue\<close>

text \<open>
  \<open>std::priority_queue\<close> with a comparator that puts the smallest key on top. Which of several
  elements with the smallest key is on top is not promised.
\<close>

locale min_queue =
  fixes key :: "'a \<Rightarrow> 'k::linorder"
    and push :: "'a \<Rightarrow> 'q \<Rightarrow> 'q"
    and peek :: "'q \<Rightarrow> 'a option"
    and pop :: "'q \<Rightarrow> 'q"
    and bag :: "'q \<Rightarrow> 'a multiset"
    and inv :: "'q \<Rightarrow> bool"
  assumes push_bag: "inv q \<Longrightarrow> bag (push x q) = bag q + {#x#}"
    and push_inv: "inv q \<Longrightarrow> inv (push x q)"
    and peek_none: "inv q \<Longrightarrow> peek q = None \<longleftrightarrow> bag q = {#}"
    and peek_min: "inv q \<Longrightarrow> peek q = Some x \<Longrightarrow> x \<in># bag q \<and> (\<forall>y \<in># bag q. key x \<le> key y)"
    and pop_bag: "inv q \<Longrightarrow> peek q = Some x \<Longrightarrow> bag (pop q) = bag q - {#x#}"
    and pop_inv: "inv q \<Longrightarrow> peek q \<noteq> None \<Longrightarrow> inv (pop q)"

text \<open>
  \<open>while (!q.empty() && ok(q.top()) && popped < limit) { x = q.top(); q.pop(); use(x); }\<close>: the
  elements the body saw, in order, and the queue that is left.
\<close>

fun pop_while :: "('q \<Rightarrow> 'a option) \<Rightarrow> ('q \<Rightarrow> 'q) \<Rightarrow> ('a \<Rightarrow> bool) \<Rightarrow> nat \<Rightarrow> 'q \<Rightarrow> 'a list \<times> 'q" where
  "pop_while peek pop ok 0 q = ([], q)"
| "pop_while peek pop ok (Suc n) q =
     (case peek q of
        None \<Rightarrow> ([], q)
      | Some x \<Rightarrow>
          (if ok x then (case pop_while peek pop ok n (pop q) of (xs, q') \<Rightarrow> (x # xs, q'))
           else ([], q)))"

context min_queue
begin

lemma pop_while_spec:
  assumes "inv q"
  shows "inv (snd (pop_while peek pop ok n q)) \<and>
    mset (fst (pop_while peek pop ok n q)) + bag (snd (pop_while peek pop ok n q)) = bag q \<and>
    (\<forall>x \<in> set (fst (pop_while peek pop ok n q)). ok x) \<and>
    length (fst (pop_while peek pop ok n q)) \<le> n"
  using assms
proof (induction n arbitrary: q)
  case (Suc n)
  show ?case
  proof (cases "peek q")
    case None
    with Suc.prems show ?thesis by simp
  next
    case (Some x)
    show ?thesis
    proof (cases "ok x")
      case True
      from Some pop_inv [OF Suc.prems] have "inv (pop q)" by simp
      from Suc.IH [OF this] Some True pop_bag [OF Suc.prems Some] peek_min [OF Suc.prems Some]
      show ?thesis by (auto split: prod.split)
    qed (use Some Suc.prems in simp)
  qed
qed simp

lemma pop_while_subset:
  assumes "inv q"
  shows "set (fst (pop_while peek pop ok n q)) \<subseteq> set_mset (bag q)"
    and "bag (snd (pop_while peek pop ok n q)) \<subseteq># bag q"
proof -
  have "mset (fst (pop_while peek pop ok n q)) + bag (snd (pop_while peek pop ok n q)) = bag q"
    using pop_while_spec [OF assms] by blast
  then show "bag (snd (pop_while peek pop ok n q)) \<subseteq># bag q"
    and "set (fst (pop_while peek pop ok n q)) \<subseteq> set_mset (bag q)"
    by (metis mset_subset_eq_add_right, metis mset_subset_eq_add_left set_mset_mono set_mset_mset)
qed

text \<open>The popped elements come in key order, and none that is left has a smaller key.\<close>

lemma pop_while_sorted:
  assumes "inv q"
  shows "sorted (map key (fst (pop_while peek pop ok n q))) \<and>
    (\<forall>x \<in> set (fst (pop_while peek pop ok n q)).
       \<forall>y \<in># bag (snd (pop_while peek pop ok n q)). key x \<le> key y)"
  using assms
proof (induction n arbitrary: q)
  case (Suc n)
  show ?case
  proof (cases "peek q")
    case (Some x)
    show ?thesis
    proof (cases "ok x")
      case True
      obtain xs q' where r: "pop_while peek pop ok n (pop q) = (xs, q')" by force
      from Some pop_inv [OF Suc.prems] have i: "inv (pop q)" by simp
      from Suc.IH [OF i] r have IH: "sorted (map key xs)" "\<forall>x \<in> set xs. \<forall>y \<in># bag q'. key x \<le> key y"
        by simp_all
      have sub: "set xs \<subseteq> set_mset (bag q)" "set_mset (bag q') \<subseteq> set_mset (bag q)"
        using pop_while_subset [OF i, of ok n] r pop_bag [OF Suc.prems Some]
        by (auto dest: in_diffD mset_subset_eqD)
      have "\<forall>y \<in># bag q. key x \<le> key y" using peek_min [OF Suc.prems Some] by blast
      with sub IH Some True r show ?thesis by auto
    qed (use Some in simp)
  qed simp
qed simp

text \<open>If fewer than the limit came out, what is left on top fails the test.\<close>

lemma pop_while_stop:
  assumes "inv q" and "length (fst (pop_while peek pop ok n q)) < n"
  shows "\<forall>x. peek (snd (pop_while peek pop ok n q)) = Some x \<longrightarrow> \<not> ok x"
  using assms
proof (induction n arbitrary: q)
  case (Suc n)
  show ?case
  proof (cases "peek q")
    case (Some x)
    show ?thesis
    proof (cases "ok x")
      case True
      from Some pop_inv [OF Suc.prems(1)] have "inv (pop q)" by simp
      from Suc.IH [OF this] Suc.prems(2) Some True show ?thesis by (simp split: prod.splits)
    qed (use Some in simp)
  qed simp
qed simp

text \<open>With a test that is true everywhere and fuel for the whole queue, everything comes out.\<close>

lemma pop_while_all:
  assumes "inv q" and "size (bag q) < n"
  shows "bag (snd (pop_while peek pop (\<lambda>_. True) n q)) = {#} \<and>
    mset (fst (pop_while peek pop (\<lambda>_. True) n q)) = bag q"
proof -
  let ?r = "pop_while peek pop (\<lambda>_. True) n q"
  note s = pop_while_spec [OF assms(1), of "\<lambda>_. True" n]
  have "size (mset (fst ?r)) \<le> size (bag q)"
    using s by (metis size_union le_add1)
  with assms(2) have "length (fst ?r) < n" by simp
  from pop_while_stop [OF assms(1) this] have "peek (snd ?r) = None"
    by (cases "peek (snd ?r)") auto
  with s peek_none have "bag (snd ?r) = {#}" by blast
  with s show ?thesis by simp
qed

end

section \<open>Steps and runs\<close>

text \<open>
  What the components that react to events share: a run is a chain of steps that may fail to end, and an
  invariant under which every fair step ends and keeps it.
\<close>

locale event_machine =
  fixes step :: "'e \<Rightarrow> 's \<Rightarrow> 's option"
    and run :: "'e list \<Rightarrow> 's \<Rightarrow> 's option"
    and fair :: "'e \<Rightarrow> bool"
    and inv :: "'s \<Rightarrow> bool"
  assumes run_Nil: "run [] s = Some s"
    and run_Cons: "run (e # es) s = Option.bind (step e s) (run es)"
    and step_total: "inv s \<Longrightarrow> fair e \<Longrightarrow> \<exists>s'. step e s = Some s' \<and> inv s'"
begin

lemma run_total: "inv s \<Longrightarrow> \<forall>e \<in> set es. fair e \<Longrightarrow> \<exists>s'. run es s = Some s' \<and> inv s'"
proof (induction es arbitrary: s)
  case (Cons e es)
  then obtain s1 where "step e s = Some s1" "inv s1" using step_total by force
  with Cons show ?case by (simp add: run_Cons)
qed (simp add: run_Nil)

lemma run_append: "run (es @ fs) s = Option.bind (run es s) (run fs)"
  by (induction es arbitrary: s) (simp_all add: run_Nil run_Cons split: Option.bind_split)

text \<open>A run that is given ends where the invariant holds, and so did every part of it.\<close>

lemma run_inv: "inv s \<Longrightarrow> \<forall>e \<in> set es. fair e \<Longrightarrow> run es s = Some s' \<Longrightarrow> inv s'"
  using run_total by fastforce

lemma run_prefix_inv:
  assumes "inv s" and "\<forall>e \<in> set (es @ fs). fair e"
  obtains s1 where "run es s = Some s1" "inv s1" "run (es @ fs) s = run fs s1"
proof -
  have "\<forall>e \<in> set es. fair e" using assms(2) by simp
  from run_total [OF assms(1) this] obtain s1 where "run es s = Some s1" "inv s1" by blast
  with that show thesis by (simp add: run_append)
qed

end

section \<open>Scoped resources\<close>

text \<open>
  An object that owns a resource until its scope ends: the constructor acquires, the destructor releases,
  on every path out of the body. What is acquired need not be owned (a null handle, a request that was
  refused). A release is specified only for a resource that is owned, so that nothing is released twice.
\<close>

definition scoped :: "('w \<Rightarrow> 'r \<times> 'w) \<Rightarrow> ('r \<Rightarrow> 'w \<Rightarrow> 'w) \<Rightarrow> ('r \<Rightarrow> 'w \<Rightarrow> ('x \<times> 'w) option) \<Rightarrow> 'w \<Rightarrow> ('x \<times> 'w) option" where
  "scoped acquire release body w =
     (case acquire w of (r, w) \<Rightarrow> map_option (\<lambda>(x, w). (x, release r w)) (body r w))"

locale scoped_resource =
  fixes acquire :: "'w \<Rightarrow> 'r \<times> 'w"
    and release :: "'r \<Rightarrow> 'w \<Rightarrow> 'w"
    and holds :: "'r \<Rightarrow> bool"
    and owned :: "'w \<Rightarrow> 'r multiset"
    and lawful :: bool
  assumes acquire_owned: "lawful \<Longrightarrow> acquire w = (r, w') \<Longrightarrow> owned w' = (if holds r then add_mset r (owned w) else owned w)"
    and release_owned: "lawful \<Longrightarrow> holds r \<longrightarrow> r \<in># owned w \<Longrightarrow> owned (release r w) = (if holds r then owned w - {#r#} else owned w)"
begin

text \<open>A body that ends with what it began with leaves the scope as it was.\<close>

lemma scoped_balanced:
  assumes "lawful" and "scoped acquire release body w = Some (x, w')"
    and "\<And>r w1 y w2. acquire w = (r, w1) \<Longrightarrow> holds r \<longrightarrow> r \<in># owned w1 \<Longrightarrow> body r w1 = Some (y, w2) \<Longrightarrow> owned w2 = owned w1"
  shows "owned w' = owned w"
proof -
  obtain r w1 where a: "acquire w = (r, w1)" by force
  then obtain w2 where b: "body r w1 = Some (x, w2)" "w' = release r w2" using assms(2) by (auto simp: scoped_def)
  note 1 = acquire_owned [OF assms(1) a]
  then have 2: "owned w2 = owned w1" using assms(3) [OF a _ b(1)] by simp
  then show ?thesis using release_owned [OF assms(1), of r w2] 1 b(2) by (cases "holds r") simp_all
qed

end

end
