(* ===== verification/Spsc_Queue.thy ===== *)
theory Spsc_Queue
  imports Interfaces
begin

unbundle bit_operations_syntax

text \<open>
  \<open>rigtorp::SPSCQueue\<close> (third_party/rigtorp/SPSCQueue.h): the ring buffer with cached indices that
  carries packet slots between the capture thread and the drain thread. This theory has the
  operations as functions of the queue's memory, run one after the other, the ring's invariant, the
  list a ring stands for, and the interpretation of the FIFO contract. The interleaving of the two
  threads is in the theory \<open>Spsc_Threads\<close>.
\<close>

section \<open>State\<close>

text \<open>
  Indices are \<open>size_t\<close> in the code; they stay below \<open>capacity\<close>, so they are \<open>nat\<close> here. Raw storage
  is \<open>None\<close>, a constructed element \<open>Some\<close>. Element \<open>i\<close> of the ring sits at \<open>slots (i + kPadding)\<close>.
\<close>

record 'a spsc =
  capacity :: nat
  kPadding :: nat
  slots :: "nat \<Rightarrow> 'a option"
  writeIdx :: nat
  readIdxCache :: nat
  readIdx :: nat
  writeIdxCache :: nat

definition SIZE_MAX :: nat where
  "SIZE_MAX = 2 ^ 64 - 1"

text \<open>\<open>(kCacheLineSize - 1) / sizeof(T) + 1\<close>\<close>

definition spsc_padding :: "nat \<Rightarrow> nat \<Rightarrow> nat" where
  "spsc_padding kCacheLineSize sizeof_T = (kCacheLineSize - 1) div sizeof_T + 1"

text \<open>
  The constructor. \<open>alloc\<close> is the allocator's answer to a request for so many elements
  (\<open>allocate_at_least\<close> may give more; \<open>allocate\<close> gives exactly as many).
\<close>

definition spsc_new :: "(nat \<Rightarrow> nat) \<Rightarrow> nat \<Rightarrow> nat \<Rightarrow> 'a spsc" where
  "spsc_new alloc pad cap =
     (let c0 = (if cap < 1 then 1 else cap);
          c1 = (c0 + 1) mod (SIZE_MAX + 1);
          c2 = (if c1 > SIZE_MAX - 2 * pad then SIZE_MAX - 2 * pad else c1);
          c3 = alloc (c2 + 2 * pad) - 2 * pad
      in \<lparr>capacity = c3, kPadding = pad, slots = (\<lambda>_. None),
          writeIdx = 0, readIdxCache = 0, readIdx = 0, writeIdxCache = 0\<rparr>)"

section \<open>Operations\<close>

definition bump :: "nat \<Rightarrow> nat \<Rightarrow> nat" where
  "bump c i = (let n = i + 1 in if n = c then 0 else n)"

definition store_slot :: "nat \<Rightarrow> 'a \<Rightarrow> 'a spsc \<Rightarrow> 'a spsc" where
  "store_slot i v q = q\<lparr>slots := (slots q)(i + kPadding q := Some v)\<rparr>"

text \<open>
  \<open>emplace\<close> (and \<open>push\<close>, which calls it). The loop reloads the cached read index until the queue
  has room; run alone, the read index does not move, so a second reload changes nothing and the
  loop spins for ever: \<open>None\<close>.
\<close>

definition spsc_emplace :: "'a \<Rightarrow> 'a spsc \<Rightarrow> 'a spsc option" where
  "spsc_emplace v q =
     (let w = writeIdx q;
          nextWriteIdx = bump (capacity q) w;
          q1 = (if nextWriteIdx = readIdxCache q then q\<lparr>readIdxCache := readIdx q\<rparr> else q)
      in if nextWriteIdx = readIdxCache q1 then None
         else Some ((store_slot w v q1)\<lparr>writeIdx := nextWriteIdx\<rparr>))"

definition spsc_try_emplace :: "'a \<Rightarrow> 'a spsc \<Rightarrow> bool \<times> 'a spsc" where
  "spsc_try_emplace v q =
     (let w = writeIdx q;
          nextWriteIdx = bump (capacity q) w;
          q1 = (if nextWriteIdx = readIdxCache q then q\<lparr>readIdxCache := readIdx q\<rparr> else q)
      in if nextWriteIdx = readIdxCache q1 then (False, q1)
         else (True, (store_slot w v q1)\<lparr>writeIdx := nextWriteIdx\<rparr>))"

definition spsc_front :: "'a spsc \<Rightarrow> 'a option \<times> 'a spsc" where
  "spsc_front q =
     (let r = readIdx q in
      if r = writeIdxCache q then
        (let q1 = q\<lparr>writeIdxCache := writeIdx q\<rparr> in
         if writeIdxCache q1 = r then (None, q1) else (slots q1 (r + kPadding q1), q1))
      else (slots q (r + kPadding q), q))"

definition spsc_pop :: "'a spsc \<Rightarrow> 'a spsc" where
  "spsc_pop q =
     (let r = readIdx q in
      q\<lparr>slots := (slots q)(r + kPadding q := None), readIdx := bump (capacity q) r\<rparr>)"

definition spsc_size :: "'a spsc \<Rightarrow> int" where
  "spsc_size q =
     (let diff = int (writeIdx q) - int (readIdx q) in
      if diff < 0 then diff + int (capacity q) else diff)"

definition spsc_empty :: "'a spsc \<Rightarrow> bool" where
  "spsc_empty q \<longleftrightarrow> spsc_size q = 0"

definition spsc_capacity :: "'a spsc \<Rightarrow> nat" where
  "spsc_capacity q = capacity q - 1"

section \<open>Arithmetic of the ring\<close>

text \<open>\<open>gap c a b\<close> is the number of steps from index \<open>a\<close> forward to index \<open>b\<close>;
  \<open>slot_at c r k\<close> is the index \<open>k\<close> steps after \<open>r\<close>.\<close>

definition gap :: "nat \<Rightarrow> nat \<Rightarrow> nat \<Rightarrow> nat" where
  "gap c a b = (if a \<le> b then b - a else b + c - a)"

definition slot_at :: "nat \<Rightarrow> nat \<Rightarrow> nat \<Rightarrow> nat" where
  "slot_at c r k = (if r + k < c then r + k else r + k - c)"

named_theorems ring_arith \<open>facts about gap, bump and slot_at\<close>

lemma bump_less [ring_arith]: "i < c \<Longrightarrow> bump c i < c"
  by (auto simp: bump_def Let_def)

lemma gap_less [ring_arith]: "a < c \<Longrightarrow> b < c \<Longrightarrow> gap c a b < c"
  by (auto simp: gap_def)

lemma gap_0_iff [ring_arith]: "a < c \<Longrightarrow> b < c \<Longrightarrow> gap c a b = 0 \<longleftrightarrow> a = b"
  by (auto simp: gap_def)

lemma gap_self [simp]: "gap c a a = 0"
  by (simp add: gap_def)

lemma gap_bump_right [ring_arith]:
  "a < c \<Longrightarrow> b < c \<Longrightarrow> bump c b \<noteq> a \<Longrightarrow> gap c a (bump c b) = gap c a b + 1"
  by (auto simp: gap_def bump_def Let_def split: if_splits)

lemma gap_bump_left [ring_arith]:
  "a < c \<Longrightarrow> b < c \<Longrightarrow> a \<noteq> b \<Longrightarrow> gap c (bump c a) b = gap c a b - 1"
  by (auto simp: gap_def bump_def Let_def split: if_splits)

lemma bump_eq_gap [ring_arith]:
  "a < c \<Longrightarrow> b < c \<Longrightarrow> bump c b = a \<longleftrightarrow> gap c a b + 1 = c"
  by (auto simp: gap_def bump_def Let_def split: if_splits)

lemma gap_inject: "a < c \<Longrightarrow> a' < c \<Longrightarrow> b < c \<Longrightarrow> gap c a b = gap c a' b \<Longrightarrow> a = a'"
  by (auto simp: gap_def split: if_splits)

lemma slot_at_less [ring_arith]: "r < c \<Longrightarrow> k < c \<Longrightarrow> slot_at c r k < c"
  by (auto simp: slot_at_def)

lemma slot_at_0 [simp]: "r < c \<Longrightarrow> slot_at c r 0 = r"
  by (simp add: slot_at_def)

lemma slot_at_bump [ring_arith]: "r < c \<Longrightarrow> k + 1 < c \<Longrightarrow> slot_at c (bump c r) k = slot_at c r (k + 1)"
  by (auto simp: slot_at_def bump_def Let_def split: if_splits)

lemma slot_at_gap [ring_arith]: "r < c \<Longrightarrow> w < c \<Longrightarrow> slot_at c r (gap c r w) = w"
  by (auto simp: slot_at_def gap_def)

lemma slot_at_inject [ring_arith]:
  "r < c \<Longrightarrow> j < c \<Longrightarrow> k < c \<Longrightarrow> slot_at c r j = slot_at c r k \<longleftrightarrow> j = k"
  by (auto simp: slot_at_def split: if_splits)

section \<open>Invariant and abstraction\<close>

text \<open>
  The cached read index lies behind the read index (the producer sees the queue at least as full
  as it is) and the cached write index does not pass the write index (the consumer sees at most
  what is there). The slots between the indices, and only those, hold elements.
\<close>

definition spsc_count :: "'a spsc \<Rightarrow> nat" where
  "spsc_count q = gap (capacity q) (readIdx q) (writeIdx q)"

definition ring_slot :: "'a spsc \<Rightarrow> nat \<Rightarrow> nat" where
  "ring_slot q k = slot_at (capacity q) (readIdx q) k + kPadding q"

definition spsc_items :: "'a spsc \<Rightarrow> 'a list" where
  "spsc_items q = map (\<lambda>k. the (slots q (ring_slot q k))) [0..<spsc_count q]"

definition idx_inv :: "'a spsc \<Rightarrow> bool" where
  "idx_inv q \<longleftrightarrow> 2 \<le> capacity q \<and>
     writeIdx q < capacity q \<and> readIdx q < capacity q \<and>
     readIdxCache q < capacity q \<and> writeIdxCache q < capacity q \<and>
     spsc_count q \<le> gap (capacity q) (readIdxCache q) (writeIdx q) \<and>
     gap (capacity q) (readIdx q) (writeIdxCache q) \<le> spsc_count q"

definition spsc_inv :: "'a spsc \<Rightarrow> bool" where
  "spsc_inv q \<longleftrightarrow> idx_inv q \<and>
     (\<forall>k < capacity q. slots q (ring_slot q k) \<noteq> None \<longleftrightarrow> k < spsc_count q)"

lemma ring_frame [simp]:
  "spsc_count (q\<lparr>slots := f\<rparr>) = spsc_count q"
  "spsc_count (q\<lparr>readIdxCache := i\<rparr>) = spsc_count q"
  "spsc_count (q\<lparr>writeIdxCache := i\<rparr>) = spsc_count q"
  "ring_slot (q\<lparr>slots := f\<rparr>) = ring_slot q"
  "ring_slot (q\<lparr>readIdxCache := i\<rparr>) = ring_slot q"
  "ring_slot (q\<lparr>writeIdxCache := i\<rparr>) = ring_slot q"
  "ring_slot (q\<lparr>writeIdx := i\<rparr>) = ring_slot q"
  "idx_inv (q\<lparr>slots := f\<rparr>) = idx_inv q"
  by (simp_all add: spsc_count_def ring_slot_def idx_inv_def fun_eq_iff)

lemma spsc_invD:
  "spsc_inv q \<Longrightarrow> 2 \<le> capacity q"
  "spsc_inv q \<Longrightarrow> writeIdx q < capacity q"
  "spsc_inv q \<Longrightarrow> readIdx q < capacity q"
  "spsc_inv q \<Longrightarrow> readIdxCache q < capacity q"
  "spsc_inv q \<Longrightarrow> writeIdxCache q < capacity q"
  by (simp_all add: spsc_inv_def idx_inv_def)

lemma spsc_inv_slot:
  assumes "spsc_inv q" and "k < spsc_count q"
  shows "slots q (ring_slot q k) = Some (spsc_items q ! k)"
proof -
  have "spsc_count q < capacity q"
    using assms(1) by (simp add: spsc_count_def spsc_invD gap_less)
  with assms have "slots q (ring_slot q k) \<noteq> None"
    by (simp add: spsc_inv_def)
  with assms(2) show ?thesis by (auto simp: spsc_items_def)
qed

lemma length_spsc_items [simp]: "length (spsc_items q) = spsc_count q"
  by (simp add: spsc_items_def)

lemma spsc_items_eqI:
  assumes "length xs = spsc_count q" and "\<And>k. k < spsc_count q \<Longrightarrow> slots q (ring_slot q k) = Some (xs ! k)"
  shows "spsc_items q = xs"
  using assms by (intro nth_equalityI) (simp_all add: spsc_items_def)

lemma spsc_count_less: "spsc_inv q \<Longrightarrow> spsc_count q < capacity q"
  by (simp add: spsc_count_def spsc_invD gap_less)

text \<open>The producer's check against its cached index decides whether the ring is full.\<close>

lemma stale_read_index_safe:
  assumes "idx_inv q" and "bump (capacity q) (writeIdx q) \<noteq> readIdxCache q"
  shows "bump (capacity q) (writeIdx q) \<noteq> readIdx q"
proof
  assume full: "bump (capacity q) (writeIdx q) = readIdx q"
  have b: "writeIdx q < capacity q" "readIdx q < capacity q" "readIdxCache q < capacity q"
    using assms(1) by (simp_all add: idx_inv_def)
  from full b have "spsc_count q + 1 = capacity q"
    by (simp add: bump_eq_gap spsc_count_def)
  moreover have "spsc_count q \<le> gap (capacity q) (readIdxCache q) (writeIdx q)"
    using assms(1) by (simp add: idx_inv_def)
  moreover have "gap (capacity q) (readIdxCache q) (writeIdx q) < capacity q"
    using b by (simp add: gap_less)
  ultimately have "gap (capacity q) (readIdxCache q) (writeIdx q) + 1 = capacity q" by simp
  with b have "bump (capacity q) (writeIdx q) = readIdxCache q" by (simp add: bump_eq_gap)
  with assms(2) show False by simp
qed

section \<open>Every operation keeps the invariant and does what the list does\<close>

text \<open>Constructor: an empty ring, when the allocator gives at least what was asked for.\<close>

lemma spsc_new_inv:
  assumes "\<And>n. n \<le> alloc n" and "cap < SIZE_MAX - 2 * pad" and "2 * pad + 2 < SIZE_MAX"
  shows "spsc_inv (spsc_new alloc pad cap :: 'a spsc) \<and>
    spsc_items (spsc_new alloc pad cap :: 'a spsc) = [] \<and>
    cap \<le> spsc_capacity (spsc_new alloc pad cap :: 'a spsc)"
proof -
  let ?q = "spsc_new alloc pad cap :: 'a spsc"
  have m: "(if cap < 1 then 1 else cap) = max cap 1" by auto
  have "(max cap 1 + 1) mod (SIZE_MAX + 1) = max cap 1 + 1"
    using assms(2,3) by simp
  moreover have "\<not> max cap 1 + 1 > SIZE_MAX - 2 * pad"
    using assms(2,3) by arith
  moreover have "max cap 1 + 1 \<le> alloc (max cap 1 + 1 + 2 * pad) - 2 * pad"
    using assms(1) [of "max cap 1 + 1 + 2 * pad"] by simp
  ultimately have c: "max cap 1 + 1 \<le> capacity ?q"
    by (simp only: spsc_new_def m Let_def if_False spsc.simps)
  have "2 \<le> max cap 1 + 1" by simp
  then have "2 \<le> capacity ?q" using c by (rule order_trans)
  moreover have "slots ?q = (\<lambda>_. None)" "readIdx ?q = 0" "writeIdx ?q = 0"
    "readIdxCache ?q = 0" "writeIdxCache ?q = 0"
    by (simp_all add: spsc_new_def Let_def)
  ultimately show ?thesis
    using c by (auto simp: spsc_inv_def idx_inv_def spsc_count_def spsc_items_def spsc_capacity_def)
qed

lemma refresh_read_cache_inv:
  "spsc_inv q \<Longrightarrow> spsc_inv (q\<lparr>readIdxCache := readIdx q\<rparr>) \<and>
     spsc_items (q\<lparr>readIdxCache := readIdx q\<rparr>) = spsc_items q"
  by (auto simp: spsc_inv_def idx_inv_def spsc_items_def spsc_count_def ring_slot_def)

lemma refresh_write_cache_inv:
  "spsc_inv q \<Longrightarrow> spsc_inv (q\<lparr>writeIdxCache := writeIdx q\<rparr>) \<and>
     spsc_items (q\<lparr>writeIdxCache := writeIdx q\<rparr>) = spsc_items q"
  by (auto simp: spsc_inv_def idx_inv_def spsc_items_def spsc_count_def ring_slot_def)

definition spsc_publish :: "'a \<Rightarrow> 'a spsc \<Rightarrow> 'a spsc" where
  "spsc_publish v q = (store_slot (writeIdx q) v q)\<lparr>writeIdx := bump (capacity q) (writeIdx q)\<rparr>"

lemma spsc_publish_frame [simp]:
  "capacity (spsc_publish v q) = capacity q"
  "kPadding (spsc_publish v q) = kPadding q"
  "readIdx (spsc_publish v q) = readIdx q"
  "readIdxCache (spsc_publish v q) = readIdxCache q"
  "writeIdxCache (spsc_publish v q) = writeIdxCache q"
  "writeIdx (spsc_publish v q) = bump (capacity q) (writeIdx q)"
  "ring_slot (spsc_publish v q) = ring_slot q"
  "slots (spsc_publish v q) = (slots q)(writeIdx q + kPadding q := Some v)"
  by (auto simp: spsc_publish_def store_slot_def ring_slot_def)

lemma spsc_publish_ok:
  assumes inv: "spsc_inv q" and room: "bump (capacity q) (writeIdx q) \<noteq> readIdxCache q"
  shows "spsc_inv (spsc_publish v q) \<and> spsc_items (spsc_publish v q) = spsc_items q @ [v]"
proof -
  let ?c = "capacity q" and ?r = "readIdx q" and ?w = "writeIdx q" and ?n = "spsc_count q"
  let ?p = "spsc_publish v q"
  note b = spsc_invD [OF inv]
  have nr: "bump ?c ?w \<noteq> ?r"
    using inv room by (auto simp: spsc_inv_def dest: stale_read_index_safe)
  have n: "spsc_count ?p = ?n + 1"
    using b nr by (simp add: spsc_count_def gap_bump_right)
  have lim: "?n + 1 < ?c"
  proof -
    have "spsc_count ?p < ?c"
      using b by (simp add: spsc_count_def gap_less bump_less)
    with n show ?thesis by simp
  qed
  have at: "ring_slot q k = ?w + kPadding q \<longleftrightarrow> k = ?n" if "k < ?c" for k
  proof -
    have "slot_at ?c ?r ?n = ?w" using b by (simp add: spsc_count_def slot_at_gap)
    moreover have "slot_at ?c ?r k = slot_at ?c ?r ?n \<longleftrightarrow> k = ?n"
      using b that lim by (simp add: slot_at_inject)
    ultimately show ?thesis by (simp add: ring_slot_def)
  qed
  have filled: "slots q (ring_slot q k) \<noteq> None \<longleftrightarrow> k < ?n" if "k < ?c" for k
    using inv that by (simp add: spsc_inv_def)
  have idx: "idx_inv q" using inv by (simp add: spsc_inv_def)
  have rc: "gap ?c (readIdxCache q) (bump ?c ?w) = gap ?c (readIdxCache q) ?w + 1"
    using b room by (simp add: gap_bump_right)
  have "idx_inv ?p"
    using idx b n rc by (auto simp: idx_inv_def bump_less)
  moreover have "slots ?p (ring_slot ?p k) \<noteq> None \<longleftrightarrow> k < ?n + 1" if "k < ?c" for k
    using filled [OF that] at [OF that] by auto
  ultimately have "spsc_inv ?p"
    using n by (simp add: spsc_inv_def)
  moreover have "spsc_items ?p = spsc_items q @ [v]"
  proof (rule spsc_items_eqI)
    fix k assume "k < spsc_count ?p"
    with n lim have k: "k < ?n + 1" "k < ?c" by simp_all
    then show "slots ?p (ring_slot ?p k) = Some ((spsc_items q @ [v]) ! k)"
      using at [OF k(2)] spsc_inv_slot [OF inv, of k] by (auto simp: nth_append)
  qed (simp add: n)
  ultimately show ?thesis by blast
qed

lemma spsc_emplace_unfold:
  "spsc_emplace v q =
     (let q1 = (if bump (capacity q) (writeIdx q) = readIdxCache q then q\<lparr>readIdxCache := readIdx q\<rparr> else q)
      in if bump (capacity q1) (writeIdx q1) = readIdxCache q1 then None else Some (spsc_publish v q1))"
  by (simp add: spsc_emplace_def spsc_publish_def store_slot_def Let_def)

text \<open>Push succeeds exactly when the ring has room, and appends.\<close>

lemma spsc_emplace_spec:
  assumes inv: "spsc_inv q"
  shows "if spsc_count q < spsc_capacity q
    then \<exists>q'. spsc_emplace v q = Some q' \<and> spsc_inv q' \<and> spsc_items q' = spsc_items q @ [v] \<and>
           spsc_capacity q' = spsc_capacity q
    else spsc_emplace v q = None"
proof -
  note b = spsc_invD [OF inv]
  have full: "bump (capacity q) (writeIdx q) = readIdx q \<longleftrightarrow> \<not> spsc_count q < spsc_capacity q"
    using b spsc_count_less [OF inv] by (auto simp: bump_eq_gap spsc_count_def spsc_capacity_def)
  let ?q1 = "q\<lparr>readIdxCache := readIdx q\<rparr>"
  have step: "spsc_inv (spsc_publish v p) \<and> spsc_items (spsc_publish v p) = spsc_items q @ [v] \<and>
      spsc_capacity (spsc_publish v p) = spsc_capacity q"
    if "spsc_inv p" "bump (capacity p) (writeIdx p) \<noteq> readIdxCache p" "spsc_items p = spsc_items q"
      "capacity p = capacity q" for p
    using spsc_publish_ok [OF that(1,2)] that by (simp add: spsc_capacity_def)
  show ?thesis
  proof (cases "bump (capacity q) (writeIdx q) = readIdxCache q")
    case False
    with inv have "bump (capacity q) (writeIdx q) \<noteq> readIdx q"
      by (auto simp: spsc_inv_def dest: stale_read_index_safe)
    with full False step [OF inv] show ?thesis by (simp add: spsc_emplace_unfold)
  next
    case True
    with full step [of ?q1] refresh_read_cache_inv [OF inv]
    show ?thesis by (auto simp: spsc_emplace_unfold Let_def)
  qed
qed

lemma spsc_try_emplace_spec:
  "spsc_try_emplace v q =
     (case spsc_emplace v q of
        Some q' \<Rightarrow> (True, q')
      | None \<Rightarrow> (False, q\<lparr>readIdxCache := readIdx q\<rparr>))"
  by (simp add: spsc_try_emplace_def spsc_emplace_def Let_def)

lemma spsc_front_spec:
  assumes inv: "spsc_inv q"
  shows "fst (spsc_front q) = (if spsc_items q = [] then None else Some (hd (spsc_items q)))"
    and "spsc_inv (snd (spsc_front q)) \<and> spsc_items (snd (spsc_front q)) = spsc_items q \<and>
      spsc_capacity (snd (spsc_front q)) = spsc_capacity q"
proof -
  note b = spsc_invD [OF inv]
  have e: "spsc_items q = [] \<longleftrightarrow> readIdx q = writeIdx q"
    using b by (simp add: spsc_items_def spsc_count_def gap_0_iff)
  have hd: "slots q (readIdx q + kPadding q) = Some (hd (spsc_items q))" if "spsc_items q \<noteq> []"
  proof -
    from that have "0 < spsc_count q" by (simp add: spsc_items_def)
    from spsc_inv_slot [OF inv this] that b show ?thesis
      by (simp add: ring_slot_def hd_conv_nth)
  qed
  have "readIdx q \<noteq> writeIdxCache q \<Longrightarrow> readIdx q \<noteq> writeIdx q"
  proof
    assume "readIdx q \<noteq> writeIdxCache q" and "readIdx q = writeIdx q"
    then show False
      using inv b by (simp add: spsc_inv_def idx_inv_def spsc_count_def gap_0_iff)
  qed
  then show "fst (spsc_front q) = (if spsc_items q = [] then None else Some (hd (spsc_items q)))"
    using e hd by (auto simp: spsc_front_def Let_def)
  show "spsc_inv (snd (spsc_front q)) \<and> spsc_items (snd (spsc_front q)) = spsc_items q \<and>
      spsc_capacity (snd (spsc_front q)) = spsc_capacity q"
    using inv refresh_write_cache_inv [OF inv] by (auto simp: spsc_front_def Let_def spsc_capacity_def)
qed

text \<open>
  Pop removes the front element; the slot it leaves is raw again. The cached write index must be
  ahead of the read index, which a successful \<open>front\<close> establishes: the code always looks before
  it pops.
\<close>

lemma spsc_front_looked:
  assumes "spsc_inv q" and "spsc_items q \<noteq> []"
  shows "readIdx (snd (spsc_front q)) \<noteq> writeIdxCache (snd (spsc_front q))"
proof -
  have "readIdx q \<noteq> writeIdx q"
    using assms by (auto simp: spsc_items_def spsc_count_def)
  then show ?thesis by (auto simp: spsc_front_def Let_def)
qed

lemma spsc_pop_ok:
  assumes inv: "spsc_inv q" and ne: "spsc_items q \<noteq> []" and looked: "readIdx q \<noteq> writeIdxCache q"
  shows "spsc_inv (spsc_pop q) \<and> spsc_items (spsc_pop q) = tl (spsc_items q) \<and>
    spsc_capacity (spsc_pop q) = spsc_capacity q"
proof -
  let ?c = "capacity q" and ?r = "readIdx q" and ?n = "spsc_count q" and ?p = "spsc_pop q"
  note b = spsc_invD [OF inv]
  have n0: "0 < ?n" using ne by (simp add: spsc_items_def)
  with b have rw: "?r \<noteq> writeIdx q" by (auto simp: spsc_count_def)
  have f: "capacity ?p = ?c" "kPadding ?p = kPadding q" "writeIdx ?p = writeIdx q"
    "readIdxCache ?p = readIdxCache q" "writeIdxCache ?p = writeIdxCache q"
    "readIdx ?p = bump ?c ?r" "slots ?p = (slots q)(?r + kPadding q := None)"
    by (simp_all add: spsc_pop_def Let_def)
  have n: "spsc_count ?p = ?n - 1"
    using b rw f by (simp add: spsc_count_def gap_bump_left)
  have lim: "?n < ?c" by (rule spsc_count_less [OF inv])
  have at: "ring_slot ?p k = ring_slot q (k + 1)" if "k + 1 < ?c" for k
    using b that f by (simp add: ring_slot_def slot_at_bump)
  have at_last: "ring_slot ?p (?c - 1) = ?r + kPadding q"
    using b f by (auto simp: ring_slot_def slot_at_def bump_def Let_def)
  have ne_r: "ring_slot q (k + 1) \<noteq> ?r + kPadding q" if "k + 1 < ?c" for k
    using b that slot_at_inject [of ?r ?c "k + 1" 0] by (simp add: ring_slot_def)
  have filled: "slots q (ring_slot q (k + 1)) \<noteq> None \<longleftrightarrow> k + 1 < ?n" if "k + 1 < ?c" for k
    using inv that by (simp add: spsc_inv_def)
  have "slots ?p (ring_slot ?p k) \<noteq> None \<longleftrightarrow> k < ?n - 1" if "k < ?c" for k
  proof (cases "k + 1 < ?c")
    case True
    with filled [OF True] at [OF True] ne_r [OF True] f show ?thesis by auto
  next
    case False
    with that have "k = ?c - 1" by simp
    with at_last f lim show ?thesis by auto
  qed
  moreover have "idx_inv ?p"
    using inv b rw looked n f by (auto simp: spsc_inv_def idx_inv_def bump_less gap_bump_left)
  ultimately have "spsc_inv ?p"
    using n f by (simp add: spsc_inv_def)
  moreover have "spsc_items ?p = tl (spsc_items q)"
  proof (rule spsc_items_eqI)
    fix k assume "k < spsc_count ?p"
    with n lim have k: "k + 1 < ?n" "k + 1 < ?c" by simp_all
    with spsc_inv_slot [OF inv k(1)] at [OF k(2)] ne_r [OF k(2)] f
    show "slots ?p (ring_slot ?p k) = Some (tl (spsc_items q) ! k)"
      by (simp add: nth_tl)
  qed (simp add: n)
  ultimately show ?thesis using f by (simp add: spsc_capacity_def)
qed

text \<open>\<open>size\<close> and \<open>empty\<close> agree with the list.\<close>

lemma spsc_size_spec: "spsc_inv q \<Longrightarrow> spsc_size q = int (length (spsc_items q))"
  using spsc_invD(2,3) [of q] by (auto simp: spsc_size_def Let_def spsc_count_def gap_def)

lemma spsc_empty_spec: "spsc_inv q \<Longrightarrow> spsc_empty q \<longleftrightarrow> spsc_items q = []"
  by (simp add: spsc_empty_def spsc_size_spec flip: length_0_conv)

lemma spsc_size_items: "spsc_inv q \<Longrightarrow> length (spsc_items q) \<le> spsc_capacity q"
  using spsc_count_less [of q] by (simp add: spsc_capacity_def)

section \<open>The ring implements the FIFO contract\<close>

interpretation ring: bounded_fifo spsc_emplace spsc_front spsc_pop spsc_items spsc_capacity spsc_inv
proof (unfold_locales, goal_cases)
  case (1 q x)
  with spsc_emplace_spec [of q x] show ?case by simp
next
  case (2 q x)
  with spsc_emplace_spec [of q x] show ?case by simp
next
  case (3 q)
  then show ?case by (rule spsc_front_spec)
next
  case (4 q)
  then show ?case by (rule spsc_front_spec)
next
  case (5 q)
  then show ?case
    using spsc_front_spec [of q] spsc_front_looked [of q] spsc_pop_ok [of "snd (spsc_front q)"]
    by simp
next
  case (6 q)
  then show ?case by (rule spsc_size_items)
qed

text \<open>The destructor drains the ring (\<open>while (front()) pop();\<close>) before it frees the storage.\<close>

definition spsc_destroy :: "'a spsc \<Rightarrow> 'a list \<times> 'a spsc" where
  "spsc_destroy q = drain_fifo spsc_front spsc_pop (Suc (capacity q)) q"

end
