(* ===== verification/Spsc_Threads.thy ===== *)
theory Spsc_Threads
  imports Spsc_Queue
begin

text \<open>
  The ring of \<open>rigtorp::SPSCQueue\<close> under two threads. One producer runs \<open>emplace\<close>, one consumer
  runs \<open>front\<close>, reads the element and runs \<open>pop\<close>; each access to shared memory is a step of its
  own, and the steps of the two threads interleave in any order. An acquire load that follows a
  release store of the same index sees everything stored before it, so the steps act on one
  memory. Every reachable state satisfies an invariant from which memory safety (no read of raw
  storage, no write over an element) and the FIFO order follow.
\<close>

section \<open>States and steps\<close>

text \<open>Where a thread is inside its operation, with the locals the operation holds there.\<close>

datatype 'a producer_pc =
    PIdle
  | PCheck 'a nat nat
  | PWrite 'a nat nat
  | PPublish 'a nat nat

datatype consumer_pc =
    CIdle
  | CFront nat
  | CRecheck nat
  | CHold nat
  | CPop nat
  | CPublish nat

text \<open>
  \<open>produced\<close> and \<open>consumed\<close> record what was published and what was read; \<open>popped\<close> counts the
  pops that are complete. They are history: no step of the code depends on them.
\<close>

record 'a spsc_sys =
  ring :: "'a spsc"
  ppc :: "'a producer_pc"
  cpc :: consumer_pc
  produced :: "'a list"
  consumed :: "'a list"
  popped :: nat

definition spsc_sys_init :: "'a spsc \<Rightarrow> 'a spsc_sys" where
  "spsc_sys_init q =
     \<lparr>ring = q, ppc = PIdle, cpc = CIdle, produced = [], consumed = [], popped = 0\<rparr>"

inductive spsc_step :: "'a spsc_sys \<Rightarrow> 'a spsc_sys \<Rightarrow> bool" where
  p_load: "ppc s = PIdle \<Longrightarrow> w = writeIdx (ring s) \<Longrightarrow>
     spsc_step s (s\<lparr>ppc := PCheck v w (bump (capacity (ring s)) w)\<rparr>)"
| p_reload: "ppc s = PCheck v w nw \<Longrightarrow> nw = readIdxCache (ring s) \<Longrightarrow>
     spsc_step s (s\<lparr>ring := (ring s)\<lparr>readIdxCache := readIdx (ring s)\<rparr>\<rparr>)"
| p_pass: "ppc s = PCheck v w nw \<Longrightarrow> nw \<noteq> readIdxCache (ring s) \<Longrightarrow>
     spsc_step s (s\<lparr>ppc := PWrite v w nw\<rparr>)"
| p_write: "ppc s = PWrite v w nw \<Longrightarrow>
     spsc_step s (s\<lparr>ring := store_slot w v (ring s), ppc := PPublish v w nw\<rparr>)"
| p_publish: "ppc s = PPublish v w nw \<Longrightarrow>
     spsc_step s (s\<lparr>ring := (ring s)\<lparr>writeIdx := nw\<rparr>, ppc := PIdle, produced := produced s @ [v]\<rparr>)"
| c_load: "cpc s = CIdle \<Longrightarrow> spsc_step s (s\<lparr>cpc := CFront (readIdx (ring s))\<rparr>)"
| c_hit: "cpc s = CFront r \<Longrightarrow> r \<noteq> writeIdxCache (ring s) \<Longrightarrow> spsc_step s (s\<lparr>cpc := CHold r\<rparr>)"
| c_refresh: "cpc s = CFront r \<Longrightarrow> r = writeIdxCache (ring s) \<Longrightarrow>
     spsc_step s (s\<lparr>ring := (ring s)\<lparr>writeIdxCache := writeIdx (ring s)\<rparr>, cpc := CRecheck r\<rparr>)"
| c_null: "cpc s = CRecheck r \<Longrightarrow> writeIdxCache (ring s) = r \<Longrightarrow> spsc_step s (s\<lparr>cpc := CIdle\<rparr>)"
| c_found: "cpc s = CRecheck r \<Longrightarrow> writeIdxCache (ring s) \<noteq> r \<Longrightarrow> spsc_step s (s\<lparr>cpc := CHold r\<rparr>)"
| c_read: "cpc s = CHold r \<Longrightarrow> slots (ring s) (r + kPadding (ring s)) = Some v \<Longrightarrow>
     spsc_step s (s\<lparr>cpc := CPop r, consumed := consumed s @ [v]\<rparr>)"
| c_destroy: "cpc s = CPop r \<Longrightarrow>
     spsc_step s (s\<lparr>ring := (ring s)\<lparr>slots := (slots (ring s))(r + kPadding (ring s) := None)\<rparr>,
                    cpc := CPublish r\<rparr>)"
| c_publish: "cpc s = CPublish r \<Longrightarrow>
     spsc_step s (s\<lparr>ring := (ring s)\<lparr>readIdx := bump (capacity (ring s)) r\<rparr>,
                    cpc := CIdle, popped := popped s + 1\<rparr>)"

inductive spsc_reachable :: "'a spsc \<Rightarrow> 'a spsc_sys \<Rightarrow> bool" for q where
  start: "spsc_reachable q (spsc_sys_init q)"
| step: "spsc_reachable q s \<Longrightarrow> spsc_step s t \<Longrightarrow> spsc_reachable q t"

section \<open>The invariant\<close>

text \<open>What slot \<open>k\<close> steps after the read index holds.\<close>

definition expected :: "'a spsc_sys \<Rightarrow> nat \<Rightarrow> 'a option" where
  "expected s k =
     (if k < spsc_count (ring s) then
        (if k = 0 \<and> (\<exists>r. cpc s = CPublish r) then None else Some (produced s ! (popped s + k)))
      else if k = spsc_count (ring s) then
        (case ppc s of PPublish v _ _ \<Rightarrow> Some v | _ \<Rightarrow> None)
      else None)"

definition producer_ok :: "'a spsc_sys \<Rightarrow> bool" where
  "producer_ok s =
     (case ppc s of
        PIdle \<Rightarrow> True
      | PCheck v w nw \<Rightarrow> w = writeIdx (ring s) \<and> nw = bump (capacity (ring s)) w
      | PWrite v w nw \<Rightarrow> w = writeIdx (ring s) \<and> nw = bump (capacity (ring s)) w \<and> nw \<noteq> readIdxCache (ring s)
      | PPublish v w nw \<Rightarrow> w = writeIdx (ring s) \<and> nw = bump (capacity (ring s)) w \<and> nw \<noteq> readIdxCache (ring s))"

definition consumer_ok :: "'a spsc_sys \<Rightarrow> bool" where
  "consumer_ok s =
     (case cpc s of
        CIdle \<Rightarrow> True
      | CFront r \<Rightarrow> r = readIdx (ring s)
      | CRecheck r \<Rightarrow> r = readIdx (ring s)
      | CHold r \<Rightarrow> r = readIdx (ring s) \<and> r \<noteq> writeIdxCache (ring s)
      | CPop r \<Rightarrow> r = readIdx (ring s) \<and> r \<noteq> writeIdxCache (ring s)
      | CPublish r \<Rightarrow> r = readIdx (ring s) \<and> r \<noteq> writeIdxCache (ring s))"

definition ahead :: "consumer_pc \<Rightarrow> nat" where
  "ahead p = (case p of CPop _ \<Rightarrow> 1 | CPublish _ \<Rightarrow> 1 | _ \<Rightarrow> 0)"

definition history_ok :: "'a spsc_sys \<Rightarrow> bool" where
  "history_ok s \<longleftrightarrow> length (produced s) = popped s + spsc_count (ring s) \<and>
     consumed s = take (popped s + ahead (cpc s)) (produced s)"

definition slots_ok :: "'a spsc_sys \<Rightarrow> bool" where
  "slots_ok s \<longleftrightarrow> (\<forall>k < capacity (ring s). slots (ring s) (ring_slot (ring s) k) = expected s k)"

definition sys_inv :: "'a spsc_sys \<Rightarrow> bool" where
  "sys_inv s \<longleftrightarrow> idx_inv (ring s) \<and> producer_ok s \<and> consumer_ok s \<and> history_ok s \<and> slots_ok s"

lemmas sys_inv_defs = sys_inv_def producer_ok_def consumer_ok_def history_ok_def

lemma idx_invD:
  "idx_inv q \<Longrightarrow> 2 \<le> capacity q"
  "idx_inv q \<Longrightarrow> writeIdx q < capacity q"
  "idx_inv q \<Longrightarrow> readIdx q < capacity q"
  "idx_inv q \<Longrightarrow> readIdxCache q < capacity q"
  "idx_inv q \<Longrightarrow> writeIdxCache q < capacity q"
  by (simp_all add: idx_inv_def)

text \<open>A consumer past \<open>front\<close> holds an element: the ring is not empty.\<close>

lemma held_nonempty:
  assumes "idx_inv q" and "readIdx q \<noteq> writeIdxCache q"
  shows "0 < spsc_count q" and "readIdx q \<noteq> writeIdx q"
proof -
  note b = idx_invD [OF assms(1)]
  have "0 < gap (capacity q) (readIdx q) (writeIdxCache q)"
    using b assms(2) by (metis gap_0_iff gr0I)
  then show n: "0 < spsc_count q"
    using assms(1) by (simp add: idx_inv_def)
  then show "readIdx q \<noteq> writeIdx q" by (auto simp: spsc_count_def)
qed

lemma count_less: "idx_inv q \<Longrightarrow> spsc_count q < capacity q"
  by (simp add: spsc_count_def idx_invD gap_less)

lemma room_left:
  assumes "idx_inv q" and "bump (capacity q) (writeIdx q) \<noteq> readIdxCache q"
  shows "spsc_count q + 1 < capacity q"
    and "gap (capacity q) (readIdx q) (bump (capacity q) (writeIdx q)) = spsc_count q + 1"
proof -
  note b = idx_invD [OF assms(1)]
  note nr = stale_read_index_safe [OF assms]
  show g: "gap (capacity q) (readIdx q) (bump (capacity q) (writeIdx q)) = spsc_count q + 1"
    using b nr by (simp add: spsc_count_def gap_bump_right)
  have "gap (capacity q) (readIdx q) (bump (capacity q) (writeIdx q)) < capacity q"
    using b by (simp add: gap_less bump_less)
  with g show "spsc_count q + 1 < capacity q" by simp
qed

lemma ring_slot_write:
  assumes "idx_inv q" and "k < capacity q"
  shows "ring_slot q k = writeIdx q + kPadding q \<longleftrightarrow> k = spsc_count q"
proof -
  note b = idx_invD [OF assms(1)]
  have "slot_at (capacity q) (readIdx q) (spsc_count q) = writeIdx q"
    using b by (simp add: spsc_count_def slot_at_gap)
  then show ?thesis
    using b assms count_less [OF assms(1)] slot_at_inject [of "readIdx q" "capacity q" k "spsc_count q"]
    by (simp add: ring_slot_def)
qed

lemma ring_slot_read:
  assumes "idx_inv q" and "k < capacity q"
  shows "ring_slot q k = readIdx q + kPadding q \<longleftrightarrow> k = 0"
proof -
  note b = idx_invD [OF assms(1)]
  show ?thesis
    using b assms(2) slot_at_inject [of "readIdx q" "capacity q" k 0] by (simp add: ring_slot_def)
qed

section \<open>Steps of the producer\<close>

lemma sys_inv_init: "spsc_inv q \<Longrightarrow> spsc_items q = [] \<Longrightarrow> sys_inv (spsc_sys_init q)"
  by (auto simp: sys_inv_defs slots_ok_def spsc_sys_init_def spsc_inv_def expected_def ahead_def
      simp flip: length_0_conv)

lemma p_write_inv:
  assumes inv: "sys_inv s" and pc: "ppc s = PWrite v w nw"
  shows "sys_inv (s\<lparr>ring := store_slot w v (ring s), ppc := PPublish v w nw\<rparr>)"
proof -
  let ?q = "ring s" and ?q' = "store_slot w v (ring s)"
  let ?s' = "s\<lparr>ring := ?q', ppc := PPublish v w nw\<rparr>"
  have idx: "idx_inv ?q" and sl: "slots_ok s" using inv by (simp_all add: sys_inv_def)
  have w: "w = writeIdx ?q" and nr: "bump (capacity ?q) (writeIdx ?q) \<noteq> readIdxCache ?q"
    using inv pc by (auto simp: sys_inv_defs)
  note rl = room_left [OF idx nr]
  have same: "spsc_count ?q' = spsc_count ?q" "capacity ?q' = capacity ?q" "ring_slot ?q' = ring_slot ?q"
    "idx_inv ?q' = idx_inv ?q" "readIdx ?q' = readIdx ?q" "writeIdx ?q' = writeIdx ?q"
    "readIdxCache ?q' = readIdxCache ?q" "writeIdxCache ?q' = writeIdxCache ?q"
    by (simp_all add: store_slot_def)
  have "slots ?q' (ring_slot ?q' k) = expected ?s' k" if k: "k < capacity ?q" for k
  proof (cases "k = spsc_count ?q")
    case True
    then show ?thesis
      using ring_slot_write [OF idx k] w same by (simp add: store_slot_def expected_def)
  next
    case False
    then have "slots ?q' (ring_slot ?q' k) = expected s k"
      using ring_slot_write [OF idx k] w same sl k by (simp add: store_slot_def slots_ok_def)
    with False same show ?thesis by (simp add: expected_def)
  qed
  then have "slots_ok ?s'" using same by (simp add: slots_ok_def)
  then show ?thesis
    using inv pc same by (auto simp: sys_inv_defs split: consumer_pc.splits)
qed

lemma p_publish_inv:
  assumes inv: "sys_inv s" and pc: "ppc s = PPublish v w nw"
  shows "sys_inv (s\<lparr>ring := (ring s)\<lparr>writeIdx := nw\<rparr>, ppc := PIdle, produced := produced s @ [v]\<rparr>)"
proof -
  let ?q = "ring s" and ?q' = "(ring s)\<lparr>writeIdx := nw\<rparr>"
  let ?s' = "s\<lparr>ring := ?q', ppc := PIdle, produced := produced s @ [v]\<rparr>"
  have idx: "idx_inv ?q" and sl: "slots_ok s" and h: "history_ok s"
    using inv by (simp_all add: sys_inv_def)
  note b = idx_invD [OF idx]
  have w: "w = writeIdx ?q" and nw: "nw = bump (capacity ?q) (writeIdx ?q)"
    and nr: "bump (capacity ?q) (writeIdx ?q) \<noteq> readIdxCache ?q"
    using inv pc by (auto simp: sys_inv_defs)
  note rl = room_left [OF idx nr]
  have n: "spsc_count ?q' = spsc_count ?q + 1" using rl nw by (simp add: spsc_count_def)
  have rc: "gap (capacity ?q) (readIdxCache ?q) nw = gap (capacity ?q) (readIdxCache ?q) (writeIdx ?q) + 1"
    using b nr nw by (simp add: gap_bump_right)
  have "idx_inv ?q'"
    using idx n rc nw by (auto simp: idx_inv_def bump_less)
  moreover have "history_ok ?s'"
  proof -
    have le: "popped s + ahead (cpc s) \<le> length (produced s)"
      using h inv held_nonempty [OF idx]
      by (auto simp: history_ok_def ahead_def sys_inv_def consumer_ok_def split: consumer_pc.splits)
    show ?thesis using h n le by (simp add: history_ok_def)
  qed
  moreover have "expected ?s' k = expected s k" if "k < capacity ?q" for k
  proof -
    have "0 < spsc_count ?q" if "cpc s = CPublish r" for r
      using that inv held_nonempty [OF idx] by (simp add: sys_inv_def consumer_ok_def)
    then show ?thesis
      using n pc h by (auto simp: expected_def history_ok_def nth_append)
  qed
  then have "slots_ok ?s'"
    using sl by (simp add: slots_ok_def)
  ultimately show ?thesis
    using inv by (auto simp: sys_inv_def producer_ok_def consumer_ok_def split: consumer_pc.splits)
qed

section \<open>Steps of the consumer\<close>

lemma c_destroy_inv:
  assumes inv: "sys_inv s" and pc: "cpc s = CPop r"
  shows "sys_inv (s\<lparr>ring := (ring s)\<lparr>slots := (slots (ring s))(r + kPadding (ring s) := None)\<rparr>,
    cpc := CPublish r\<rparr>)"
proof -
  let ?q = "ring s" and ?q' = "(ring s)\<lparr>slots := (slots (ring s))(r + kPadding (ring s) := None)\<rparr>"
  let ?s' = "s\<lparr>ring := ?q', cpc := CPublish r\<rparr>"
  have idx: "idx_inv ?q" and sl: "slots_ok s" using inv by (simp_all add: sys_inv_def)
  have r: "r = readIdx ?q" and ne: "readIdx ?q \<noteq> writeIdxCache ?q"
    using inv pc by (auto simp: sys_inv_defs)
  note n0 = held_nonempty [OF idx ne]
  have "slots ?q' (ring_slot ?q' k) = expected ?s' k" if k: "k < capacity ?q" for k
  proof (cases "k = 0")
    case True
    then show ?thesis using ring_slot_read [OF idx k] r n0 by (simp add: expected_def)
  next
    case False
    then have "slots ?q' (ring_slot ?q' k) = expected s k"
      using ring_slot_read [OF idx k] r sl k by (simp add: slots_ok_def)
    with False show ?thesis by (simp add: expected_def)
  qed
  then have "slots_ok ?s'" by (simp add: slots_ok_def)
  then show ?thesis
    using inv pc by (simp add: sys_inv_defs ahead_def split: producer_pc.splits)
qed

lemma c_publish_inv:
  assumes inv: "sys_inv s" and pc: "cpc s = CPublish r"
  shows "sys_inv (s\<lparr>ring := (ring s)\<lparr>readIdx := bump (capacity (ring s)) r\<rparr>,
    cpc := CIdle, popped := popped s + 1\<rparr>)"
proof -
  let ?q = "ring s" and ?c = "capacity (ring s)"
  let ?q' = "(ring s)\<lparr>readIdx := bump (capacity (ring s)) r\<rparr>"
  let ?s' = "s\<lparr>ring := ?q', cpc := CIdle, popped := popped s + 1\<rparr>"
  have idx: "idx_inv ?q" and sl: "slots_ok s" and h: "history_ok s"
    using inv by (simp_all add: sys_inv_def)
  note b = idx_invD [OF idx]
  have r: "r = readIdx ?q" and ne: "readIdx ?q \<noteq> writeIdxCache ?q"
    using inv pc by (auto simp: sys_inv_defs)
  note n0 = held_nonempty [OF idx ne]
  have n: "spsc_count ?q' = spsc_count ?q - 1"
    using b n0 r by (simp add: spsc_count_def gap_bump_left)
  have idx': "idx_inv ?q'"
    using idx b n0 ne r n by (auto simp: idx_inv_def bump_less gap_bump_left)
  have at: "ring_slot ?q' k = ring_slot ?q (k + 1)" if "k + 1 < ?c" for k
    using b that r by (simp add: ring_slot_def slot_at_bump)
  have at_last: "ring_slot ?q' (?c - 1) = readIdx ?q + kPadding ?q"
    using b r by (auto simp: ring_slot_def slot_at_def bump_def Let_def)
  have "slots ?q' (ring_slot ?q' k) = expected ?s' k" if k: "k < ?c" for k
  proof (cases "k + 1 < ?c")
    case True
    with sl at have "slots ?q' (ring_slot ?q' k) = expected s (k + 1)" by (simp add: slots_ok_def)
    also have "\<dots> = expected ?s' k" using n n0 by (auto simp: expected_def)
    finally show ?thesis .
  next
    case False
    with k have kc: "k = ?c - 1" by simp
    have c0: "0 < ?c" using b by simp
    with sl have "slots ?q (ring_slot ?q 0) = expected s 0" by (simp add: slots_ok_def)
    then have "slots ?q (readIdx ?q + kPadding ?q) = expected s 0"
      using ring_slot_read [OF idx c0] by simp
    also have "\<dots> = None" using n0 pc by (simp add: expected_def)
    finally have "slots ?q' (ring_slot ?q' k) = None" using at_last kc by simp
    moreover have "spsc_count ?q' < k" using n n0 count_less [OF idx] kc by simp
    ultimately show ?thesis by (simp add: expected_def)
  qed
  then have "slots_ok ?s'" by (simp add: slots_ok_def)
  moreover have "history_ok ?s'"
    using h n n0 pc by (simp add: history_ok_def ahead_def)
  ultimately show ?thesis
    using inv idx' by (auto simp: sys_inv_def producer_ok_def consumer_ok_def split: producer_pc.splits)
qed

text \<open>The read hands over the next published element that was not read yet.\<close>

lemma c_read_value:
  assumes inv: "sys_inv s" and pc: "cpc s = CHold r"
  shows "slots (ring s) (r + kPadding (ring s)) = Some (produced s ! popped s)"
    and "popped s < length (produced s)"
proof -
  have idx: "idx_inv (ring s)" and sl: "slots_ok s" and h: "history_ok s"
    using inv by (simp_all add: sys_inv_def)
  have r: "r = readIdx (ring s)" and ne: "readIdx (ring s) \<noteq> writeIdxCache (ring s)"
    using inv pc by (auto simp: sys_inv_defs)
  note n0 = held_nonempty [OF idx ne]
  have "0 < capacity (ring s)" using idx by (simp add: idx_inv_def)
  with sl have "slots (ring s) (ring_slot (ring s) 0) = expected s 0" by (simp add: slots_ok_def)
  then show "slots (ring s) (r + kPadding (ring s)) = Some (produced s ! popped s)"
    using n0 pc r idx by (simp add: expected_def ring_slot_def idx_invD)
  show "popped s < length (produced s)" using h n0 by (simp add: history_ok_def)
qed

lemma c_read_inv:
  assumes inv: "sys_inv s" and pc: "cpc s = CHold r"
    and v: "slots (ring s) (r + kPadding (ring s)) = Some v"
  shows "sys_inv (s\<lparr>cpc := CPop r, consumed := consumed s @ [v]\<rparr>)"
proof -
  note cv = c_read_value [OF inv pc]
  have h: "history_ok s" and sl: "slots_ok s" using inv by (simp_all add: sys_inv_def)
  have "take (popped s + 1) (produced s) = take (popped s) (produced s) @ [v]"
    using cv v by (simp add: take_Suc_conv_app_nth)
  with h pc have "history_ok (s\<lparr>cpc := CPop r, consumed := consumed s @ [v]\<rparr>)"
    by (simp add: history_ok_def ahead_def)
  moreover have "slots_ok (s\<lparr>cpc := CPop r, consumed := consumed s @ [v]\<rparr>)"
    using sl pc by (simp add: slots_ok_def expected_def)
  ultimately show ?thesis
    using inv pc by (auto simp: sys_inv_def producer_ok_def consumer_ok_def split: producer_pc.splits)
qed

section \<open>Every reachable state satisfies the invariant\<close>

lemma spsc_step_inv: "spsc_step s t \<Longrightarrow> sys_inv s \<Longrightarrow> sys_inv t"
proof (induction rule: spsc_step.induct)
  case (p_write s v w nw)
  then show ?case by (simp add: p_write_inv)
next
  case (p_publish s v w nw)
  then show ?case by (simp add: p_publish_inv)
next
  case (c_read s r v)
  then show ?case by (simp add: c_read_inv)
next
  case (c_destroy s r)
  then show ?case by (simp add: c_destroy_inv)
next
  case (c_publish s r)
  then show ?case by (simp add: c_publish_inv [simplified])
qed (auto simp: sys_inv_defs slots_ok_def idx_inv_def expected_def ring_slot_def spsc_count_def ahead_def
    split: producer_pc.splits consumer_pc.splits)

lemma spsc_reachable_inv:
  assumes "spsc_reachable q s" and "spsc_inv q" and "spsc_items q = []"
  shows "sys_inv s"
  using assms(1)
proof (induction rule: spsc_reachable.induct)
  case start
  show ?case using assms(2,3) by (rule sys_inv_init)
next
  case (step s t)
  then show ?case by (blast intro: spsc_step_inv)
qed

section \<open>Properties\<close>

text \<open>
  The ring is a FIFO under every interleaving of the two threads. What the consumer has read is a
  prefix of what the producer has published, in the same order and with nothing lost or duplicated,
  and no more elements are in flight than the ring has room for.
\<close>

theorem spsc_fifo:
  assumes "spsc_reachable q s" and "spsc_inv q" and "spsc_items q = []"
  shows "consumed s = take (length (consumed s)) (produced s) \<and>
    length (produced s) < popped s + capacity (ring s) \<and> popped s \<le> length (consumed s)"
proof -
  have inv: "sys_inv s" using assms by (rule spsc_reachable_inv)
  then have h: "history_ok s" and idx: "idx_inv (ring s)" by (simp_all add: sys_inv_def)
  have len: "length (produced s) < popped s + capacity (ring s)"
    using h count_less [OF idx] by (simp add: history_ok_def)
  have c: "consumed s = take (popped s + ahead (cpc s)) (produced s)" using h by (simp add: history_ok_def)
  have "popped s \<le> length (produced s)" using h by (simp add: history_ok_def)
  with c len show ?thesis by (simp add: min_def)
qed

definition sample_ring :: "nat spsc" where
  "sample_ring = spsc_new (\<lambda>n. n) 8 2"

lemma sample_ring_ok: "spsc_inv sample_ring \<and> spsc_items sample_ring = []"
  using spsc_new_inv [of "\<lambda>n. n" 2 8, where 'a = nat] by (simp add: sample_ring_def SIZE_MAX_def)

text \<open>A run: the producer publishes 7, the consumer finds it and reads it.\<close>

definition sample_sys :: "nat spsc_sys" where
  "sample_sys =
     \<lparr>ring = sample_ring\<lparr>slots := [8 \<mapsto> 7], writeIdx := 1, writeIdxCache := 1\<rparr>,
      ppc = PIdle, cpc = CPop 0, produced = [7], consumed = [7], popped = 0\<rparr>"

lemma sample_ring_eq:
  "sample_ring = \<lparr>capacity = 3, kPadding = 8, slots = (\<lambda>_. None), writeIdx = 0, readIdxCache = 0, readIdx = 0, writeIdxCache = 0\<rparr>"
  by (simp add: sample_ring_def spsc_new_def SIZE_MAX_def)

lemma sample_sys_reachable: "spsc_reachable sample_ring sample_sys"
proof -
  let ?r = "spsc_reachable sample_ring"
  note eqs = sample_ring_eq spsc_sys_init_def store_slot_def bump_def
  have "?r (spsc_sys_init sample_ring)" by (rule start)
  from step [OF this p_load [of _ 0 7]] have "?r ((spsc_sys_init sample_ring)\<lparr>ppc := PCheck 7 0 1\<rparr>)"
    by (simp add: eqs)
  from step [OF this p_pass [of _ 7 0 1]] have "?r ((spsc_sys_init sample_ring)\<lparr>ppc := PWrite 7 0 1\<rparr>)"
    by (simp add: eqs)
  from step [OF this p_write [of _ 7 0 1]]
  have "?r ((spsc_sys_init sample_ring)\<lparr>ring := sample_ring\<lparr>slots := [8 \<mapsto> 7]\<rparr>, ppc := PPublish 7 0 1\<rparr>)"
    by (simp add: eqs)
  from step [OF this p_publish [of _ 7 0 1]]
  have "?r ((spsc_sys_init sample_ring)\<lparr>ring := sample_ring\<lparr>slots := [8 \<mapsto> 7], writeIdx := 1\<rparr>, produced := [7]\<rparr>)"
    by (simp add: eqs)
  from step [OF this c_load]
  have "?r ((spsc_sys_init sample_ring)\<lparr>ring := sample_ring\<lparr>slots := [8 \<mapsto> 7], writeIdx := 1\<rparr>, produced := [7], cpc := CFront 0\<rparr>)"
    by (simp add: eqs)
  from step [OF this c_refresh [of _ 0]]
  have "?r (sample_sys\<lparr>cpc := CRecheck 0, consumed := []\<rparr>)" by (simp add: eqs sample_sys_def)
  from step [OF this c_found [of _ 0]]
  have "?r (sample_sys\<lparr>cpc := CHold 0, consumed := []\<rparr>)" by (simp add: eqs sample_sys_def)
  from step [OF this c_read [of _ 0 7]] show ?thesis by (simp add: eqs sample_sys_def)
qed

lemma spsc_fifo_witness: "consumed sample_sys = take 1 (produced sample_sys) \<and> length (produced sample_sys) < 3"
  using spsc_fifo [OF sample_sys_reachable] sample_ring_ok by (simp add: sample_sys_def sample_ring_eq)

text \<open>
  No interleaving makes the threads misuse memory. When the consumer is about to read, its slot
  holds the oldest element not yet popped; when the producer is about to construct an element, its
  slot is raw storage; and the two never work on the same slot.
\<close>

theorem spsc_memory_safe:
  assumes "spsc_reachable q s" and "spsc_inv q" and "spsc_items q = []"
  shows "(\<forall>r. cpc s = CHold r \<longrightarrow> slots (ring s) (r + kPadding (ring s)) = Some (produced s ! popped s)) \<and>
    (\<forall>v w nw. ppc s = PWrite v w nw \<longrightarrow> slots (ring s) (w + kPadding (ring s)) = None) \<and>
    (\<forall>v w nw r. ppc s = PWrite v w nw \<and> cpc s \<in> {CHold r, CPop r} \<longrightarrow> w \<noteq> r)"
proof -
  have inv: "sys_inv s" using assms by (rule spsc_reachable_inv)
  then have idx: "idx_inv (ring s)" and sl: "slots_ok s" by (simp_all add: sys_inv_def)
  have "slots (ring s) (w + kPadding (ring s)) = None" if pc: "ppc s = PWrite v w nw" for v w nw
  proof -
    let ?k = "spsc_count (ring s)"
    have k: "?k < capacity (ring s)" using count_less [OF idx] .
    have "w = writeIdx (ring s)" using inv pc by (simp add: sys_inv_def producer_ok_def)
    with ring_slot_write [OF idx k] have "ring_slot (ring s) ?k = w + kPadding (ring s)" by simp
    with sl k pc show ?thesis by (auto simp: slots_ok_def expected_def)
  qed
  moreover have "w \<noteq> r" if "ppc s = PWrite v w nw" "cpc s \<in> {CHold r, CPop r}" for v w nw r
  proof -
    have "w = writeIdx (ring s)" "r = readIdx (ring s)" "readIdx (ring s) \<noteq> writeIdxCache (ring s)"
      using inv that by (auto simp: sys_inv_def producer_ok_def consumer_ok_def)
    with held_nonempty(2) [OF idx] show ?thesis by simp
  qed
  ultimately show ?thesis using c_read_value(1) [OF inv] by blast
qed

lemma spsc_memory_safe_witness:
  "slots (ring (spsc_sys_init sample_ring)) 8 = None \<and> cpc (spsc_sys_init sample_ring) = CIdle"
proof -
  have r: "spsc_reachable sample_ring ((spsc_sys_init sample_ring)\<lparr>ppc := PWrite 7 0 1\<rparr>)"
  proof -
    note eqs = sample_ring_eq spsc_sys_init_def bump_def
    from step [OF start [of sample_ring] p_load [of _ 0 7]]
    have "spsc_reachable sample_ring ((spsc_sys_init sample_ring)\<lparr>ppc := PCheck 7 0 1\<rparr>)" by (simp add: eqs)
    from step [OF this p_pass [of _ 7 0 1]] show ?thesis by (simp add: eqs)
  qed
  from spsc_memory_safe [OF r] sample_ring_ok
  have "slots (ring (spsc_sys_init sample_ring)) (0 + kPadding sample_ring) = None" by (simp add: spsc_sys_init_def)
  then show ?thesis by (simp add: spsc_sys_init_def sample_ring_eq)
qed

end
