(* ===== verification/Spsc_Relaxed.thy ===== *)
theory Spsc_Relaxed
  imports Spsc_Threads
begin

text \<open>
  The ring of \<open>rigtorp::SPSCQueue\<close> with the memory orders its code asks for, instead of one memory
  that both threads see at once. Each of the two atomic indices has its modification order, a list of
  the values stored; a release store attaches what its thread knows, and an acquire load may read any
  value not older than the one its thread read before, and learns what is attached. A thread knows its
  own stores, so its relaxed load of its own index gives the newest value. The slots are plain memory:
  an access that the other thread's access does not happen before is a data race, that is undefined
  behaviour, which \<open>race\<close> records. The counting arguments carry over from \<open>Spsc_Threads\<close>.
\<close>

section \<open>States and steps\<close>

text \<open>What a thread knows of the accesses of the producer and of the consumer to the slots.\<close>

type_synonym vclock = "nat \<times> nat"

definition join_clocks :: "vclock \<Rightarrow> vclock \<Rightarrow> vclock" where
  "join_clocks a b = (max (fst a) (fst b), max (snd a) (snd b))"

text \<open>
  \<open>wmsgs\<close> and \<open>rmsgs\<close> are the modification orders of \<open>writeIdx_\<close> and \<open>readIdx_\<close> with the knowledge
  attached, \<open>pview\<close> and \<open>cview\<close> the newest entry of the other thread's index that was read, \<open>pvc\<close> and
  \<open>cvc\<close> what the threads know, \<open>slot_p\<close> and \<open>slot_c\<close> the last access to a slot by either thread.
\<close>

record 'a weak_sys = "'a spsc_sys" +
  wmsgs :: "(nat \<times> vclock) list"
  rmsgs :: "(nat \<times> vclock) list"
  pview :: nat
  cview :: nat
  pvc :: vclock
  cvc :: vclock
  slot_p :: "nat \<Rightarrow> nat"
  slot_c :: "nat \<Rightarrow> nat"
  race :: bool

definition weak_init :: "'a spsc \<Rightarrow> 'a weak_sys" where
  "weak_init q = spsc_sys.extend (spsc_sys_init q)
     \<lparr>wmsgs = [(writeIdx q, (0, 0))], rmsgs = [(readIdx q, (0, 0))], pview = 0, cview = 0,
      pvc = (0, 0), cvc = (0, 0), slot_p = (\<lambda>_. 0), slot_c = (\<lambda>_. 0), race = False\<rparr>"

text \<open>A plain access to a slot: the thread's own clock ticks, the access is recorded and checked.\<close>

definition producer_access :: "nat \<Rightarrow> 'a weak_sys \<Rightarrow> 'a weak_sys" where
  "producer_access i s =
     s\<lparr>pvc := (fst (pvc s) + 1, snd (pvc s)), slot_p := (slot_p s)(i := fst (pvc s) + 1),
       race := race s \<or> snd (pvc s) < slot_c s i\<rparr>"

definition consumer_access :: "nat \<Rightarrow> 'a weak_sys \<Rightarrow> 'a weak_sys" where
  "consumer_access i s =
     s\<lparr>cvc := (fst (cvc s), snd (cvc s) + 1), slot_c := (slot_c s)(i := snd (cvc s) + 1),
       race := race s \<or> fst (cvc s) < slot_p s i\<rparr>"

inductive weak_step :: "'a weak_sys \<Rightarrow> 'a weak_sys \<Rightarrow> bool" where
  p_load: "ppc s = PIdle \<Longrightarrow> w = writeIdx (ring s) \<Longrightarrow>
     weak_step s (s\<lparr>ppc := PCheck v w (bump (capacity (ring s)) w)\<rparr>)"
| p_reload: "ppc s = PCheck v w nw \<Longrightarrow> nw = readIdxCache (ring s) \<Longrightarrow>
     pview s \<le> t \<Longrightarrow> t < length (rmsgs s) \<Longrightarrow> rmsgs s ! t = (r, k) \<Longrightarrow>
     weak_step s (s\<lparr>ring := (ring s)\<lparr>readIdxCache := r\<rparr>, pview := t, pvc := join_clocks (pvc s) k\<rparr>)"
| p_pass: "ppc s = PCheck v w nw \<Longrightarrow> nw \<noteq> readIdxCache (ring s) \<Longrightarrow>
     weak_step s (s\<lparr>ppc := PWrite v w nw\<rparr>)"
| p_write: "ppc s = PWrite v w nw \<Longrightarrow>
     weak_step s (producer_access (w + kPadding (ring s)) (s\<lparr>ring := store_slot w v (ring s), ppc := PPublish v w nw\<rparr>))"
| p_publish: "ppc s = PPublish v w nw \<Longrightarrow>
     weak_step s (s\<lparr>ring := (ring s)\<lparr>writeIdx := nw\<rparr>, ppc := PIdle, produced := produced s @ [v],
                    wmsgs := wmsgs s @ [(nw, pvc s)]\<rparr>)"
| c_load: "cpc s = CIdle \<Longrightarrow> weak_step s (s\<lparr>cpc := CFront (readIdx (ring s))\<rparr>)"
| c_hit: "cpc s = CFront r \<Longrightarrow> r \<noteq> writeIdxCache (ring s) \<Longrightarrow> weak_step s (s\<lparr>cpc := CHold r\<rparr>)"
| c_refresh: "cpc s = CFront r \<Longrightarrow> r = writeIdxCache (ring s) \<Longrightarrow>
     cview s \<le> t \<Longrightarrow> t < length (wmsgs s) \<Longrightarrow> wmsgs s ! t = (w, k) \<Longrightarrow>
     weak_step s (s\<lparr>ring := (ring s)\<lparr>writeIdxCache := w\<rparr>, cpc := CRecheck r, cview := t,
                    cvc := join_clocks (cvc s) k\<rparr>)"
| c_null: "cpc s = CRecheck r \<Longrightarrow> writeIdxCache (ring s) = r \<Longrightarrow> weak_step s (s\<lparr>cpc := CIdle\<rparr>)"
| c_found: "cpc s = CRecheck r \<Longrightarrow> writeIdxCache (ring s) \<noteq> r \<Longrightarrow> weak_step s (s\<lparr>cpc := CHold r\<rparr>)"
| c_read: "cpc s = CHold r \<Longrightarrow> slots (ring s) (r + kPadding (ring s)) = Some v \<Longrightarrow>
     weak_step s (consumer_access (r + kPadding (ring s)) (s\<lparr>cpc := CPop r, consumed := consumed s @ [v]\<rparr>))"
| c_destroy: "cpc s = CPop r \<Longrightarrow>
     weak_step s (consumer_access (r + kPadding (ring s))
       (s\<lparr>ring := (ring s)\<lparr>slots := (slots (ring s))(r + kPadding (ring s) := None)\<rparr>, cpc := CPublish r\<rparr>))"
| c_publish: "cpc s = CPublish r \<Longrightarrow>
     weak_step s (s\<lparr>ring := (ring s)\<lparr>readIdx := bump (capacity (ring s)) r\<rparr>, cpc := CIdle, popped := popped s + 1,
                    rmsgs := rmsgs s @ [(bump (capacity (ring s)) r, cvc s)]\<rparr>)"

inductive weak_reachable :: "'a spsc \<Rightarrow> 'a weak_sys \<Rightarrow> bool" for q where
  start: "weak_reachable q (weak_init q)"
| step: "weak_reachable q s \<Longrightarrow> weak_step s t \<Longrightarrow> weak_reachable q t"

section \<open>Indices as counts\<close>

lemma add_mod_less: "k < c \<Longrightarrow> (a + k) mod c = (if a mod c + k < c then a mod c + k else a mod c + k - (c :: nat))"
proof -
  assume k: "k < c"
  have e: "(a + k) mod c = (a mod c + k) mod c" by (simp add: mod_add_left_eq)
  have "a mod c < c" using k by simp
  then have less: "a mod c + k - c < c" if "\<not> a mod c + k < c" using k that by linarith
  show ?thesis
  proof (cases "a mod c + k < c")
    case False
    then have "(a mod c + k) mod c = (a mod c + k - c) mod c" by (intro le_mod_geq) simp
    with e less [OF False] False show ?thesis by simp
  qed (use e in simp)
qed

lemma gap_mod: "a \<le> b \<Longrightarrow> b - a < c \<Longrightarrow> gap c (a mod c) (b mod c) = b - a"
  using add_mod_less [of "b - a" c a] by (auto simp: gap_def)

lemma bump_mod: "0 < c \<Longrightarrow> bump c (n mod c) = Suc n mod c"
  by (simp add: bump_def Let_def mod_Suc)

lemma mod_eq_near: "a \<le> b \<Longrightarrow> b < a + c \<Longrightarrow> a mod c = b mod c \<longleftrightarrow> a = (b :: nat)"
  using add_mod_less [of "b - a" c a] by (auto split: if_splits)

text \<open>The producer that may write leaves one slot free of what it knows to be popped.\<close>

lemma room_by_count: "Suc p mod c \<noteq> r mod c \<Longrightarrow> r \<le> p \<Longrightarrow> p < r + c \<Longrightarrow> Suc p < r + (c :: nat)"
  by (cases "Suc p = r + c") auto

section \<open>The invariant\<close>

definition views_ok :: "'a weak_sys \<Rightarrow> bool" where
  "views_ok s \<longleftrightarrow>
     (let c = capacity (ring s); n = length (produced s); m = popped s
      in length (wmsgs s) = n + 1 \<and> length (rmsgs s) = m + 1 \<and>
         (\<forall>t \<le> n. fst (wmsgs s ! t) = t mod c \<and> fst (snd (wmsgs s ! t)) = t \<and> snd (snd (wmsgs s ! t)) \<le> 2 * m) \<and>
         (\<forall>t \<le> m. fst (rmsgs s ! t) = t mod c \<and> snd (snd (rmsgs s ! t)) = 2 * t \<and> fst (snd (rmsgs s ! t)) \<le> n) \<and>
         writeIdx (ring s) = n mod c \<and> readIdx (ring s) = m mod c \<and>
         readIdxCache (ring s) = pview s mod c \<and> writeIdxCache (ring s) = cview s mod c \<and>
         pview s \<le> m \<and> n < pview s + c \<and> m \<le> cview s \<and> cview s \<le> n)"

definition made :: "'a weak_sys \<Rightarrow> nat" where
  "made s = length (produced s) + (case ppc s of PPublish _ _ _ \<Rightarrow> 1 | _ \<Rightarrow> 0)"

definition touched :: "'a weak_sys \<Rightarrow> nat" where
  "touched s = 2 * popped s + (case cpc s of CPop _ \<Rightarrow> 1 | CPublish _ \<Rightarrow> 2 | _ \<Rightarrow> 0)"

text \<open>
  Element \<open>n\<close> is constructed at the producer's clock \<open>n + 1\<close>, read at the consumer's clock \<open>2 n + 1\<close> and
  destroyed at \<open>2 n + 2\<close>.
\<close>

definition clocks_ok :: "'a weak_sys \<Rightarrow> bool" where
  "clocks_ok s \<longleftrightarrow>
     (let c = capacity (ring s); pad = kPadding (ring s); m = popped s
      in pvc s = (made s, 2 * pview s) \<and> cvc s = (cview s, touched s) \<and>
         (\<forall>n. n < made s \<and> made s \<le> n + c \<longrightarrow> slot_p s (n mod c + pad) = n + 1) \<and>
         (\<forall>n. m \<le> n \<and> n < m + c \<longrightarrow>
            slot_c s (n mod c + pad) = (if n = m \<and> 2 * m < touched s then touched s else 2 * (n + 1 - c))) \<and>
         \<not> race s)"

abbreviation trunc :: "'a weak_sys \<Rightarrow> 'a spsc_sys" where
  "trunc s \<equiv> spsc_sys.truncate s"

definition weak_inv :: "'a weak_sys \<Rightarrow> bool" where
  "weak_inv s \<longleftrightarrow> sys_inv (trunc s) \<and> views_ok s \<and> clocks_ok s"

lemmas trunc_defs = spsc_sys.defs

lemma trunc_sel [simp]:
  "ring (trunc s) = ring s" "ppc (trunc s) = ppc s" "cpc (trunc s) = cpc s" "produced (trunc s) = produced s"
  "consumed (trunc s) = consumed s" "popped (trunc s) = popped s"
  by (simp_all add: trunc_defs)

lemma weak_invD:
  assumes "weak_inv s"
  shows "sys_inv (trunc s)" "views_ok s" "clocks_ok s" "2 \<le> capacity (ring s)"
  using assms by (auto simp: weak_inv_def sys_inv_def idx_inv_def)

lemma viewsD:
  assumes "views_ok s"
  shows "length (wmsgs s) = length (produced s) + 1" "length (rmsgs s) = popped s + 1"
    "t \<le> length (produced s) \<Longrightarrow> fst (wmsgs s ! t) = t mod capacity (ring s)"
    "t \<le> length (produced s) \<Longrightarrow> fst (snd (wmsgs s ! t)) = t"
    "t \<le> length (produced s) \<Longrightarrow> snd (snd (wmsgs s ! t)) \<le> 2 * popped s"
    "t \<le> popped s \<Longrightarrow> fst (rmsgs s ! t) = t mod capacity (ring s)"
    "t \<le> popped s \<Longrightarrow> snd (snd (rmsgs s ! t)) = 2 * t"
    "t \<le> popped s \<Longrightarrow> fst (snd (rmsgs s ! t)) \<le> length (produced s)"
    "writeIdx (ring s) = length (produced s) mod capacity (ring s)"
    "readIdx (ring s) = popped s mod capacity (ring s)"
    "readIdxCache (ring s) = pview s mod capacity (ring s)"
    "writeIdxCache (ring s) = cview s mod capacity (ring s)"
    "pview s \<le> popped s" "length (produced s) < pview s + capacity (ring s)"
    "popped s \<le> cview s" "cview s \<le> length (produced s)"
  using assms by (simp_all add: views_ok_def Let_def)

lemma clocksD:
  assumes "clocks_ok s"
  shows "pvc s = (made s, 2 * pview s)" "cvc s = (cview s, touched s)"
    "n < made s \<Longrightarrow> made s \<le> n + capacity (ring s) \<Longrightarrow> slot_p s (n mod capacity (ring s) + kPadding (ring s)) = n + 1"
    "popped s \<le> n \<Longrightarrow> n < popped s + capacity (ring s) \<Longrightarrow> slot_c s (n mod capacity (ring s) + kPadding (ring s)) =
       (if n = popped s \<and> 2 * popped s < touched s then touched s else 2 * (n + 1 - capacity (ring s)))"
    "\<not> race s"
  using assms by (simp_all add: clocks_ok_def Let_def)

text \<open>What a thread that is about to use a slot knows.\<close>

lemma weak_writing:
  assumes "weak_inv s" and "ppc s = PWrite v w nw \<or> ppc s = PPublish v w nw"
  shows "w = length (produced s) mod capacity (ring s)" "nw = Suc (length (produced s)) mod capacity (ring s)"
    "Suc (length (produced s)) < pview s + capacity (ring s)"
proof -
  note d = weak_invD [OF assms(1)] and v = viewsD [OF weak_invD(2) [OF assms(1)]]
  have p: "w = writeIdx (ring s)" "nw = bump (capacity (ring s)) w" "nw \<noteq> readIdxCache (ring s)"
    using d(1) assms(2) by (auto simp: sys_inv_def producer_ok_def)
  show w: "w = length (produced s) mod capacity (ring s)" using p(1) v(9) by simp
  have "0 < capacity (ring s)" using d(4) by simp
  then show nw: "nw = Suc (length (produced s)) mod capacity (ring s)" using p(2) w by (simp add: bump_mod)
  have "Suc (length (produced s)) mod capacity (ring s) \<noteq> pview s mod capacity (ring s)" using p(3) nw v(11) by simp
  then show "Suc (length (produced s)) < pview s + capacity (ring s)"
    by (rule room_by_count) (use v(13-16) in simp_all)
qed

lemma weak_holding:
  assumes "weak_inv s" and "cpc s = CHold r \<or> cpc s = CPop r \<or> cpc s = CPublish r"
  shows "r = popped s mod capacity (ring s)" "popped s < cview s"
proof -
  note d = weak_invD [OF assms(1)] and v = viewsD [OF weak_invD(2) [OF assms(1)]]
  have r: "r = readIdx (ring s) \<and> r \<noteq> writeIdxCache (ring s)"
    using d(1) assms(2) by (auto simp: sys_inv_def consumer_ok_def)
  then show "r = popped s mod capacity (ring s)" using v(10) by simp
  have "popped s \<noteq> cview s" using r v(10,12) by auto
  then show "popped s < cview s" using v(15) by simp
qed

section \<open>Loads of an index that may be old\<close>

lemma stale_read_load:
  assumes "sys_inv u" and "ppc u = PCheck v w nw" and "i < capacity (ring u)"
    and "spsc_count (ring u) \<le> gap (capacity (ring u)) i (writeIdx (ring u))"
  shows "sys_inv (u\<lparr>ring := (ring u)\<lparr>readIdxCache := i\<rparr>\<rparr>)"
  using assms
  by (auto simp: sys_inv_defs slots_ok_def idx_inv_def expected_def ring_slot_def spsc_count_def
      split: producer_pc.splits consumer_pc.splits)

lemma stale_write_load:
  assumes "sys_inv u" and "cpc u = CFront r" and "i < capacity (ring u)"
    and "gap (capacity (ring u)) (readIdx (ring u)) i \<le> spsc_count (ring u)"
  shows "sys_inv (u\<lparr>ring := (ring u)\<lparr>writeIdxCache := i\<rparr>, cpc := CRecheck r\<rparr>)"
  using assms
  by (auto simp: sys_inv_defs slots_ok_def idx_inv_def expected_def ring_slot_def spsc_count_def ahead_def
      split: producer_pc.splits consumer_pc.splits)

lemma count_of_views: "views_ok s \<Longrightarrow> sys_inv (trunc s) \<Longrightarrow> spsc_count (ring s) = length (produced s) - popped s"
  by (simp add: sys_inv_def history_ok_def)

lemma p_reload_inv:
  assumes inv: "weak_inv s" and pc: "ppc s = PCheck v w nw" and t: "pview s \<le> t" "t < length (rmsgs s)" "rmsgs s ! t = (r, k)"
  shows "weak_inv (s\<lparr>ring := (ring s)\<lparr>readIdxCache := r\<rparr>, pview := t, pvc := join_clocks (pvc s) k\<rparr>)"
proof -
  let ?s = "s\<lparr>ring := (ring s)\<lparr>readIdxCache := r\<rparr>, pview := t, pvc := join_clocks (pvc s) k\<rparr>"
  let ?c = "capacity (ring s)" and ?n = "length (produced s)"
  note d = weak_invD [OF inv] and v = viewsD [OF weak_invD(2) [OF inv]] and cl = clocksD [OF weak_invD(3) [OF inv]]
  have tm: "t \<le> popped s" and r: "r = t mod ?c" and k: "snd k = 2 * t" "fst k \<le> ?n"
    using v(2) t v(6,7,8) [of t] by simp_all
  have "gap ?c r (writeIdx (ring s)) = ?n - t"
    using gap_mod [of t ?n ?c] r v(9,14-16) tm t(1) by simp
  then have "sys_inv (trunc s\<lparr>ring := (ring s)\<lparr>readIdxCache := r\<rparr>\<rparr>)"
    using stale_read_load [of "trunc s" v w nw r] d(1,4) pc r tm count_of_views [OF d(2,1)] by simp
  moreover have "trunc s\<lparr>ring := (ring s)\<lparr>readIdxCache := r\<rparr>\<rparr> = trunc ?s" by (simp add: trunc_defs)
  moreover have "views_ok ?s" using d(2) r tm t(1) v(14) by (simp add: views_ok_def Let_def)
  moreover have "join_clocks (pvc s) k = (made s, 2 * t)"
    using cl(1) k t(1) by (simp add: join_clocks_def made_def max_def)
  then have "clocks_ok ?s" using d(3) by (simp add: clocks_ok_def Let_def made_def touched_def)
  ultimately show ?thesis by (simp add: weak_inv_def)
qed

lemma c_refresh_inv:
  assumes inv: "weak_inv s" and pc: "cpc s = CFront r" and t: "cview s \<le> t" "t < length (wmsgs s)" "wmsgs s ! t = (w, k)"
  shows "weak_inv (s\<lparr>ring := (ring s)\<lparr>writeIdxCache := w\<rparr>, cpc := CRecheck r, cview := t, cvc := join_clocks (cvc s) k\<rparr>)"
proof -
  let ?s = "s\<lparr>ring := (ring s)\<lparr>writeIdxCache := w\<rparr>, cpc := CRecheck r, cview := t, cvc := join_clocks (cvc s) k\<rparr>"
  let ?c = "capacity (ring s)" and ?n = "length (produced s)"
  note d = weak_invD [OF inv] and v = viewsD [OF weak_invD(2) [OF inv]] and cl = clocksD [OF weak_invD(3) [OF inv]]
  have tn: "t \<le> ?n" and w: "w = t mod ?c" and k: "fst k = t" "snd k \<le> 2 * popped s"
    using v(1) t v(3,4,5) [of t] by simp_all
  have "gap ?c (readIdx (ring s)) w = t - popped s"
    using gap_mod [of "popped s" t ?c] w v(10,13-15) tn t(1) by simp
  then have "sys_inv (trunc s\<lparr>ring := (ring s)\<lparr>writeIdxCache := w\<rparr>, cpc := CRecheck r\<rparr>)"
    using stale_write_load [of "trunc s" r w] d(1,4) pc w tn count_of_views [OF d(2,1)] by simp
  moreover have "trunc s\<lparr>ring := (ring s)\<lparr>writeIdxCache := w\<rparr>, cpc := CRecheck r\<rparr> = trunc ?s" by (simp add: trunc_defs)
  moreover have "views_ok ?s" using d(2) w tn t(1) by (simp add: views_ok_def Let_def)
  moreover have "join_clocks (cvc s) k = (t, touched s)" "touched s = 2 * popped s"
    using cl(2) k t(1) pc by (simp_all add: join_clocks_def touched_def max_def)
  then have "clocks_ok ?s" using d(3) by (simp add: clocks_ok_def Let_def made_def touched_def)
  ultimately show ?thesis by (simp add: weak_inv_def)
qed

section \<open>Accesses to the slots\<close>

lemma weak_invI: "sys_inv (trunc t) \<Longrightarrow> views_ok t \<Longrightarrow> clocks_ok t \<Longrightarrow> weak_inv t"
  by (simp add: weak_inv_def)

lemma made_bounds:
  assumes "weak_inv s"
  shows "length (produced s) \<le> made s" "made s \<le> popped s + capacity (ring s)"
proof -
  note v = viewsD [OF weak_invD(2) [OF assms]]
  show "length (produced s) \<le> made s" by (simp add: made_def)
  show "made s \<le> popped s + capacity (ring s)"
    using weak_writing [OF assms] v(13,14) by (cases "ppc s") (auto simp: made_def)
qed

lemma touching_holds:
  assumes "weak_inv s" and "2 * popped s < touched s"
  shows "popped s < cview s"
  using weak_holding [OF assms(1)] assms(2) by (auto simp: touched_def split: consumer_pc.splits)

lemma p_write_weak:
  assumes inv: "weak_inv s" and pc: "ppc s = PWrite v w nw"
  shows "weak_inv (producer_access (w + kPadding (ring s)) (s\<lparr>ring := store_slot w v (ring s), ppc := PPublish v w nw\<rparr>))"
    (is "weak_inv ?t")
proof (rule weak_invI)
  let ?c = "capacity (ring s)" and ?n = "length (produced s)" and ?pad = "kPadding (ring s)"
  note d = weak_invD [OF inv] and v = viewsD [OF weak_invD(2) [OF inv]] and cl = clocksD [OF weak_invD(3) [OF inv]]
  have pc': "ppc s = PWrite v w nw \<or> ppc s = PPublish v w nw" using pc by simp
  note w = weak_writing [OF inv pc']
  have "trunc ?t = trunc s\<lparr>ring := store_slot w v (ring s), ppc := PPublish v w nw\<rparr>"
    by (simp add: trunc_defs producer_access_def)
  with p_write_inv [OF d(1), of v w nw] pc show "sys_inv (trunc ?t)" by simp
  show "views_ok ?t" using d(2) by (simp add: views_ok_def Let_def producer_access_def store_slot_def)
  have m: "made s = ?n" "made ?t = Suc ?n" using pc by (simp_all add: made_def producer_access_def)
  have "slot_c s (?n mod ?c + ?pad) \<le> 2 * pview s"
    using cl(4) [of ?n] v(13-16) w(3) touching_holds [OF inv] by (auto split: if_splits)
  then have race: "\<not> race ?t" using cl(1,5) w(1) by (simp add: producer_access_def)
  have "slot_p ?t (k mod ?c + ?pad) = k + 1" if k: "k < Suc ?n" "Suc ?n \<le> k + ?c" for k
  proof (cases "k = ?n")
    case True
    then show ?thesis using cl(1) m(1) w(1) by (simp add: producer_access_def)
  next
    case False
    then have "k mod ?c \<noteq> ?n mod ?c" using mod_eq_near [of k ?n ?c] k by simp
    then show ?thesis using cl(3) [of k] m(1) w(1) k False by (simp add: producer_access_def)
  qed
  with race cl m d(3) show "clocks_ok ?t"
    by (simp add: clocks_ok_def Let_def producer_access_def touched_def store_slot_def)
qed

lemma p_publish_weak:
  assumes inv: "weak_inv s" and pc: "ppc s = PPublish v w nw"
  shows "weak_inv (s\<lparr>ring := (ring s)\<lparr>writeIdx := nw\<rparr>, ppc := PIdle, produced := produced s @ [v],
     wmsgs := wmsgs s @ [(nw, pvc s)]\<rparr>)"
    (is "weak_inv ?t")
proof (rule weak_invI)
  let ?c = "capacity (ring s)" and ?n = "length (produced s)"
  note d = weak_invD [OF inv] and v = viewsD [OF weak_invD(2) [OF inv]] and cl = clocksD [OF weak_invD(3) [OF inv]]
  have pc': "ppc s = PWrite v w nw \<or> ppc s = PPublish v w nw" using pc by simp
  note w = weak_writing [OF inv pc']
  have eq: "trunc ?t = trunc s\<lparr>ring := (ring s)\<lparr>writeIdx := nw\<rparr>, ppc := PIdle, produced := produced s @ [v]\<rparr>"
    by (simp add: trunc_defs)
  show "sys_inv (trunc ?t)" using p_publish_inv [OF d(1), of v w nw] pc unfolding eq by simp
  have m: "made s = Suc ?n" "made ?t = Suc ?n" using pc by (simp_all add: made_def)
  show "views_ok ?t"
    unfolding views_ok_def Let_def
  proof (intro conjI allI impI)
    fix k assume "k \<le> length (produced ?t)"
    then consider "k \<le> ?n" | "k = Suc ?n" by fastforce
    then show "fst (wmsgs ?t ! k) = k mod capacity (ring ?t)" "fst (snd (wmsgs ?t ! k)) = k"
      "snd (snd (wmsgs ?t ! k)) \<le> 2 * popped ?t"
      using v(3-5) [of k] v(1,13) w(2) cl(1) m(1) by (cases; simp add: nth_append)+
  next
    fix k assume "k \<le> popped ?t"
    then show "fst (rmsgs ?t ! k) = k mod capacity (ring ?t)" "snd (snd (rmsgs ?t ! k)) = 2 * k"
      "fst (snd (rmsgs ?t ! k)) \<le> length (produced ?t)"
      using v(6-8) [of k] by simp_all
  qed (use v w in simp_all)
  show "clocks_ok ?t" using d(3) m by (simp add: clocks_ok_def Let_def touched_def)
qed

lemma consumer_access_weak:
  assumes inv: "weak_inv s" and hold: "cpc s = CHold r \<or> cpc s = CPop r"
    and t: "t = consumer_access (r + kPadding (ring s)) u" "sys_inv (trunc t)" "views_ok t" "touched t = Suc (touched s)"
    and u: "ring u = (ring s)\<lparr>slots := f\<rparr>" "popped u = popped s" "ppc u = ppc s" "produced u = produced s"
      "pview u = pview s" "cview u = cview s" "pvc u = pvc s" "cvc u = cvc s" "slot_p u = slot_p s" "slot_c u = slot_c s" "race u = race s"
  shows "weak_inv t"
proof (rule weak_invI)
  let ?c = "capacity (ring s)" and ?m = "popped s" and ?pad = "kPadding (ring s)"
  note d = weak_invD [OF inv] and v = viewsD [OF weak_invD(2) [OF inv]] and cl = clocksD [OF weak_invD(3) [OF inv]]
  have hold': "cpc s = CHold r \<or> cpc s = CPop r \<or> cpc s = CPublish r" using hold by blast
  note h = weak_holding [OF inv hold']
  note mb = made_bounds [OF inv]
  have "slot_p s (?m mod ?c + ?pad) = ?m + 1" using cl(3) [of ?m] h(2) v(16) mb by simp
  then have race: "\<not> race t" using cl(2,5) h t(1) u by (simp add: consumer_access_def)
  have le: "2 * ?m \<le> touched s" by (simp add: touched_def)
  have same: "made t = made s" "popped t = ?m" "capacity (ring t) = ?c" "kPadding (ring t) = ?pad" "pview t = pview s"
    "cview t = cview s" "pvc t = pvc s" "slot_p t = slot_p s"
    using t(1) u by (simp_all add: made_def consumer_access_def)
  have c: "cvc t = (cview s, touched t)" "slot_c t = (slot_c s)(r + ?pad := touched t)"
    using t(1,4) u cl(2) by (simp_all add: consumer_access_def)
  have "slot_c t (k mod ?c + ?pad) = (if k = ?m \<and> 2 * ?m < touched t then touched t else 2 * (k + 1 - ?c))"
    if k: "?m \<le> k" "k < ?m + ?c" for k
  proof (cases "k = ?m")
    case True
    then show ?thesis using c(2) h(1) t(4) le by simp
  next
    case False
    then have "k mod ?c \<noteq> ?m mod ?c" using mod_eq_near [of ?m k ?c] k by simp
    then show ?thesis using cl(4) [OF k] c(2) h(1) False by simp
  qed
  then show "clocks_ok t" using same c(1) cl(1,3) race by (simp add: clocks_ok_def Let_def)
qed (use t in simp_all)

lemma c_read_weak:
  assumes inv: "weak_inv s" and pc: "cpc s = CHold r" and x: "slots (ring s) (r + kPadding (ring s)) = Some x"
  shows "weak_inv (consumer_access (r + kPadding (ring s)) (s\<lparr>cpc := CPop r, consumed := consumed s @ [x]\<rparr>))"
    (is "weak_inv ?t")
proof (rule consumer_access_weak [OF inv _ refl])
  note d = weak_invD [OF inv]
  have "trunc ?t = trunc s\<lparr>cpc := CPop r, consumed := consumed s @ [x]\<rparr>"
    by (simp add: trunc_defs consumer_access_def)
  with c_read_inv [OF d(1), of r x] pc x show "sys_inv (trunc ?t)" by simp
  show "views_ok ?t" using d(2) by (simp add: views_ok_def Let_def consumer_access_def)
  show "touched ?t = Suc (touched s)" using pc by (simp add: touched_def consumer_access_def)
  show "ring (s\<lparr>cpc := CPop r, consumed := consumed s @ [x]\<rparr>) = (ring s)\<lparr>slots := slots (ring s)\<rparr>" by simp
qed (use pc in simp_all)

lemma c_destroy_weak:
  assumes inv: "weak_inv s" and pc: "cpc s = CPop r"
  shows "weak_inv (consumer_access (r + kPadding (ring s))
    (s\<lparr>ring := (ring s)\<lparr>slots := (slots (ring s))(r + kPadding (ring s) := None)\<rparr>, cpc := CPublish r\<rparr>))"
    (is "weak_inv ?t")
proof (rule consumer_access_weak [OF inv _ refl])
  note d = weak_invD [OF inv]
  have "trunc ?t = trunc s\<lparr>ring := (ring s)\<lparr>slots := (slots (ring s))(r + kPadding (ring s) := None)\<rparr>, cpc := CPublish r\<rparr>"
    by (simp add: trunc_defs consumer_access_def)
  with c_destroy_inv [OF d(1), of r] pc show "sys_inv (trunc ?t)" by simp
  show "views_ok ?t" using d(2) by (simp add: views_ok_def Let_def consumer_access_def)
  show "touched ?t = Suc (touched s)" using pc by (simp add: touched_def consumer_access_def)
  show "ring (s\<lparr>ring := (ring s)\<lparr>slots := (slots (ring s))(r + kPadding (ring s) := None)\<rparr>, cpc := CPublish r\<rparr>) =
      (ring s)\<lparr>slots := (slots (ring s))(r + kPadding (ring s) := None)\<rparr>" by simp
qed (use pc in simp_all)

lemma c_publish_weak:
  assumes inv: "weak_inv s" and pc: "cpc s = CPublish r"
  shows "weak_inv (s\<lparr>ring := (ring s)\<lparr>readIdx := bump (capacity (ring s)) r\<rparr>, cpc := CIdle, popped := popped s + 1,
     rmsgs := rmsgs s @ [(bump (capacity (ring s)) r, cvc s)]\<rparr>)"
    (is "weak_inv ?t")
proof (rule weak_invI)
  let ?c = "capacity (ring s)" and ?m = "popped s" and ?pad = "kPadding (ring s)"
  note d = weak_invD [OF inv] and v = viewsD [OF weak_invD(2) [OF inv]] and cl = clocksD [OF weak_invD(3) [OF inv]]
  have pc': "cpc s = CHold r \<or> cpc s = CPop r \<or> cpc s = CPublish r" using pc by simp
  note h = weak_holding [OF inv pc']
  have "0 < ?c" using d(4) by simp
  then have b: "bump ?c r = Suc ?m mod ?c" using h(1) by (simp add: bump_mod)
  have eq: "trunc ?t = trunc s\<lparr>ring := (ring s)\<lparr>readIdx := bump ?c r\<rparr>, cpc := CIdle, popped := popped s + 1\<rparr>"
    by (simp add: trunc_defs)
  show "sys_inv (trunc ?t)" using c_publish_inv [OF d(1), of r] pc unfolding eq by simp
  have to: "touched s = 2 * ?m + 2" "touched ?t = 2 * ?m + 2" using pc by (simp_all add: touched_def)
  show "views_ok ?t"
    unfolding views_ok_def Let_def
  proof (intro conjI allI impI)
    fix k assume "k \<le> popped ?t"
    then consider "k \<le> ?m" | "k = Suc ?m" by fastforce
    then show "fst (rmsgs ?t ! k) = k mod capacity (ring ?t)" "snd (snd (rmsgs ?t ! k)) = 2 * k"
      "fst (snd (rmsgs ?t ! k)) \<le> length (produced ?t)"
      using v(6-8) [of k] v(2,16) b cl(2) to(1) by (cases; simp add: nth_append)+
  next
    fix k assume "k \<le> length (produced ?t)"
    then show "fst (wmsgs ?t ! k) = k mod capacity (ring ?t)" "fst (snd (wmsgs ?t ! k)) = k"
      "snd (snd (wmsgs ?t ! k)) \<le> 2 * popped ?t"
      using v(3-5) [of k] by simp_all
  qed (use v h b in simp_all)
  have "slot_c ?t (k mod ?c + ?pad) = 2 * (k + 1 - ?c)" if k: "Suc ?m \<le> k" "k < Suc ?m + ?c" for k
  proof (cases "k = ?m + ?c")
    case True
    then have "k mod ?c = ?m mod ?c" by simp
    then show ?thesis using cl(4) [of ?m] to(1) True d(4) by simp
  next
    case False
    then show ?thesis using cl(4) [of k] k by simp
  qed
  then show "clocks_ok ?t" using d(3) to by (simp add: clocks_ok_def Let_def made_def)
qed

section \<open>Every reachable state satisfies the invariant\<close>

lemma weak_step_inv: "weak_step s t \<Longrightarrow> weak_inv s \<Longrightarrow> weak_inv t"
proof (induction rule: weak_step.induct)
  case (p_load s w v)
  then have "sys_inv (trunc (s\<lparr>ppc := PCheck v w (bump (capacity (ring s)) w)\<rparr>))"
    using spsc_step_inv [OF spsc_step.p_load [of "trunc s" w v]] weak_invD(1) [OF p_load(3)] by (simp add: trunc_defs)
  with p_load show ?case by (simp add: weak_inv_def views_ok_def clocks_ok_def made_def touched_def Let_def)
next
  case (p_pass s v w nw)
  then have "sys_inv (trunc (s\<lparr>ppc := PWrite v w nw\<rparr>))"
    using spsc_step_inv [OF spsc_step.p_pass [of "trunc s" v w nw]] weak_invD(1) [OF p_pass(3)] by (simp add: trunc_defs)
  with p_pass show ?case by (simp add: weak_inv_def views_ok_def clocks_ok_def made_def touched_def Let_def)
next
  case (c_load s)
  then have "sys_inv (trunc (s\<lparr>cpc := CFront (readIdx (ring s))\<rparr>))"
    using spsc_step_inv [OF spsc_step.c_load [of "trunc s"]] weak_invD(1) [OF c_load(2)] by (simp add: trunc_defs)
  with c_load show ?case by (simp add: weak_inv_def views_ok_def clocks_ok_def made_def touched_def Let_def)
next
  case (c_hit s r)
  then have "sys_inv (trunc (s\<lparr>cpc := CHold r\<rparr>))"
    using spsc_step_inv [OF spsc_step.c_hit [of "trunc s" r]] weak_invD(1) [OF c_hit(3)] by (simp add: trunc_defs)
  with c_hit show ?case by (simp add: weak_inv_def views_ok_def clocks_ok_def made_def touched_def Let_def)
next
  case (c_null s r)
  then have "sys_inv (trunc (s\<lparr>cpc := CIdle\<rparr>))"
    using spsc_step_inv [OF spsc_step.c_null [of "trunc s" r]] weak_invD(1) [OF c_null(3)] by (simp add: trunc_defs)
  with c_null show ?case by (simp add: weak_inv_def views_ok_def clocks_ok_def made_def touched_def Let_def)
next
  case (c_found s r)
  then have "sys_inv (trunc (s\<lparr>cpc := CHold r\<rparr>))"
    using spsc_step_inv [OF spsc_step.c_found [of "trunc s" r]] weak_invD(1) [OF c_found(3)] by (simp add: trunc_defs)
  with c_found show ?case by (simp add: weak_inv_def views_ok_def clocks_ok_def made_def touched_def Let_def)
qed (blast intro: p_reload_inv p_write_weak p_publish_weak c_refresh_inv c_read_weak c_destroy_weak c_publish_weak)+

lemma weak_init_inv:
  assumes "spsc_inv q" and "spsc_items q = []" and "writeIdx q = 0" "readIdx q = 0" "readIdxCache q = 0" "writeIdxCache q = 0"
  shows "weak_inv (weak_init q)"
proof (rule weak_invI)
  have "trunc (weak_init q) = spsc_sys_init q"
    by (simp add: weak_init_def trunc_defs spsc_sys_init_def)
  then show "sys_inv (trunc (weak_init q))" using sys_inv_init [OF assms(1,2)] by simp
  have c: "2 \<le> capacity q" using assms(1) by (rule spsc_invD)
  then show "views_ok (weak_init q)"
    using assms by (simp add: weak_init_def views_ok_def spsc_sys_init_def trunc_defs Let_def)
  show "clocks_ok (weak_init q)"
    by (simp add: weak_init_def clocks_ok_def spsc_sys_init_def made_def touched_def trunc_defs Let_def)
qed

lemma weak_reachable_inv:
  assumes "weak_reachable (spsc_new alloc pad cap) s" and "\<And>n. n \<le> alloc n" and "cap < SIZE_MAX - 2 * pad" "2 * pad + 2 < SIZE_MAX"
  shows "weak_inv s"
  using assms(1)
proof (induction rule: weak_reachable.induct)
  case start
  let ?q = "spsc_new alloc pad cap :: 'a spsc"
  have "writeIdx ?q = 0" "readIdx ?q = 0" "readIdxCache ?q = 0" "writeIdxCache ?q = 0"
    by (simp_all add: spsc_new_def Let_def)
  then show ?case using spsc_new_inv [OF assms(2-4), where 'a = 'a] by (intro weak_init_inv) auto
next
  case (step s t)
  then show ?case by (blast intro: weak_step_inv)
qed

text \<open>
  The interleavings on one memory are among these runs: a load that picks the newest entry.
\<close>

lemma one_memory_step:
  assumes "spsc_step u u'" and "u = trunc s" and inv: "weak_inv s"
  shows "\<exists>t. weak_step s t \<and> trunc t = u'"
  using assms(1,2)
proof (induction rule: spsc_step.induct)
  case (p_reload u v w nw)
  note vw = viewsD [OF weak_invD(2) [OF inv]]
  obtain r k where r: "rmsgs s ! popped s = (r, k)" by (metis surj_pair)
  then have "r = readIdx (ring s)" using vw(6) [of "popped s"] vw(10) by simp
  with weak_step.p_reload [of s v w nw "popped s" r k] r p_reload vw(2,13) show ?case
    by (intro exI conjI) (assumption | simp add: trunc_defs)+
next
  case (c_refresh u r)
  note vw = viewsD [OF weak_invD(2) [OF inv]]
  obtain w k where w: "wmsgs s ! length (produced s) = (w, k)" by (metis surj_pair)
  then have "w = writeIdx (ring s)" using vw(3) [of "length (produced s)"] vw(9) by simp
  with weak_step.c_refresh [of s r "length (produced s)" w k] w c_refresh vw(1,16) show ?case
    by (intro exI conjI) (assumption | simp add: trunc_defs)+
next
  case (p_load u w v)
  with weak_step.p_load [of s w v] show ?case by (intro exI conjI) (assumption | simp add: trunc_defs)+
next
  case (p_pass u v w nw)
  with weak_step.p_pass [of s v w nw] show ?case by (intro exI conjI) (assumption | simp add: trunc_defs)+
next
  case (p_write u v w nw)
  with weak_step.p_write [of s v w nw] show ?case
    by (intro exI conjI) (assumption | simp add: trunc_defs producer_access_def)+
next
  case (p_publish u v w nw)
  with weak_step.p_publish [of s v w nw] show ?case by (intro exI conjI) (assumption | simp add: trunc_defs)+
next
  case (c_load u)
  with weak_step.c_load [of s] show ?case by (intro exI conjI) (assumption | simp add: trunc_defs)+
next
  case (c_hit u r)
  with weak_step.c_hit [of s r] show ?case by (intro exI conjI) (assumption | simp add: trunc_defs)+
next
  case (c_null u r)
  with weak_step.c_null [of s r] show ?case by (intro exI conjI) (assumption | simp add: trunc_defs)+
next
  case (c_found u r)
  with weak_step.c_found [of s r] show ?case by (intro exI conjI) (assumption | simp add: trunc_defs)+
next
  case (c_read u r v)
  with weak_step.c_read [of s r v] show ?case
    by (intro exI conjI) (assumption | simp add: trunc_defs consumer_access_def)+
next
  case (c_destroy u r)
  with weak_step.c_destroy [of s r] show ?case
    by (intro exI conjI) (assumption | simp add: trunc_defs consumer_access_def)+
next
  case (c_publish u r)
  with weak_step.c_publish [of s r] show ?case by (intro exI conjI) (assumption | simp add: trunc_defs)+
qed

lemma one_memory_run:
  assumes "spsc_reachable (spsc_new alloc pad cap) u" and ok: "\<And>n. n \<le> alloc n" "cap < SIZE_MAX - 2 * pad" "2 * pad + 2 < SIZE_MAX"
  shows "\<exists>s. weak_reachable (spsc_new alloc pad cap) s \<and> trunc s = u"
  using assms(1)
proof (induction rule: spsc_reachable.induct)
  case start
  have "trunc (weak_init (spsc_new alloc pad cap)) = spsc_sys_init (spsc_new alloc pad cap)"
    by (simp add: weak_init_def trunc_defs spsc_sys_init_def)
  then show ?case using weak_reachable.start by blast
next
  case (step u u')
  then obtain s where s: "weak_reachable (spsc_new alloc pad cap) s" "trunc s = u" by blast
  from one_memory_step [OF step.hyps(2) s(2) [symmetric] weak_reachable_inv [OF s(1) ok]] s(1) show ?case
    by (blast intro: weak_reachable.step)
qed

section \<open>Properties\<close>

text \<open>
  C11: The ring is a FIFO also under the weak memory model of C++, with acquire loads that may see old
  indices. In every reachable state what the consumer has read is a prefix of what the producer has
  published, in order, with nothing lost or duplicated, and no more elements are in flight than the ring
  has room for.
\<close>

theorem spsc_fifo_relaxed:
  assumes "weak_reachable (spsc_new alloc pad cap) s" and "\<And>n. n \<le> alloc n" and "cap < SIZE_MAX - 2 * pad" "2 * pad + 2 < SIZE_MAX"
  shows "consumed s = take (length (consumed s)) (produced s) \<and>
    length (produced s) < popped s + capacity (ring s) \<and> popped s \<le> length (consumed s)"
proof -
  note inv = weak_reachable_inv [OF assms]
  have h: "history_ok (trunc s)" using weak_invD(1) [OF inv] by (simp add: sys_inv_def)
  note v = viewsD [OF weak_invD(2) [OF inv]]
  have c: "consumed s = take (popped s + ahead (cpc s)) (produced s)" using h by (simp add: history_ok_def)
  moreover have "popped s \<le> length (produced s)" using v(15,16) by simp
  ultimately show ?thesis using v(13,14) by (simp add: min_def)
qed

lemma spsc_fifo_relaxed_witness:
  "\<exists>s. weak_reachable (spsc_new (\<lambda>n. n) 8 2) s \<and> produced s = [7 :: nat] \<and> consumed s = take 1 [7]"
proof -
  have ok: "\<And>n. n \<le> (\<lambda>n :: nat. n) n" "(2 :: nat) < SIZE_MAX - 2 * 8" "2 * 8 + 2 < SIZE_MAX" by (simp_all add: SIZE_MAX_def)
  from one_memory_run [OF sample_sys_reachable [unfolded sample_ring_def] ok] obtain s where
    s: "weak_reachable (spsc_new (\<lambda>n. n) 8 2) s" "trunc s = sample_sys" by blast
  have "produced s = produced sample_sys" "consumed s = consumed sample_sys"
    using trunc_sel(4,5) [of s] unfolding s(2) by simp_all
  then have "produced s = [7]" "length (consumed s) = 1" by (simp_all add: sample_sys_def)
  with spsc_fifo_relaxed [OF s(1) ok] s(1) show ?thesis by metis
qed

text \<open>
  C12: No data race and no misuse of memory in the weak memory model. Every access of one thread to a slot
  happens after the other thread's last access to it; when the consumer is about to read, its slot holds
  the oldest element not yet popped; when the producer is about to construct, its slot is raw storage;
  and the assertion in \<open>pop\<close> that the queue is not empty holds whatever value its load returns.
\<close>

theorem spsc_race_free:
  assumes "weak_reachable (spsc_new alloc pad cap) s" and "\<And>n. n \<le> alloc n" and "cap < SIZE_MAX - 2 * pad" "2 * pad + 2 < SIZE_MAX"
  shows "\<not> race s \<and>
    (\<forall>r. cpc s = CHold r \<longrightarrow> slots (ring s) (r + kPadding (ring s)) = Some (produced s ! popped s)) \<and>
    (\<forall>v w nw. ppc s = PWrite v w nw \<longrightarrow> slots (ring s) (w + kPadding (ring s)) = None) \<and>
    (\<forall>r t. cpc s = CPop r \<and> cview s \<le> t \<and> t < length (wmsgs s) \<longrightarrow> fst (wmsgs s ! t) \<noteq> r)"
proof -
  note inv = weak_reachable_inv [OF assms]
  note d = weak_invD [OF inv] and v = viewsD [OF weak_invD(2) [OF inv]]
  have idx: "idx_inv (ring s)" and sl: "slots_ok (trunc s)" using d(1) by (simp_all add: sys_inv_def)
  have raw: "slots (ring s) (w + kPadding (ring s)) = None" if pc: "ppc s = PWrite v w nw" for v w nw
  proof -
    let ?k = "spsc_count (ring s)"
    have k: "?k < capacity (ring s)" using count_less [OF idx] .
    have "w = writeIdx (ring s)" using d(1) pc by (simp add: sys_inv_def producer_ok_def)
    with ring_slot_write [OF idx k] have "ring_slot (ring s) ?k = w + kPadding (ring s)" by simp
    with sl k pc show ?thesis by (auto simp: slots_ok_def expected_def)
  qed
  have hold: "slots (ring s) (r + kPadding (ring s)) = Some (produced s ! popped s)" if "cpc s = CHold r" for r
    using c_read_value(1) [OF d(1), of r] that by simp
  have nonempty: "fst (wmsgs s ! t) \<noteq> r" if pc: "cpc s = CPop r" and t: "cview s \<le> t" "t < length (wmsgs s)" for r t
  proof -
    have h: "r = popped s mod capacity (ring s)" "popped s < cview s" using weak_holding [OF inv, of r] pc by simp_all
    have "popped s mod capacity (ring s) \<noteq> t mod capacity (ring s)"
      using mod_eq_near [of "popped s" t "capacity (ring s)"] h(2) t v(1,13,14) by simp
    then show ?thesis using h(1) v(3) [of t] t v(1) by simp
  qed
  from raw hold nonempty clocksD(5) [OF d(3)] show ?thesis by blast
qed

lemma spsc_race_free_witness:
  "\<exists>s. weak_reachable (spsc_new (\<lambda>n. n) 8 2) s \<and> produced s = [7 :: nat] \<and> \<not> race s"
proof -
  have ok: "\<And>n. n \<le> (\<lambda>n :: nat. n) n" "(2 :: nat) < SIZE_MAX - 2 * 8" "2 * 8 + 2 < SIZE_MAX" by (simp_all add: SIZE_MAX_def)
  from one_memory_run [OF sample_sys_reachable [unfolded sample_ring_def] ok] obtain s where
    s: "weak_reachable (spsc_new (\<lambda>n. n) 8 2) s" "trunc s = sample_sys" by blast
  have "produced s = [7]" using trunc_sel(4) [of s] unfolding s(2) by (simp add: sample_sys_def)
  with spsc_race_free [OF s(1) ok] s(1) show ?thesis by blast
qed

end
