(* ===== verification/Packet_Types.thy ===== *)
theory Packet_Types
  imports Prelude
begin

unbundle bit_operations_syntax

text \<open>
  The data every part of the pipeline passes around (include/core/Types.h, include/core/PacketData.h,
  include/core/StartupError.h, src/core/StartupError.cpp): 5-tuples, WinDivert addresses as far as the
  program looks into them, owned and scheduled packets, and the start-up errors.
\<close>

section \<open>Five-tuples\<close>

record five_tuple =
  src_addr :: u32
  dst_addr :: u32
  src_port :: u16
  dst_port :: u16
  protocol :: u8

definition Reversed :: "five_tuple \<Rightarrow> five_tuple" where
  "Reversed t = \<lparr>src_addr = dst_addr t, dst_addr = src_addr t,
                 src_port = dst_port t, dst_port = src_port t, protocol = protocol t\<rparr>"

lemma Reversed_Reversed [simp]: "Reversed (Reversed t) = t"
  by (simp add: Reversed_def)

lemma Reversed_inject [simp]: "Reversed s = Reversed t \<longleftrightarrow> s = t"
  by (metis Reversed_Reversed)

lemma Reversed_sel [simp]:
  "src_addr (Reversed t) = dst_addr t" "dst_addr (Reversed t) = src_addr t"
  "src_port (Reversed t) = dst_port t" "dst_port (Reversed t) = src_port t"
  "protocol (Reversed t) = protocol t"
  by (simp_all add: Reversed_def)

lemma Reversed_eq_swap: "Reversed s = t \<longleftrightarrow> s = Reversed t"
  by (metis Reversed_Reversed)

text \<open>
  \<open>FiveTupleHash\<close>: \<open>std::hash\<close> of the three integer types is the implementation's, so the model takes it
  as three functions.
\<close>

definition kGoldenRatio :: u64 where
  "kGoldenRatio = 0x9e3779b9"

definition hash_combine :: "u64 \<Rightarrow> u64 \<Rightarrow> u64" where
  "hash_combine s hv = s XOR (hv + kGoldenRatio + push_bit 6 s + drop_bit 2 s)"

definition FiveTupleHash ::
  "(u32 \<Rightarrow> u64) \<Rightarrow> (u16 \<Rightarrow> u64) \<Rightarrow> (u8 \<Rightarrow> u64) \<Rightarrow> five_tuple \<Rightarrow> u64" where
  "FiveTupleHash h32 h16 h8 t =
     (let h = 0;
          h = hash_combine h (h32 (src_addr t));
          h = hash_combine h (h32 (dst_addr t));
          h = hash_combine h (h16 (src_port t));
          h = hash_combine h (h16 (dst_port t));
          h = hash_combine h (h8 (protocol t))
      in h)"

lemma word_xor_left_inject: "(s :: 'a::len word) XOR a = s XOR b \<longleftrightarrow> a = b"
  by (metis xor.assoc xor.left_neutral xor_self_eq)

lemma hash_combine_inject [simp]: "hash_combine s a = hash_combine s b \<longleftrightarrow> a = b"
  by (simp add: hash_combine_def word_xor_left_inject)

section \<open>Byte order\<close>

text \<open>Network byte order is big endian, the host is little endian: both conversions swap bytes.\<close>

definition ntohs :: "u16 \<Rightarrow> u16" where
  "ntohs w = push_bit 8 w OR drop_bit 8 w"

definition ntohl :: "u32 \<Rightarrow> u32" where
  "ntohl w = push_bit 24 w OR (push_bit 8 (w AND 0xFF00)) OR (drop_bit 8 w AND 0xFF00) OR drop_bit 24 w"

lemma ntohs_ntohs [simp]: "ntohs (ntohs w) = w"
  by (rule bit_word_eqI) (auto simp: ntohs_def bit_simps)

lemma byte_mask: "(0xFF00 :: u32) = push_bit 8 (mask 8)"
  by (simp add: mask_eq_exp_minus_1 push_bit_eq_mult)

lemma bit_ntohl:
  assumes "n < 32"
  shows "bit (ntohl w) n \<longleftrightarrow>
    (if n < 8 then bit w (24 + n) else if n < 16 then bit w (8 + n)
     else if n < 24 then bit w (n - 8) else bit w (n - 24))"
proof -
  have b: "32 \<le> k \<Longrightarrow> \<not> bit w k" for k using bit_imp_le_length [of w k] by auto
  consider "n < 8" | "8 \<le> n" "n < 16" | "16 \<le> n" "n < 24" | "24 \<le> n" by linarith
  then show ?thesis using assms b [of "8 + n"] b [of "24 + n"]
    by cases (simp_all add: ntohl_def byte_mask bit_or_iff bit_and_iff bit_push_bit_iff bit_drop_bit_eq bit_mask_iff
        possible_bit_word less_diff_conv2)
qed

lemma ntohl_ntohl [simp]: "ntohl (ntohl w) = w"
proof (rule bit_word_eqI)
  fix n assume "n < LENGTH(32)"
  then have n: "n < 32" by simp
  have "n - 8 < 32" "n - 24 < 32" using n by simp_all
  moreover have "n < 8 \<Longrightarrow> 24 + n < 32" "n < 16 \<Longrightarrow> 8 + n < 32" by simp_all
  ultimately show "bit (ntohl (ntohl w)) n = bit w n" using n
    by (auto simp: bit_ntohl)
qed
section \<open>WinDivert addresses\<close>

text \<open>
  The flow-layer data of a WINDIVERT_ADDRESS, and the address itself with the fields the program reads.
  The two addresses are arrays of four words
  (one used for IPv4). What the program only copies is \<open>addr_rest\<close>.
\<close>

record wd_flow =
  ProcessId :: u32
  LocalAddr :: "u32 list"
  RemoteAddr :: "u32 list"
  LocalPort :: u16
  RemotePort :: u16
  Protocol :: u8

record wd_address =
  Event :: u8
  Outbound :: bool
  Flow :: wd_flow
  addr_rest :: "u64 list"

definition WINDIVERT_EVENT_FLOW_ESTABLISHED :: u8 where
  "WINDIVERT_EVENT_FLOW_ESTABLISHED = 1"

definition WINDIVERT_EVENT_FLOW_DELETED :: u8 where
  "WINDIVERT_EVENT_FLOW_DELETED = 2"

definition kIPv4AddressIndex :: nat where
  "kIPv4AddressIndex = 0"

definition TupleFromFlow :: "wd_address \<Rightarrow> five_tuple" where
  "TupleFromFlow addr =
     \<lparr>src_addr = LocalAddr (Flow addr) ! kIPv4AddressIndex,
      dst_addr = RemoteAddr (Flow addr) ! kIPv4AddressIndex,
      src_port = LocalPort (Flow addr), dst_port = RemotePort (Flow addr),
      protocol = Protocol (Flow addr)\<rparr>"

text \<open>The header fields the program reads, still in network byte order.\<close>

record ip_hdr =
  SrcAddr :: u32
  DstAddr :: u32
  IpProtocol :: u8

record udp_hdr =
  SrcPort :: u16
  DstPort :: u16

definition TupleFromPacket :: "ip_hdr \<Rightarrow> udp_hdr \<Rightarrow> five_tuple" where
  "TupleFromPacket ip udp =
     \<lparr>src_addr = ntohl (SrcAddr ip), dst_addr = ntohl (DstAddr ip),
      src_port = ntohs (SrcPort udp), dst_port = ntohs (DstPort udp), protocol = IpProtocol ip\<rparr>"

text \<open>
  The two layers agree on tuples: a packet leaving the local endpoint of a flow has the flow's tuple,
  a packet coming back has the reversed one.
\<close>

lemma TupleFromPacket_out:
  assumes "SrcAddr ip = ntohl (LocalAddr (Flow a) ! kIPv4AddressIndex)"
    and "DstAddr ip = ntohl (RemoteAddr (Flow a) ! kIPv4AddressIndex)"
    and "SrcPort udp = ntohs (LocalPort (Flow a))" and "DstPort udp = ntohs (RemotePort (Flow a))"
    and "IpProtocol ip = Protocol (Flow a)"
  shows "TupleFromPacket ip udp = TupleFromFlow a"
  using assms by (simp add: TupleFromPacket_def TupleFromFlow_def)

lemma TupleFromPacket_in:
  assumes "SrcAddr ip = ntohl (RemoteAddr (Flow a) ! kIPv4AddressIndex)"
    and "DstAddr ip = ntohl (LocalAddr (Flow a) ! kIPv4AddressIndex)"
    and "SrcPort udp = ntohs (RemotePort (Flow a))" and "DstPort udp = ntohs (LocalPort (Flow a))"
    and "IpProtocol ip = Protocol (Flow a)"
  shows "TupleFromPacket ip udp = Reversed (TupleFromFlow a)"
  using assms by (simp add: TupleFromPacket_def TupleFromFlow_def Reversed_def)

section \<open>Packets\<close>

definition kSystemPid :: u32 where
  "kSystemPid = 4"

definition kStandardMtuSize :: nat where
  "kStandardMtuSize = 1500"

definition kDelayQueueCapacity :: nat where
  "kDelayQueueCapacity = 4096"

definition kMaxConsecutiveRecvFailures :: u32 where
  "kMaxConsecutiveRecvFailures = 32"

record packet_metadata =
  tuple :: five_tuple
  pid :: u32
  is_outbound :: bool

text \<open>The buffer of an owned packet always has the MTU's size; its first \<open>pkt_length\<close> bytes count.\<close>

record owned_packet =
  pkt_data :: "u8 list"
  pkt_length :: u32
  pkt_addr :: wd_address
  metadata :: packet_metadata

record scheduled_packet =
  packet :: owned_packet
  release_at :: int

definition Bytes :: "owned_packet \<Rightarrow> u8 list" where
  "Bytes p = take (unat (pkt_length p)) (pkt_data p)"

definition CopyFrom :: "u8 list \<Rightarrow> wd_address \<Rightarrow> packet_metadata \<Rightarrow> owned_packet option" where
  "CopyFrom packet_data addr meta =
     (if length packet_data > kStandardMtuSize then None
      else Some \<lparr>pkt_data = packet_data @ replicate (kStandardMtuSize - length packet_data) 0,
                 pkt_length = of_nat (length packet_data), pkt_addr = addr, metadata = meta\<rparr>)"

definition packet_ok :: "owned_packet \<Rightarrow> bool" where
  "packet_ok p \<longleftrightarrow> length (pkt_data p) = kStandardMtuSize \<and> unat (pkt_length p) \<le> kStandardMtuSize"

lemma length_Bytes: "packet_ok p \<Longrightarrow> length (Bytes p) = unat (pkt_length p)"
  by (simp add: packet_ok_def Bytes_def)

lemma unat_of_mtu: "n \<le> kStandardMtuSize \<Longrightarrow> unat (of_nat n :: u32) = n"
  by (simp add: kStandardMtuSize_def unat_of_nat take_bit_nat_eq_self_iff)

lemma CopyFrom_None: "CopyFrom bs addr meta = None \<longleftrightarrow> kStandardMtuSize < length bs"
  by (simp add: CopyFrom_def)

lemma CopyFrom_Some:
  assumes "CopyFrom bs addr meta = Some p"
  shows "Bytes p = bs" and "packet_ok p" and "pkt_addr p = addr" and "metadata p = meta"
    and "unat (pkt_length p) = length bs"
proof -
  from assms have len: "length bs \<le> kStandardMtuSize"
    and p: "p = \<lparr>pkt_data = bs @ replicate (kStandardMtuSize - length bs) 0,
      pkt_length = of_nat (length bs), pkt_addr = addr, metadata = meta\<rparr>"
    by (auto simp: CopyFrom_def split: if_splits)
  with unat_of_mtu [OF len]
  show "Bytes p = bs" "packet_ok p" "pkt_addr p = addr" "metadata p = meta"
    "unat (pkt_length p) = length bs"
    by (simp_all add: Bytes_def packet_ok_def)
qed

section \<open>Start-up errors\<close>

datatype startup_error =
    kDriverAccessDenied
  | kDriverMissing
  | kDriverOpenFailedOther
  | kAlreadyRunning
  | kInvalidState

definition ERROR_FILE_NOT_FOUND :: u32 where "ERROR_FILE_NOT_FOUND = 2"
definition ERROR_ACCESS_DENIED :: u32 where "ERROR_ACCESS_DENIED = 5"
definition ERROR_SERVICE_DOES_NOT_EXIST :: u32 where "ERROR_SERVICE_DOES_NOT_EXIST = 1060"

definition MapWinDivertOpenError :: "u32 \<Rightarrow> startup_error" where
  "MapWinDivertOpenError gle =
     (if gle = ERROR_ACCESS_DENIED then kDriverAccessDenied
      else if gle = ERROR_FILE_NOT_FOUND \<or> gle = ERROR_SERVICE_DOES_NOT_EXIST then kDriverMissing
      else kDriverOpenFailedOther)"

fun ToUserMessage :: "startup_error \<Rightarrow> string" where
  "ToUserMessage kDriverAccessDenied = ''Access denied. Run Scrambler as administrator.''"
| "ToUserMessage kDriverMissing = ''WinDivert driver files are missing. Reinstall Scrambler.''"
| "ToUserMessage kDriverOpenFailedOther = ''Failed to open WinDivert driver. Check the diagnostics log.''"
| "ToUserMessage kAlreadyRunning = ''Pipeline is already running.''"
| "ToUserMessage kInvalidState = ''Internal error: invalid pipeline state.''"

section \<open>Properties\<close>

text \<open>
  Copying a packet is exact or refused. \<open>CopyFrom\<close> fails exactly for packets above the MTU; otherwise
  the copy's bytes, address and metadata are the packet's.
\<close>

theorem copy_from_roundtrip:
  "case CopyFrom bs addr meta of
     None \<Rightarrow> kStandardMtuSize < length bs
   | Some p \<Rightarrow> length bs \<le> kStandardMtuSize \<and> Bytes p = bs \<and> pkt_addr p = addr \<and> metadata p = meta \<and> packet_ok p"
proof (cases "CopyFrom bs addr meta")
  case None
  with CopyFrom_None [of bs addr meta] show ?thesis by simp
next
  case (Some p)
  then have "length bs \<le> kStandardMtuSize" by (simp add: CopyFrom_def split: if_splits)
  with Some CopyFrom_Some [OF Some] show ?thesis by simp
qed

text \<open>
  The flow layer and the packet layer agree on tuples. A packet that leaves the local end of a flow
  has the flow's own tuple, a packet that comes back has the reversed one, whatever the byte orders.
\<close>

theorem packet_tuple_matches_flow:
  assumes "IpProtocol ip = Protocol (Flow a)"
    and "(SrcAddr ip, SrcPort udp) = (ntohl (LocalAddr (Flow a) ! 0), ntohs (LocalPort (Flow a))) \<and>
         (DstAddr ip, DstPort udp) = (ntohl (RemoteAddr (Flow a) ! 0), ntohs (RemotePort (Flow a))) \<and> d \<or>
       (DstAddr ip, DstPort udp) = (ntohl (LocalAddr (Flow a) ! 0), ntohs (LocalPort (Flow a))) \<and>
         (SrcAddr ip, SrcPort udp) = (ntohl (RemoteAddr (Flow a) ! 0), ntohs (RemotePort (Flow a))) \<and> \<not> d"
  shows "TupleFromPacket ip udp = (if d then TupleFromFlow a else Reversed (TupleFromFlow a))"
  using assms by (auto simp: TupleFromPacket_def TupleFromFlow_def Reversed_def kIPv4AddressIndex_def)

lemma packet_tuple_matches_flow_witness:
  "TupleFromPacket \<lparr>SrcAddr = 0x02000000, DstAddr = 0x01000000, IpProtocol = 17\<rparr> \<lparr>SrcPort = 0x0400, DstPort = 0x0300\<rparr> =
     \<lparr>src_addr = 2, dst_addr = 1, src_port = 4, dst_port = 3, protocol = 17\<rparr>"
proof -
  let ?a = "\<lparr>Event = 0, Outbound = False, Flow = \<lparr>ProcessId = 7, LocalAddr = [1, 0, 0, 0], RemoteAddr = [2, 0, 0, 0],
     LocalPort = 3, RemotePort = 4, Protocol = 17\<rparr>, addr_rest = []\<rparr>"
  let ?ip = "\<lparr>SrcAddr = 0x02000000, DstAddr = 0x01000000, IpProtocol = 17\<rparr>"
  have b: "ntohl 1 = 0x01000000" "ntohl 2 = 0x02000000" "ntohs 3 = 0x0300" "ntohs 4 = 0x0400" by code_simp+
  have "TupleFromPacket ?ip \<lparr>SrcPort = 0x0400, DstPort = 0x0300\<rparr> = (if False then TupleFromFlow ?a else Reversed (TupleFromFlow ?a))"
    by (rule packet_tuple_matches_flow) (simp_all add: b)
  then show ?thesis by (simp add: TupleFromFlow_def Reversed_def kIPv4AddressIndex_def)
qed

end
