(* ===== verification/Diagnostics.thy ===== *)
theory Diagnostics
  imports Packet_Types
begin

text \<open>
  The process-wide diagnostics object (include/core/Diagnostics.h, src/core/Diagnostics.cpp): atomic
  counters, the bounded log ring with its sequence numbers, rate-limited call sites, and the
  classification of receive failures. The second half is the ring under several logging threads.
\<close>

section \<open>State\<close>

datatype log_level = kInfo | kWarn | kError | kFatal

text \<open>The counters; the enumerator \<open>kCount\<close> of the code is only their number.\<close>

datatype counter =
    kPacketsCapturedOutbound | kPacketsCapturedInbound | kPacketsReinjected
  | kPacketsDroppedOutbound | kPacketsDroppedInbound
  | kPacketsDelayedOutbound | kPacketsDelayedInbound
  | kPacketsDuplicatedOutbound | kPacketsDuplicatedInbound
  | kPoolExhausted | kPacketsOversized | kReinjectFailures | kParseFailures
  | kFlowCacheHits | kFlowCacheKernelScans | kDriverErrors

text \<open>A message is the format string with its arguments; rendering is \<open>std::format\<close>'s.\<close>

datatype fmt_arg = ANum nat | AStr string

type_synonym log_message = "string \<times> fmt_arg list"

record log_entry =
  seq :: u64
  log_when :: int
  level :: log_level
  message :: log_message

text \<open>The call sites with a budget of their own (\<open>static std::atomic<uint64_t> occurrences\<close>).\<close>

datatype log_site =
    SitePoolExhausted | SiteReinjectSend | SiteDrainBatchSend
  | SiteOversized | SiteParseFailed | SiteCaptureBatchSend

text \<open>
  \<open>wall_clock\<close> is what \<open>system_clock::now()\<close> answers; the environment moves it. \<open>sunk\<close> lists the
  entries an installed sink was called with.
\<close>

record diagnostics =
  counters :: "counter \<Rightarrow> u64"
  next_seq :: u64
  log_ring :: "log_entry list"
  sink :: bool
  sunk :: "log_entry list"
  wall_clock :: int
  occurrences :: "log_site \<Rightarrow> u64"

definition diagnostics_init :: "int \<Rightarrow> diagnostics" where
  "diagnostics_init now =
     \<lparr>counters = (\<lambda>_. 0), next_seq = 1, log_ring = [], sink = False, sunk = [],
      wall_clock = now, occurrences = (\<lambda>_. 0)\<rparr>"

definition kRingCapacity :: nat where
  "kRingCapacity = 1024"

section \<open>Operations\<close>

definition ring_push :: "log_entry \<Rightarrow> log_entry list \<Rightarrow> log_entry list" where
  "ring_push e r = (if length r \<ge> kRingCapacity then tl r else r) @ [e]"

definition Log :: "log_level \<Rightarrow> log_message \<Rightarrow> diagnostics \<Rightarrow> diagnostics" where
  "Log lvl msg d =
     (let entry = \<lparr>seq = next_seq d, log_when = wall_clock d, level = lvl, message = msg\<rparr>;
          d = d\<lparr>next_seq := next_seq d + 1\<rparr>;
          d = d\<lparr>log_ring := ring_push entry (log_ring d)\<rparr>
      in if sink d then d\<lparr>sunk := sunk d @ [entry]\<rparr> else d)"

definition Increment :: "counter \<Rightarrow> u64 \<Rightarrow> diagnostics \<Rightarrow> diagnostics" where
  "Increment c n d = d\<lparr>counters := (counters d)(c := counters d c + n)\<rparr>"

definition Get :: "counter \<Rightarrow> diagnostics \<Rightarrow> u64" where
  "Get c d = counters d c"

abbreviation CountEvent :: "counter \<Rightarrow> diagnostics \<Rightarrow> diagnostics" where
  "CountEvent c \<equiv> Increment c 1"

definition ResetCounters :: "diagnostics \<Rightarrow> diagnostics" where
  "ResetCounters d = d\<lparr>counters := (\<lambda>_. 0)\<rparr>"

definition SetSink :: "bool \<Rightarrow> diagnostics \<Rightarrow> diagnostics" where
  "SetSink s d = d\<lparr>sink := s\<rparr>"

definition Snapshot_log :: "nat \<Rightarrow> diagnostics \<Rightarrow> log_entry list" where
  "Snapshot_log max_entries d =
     (let n = min max_entries (length (log_ring d)) in drop (length (log_ring d) - n) (log_ring d))"

text \<open>The backward walk of \<open>SnapshotSince\<close>; \<open>out\<close> is what was collected so far, newest first.\<close>

fun since_walk :: "u64 \<Rightarrow> nat \<Rightarrow> log_entry list \<Rightarrow> log_entry list \<Rightarrow> log_entry list" where
  "since_walk since_seq max_entries out [] = out"
| "since_walk since_seq max_entries out (e # es) =
     (if seq e \<le> since_seq then out
      else let out' = out @ [e] in
        if length out' \<ge> max_entries then out' else since_walk since_seq max_entries out' es)"

definition SnapshotSince :: "u64 \<Rightarrow> nat \<Rightarrow> diagnostics \<Rightarrow> log_entry list" where
  "SnapshotSince since_seq max_entries d =
     rev (since_walk since_seq max_entries [] (rev (log_ring d)))"

text \<open>Rate-limited logging.\<close>

definition kLogRateLimitFirst :: u64 where "kLogRateLimitFirst = 5"
definition kLogRateLimitEveryN :: u64 where "kLogRateLimitEveryN = 1000"

definition LogRateLimited :: "log_site \<Rightarrow> log_level \<Rightarrow> log_message \<Rightarrow> diagnostics \<Rightarrow> diagnostics" where
  "LogRateLimited site lvl msg d =
     (let n = occurrences d site + 1;
          d = d\<lparr>occurrences := (occurrences d)(site := n)\<rparr>
      in if n \<le> kLogRateLimitFirst \<or> n mod kLogRateLimitEveryN = 0 then Log lvl msg d else d)"

text \<open>Receive failures.\<close>

datatype recv_failure_action = kContinue | kExitClean | kExitFatal

definition ERROR_NO_DATA :: u32 where "ERROR_NO_DATA = 232"
definition ERROR_INVALID_HANDLE :: u32 where "ERROR_INVALID_HANDLE = 6"
definition ERROR_OPERATION_ABORTED :: u32 where "ERROR_OPERATION_ABORTED = 995"

definition ClassifyRecvFailure ::
  "u32 \<Rightarrow> u32 \<Rightarrow> string \<Rightarrow> diagnostics \<Rightarrow> recv_failure_action \<times> u32 \<times> diagnostics" where
  "ClassifyRecvFailure gle consecutive_failures component d =
     (if gle = ERROR_NO_DATA then (kExitClean, consecutive_failures, d)
      else if gle = ERROR_INVALID_HANDLE \<or> gle = ERROR_OPERATION_ABORTED then
        (kExitFatal, consecutive_failures,
         CountEvent kDriverErrors
           (Log kError (''{}: terminal recv error (GLE={}), exiting capture loop'',
                        [AStr component, ANum (unat gle)]) d))
      else
        (let d = CountEvent kDriverErrors d;
             n = consecutive_failures + 1
         in if n > kMaxConsecutiveRecvFailures then
              (kExitFatal, n,
               Log kFatal (''{}: {} consecutive recv failures (last GLE={}), exiting capture loop'',
                           [AStr component, ANum (unat n), ANum (unat gle)]) d)
            else (kContinue, n, d)))"

section \<open>Counters\<close>

lemma Get_Increment [simp]: "Get c (Increment c' n d) = (if c = c' then Get c d + n else Get c d)"
  by (simp add: Get_def Increment_def)

lemma Get_Log [simp]: "Get c (Log lvl msg d) = Get c d"
  by (simp add: Get_def Log_def Let_def)

lemma Get_LogRateLimited [simp]: "Get c (LogRateLimited site lvl msg d) = Get c d"
  by (simp add: LogRateLimited_def Let_def) (simp add: Get_def)

lemma Get_Reset [simp]: "Get c (ResetCounters d) = 0"
  by (simp add: Get_def ResetCounters_def)

lemma Increment_frame [simp]:
  "log_ring (Increment c n d) = log_ring d" "next_seq (Increment c n d) = next_seq d"
  "sink (Increment c n d) = sink d" "sunk (Increment c n d) = sunk d"
  "wall_clock (Increment c n d) = wall_clock d" "occurrences (Increment c n d) = occurrences d"
  by (simp_all add: Increment_def)

lemma ResetCounters_frame [simp]:
  "log_ring (ResetCounters d) = log_ring d" "next_seq (ResetCounters d) = next_seq d"
  by (simp_all add: ResetCounters_def)

lemma Log_sel [simp]:
  "next_seq (Log lvl msg d) = next_seq d + 1"
  "log_ring (Log lvl msg d) =
     ring_push \<lparr>seq = next_seq d, log_when = wall_clock d, level = lvl, message = msg\<rparr> (log_ring d)"
  "occurrences (Log lvl msg d) = occurrences d"
  "counters (Log lvl msg d) = counters d"
  by (simp_all add: Log_def Let_def)

section \<open>The log ring\<close>

text \<open>
  Sequence numbers rise along the ring, stay below the next one, and the ring is bounded.
\<close>

definition log_inv :: "diagnostics \<Rightarrow> bool" where
  "log_inv d \<longleftrightarrow> length (log_ring d) \<le> kRingCapacity \<and>
     sorted_wrt (<) (map seq (log_ring d)) \<and> (\<forall>e \<in> set (log_ring d). seq e < next_seq d)"

lemma log_inv_init: "log_inv (diagnostics_init now)"
  by (simp add: log_inv_def diagnostics_init_def)

lemma sorted_wrt_tl: "sorted_wrt P xs \<Longrightarrow> sorted_wrt P (tl xs)"
  by (cases xs) auto

lemma set_tl_subset: "x \<in> set (tl xs) \<Longrightarrow> x \<in> set xs"
  by (cases xs) auto

lemma length_ring_push: "length r \<le> kRingCapacity \<Longrightarrow> length (ring_push e r) \<le> kRingCapacity"
  by (auto simp: ring_push_def kRingCapacity_def)

lemma Log_inv [inv_intros]:
  assumes inv: "log_inv d" and "unat (next_seq d) + 1 < 2 ^ 64"
  shows "log_inv (Log lvl msg d)"
proof -
  have up: "next_seq d < next_seq d + 1"
    using assms(2) unat_Suc_no_wrap [of "next_seq d"] by (simp add: word_less_nat_alt)
  let ?r = "if length (log_ring d) \<ge> kRingCapacity then tl (log_ring d) else log_ring d"
  have s: "sorted_wrt (<) (map seq ?r)"
    using inv by (auto simp: log_inv_def map_tl intro: sorted_wrt_tl)
  have m: "\<forall>e \<in> set ?r. seq e < next_seq d"
    using inv by (auto simp: log_inv_def dest: set_tl_subset)
  have "sorted_wrt (<) (map seq (log_ring (Log lvl msg d)))"
    using s m by (auto simp: ring_push_def sorted_wrt_append map_tl)
  moreover have "\<forall>e \<in> set (log_ring (Log lvl msg d)). seq e < next_seq d + 1"
    using m up by (auto simp: ring_push_def intro: order.strict_trans)
  moreover have "length (log_ring (Log lvl msg d)) \<le> kRingCapacity"
    using inv by (simp add: log_inv_def length_ring_push)
  ultimately show ?thesis by (simp add: log_inv_def)
qed

text \<open>The walk returns the newest entries above the mark, at most so many, one at least if there is one.\<close>

lemma since_walk_spec:
  assumes "length out < max_entries"
  shows "since_walk since_seq max_entries out es =
    out @ take (max_entries - length out) (takeWhile (\<lambda>e. since_seq < seq e) es)"
  using assms
proof (induction es arbitrary: out)
  case (Cons e es)
  show ?case
  proof (cases "seq e \<le> since_seq")
    case False
    then have lt: "since_seq < seq e" by simp
    show ?thesis
    proof (cases "length (out @ [e]) \<ge> max_entries")
      case True
      with Cons.prems have "max_entries - length out = 1" by simp
      with False lt True show ?thesis by simp
    next
      case F: False
      then have "max_entries - length out = Suc (max_entries - length (out @ [e]))" by simp
      with F False lt Cons.IH [of "out @ [e]"] show ?thesis by (simp add: Let_def)
    qed
  qed simp
qed simp

lemma since_walk_zero:
  "since_walk since_seq 0 [] es =
     (case es of [] \<Rightarrow> [] | e # _ \<Rightarrow> if seq e \<le> since_seq then [] else [e])"
  by (simp split: list.split)

lemma SnapshotSince_sorted:
  assumes inv: "log_inv d" and max: "0 < max_entries"
  shows "SnapshotSince since_seq max_entries d =
    (let new = filter (\<lambda>e. since_seq < seq e) (log_ring d) in drop (length new - max_entries) new)"
proof -
  have "sorted_wrt (\<lambda>a b. seq b \<le> seq a) (rev (log_ring d))"
    using inv by (auto simp: log_inv_def sorted_wrt_rev sorted_wrt_map elim: sorted_wrt_mono_rel [rotated])
  then have "takeWhile (\<lambda>e. since_seq < seq e) (rev (log_ring d)) =
      rev (filter (\<lambda>e. since_seq < seq e) (log_ring d))"
    by (simp add: takeWhile_sorted_filter rev_filter)
  with max show ?thesis
    by (simp add: SnapshotSince_def since_walk_spec rev_take Let_def)
qed

section \<open>Rate-limited call sites\<close>

lemma LogRateLimited_sel [simp]:
  "occurrences (LogRateLimited site lvl msg d) = (occurrences d)(site := occurrences d site + 1)"
  "wall_clock (LogRateLimited site lvl msg d) = wall_clock d"
  by (simp_all add: LogRateLimited_def Let_def Log_def)

text \<open>How many of the first \<open>n\<close> occurrences are logged.\<close>

definition rate_logged :: "nat \<Rightarrow> nat" where
  "rate_logged n = min n 5 + n div 1000"

lemma rate_logged_Suc:
  "rate_logged (Suc n) = rate_logged n + (if Suc n \<le> 5 \<or> Suc n mod 1000 = 0 then 1 else 0)"
proof -
  have "Suc n div 1000 = n div 1000 + (if Suc n mod 1000 = 0 then 1 else 0)"
    by (simp add: div_Suc)
  moreover have "Suc n mod 1000 = 0 \<Longrightarrow> 1000 \<le> Suc n"
    by (metis Suc_neq_Zero dvd_imp_le mod_0_imp_dvd zero_less_Suc)
  ultimately show ?thesis by (auto simp: rate_logged_def min_def)
qed

lemma LogRateLimited_next_seq:
  assumes "unat (occurrences d site) = n" and "Suc n < 2 ^ 64"
  shows "next_seq (LogRateLimited site lvl msg d) =
    next_seq d + (if Suc n \<le> 5 \<or> Suc n mod 1000 = 0 then 1 else 0)"
proof -
  have u: "unat (occurrences d site + 1) = Suc n"
    using assms unat_Suc_no_wrap [of "occurrences d site"] by simp
  then have "occurrences d site + 1 \<le> kLogRateLimitFirst \<longleftrightarrow> Suc n \<le> 5"
    by (simp add: word_le_nat_alt kLogRateLimitFirst_def)
  moreover have "(occurrences d site + 1) mod kLogRateLimitEveryN = 0 \<longleftrightarrow> Suc n mod 1000 = 0"
    using u by (simp add: kLogRateLimitEveryN_def unat_mod flip: unat_eq_zero)
  ultimately show ?thesis by (simp add: LogRateLimited_def Let_def)
qed

lemma LogRateLimited_count:
  assumes "occurrences d site = 0" and "n < 2 ^ 64"
  shows "unat (occurrences ((LogRateLimited site lvl msg ^^ n) d) site) = n \<and>
    next_seq ((LogRateLimited site lvl msg ^^ n) d) = next_seq d + of_nat (rate_logged n)"
  using assms(2)
proof (induction n)
  case 0
  with assms(1) show ?case by (simp add: rate_logged_def)
next
  case (Suc n)
  then have IH: "unat (occurrences ((LogRateLimited site lvl msg ^^ n) d) site) = n"
    "next_seq ((LogRateLimited site lvl msg ^^ n) d) = next_seq d + of_nat (rate_logged n)"
    by simp_all
  have "unat (occurrences ((LogRateLimited site lvl msg ^^ n) d) site + 1) = Suc n"
    using IH(1) Suc.prems unat_Suc_no_wrap [of "occurrences ((LogRateLimited site lvl msg ^^ n) d) site"]
    by simp
  moreover have "next_seq ((LogRateLimited site lvl msg ^^ Suc n) d) = next_seq d + of_nat (rate_logged (Suc n))"
    using LogRateLimited_next_seq [OF IH(1) Suc.prems] IH(2) by (simp add: rate_logged_Suc)
  ultimately show ?case by simp
qed

section \<open>Receive failures\<close>

definition transient_gle :: "u32 \<Rightarrow> bool" where
  "transient_gle gle \<longleftrightarrow> gle \<noteq> ERROR_NO_DATA \<and> gle \<noteq> ERROR_INVALID_HANDLE \<and> gle \<noteq> ERROR_OPERATION_ABORTED"

lemma Classify_action:
  "fst (ClassifyRecvFailure gle n who d) =
     (if gle = ERROR_NO_DATA then kExitClean
      else if \<not> transient_gle gle then kExitFatal
      else if n + 1 > kMaxConsecutiveRecvFailures then kExitFatal else kContinue)"
  by (simp add: ClassifyRecvFailure_def transient_gle_def Let_def)

lemma Classify_count:
  "fst (snd (ClassifyRecvFailure gle n who d)) = (if transient_gle gle then n + 1 else n)"
  by (simp add: ClassifyRecvFailure_def transient_gle_def Let_def)

lemma Classify_driver_errors:
  "Get kDriverErrors (snd (snd (ClassifyRecvFailure gle n who d))) =
     Get kDriverErrors d + (if gle = ERROR_NO_DATA then 0 else 1)"
  by (simp add: ClassifyRecvFailure_def Let_def)

lemma Classify_continue_iff:
  "fst (ClassifyRecvFailure gle n who d) = kContinue \<longleftrightarrow>
     transient_gle gle \<and> n + 1 \<le> kMaxConsecutiveRecvFailures"
  by (auto simp: Classify_action transient_gle_def not_less)

section \<open>Properties\<close>

definition log_all :: "(log_level \<times> log_message) list \<Rightarrow> diagnostics \<Rightarrow> diagnostics" where
  "log_all ms d = fold (\<lambda>(l, m). Log l m) ms d"

lemma log_all_snoc: "log_all (ms @ [(l, m)]) d = Log l m (log_all ms d)"
  by (simp add: log_all_def)

definition newest :: "nat \<Rightarrow> 'a list \<Rightarrow> 'a list" where
  "newest n xs = drop (length xs - n) xs"

lemma newest_snoc:
  assumes "0 < n"
  shows "newest n (xs @ [x]) = (if length (newest n xs) \<ge> n then tl (newest n xs) else newest n xs) @ [x]"
proof (cases "n \<le> length xs")
  case True
  then have "length xs + 1 - n = Suc (length xs - n)" by simp
  with True assms show ?thesis by (simp add: newest_def tl_drop drop_Suc)
qed (simp add: newest_def)

text \<open>
  The log keeps the newest entries. After any number of messages the ring holds the last 1024 of
  them in order, with consecutive sequence numbers that rise strictly and end just below the next one.
\<close>

theorem log_keeps_newest:
  assumes "length ms < 2 ^ 64 - 1"
  shows "let d = log_all ms (diagnostics_init now) in
    map (\<lambda>e. (level e, message e)) (log_ring d) = newest kRingCapacity ms \<and>
    next_seq d = of_nat (length ms) + 1 \<and> log_inv d"
  using assms unfolding Let_def
proof (induction ms rule: rev_induct)
  case Nil
  show ?case using log_inv_init [of now] by (simp add: log_all_def newest_def diagnostics_init_def)
next
  case (snoc x ms)
  obtain l m where x: "x = (l, m)" by (cases x)
  let ?d = "log_all ms (diagnostics_init now)"
  have IH: "map (\<lambda>e. (level e, message e)) (log_ring ?d) = newest kRingCapacity ms"
    "next_seq ?d = of_nat (length ms) + 1" "log_inv ?d"
    using snoc by simp_all
  have "unat (next_seq ?d) = length ms + 1"
  proof -
    have "next_seq ?d = of_nat (length ms + 1)" using IH(2) by simp
    moreover have "length ms + 1 < 2 ^ 64" using snoc.prems by simp
    ultimately show ?thesis by (simp only: unat_of_nat) (simp add: take_bit_nat_eq_self)
  qed
  then have "log_inv (Log l m ?d)" using IH(3) snoc.prems by (intro Log_inv) simp_all
  moreover have "0 < kRingCapacity" by (simp add: kRingCapacity_def)
  from newest_snoc [OF this, of ms x] IH(1)
  have "map (\<lambda>e. (level e, message e)) (log_ring (Log l m ?d)) = newest kRingCapacity (ms @ [x])"
    unfolding Log_sel ring_push_def x IH(1) [symmetric] by (simp add: map_tl)
  ultimately show ?case using IH(2) by (simp add: x log_all_snoc)
qed

lemma log_keeps_newest_witness:
  "map (\<lambda>e. (level e, message e)) (log_ring (log_all [(kInfo, (''a'', [])), (kWarn, (''b'', []))] (diagnostics_init 0))) =
     [(kInfo, (''a'', [])), (kWarn, (''b'', []))]"
  using log_keeps_newest [of "[(kInfo, (''a'', [])), (kWarn, (''b'', []))]" 0]
  by (simp add: Let_def newest_def kRingCapacity_def)

text \<open>
  Polling the log misses nothing. On a well-formed ring \<open>SnapshotSince\<close> returns exactly the entries
  newer than the given number, in order, the newest ones if there are more than the limit; only for
  a limit of zero it returns one entry, which is more than its comment allows.
\<close>

theorem snapshot_since_exact:
  assumes "log_inv d"
  shows "(0 < max_entries \<longrightarrow>
      SnapshotSince since_seq max_entries d = newest max_entries (filter (\<lambda>e. since_seq < seq e) (log_ring d))) \<and>
    (log_ring d \<noteq> [] \<and> since_seq < seq (last (log_ring d)) \<longrightarrow> SnapshotSince since_seq 0 d = [last (log_ring d)])"
proof (intro conjI impI)
  assume "0 < max_entries"
  then show "SnapshotSince since_seq max_entries d = newest max_entries (filter (\<lambda>e. since_seq < seq e) (log_ring d))"
    using SnapshotSince_sorted [OF assms] by (simp add: newest_def Let_def)
next
  assume "log_ring d \<noteq> [] \<and> since_seq < seq (last (log_ring d))"
  then show "SnapshotSince since_seq 0 d = [last (log_ring d)]"
    by (cases "log_ring d" rule: rev_cases) (auto simp: SnapshotSince_def dest: leD)
qed

lemma snapshot_since_exact_witness:
  "length (SnapshotSince 0 0 (log_all [(kInfo, (''a'', []))] (diagnostics_init 0))) = 1"
proof -
  let ?d = "log_all [(kInfo, (''a'', []))] (diagnostics_init 0)"
  have "log_inv ?d"
    using Log_inv [OF log_inv_init [of 0]] by (simp add: log_all_def diagnostics_init_def)
  from snapshot_since_exact [OF this, of 0 0] show ?thesis
    by (simp add: log_all_def ring_push_def diagnostics_init_def kRingCapacity_def)
qed

text \<open>
  A call site cannot flood the log. A rate-limited site that is reached \<open>n\<close> times logs its first five
  occurrences and then every thousandth, and counts every one.
\<close>

theorem rate_limited_log_entries:
  assumes "occurrences d site = 0" and "n < 2 ^ 64"
  shows "unat (occurrences ((LogRateLimited site lvl msg ^^ n) d) site) = n \<and>
    next_seq ((LogRateLimited site lvl msg ^^ n) d) = next_seq d + of_nat (min n 5 + n div 1000)"
  using LogRateLimited_count [OF assms] by (simp add: rate_logged_def)

lemma rate_limited_log_entries_witness:
  "next_seq ((LogRateLimited SiteOversized kWarn (''x'', []) ^^ 2500) (diagnostics_init 0)) = 8"
  using rate_limited_log_entries [of "diagnostics_init 0" SiteOversized 2500] by (simp add: diagnostics_init_def)

text \<open>
  Receive failures are classified as intended. No data means a clean exit and is not an error; an
  invalid handle or an abort is fatal at once; anything else is retried and counted as a driver error
  until it is the thirty-third in a row, which is fatal.
\<close>

theorem recv_failure_classification:
  "fst (ClassifyRecvFailure gle n who d) =
     (if gle = ERROR_NO_DATA then kExitClean
      else if gle = ERROR_INVALID_HANDLE \<or> gle = ERROR_OPERATION_ABORTED \<or> 32 < n + 1 then kExitFatal else kContinue) \<and>
   Get kDriverErrors (snd (snd (ClassifyRecvFailure gle n who d))) =
     Get kDriverErrors d + (if gle = ERROR_NO_DATA then 0 else 1) \<and>
   (fst (ClassifyRecvFailure gle n who d) = kContinue \<longleftrightarrow>
      fst (snd (ClassifyRecvFailure gle n who d)) = n + 1 \<and> n + 1 \<le> 32 \<and> transient_gle gle)"
  by (auto simp: Classify_action Classify_count Classify_driver_errors transient_gle_def
      kMaxConsecutiveRecvFailures_def not_less)

end
