(* ===== verification/Diagnostics_Tab.thy ===== *)
theory Diagnostics_Tab
  imports Diagnostics
begin

text \<open>
  The diagnostics tab (src/ui/DiagnosticsTab.cpp) as a reader of the log: its refresh, and the system
  of several logging threads and one polling tab. \<open>Diagnostics::Log\<close> takes its sequence number before
  it takes the mutex, so the two are separate steps there.
\<close>

section \<open>The tab\<close>

definition kLogViewMaxBlocks :: nat where "kLogViewMaxBlocks = 2048"
definition kLogPollBatch :: nat where "kLogPollBatch = 512"

text \<open>What a label shows: one number, in the alert style or not, or a sum with its two parts.\<close>

datatype label = Single u64 bool | Directional u64 u64 u64

record diag_tab =
  last_seen_seq :: u64
  log_view :: "log_entry list"
  labels :: "label list"
  timer_on :: bool

text \<open>The rows of the counter grid, each made with a label that shows 0.\<close>

definition counter_rows :: "string list" where
  "counter_rows =
     [''Packets captured'', ''Packets reinjected'', ''Packets dropped'', ''Packets delayed'', ''Packets duplicated'',
      ''Pool exhausted'', ''Packets oversized'', ''Reinject failures'', ''Parse failures'', ''Flow cache hits'',
      ''Flow kernel scans'', ''Driver errors'']"

definition tab_init :: diag_tab where
  "tab_init = \<lparr>last_seen_seq = 0, log_view = [], labels = map (\<lambda>_. Single 0 False) counter_rows, timer_on = False\<rparr>"

text \<open>\<open>appendPlainText\<close> into a view with a maximum block count: the oldest block goes first.\<close>

definition append_view :: "log_entry list \<Rightarrow> log_entry list \<Rightarrow> log_entry list" where
  "append_view v es = drop (length (v @ es) - kLogViewMaxBlocks) (v @ es)"

definition RefreshLog :: "diagnostics \<Rightarrow> diag_tab \<Rightarrow> diag_tab" where
  "RefreshLog d t =
     (let entries = SnapshotSince (last_seen_seq t) kLogPollBatch d in
      if entries = [] then t
      else t\<lparr>log_view := append_view (log_view t) entries, last_seen_seq := seq (last entries)\<rparr>)"

definition set_label :: "u64 \<Rightarrow> bool \<Rightarrow> label" where
  "set_label value alert_when_nonzero = Single value (alert_when_nonzero \<and> value > 0)"

definition set_directional :: "u64 \<Rightarrow> u64 \<Rightarrow> label" where
  "set_directional outbound inbound = Directional (outbound + inbound) outbound inbound"

definition RefreshCounters :: "diagnostics \<Rightarrow> diag_tab \<Rightarrow> diag_tab" where
  "RefreshCounters d t = t\<lparr>labels :=
     [set_directional (Get kPacketsCapturedOutbound d) (Get kPacketsCapturedInbound d),
      set_label (Get kPacketsReinjected d) False,
      set_directional (Get kPacketsDroppedOutbound d) (Get kPacketsDroppedInbound d),
      set_directional (Get kPacketsDelayedOutbound d) (Get kPacketsDelayedInbound d),
      set_directional (Get kPacketsDuplicatedOutbound d) (Get kPacketsDuplicatedInbound d),
      set_label (Get kPoolExhausted d) True,
      set_label (Get kPacketsOversized d) True,
      set_label (Get kReinjectFailures d) True,
      set_label (Get kParseFailures d) True,
      set_label (Get kFlowCacheHits d) False,
      set_label (Get kFlowCacheKernelScans d) False,
      set_label (Get kDriverErrors d) True]\<rparr>"

definition Refresh :: "diagnostics \<Rightarrow> diag_tab \<Rightarrow> diag_tab" where
  "Refresh d t = RefreshLog d (RefreshCounters d t)"

definition showEvent :: "diagnostics \<Rightarrow> diag_tab \<Rightarrow> diag_tab" where
  "showEvent d t = Refresh d (t\<lparr>timer_on := True\<rparr>)"

definition hideEvent :: "diag_tab \<Rightarrow> diag_tab" where
  "hideEvent t = t\<lparr>timer_on := False\<rparr>"

definition ClearLog :: "diag_tab \<Rightarrow> diag_tab" where
  "ClearLog t = t\<lparr>log_view := []\<rparr>"

definition TabResetCounters :: "diagnostics \<Rightarrow> diag_tab \<Rightarrow> diagnostics \<times> diag_tab" where
  "TabResetCounters d t = (let d' = ResetCounters d in (d', RefreshCounters d' t))"

text \<open>Every row keeps its label, whichever way the tab is used.\<close>

lemma rows_labelled:
  "length (labels tab_init) = length counter_rows" "length (labels (Refresh d t)) = length counter_rows"
  "length (labels (snd (TabResetCounters d t))) = length counter_rows"
  by (simp_all add: tab_init_def Refresh_def RefreshCounters_def RefreshLog_def TabResetCounters_def counter_rows_def Let_def)

section \<open>A refresh on a well-formed ring\<close>

abbreviation newer :: "u64 \<Rightarrow> diagnostics \<Rightarrow> log_entry list" where
  "newer s d \<equiv> filter (\<lambda>e. s < seq e) (log_ring d)"

lemma SnapshotSince_batch:
  assumes "log_inv d" and "length (newer s d) \<le> kLogPollBatch"
  shows "SnapshotSince s kLogPollBatch d = newer s d"
  using assms by (simp add: SnapshotSince_sorted kLogPollBatch_def Let_def)

lemma sorted_wrt_last:
  "sorted_wrt (<) xs \<Longrightarrow> xs \<noteq> [] \<Longrightarrow> x \<in> set xs \<Longrightarrow> x \<le> (last xs :: 'a::order)"
  by (induction xs rule: rev_induct) (auto simp: sorted_wrt_append)

lemma RefreshLog_complete:
  assumes inv: "log_inv d" and few: "length (newer (last_seen_seq t) d) \<le> kLogPollBatch"
    and seen: "newer (last_seen_seq t) d \<noteq> []"
  shows "log_view (RefreshLog d t) = append_view (log_view t) (newer (last_seen_seq t) d)"
    and "newer (last_seen_seq (RefreshLog d t)) d = []"
proof -
  let ?n = "newer (last_seen_seq t) d"
  have r: "RefreshLog d t = t\<lparr>log_view := append_view (log_view t) ?n, last_seen_seq := seq (last ?n)\<rparr>"
    using SnapshotSince_batch [OF inv few] seen by (simp add: RefreshLog_def Let_def)
  then show "log_view (RefreshLog d t) = append_view (log_view t) ?n" by simp
  have srt: "sorted_wrt (<) (map seq ?n)"
    using inv by (simp add: log_inv_def sorted_wrt_map sorted_wrt_filter)
  have "seq e \<le> seq (last ?n)" if "e \<in> set ?n" for e
    using sorted_wrt_last [OF srt] seen that by (simp add: last_map)
  moreover from seen have "last ?n \<in> set ?n" by (rule last_in_set)
  then have "last_seen_seq t < seq (last ?n)" by simp
  ultimately have "\<not> seq (last ?n) < seq e" if "e \<in> set (log_ring d)" for e
    using that by (cases "last_seen_seq t < seq e") (auto simp: not_less)
  with r show "newer (last_seen_seq (RefreshLog d t)) d = []"
    by (simp add: filter_empty_conv)
qed

section \<open>Several logging threads and one tab\<close>

record log_sys =
  diag :: diagnostics
  pending :: "nat \<Rightarrow> log_entry option"
  tab :: diag_tab

definition log_sys_init :: "int \<Rightarrow> log_sys" where
  "log_sys_init now = \<lparr>diag = diagnostics_init now, pending = (\<lambda>_. None), tab = tab_init\<rparr>"

text \<open>
  \<open>TakeSeq\<close> is the \<open>fetch_add\<close> at the top of \<open>Log\<close>, \<open>PushRing\<close> the critical section, \<open>Tick\<close> a timeout of
  the tab's timer. An action that its thread cannot take is \<open>None\<close>.
\<close>

datatype log_action = TakeSeq nat log_level log_message | PushRing nat | Tick

fun log_act :: "log_action \<Rightarrow> log_sys \<Rightarrow> log_sys option" where
  "log_act (TakeSeq i lvl msg) s =
     (if pending s i \<noteq> None then None
      else Some (s\<lparr>diag := (diag s)\<lparr>next_seq := next_seq (diag s) + 1\<rparr>,
                   pending := (pending s)(i := Some \<lparr>seq = next_seq (diag s), log_when = wall_clock (diag s),
                                                    level = lvl, message = msg\<rparr>)\<rparr>))"
| "log_act (PushRing i) s =
     (case pending s i of
        None \<Rightarrow> None
      | Some e \<Rightarrow> Some (s\<lparr>diag := (diag s)\<lparr>log_ring := ring_push e (log_ring (diag s))\<rparr>,
                          pending := (pending s)(i := None)\<rparr>))"
| "log_act Tick s = Some (s\<lparr>tab := RefreshLog (diag s) (tab s)\<rparr>)"

fun log_run :: "log_action list \<Rightarrow> log_sys \<Rightarrow> log_sys option" where
  "log_run [] s = Some s"
| "log_run (a # as) s = (case log_act a s of None \<Rightarrow> None | Some s' \<Rightarrow> log_run as s')"

text \<open>Taking a number and pushing at once, with no sink installed, is the sequential \<open>Log\<close>.\<close>

lemma log_run_atomic:
  assumes "pending s i = None" and "\<not> sink (diag s)"
  shows "log_run [TakeSeq i lvl msg, PushRing i] s = Some (s\<lparr>diag := Log lvl msg (diag s)\<rparr>)"
proof -
  have "(pending s)(i := None) = pending s" using assms(1) by auto
  with assms show ?thesis by (simp add: Log_def Let_def)
qed

text \<open>Two threads; the one with the later number pushes first, and the tab polls in between.\<close>

definition overtaking :: "log_message \<Rightarrow> log_message \<Rightarrow> log_action list" where
  "overtaking m1 m2 =
     [TakeSeq 1 kInfo m1, TakeSeq 2 kInfo m2, PushRing 2, Tick, PushRing 1]"

definition overtaken_entry :: "int \<Rightarrow> log_message \<Rightarrow> log_entry" where
  "overtaken_entry now m = \<lparr>seq = 1, log_when = now, level = kInfo, message = m\<rparr>"

definition overtaking_entry :: "int \<Rightarrow> log_message \<Rightarrow> log_entry" where
  "overtaking_entry now m = \<lparr>seq = 2, log_when = now, level = kInfo, message = m\<rparr>"

lemma RefreshLog_overtaken:
  assumes "log_ring d = [overtaking_entry now m2, overtaken_entry now m1]" and "last_seen_seq t = 2"
  shows "RefreshLog d t = t"
  using assms by (simp add: RefreshLog_def SnapshotSince_def overtaken_entry_def kLogPollBatch_def Let_def)

lemma overtaking_result:
  "\<exists>s. log_run (overtaking m1 m2) (log_sys_init now) = Some s \<and>
     log_ring (diag s) = [overtaking_entry now m2, overtaken_entry now m1] \<and>
     last_seen_seq (tab s) = 2 \<and> log_view (tab s) = [overtaking_entry now m2] \<and>
     pending s = (\<lambda>_. None)"
  by (auto simp: overtaking_def log_sys_init_def diagnostics_init_def ring_push_def kRingCapacity_def
      RefreshLog_def SnapshotSince_def kLogPollBatch_def tab_init_def append_view_def kLogViewMaxBlocks_def
      overtaken_entry_def overtaking_entry_def Let_def fun_eq_iff)

lemma ticks_overtaken:
  assumes "log_ring (diag s) = [overtaking_entry now m2, overtaken_entry now m1]"
    and "last_seen_seq (tab s) = 2"
  shows "log_run (replicate n Tick) s = Some s"
  using assms
proof (induction n)
  case (Suc n)
  have "RefreshLog (diag s) (tab s) = tab s" using Suc.prems by (rule RefreshLog_overtaken)
  then have "s\<lparr>tab := RefreshLog (diag s) (tab s)\<rparr> = s" by simp
  with Suc show ?case by simp
qed simp

section \<open>Properties\<close>

text \<open>
  C30: two logging threads can make the tab lose an entry. If the thread with the later sequence number
  reaches the ring first and the tab polls in between, the other entry lies in the ring behind it, and
  no number of further polls ever shows it.
\<close>

theorem overtaken_entry_never_shown:
  "\<exists>s. log_run (overtaking m1 m2 @ replicate n Tick) (log_sys_init now) = Some s \<and>
     overtaken_entry now m1 \<in> set (log_ring (diag s)) \<and> log_view (tab s) = [overtaking_entry now m2] \<and>
     pending s = (\<lambda>_. None)"
proof -
  obtain s where s: "log_run (overtaking m1 m2) (log_sys_init now) = Some s"
    "log_ring (diag s) = [overtaking_entry now m2, overtaken_entry now m1]"
    "last_seen_seq (tab s) = 2" "log_view (tab s) = [overtaking_entry now m2]" "pending s = (\<lambda>_. None)"
    using overtaking_result by blast
  have app: "log_run (as @ bs) x = (case log_run as x of None \<Rightarrow> None | Some y \<Rightarrow> log_run bs y)" for as bs x
    by (induction as arbitrary: x) (simp_all split: option.split)
  from ticks_overtaken [OF s(2,3), of n] s show ?thesis by (simp add: app)
qed

end
