(* ===== verification/Log_Lines.thy ===== *)
theory Log_Lines
  imports Diagnostics_Tab "HOL-Library.Signed_Division"
begin

text \<open>
  The text of the log view (\<open>LevelName\<close>, \<open>FormatEntry\<close> and \<open>CopyLog\<close> in src/ui/DiagnosticsTab.cpp), and a
  reader that gets the entries back from a copied log. A view is its list of entries as long as no
  message has a line break; with one, an entry takes several blocks.
\<close>

section \<open>Decimal numbers\<close>

definition digit :: "nat \<Rightarrow> char" where
  "digit d = char_of (48 + d)"

fun decimal :: "nat \<Rightarrow> string" where
  "decimal n = (if n < 10 then [digit n] else decimal (n div 10) @ [digit (n mod 10)])"

declare decimal.simps [simp del]

text \<open>\<open>std::format\<close> of an integer with \<open>{:0w}\<close>: the sign, zeros up to the width, the digits.\<close>

definition format_padded :: "nat \<Rightarrow> int \<Rightarrow> string" where
  "format_padded w n =
     (let ds = decimal (nat \<bar>n\<bar>)
      in if n < 0 then CHR ''-'' # replicate (w - 1 - length ds) CHR ''0'' @ ds
         else replicate (w - length ds) CHR ''0'' @ ds)"

definition read_decimal :: "string \<Rightarrow> nat" where
  "read_decimal = foldl (\<lambda>a c. a * 10 + (of_char c - 48)) 0"

lemma digit_value: "d < 10 \<Longrightarrow> of_char (digit d) = 48 + d"
  by (simp add: digit_def)

lemma read_decimal: "read_decimal (decimal n) = n"
proof (induction n rule: decimal.induct)
  case (1 n)
  have d: "of_char (digit (n mod 10)) - 48 = n mod 10" by (simp add: digit_value)
  show ?case
  proof (cases "n < 10")
    case True
    then show ?thesis by (subst decimal.simps) (simp add: read_decimal_def digit_value)
  next
    case False
    then show ?thesis using 1 d by (subst decimal.simps) (simp add: read_decimal_def)
  qed
qed

lemma read_padded: "read_decimal (replicate k CHR ''0'' @ s) = read_decimal s"
  by (induction k) (simp_all add: read_decimal_def)

lemma decimal_length: "n < 10 ^ Suc w \<Longrightarrow> length (decimal n) \<le> Suc w"
proof (induction w arbitrary: n)
  case 0
  then show ?case by (subst decimal.simps) simp
next
  case (Suc w)
  then have "n div 10 < 10 ^ Suc w" by simp
  from Suc.IH [OF this] show ?case by (subst decimal.simps) simp
qed

lemma format_padded_spec:
  assumes "0 \<le> n" and "n < 10 ^ w" and "0 < w"
  shows "length (format_padded w n) = w \<and> read_decimal (format_padded w n) = nat n"
proof -
  obtain w' where w: "w = Suc w'" using assms(3) by (cases w) simp_all
  have "nat n < 10 ^ Suc w'" using assms(1,2) w by (simp add: nat_less_iff)
  from decimal_length [OF this] assms(1) w show ?thesis
    by (simp add: format_padded_def Let_def read_padded read_decimal)
qed

section \<open>A line of the log\<close>

fun LevelName :: "log_level \<Rightarrow> string" where
  "LevelName kInfo = ''INFO ''"
| "LevelName kWarn = ''WARN ''"
| "LevelName kError = ''ERROR''"
| "LevelName kFatal = ''FATAL''"

text \<open>The wall clock counts steps of 100 ns; \<open>localtime_s\<close> and the rendering of a message are parameters.\<close>

record tm =
  tm_hour :: int
  tm_min :: int
  tm_sec :: int

definition localtime_lawful :: "(int \<Rightarrow> tm) \<Rightarrow> bool" where
  "localtime_lawful L \<longleftrightarrow> (\<forall>t. 0 \<le> tm_hour (L t) \<and> tm_hour (L t) < 24 \<and> 0 \<le> tm_min (L t) \<and> tm_min (L t) < 60 \<and>
     0 \<le> tm_sec (L t) \<and> tm_sec (L t) \<le> 60)"

definition entry_ms :: "log_entry \<Rightarrow> int" where
  "entry_ms e = (log_when e sdiv 10000) smod 1000"

definition entry_tm :: "(int \<Rightarrow> tm) \<Rightarrow> log_entry \<Rightarrow> tm" where
  "entry_tm L e = L (log_when e sdiv 10000000)"

definition FormatEntry :: "(int \<Rightarrow> tm) \<Rightarrow> (log_message \<Rightarrow> string) \<Rightarrow> log_entry \<Rightarrow> string" where
  "FormatEntry L render e =
     (let tm = entry_tm L e
      in ''['' @ format_padded 2 (tm_hour tm) @ '':'' @ format_padded 2 (tm_min tm) @ '':'' @ format_padded 2 (tm_sec tm) @
         ''.'' @ format_padded 3 (entry_ms e) @ ''] ['' @ LevelName (level e) @ ''] '' @ render (message e))"

text \<open>The view's text has one line per block.\<close>

fun join_lines :: "string list \<Rightarrow> string" where
  "join_lines [] = []"
| "join_lines [l] = l"
| "join_lines (l # ls) = l @ CHR 0x0A # join_lines ls"

definition CopyLog :: "(int \<Rightarrow> tm) \<Rightarrow> (log_message \<Rightarrow> string) \<Rightarrow> diag_tab \<Rightarrow> string" where
  "CopyLog L render t = join_lines (map (FormatEntry L render) (log_view t))"

section \<open>Reading a log back\<close>

fun split_lines :: "string \<Rightarrow> string list" where
  "split_lines [] = [[]]"
| "split_lines (c # cs) =
     (if c = CHR 0x0A then [] # split_lines cs
      else (case split_lines cs of [] \<Rightarrow> [[c]] | l # ls \<Rightarrow> (c # l) # ls))"

definition read_level :: "string \<Rightarrow> log_level option" where
  "read_level s = (if s = ''INFO '' then Some kInfo else if s = ''WARN '' then Some kWarn
     else if s = ''ERROR'' then Some kError else if s = ''FATAL'' then Some kFatal else None)"

text \<open>The fields stand in fixed columns.\<close>

definition read_line :: "string \<Rightarrow> (nat \<times> nat \<times> nat) \<times> nat \<times> log_level option \<times> string" where
  "read_line l = ((read_decimal (take 2 (drop 1 l)), read_decimal (take 2 (drop 4 l)), read_decimal (take 2 (drop 7 l))),
     read_decimal (take 3 (drop 10 l)), read_level (take 5 (drop 16 l)), drop 23 l)"

definition entry_fields ::
  "(int \<Rightarrow> tm) \<Rightarrow> (log_message \<Rightarrow> string) \<Rightarrow> log_entry \<Rightarrow> (nat \<times> nat \<times> nat) \<times> nat \<times> log_level option \<times> string" where
  "entry_fields L render e =
     ((nat (tm_hour (entry_tm L e)), nat (tm_min (entry_tm L e)), nat (tm_sec (entry_tm L e))), nat (entry_ms e),
      Some (level e), render (message e))"

lemma LevelName_length [simp]: "length (LevelName v) = 5"
  by (cases v) simp_all

lemma read_LevelName [simp]: "read_level (LevelName v) = Some v"
  by (cases v) (simp_all add: read_level_def)

lemma entry_ms_bounds: "0 \<le> log_when e \<Longrightarrow> 0 \<le> entry_ms e \<and> entry_ms e < 1000"
  by (simp add: entry_ms_def signed_divide_int_def signed_modulo_int_def sgn_if)

lemma take_drop_field: "length p = n \<Longrightarrow> length f = k \<Longrightarrow> take k (drop n (p @ f @ r)) = f"
  by simp

lemma read_FormatEntry:
  assumes "localtime_lawful L" and "0 \<le> log_when e"
  shows "read_line (FormatEntry L render e) = entry_fields L render e"
proof -
  let ?t = "entry_tm L e"
  have t: "0 \<le> tm_hour ?t \<and> tm_hour ?t < 24 \<and> 0 \<le> tm_min ?t \<and> tm_min ?t < 60 \<and> 0 \<le> tm_sec ?t \<and> tm_sec ?t \<le> 60"
    using assms(1) unfolding localtime_lawful_def entry_tm_def by blast
  have b: "0 \<le> tm_hour ?t" "tm_hour ?t < 10 ^ 2" "0 \<le> tm_min ?t" "tm_min ?t < 10 ^ 2" "0 \<le> tm_sec ?t" "tm_sec ?t < 10 ^ 2"
    "0 \<le> entry_ms e" "entry_ms e < 10 ^ 3"
    using t entry_ms_bounds [OF assms(2)] by simp_all
  have w: "0 < (2 :: nat)" "0 < (3 :: nat)" by simp_all
  obtain h m s k where d: "format_padded 2 (tm_hour ?t) = h" "format_padded 2 (tm_min ?t) = m" "format_padded 2 (tm_sec ?t) = s"
    "format_padded 3 (entry_ms e) = k" by blast
  note n = format_padded_spec [OF b(1,2) w(1), unfolded d] format_padded_spec [OF b(3,4) w(1), unfolded d]
    format_padded_spec [OF b(5,6) w(1), unfolded d] format_padded_spec [OF b(7,8) w(2), unfolded d]
  have "FormatEntry L render e = ''['' @ h @ '':'' @ m @ '':'' @ s @ ''.'' @ k @ ''] ['' @ LevelName (level e) @ ''] '' @ render (message e)"
    by (simp add: FormatEntry_def Let_def d)
  with n show ?thesis by (simp add: read_line_def entry_fields_def)
qed

section \<open>A copied log\<close>

lemma split_no_break: "CHR 0x0A \<notin> set l \<Longrightarrow> split_lines l = [l]"
  by (induction l) auto

lemma split_break: "CHR 0x0A \<notin> set l \<Longrightarrow> split_lines (l @ CHR 0x0A # r) = l # split_lines r"
  by (induction l) auto

lemma split_join: "\<forall>l \<in> set ls. CHR 0x0A \<notin> set l \<Longrightarrow> ls \<noteq> [] \<Longrightarrow> split_lines (join_lines ls) = ls"
  by (induction ls rule: join_lines.induct) (simp_all add: split_no_break split_break)

lemma decimal_chars: "set (decimal n) \<subseteq> digit ` {0..9}"
proof (induction n rule: decimal.induct)
  case (1 n)
  have "digit (n mod 10) \<in> digit ` {0..9}" by simp
  with 1 show ?case by (subst decimal.simps) auto
qed

lemma padded_no_break: "CHR 0x0A \<notin> set (format_padded w n)"
proof -
  have "CHR 0x0A \<notin> set (decimal k)" for k
  proof
    assume "CHR 0x0A \<in> set (decimal k)"
    then obtain d where "d \<in> {0..9}" "CHR 0x0A = digit d" using decimal_chars [of k] by blast
    then have "of_char (CHR 0x0A) = 48 + d" using digit_value [of d] by simp
    then show False by simp
  qed
  then show ?thesis by (simp add: format_padded_def Let_def)
qed

lemma FormatEntry_no_break: "CHR 0x0A \<notin> set (render (message e)) \<Longrightarrow> CHR 0x0A \<notin> set (FormatEntry L render e)"
  by (cases "level e") (simp_all add: FormatEntry_def Let_def padded_no_break)

lemma since_walk_length: "length out < n \<Longrightarrow> length (since_walk since_seq n out es) \<le> n"
  by (induction since_seq n out es rule: since_walk.induct) (auto simp: Let_def)

lemma SnapshotSince_length: "length (SnapshotSince s kLogPollBatch d) \<le> kLogPollBatch"
  unfolding SnapshotSince_def length_rev by (rule since_walk_length) (simp add: kLogPollBatch_def)

section \<open>Property\<close>

text \<open>
  C29: A copied log reads back. After the view is cleared and refreshed with a poll that returned entries,
  none of them stamped before 1970 or with a line break in its message, the copied text has one line for
  each of them, in the poll's order, and from its columns the local time, the milliseconds, the level and
  the message can be read back, whatever order the ring is in. If moreover the ring is in the order of the
  sequence numbers (\<open>log_inv\<close>, which threads that overtake each other break) and at most 512 entries are
  new, these are all the entries the tab had not seen, and nothing already seen comes again.
\<close>

theorem copied_log_reads_back:
  assumes "localtime_lawful L" and "SnapshotSince (last_seen_seq t) kLogPollBatch d = es" and "es \<noteq> []"
    and "\<forall>e \<in> set es. 0 \<le> log_when e \<and> CHR 0x0A \<notin> set (render (message e))"
  shows "map read_line (split_lines (CopyLog L render (RefreshLog d (ClearLog t)))) = map (entry_fields L render) es \<and>
    (log_inv d \<and> length (newer (last_seen_seq t) d) \<le> kLogPollBatch \<longrightarrow>
      es = newer (last_seen_seq t) d \<and> newer (last_seen_seq (RefreshLog d (ClearLog t))) d = [])"
proof -
  have c: "last_seen_seq (ClearLog t) = last_seen_seq t" "log_view (ClearLog t) = []" by (simp_all add: ClearLog_def)
  have "length es \<le> kLogPollBatch" using SnapshotSince_length [of "last_seen_seq t" d] assms(2) by simp
  then have v: "log_view (RefreshLog d (ClearLog t)) = es"
    using assms(2,3) c by (simp add: RefreshLog_def append_view_def kLogViewMaxBlocks_def kLogPollBatch_def)
  have "CHR 0x0A \<notin> set l" if "l \<in> set (map (FormatEntry L render) es)" for l
  proof -
    from that [unfolded set_map] obtain e where e: "l = FormatEntry L render e" "e \<in> set es" by (rule imageE)
    from bspec [OF assms(4) e(2)] have "CHR 0x0A \<notin> set (render (message e))" by (rule conjunct2)
    then show ?thesis unfolding e(1) by (rule FormatEntry_no_break)
  qed
  then have "split_lines (CopyLog L render (RefreshLog d (ClearLog t))) = map (FormatEntry L render) es"
    unfolding CopyLog_def v using assms(3) by (intro split_join) simp_all
  moreover have "map (\<lambda>e. read_line (FormatEntry L render e)) es = map (entry_fields L render) es"
    using assms(1,4) by (intro map_cong) (auto intro: read_FormatEntry)
  moreover have "es = newer (last_seen_seq t) d \<and> newer (last_seen_seq (RefreshLog d (ClearLog t))) d = []"
    if i: "log_inv d" "length (newer (last_seen_seq t) d) \<le> kLogPollBatch"
  proof -
    have n: "es = newer (last_seen_seq t) d" using SnapshotSince_batch [OF i] assms(2) by simp
    with RefreshLog_complete(2) [OF i(1), of "ClearLog t", unfolded c, OF i(2)] assms(3) show ?thesis by simp
  qed
  ultimately show ?thesis by (simp add: comp_def)
qed

definition noon :: "int \<Rightarrow> tm" where
  "noon _ = \<lparr>tm_hour = 12, tm_min = 5, tm_sec = 0\<rparr>"

theorem copied_log_reads_back_witness:
  "map read_line (split_lines (CopyLog noon fst (RefreshLog (log_all [(kInfo, (''a'', [])), (kError, (''b'', []))] (diagnostics_init 70000)) (ClearLog tab_init)))) =
     [((12, 5, 0), 7, Some kInfo, ''a''), ((12, 5, 0), 7, Some kError, ''b'')]"
proof -
  let ?d = "log_all [(kInfo, (''a'', [])), (kError, (''b'', []))] (diagnostics_init 70000)"
  have "log_inv (Log kInfo (''a'', []) (diagnostics_init 70000))"
    by (rule Log_inv [OF log_inv_init]) (simp add: diagnostics_init_def)
  from Log_inv [OF this] have inv: "log_inv ?d" by (simp add: log_all_def diagnostics_init_def)
  have L: "localtime_lawful noon" by (simp add: localtime_lawful_def noon_def)
  let ?es = "SnapshotSince (last_seen_seq tab_init) kLogPollBatch ?d"
  have n: "map (entry_fields noon fst) ?es =
      [((12, 5, 0), 7, Some kInfo, ''a''), ((12, 5, 0), 7, Some kError, ''b'')]" by code_simp
  then have "?es \<noteq> []" by auto
  moreover have "\<forall>e \<in> set ?es. 0 \<le> log_when e \<and> CHR 0x0A \<notin> set (fst (message e))" by code_simp
  moreover have "length (newer (last_seen_seq tab_init) ?d) \<le> kLogPollBatch" by code_simp
  ultimately show ?thesis using copied_log_reads_back [OF L refl, of tab_init ?d fst] n inv by simp
qed

end
