(* ===== verification/Effect_Config.thy ===== *)
theory Effect_Config
  imports Packet_Types
begin

text \<open>
  The effect configuration shared by the UI and the packet pipeline (include/core/EffectConfig.h): one
  record of settings per direction, the setters with their clamping, the snapshot the engine works
  from, and the rate draws. Each field is an atomic of its own in the code; one setter or getter is one
  access to one field, except \<open>SetThrottleKBytesPerSec\<close> and \<open>Snapshot\<close>; what their single accesses
  can do to each other is in \<open>Throttle_Race\<close>.
\<close>

section \<open>Limits\<close>

definition kDefaultDuplicateCopies :: int where "kDefaultDuplicateCopies = 1"
definition kMaxDuplicateCopies :: int where "kMaxDuplicateCopies = 64"
definition kMaxDelayJitterMs :: int where "kMaxDelayJitterMs = 1000"
definition kDefaultBurstDropLength :: int where "kDefaultBurstDropLength = 3"
definition kMaxBurstDropLength :: int where "kMaxBurstDropLength = 32"
definition kMaxThrottleKBytesPerSec :: int where "kMaxThrottleKBytesPerSec = 10240"

lemmas limit_defs =
  kDefaultDuplicateCopies_def kMaxDuplicateCopies_def kMaxDelayJitterMs_def kDefaultBurstDropLength_def
  kMaxBurstDropLength_def kMaxThrottleKBytesPerSec_def

section \<open>One direction\<close>

record dir_config =
  delay_ms :: int
  delay_jitter_ms :: int
  throttle_kbytes_per_sec :: int
  throttle_revision :: u64
  burst_drop_enabled :: bool
  burst_drop_rate :: float32
  burst_drop_length :: int
  drop_rate :: float32
  duplicate_rate :: float32
  duplicate_count :: int

definition dir_config_init :: dir_config where
  "dir_config_init =
     \<lparr>delay_ms = 0, delay_jitter_ms = 0, throttle_kbytes_per_sec = 0, throttle_revision = 0,
      burst_drop_enabled = False, burst_drop_rate = Fin 0, burst_drop_length = kDefaultBurstDropLength,
      drop_rate = Fin 0, duplicate_rate = Fin 0, duplicate_count = kDefaultDuplicateCopies\<rparr>"

record dir_snapshot =
  snap_delay :: int
  snap_delay_jitter_ms :: int
  snap_throttle_bytes_per_second :: u64
  snap_throttle_revision :: u64
  snap_burst_drop_enabled :: bool
  snap_burst_drop_rate :: float32
  snap_burst_drop_length :: int
  snap_drop_rate :: float32
  snap_duplicate_rate :: float32
  snap_duplicate_count :: int

text \<open>
  The getters, each a load of one atomic; the source's names belong to the settings below. A duration in
  milliseconds is its count.
\<close>

definition load_DelayMs :: "dir_config \<Rightarrow> int" where [simp]: "load_DelayMs c = delay_ms c"
definition load_Delay :: "dir_config \<Rightarrow> int" where [simp]: "load_Delay c = load_DelayMs c"
definition load_DelayJitterMs :: "dir_config \<Rightarrow> int" where [simp]: "load_DelayJitterMs c = delay_jitter_ms c"
definition load_DelayJitter :: "dir_config \<Rightarrow> int" where [simp]: "load_DelayJitter c = load_DelayJitterMs c"
definition load_ThrottleKBytesPerSec :: "dir_config \<Rightarrow> int" where [simp]: "load_ThrottleKBytesPerSec c = throttle_kbytes_per_sec c"
definition load_ThrottleRevision :: "dir_config \<Rightarrow> u64" where [simp]: "load_ThrottleRevision c = throttle_revision c"
definition load_BurstDropEnabled :: "dir_config \<Rightarrow> bool" where [simp]: "load_BurstDropEnabled c = burst_drop_enabled c"
definition load_BurstDropRate :: "dir_config \<Rightarrow> float32" where [simp]: "load_BurstDropRate c = burst_drop_rate c"
definition load_BurstDropLength :: "dir_config \<Rightarrow> int" where [simp]: "load_BurstDropLength c = burst_drop_length c"
definition load_DropRate :: "dir_config \<Rightarrow> float32" where [simp]: "load_DropRate c = drop_rate c"
definition load_DuplicateRate :: "dir_config \<Rightarrow> float32" where [simp]: "load_DuplicateRate c = duplicate_rate c"
definition load_DuplicateCount :: "dir_config \<Rightarrow> int" where [simp]: "load_DuplicateCount c = duplicate_count c"

text \<open>\<open>static_cast<std::uint64_t>\<close> of an \<open>int\<close>, and the multiplication at 64 bits.\<close>

definition ThrottleBytesPerSecond :: "dir_config \<Rightarrow> u64" where
  "ThrottleBytesPerSecond c = of_int (load_ThrottleKBytesPerSec c) * 1024"

definition Snapshot :: "dir_config \<Rightarrow> dir_snapshot" where
  "Snapshot c =
     \<lparr>snap_delay = load_DelayMs c, snap_delay_jitter_ms = load_DelayJitterMs c,
      snap_throttle_bytes_per_second = ThrottleBytesPerSecond c,
      snap_throttle_revision = load_ThrottleRevision c,
      snap_burst_drop_enabled = load_BurstDropEnabled c, snap_burst_drop_rate = load_BurstDropRate c,
      snap_burst_drop_length = load_BurstDropLength c, snap_drop_rate = load_DropRate c,
      snap_duplicate_rate = load_DuplicateRate c, snap_duplicate_count = load_DuplicateCount c\<rparr>"

definition SetDelayMs :: "int \<Rightarrow> dir_config \<Rightarrow> dir_config" where [cfg_simps]:
  "SetDelayMs v c = c\<lparr>delay_ms := max v 0\<rparr>"

definition SetDelayJitterMs :: "int \<Rightarrow> dir_config \<Rightarrow> dir_config" where [cfg_simps]:
  "SetDelayJitterMs v c = c\<lparr>delay_jitter_ms := clamp_int v 0 kMaxDelayJitterMs\<rparr>"

definition SetThrottleKBytesPerSec :: "int \<Rightarrow> dir_config \<Rightarrow> dir_config" where [cfg_simps]:
  "SetThrottleKBytesPerSec v c =
     (let clamped = clamp_int v 0 kMaxThrottleKBytesPerSec;
          current = throttle_kbytes_per_sec c
      in if current \<noteq> clamped then
           (let c = c\<lparr>throttle_kbytes_per_sec := clamped\<rparr>
            in c\<lparr>throttle_revision := throttle_revision c + 1\<rparr>)
         else c)"

definition SetBurstDropEnabled :: "bool \<Rightarrow> dir_config \<Rightarrow> dir_config" where [cfg_simps]:
  "SetBurstDropEnabled v c = c\<lparr>burst_drop_enabled := v\<rparr>"

definition SetBurstDropRate :: "float32 \<Rightarrow> dir_config \<Rightarrow> dir_config" where [cfg_simps]:
  "SetBurstDropRate v c = c\<lparr>burst_drop_rate := clamp_float v (Fin 0) (Fin 1)\<rparr>"

definition SetBurstDropLength :: "int \<Rightarrow> dir_config \<Rightarrow> dir_config" where [cfg_simps]:
  "SetBurstDropLength v c = c\<lparr>burst_drop_length := clamp_int v 1 kMaxBurstDropLength\<rparr>"

definition SetDropRate :: "float32 \<Rightarrow> dir_config \<Rightarrow> dir_config" where [cfg_simps]:
  "SetDropRate v c = c\<lparr>drop_rate := clamp_float v (Fin 0) (Fin 1)\<rparr>"

definition SetDuplicateRate :: "float32 \<Rightarrow> dir_config \<Rightarrow> dir_config" where [cfg_simps]:
  "SetDuplicateRate v c = c\<lparr>duplicate_rate := clamp_float v (Fin 0) (Fin 1)\<rparr>"

definition SetDuplicateCount :: "int \<Rightarrow> dir_config \<Rightarrow> dir_config" where [cfg_simps]:
  "SetDuplicateCount v c =
     c\<lparr>duplicate_count := clamp_int v kDefaultDuplicateCopies kMaxDuplicateCopies\<rparr>"

text \<open>The setters as data, for statements about any sequence of them.\<close>

datatype setting =
    DelayMs int | DelayJitterMs int | ThrottleKBytesPerSec int | BurstDropEnabled bool
  | BurstDropRate float32 | BurstDropLength int | DropRate float32 | DuplicateRate float32
  | DuplicateCount int

fun apply_setting :: "setting \<Rightarrow> dir_config \<Rightarrow> dir_config" where
  "apply_setting (DelayMs v) = SetDelayMs v"
| "apply_setting (DelayJitterMs v) = SetDelayJitterMs v"
| "apply_setting (ThrottleKBytesPerSec v) = SetThrottleKBytesPerSec v"
| "apply_setting (BurstDropEnabled v) = SetBurstDropEnabled v"
| "apply_setting (BurstDropRate v) = SetBurstDropRate v"
| "apply_setting (BurstDropLength v) = SetBurstDropLength v"
| "apply_setting (DropRate v) = SetDropRate v"
| "apply_setting (DuplicateRate v) = SetDuplicateRate v"
| "apply_setting (DuplicateCount v) = SetDuplicateCount v"

section \<open>Both directions\<close>

record effect_config =
  outbound :: dir_config
  inbound :: dir_config

definition ConfigForDirection :: "bool \<Rightarrow> effect_config \<Rightarrow> dir_config" where
  "ConfigForDirection is_out e = (if is_out then outbound e else inbound e)"

text \<open>A setter of \<open>EffectConfig\<close>: the setter of the direction's configuration, applied in place.\<close>

definition SetForDirection :: "bool \<Rightarrow> setting \<Rightarrow> effect_config \<Rightarrow> effect_config" where
  "SetForDirection is_out s e =
     (if is_out then e\<lparr>outbound := apply_setting s (outbound e)\<rparr>
      else e\<lparr>inbound := apply_setting s (inbound e)\<rparr>)"

text \<open>A getter of \<open>EffectConfig\<close> is the getter of the direction's configuration.\<close>

definition load_for_direction :: "(dir_config \<Rightarrow> 'a) \<Rightarrow> bool \<Rightarrow> effect_config \<Rightarrow> 'a" where
  "load_for_direction getter is_out e = getter (ConfigForDirection is_out e)"

definition SnapshotForDirection :: "bool \<Rightarrow> effect_config \<Rightarrow> dir_snapshot" where
  "SnapshotForDirection = load_for_direction Snapshot"

definition effect_config_init :: effect_config where
  "effect_config_init = \<lparr>outbound = dir_config_init, inbound = dir_config_init\<rparr>"

lemma ConfigForDirection_Set [simp]:
  "ConfigForDirection d (SetForDirection d' s e) =
     (if d = d' then apply_setting s (ConfigForDirection d e) else ConfigForDirection d e)"
  by (simp add: ConfigForDirection_def SetForDirection_def)

text \<open>What a setter does to one direction is what the getters of both directions then answer.\<close>

lemma load_after_Set:
  "load_for_direction getter d (SetForDirection d' s e) =
     (if d = d' then getter (apply_setting s (ConfigForDirection d e)) else load_for_direction getter d e)"
  by (simp add: load_for_direction_def)

section \<open>The ranges every setter keeps\<close>

definition rate_ok :: "float32 \<Rightarrow> bool" where
  "rate_ok r \<longleftrightarrow> r = NaN \<or> unit_rate r"

definition config_ok :: "dir_config \<Rightarrow> bool" where
  "config_ok c \<longleftrightarrow>
     0 \<le> delay_ms c \<and> in_int32 (delay_ms c) \<and>
     0 \<le> delay_jitter_ms c \<and> delay_jitter_ms c \<le> kMaxDelayJitterMs \<and>
     0 \<le> throttle_kbytes_per_sec c \<and> throttle_kbytes_per_sec c \<le> kMaxThrottleKBytesPerSec \<and>
     1 \<le> burst_drop_length c \<and> burst_drop_length c \<le> kMaxBurstDropLength \<and>
     kDefaultDuplicateCopies \<le> duplicate_count c \<and> duplicate_count c \<le> kMaxDuplicateCopies \<and>
     rate_ok (burst_drop_rate c) \<and> rate_ok (drop_rate c) \<and> rate_ok (duplicate_rate c)"

text \<open>The arguments are C++ values: an \<open>int\<close> has 32 bits.\<close>

fun setting_typed :: "setting \<Rightarrow> bool" where
  "setting_typed (DelayMs v) = in_int32 v"
| "setting_typed (DelayJitterMs v) = in_int32 v"
| "setting_typed (ThrottleKBytesPerSec v) = in_int32 v"
| "setting_typed (BurstDropLength v) = in_int32 v"
| "setting_typed (DuplicateCount v) = in_int32 v"
| "setting_typed _ = True"

lemma rate_ok_clamp [simp]: "rate_ok (clamp_float v (Fin 0) (Fin 1))"
  by (cases "v = NaN") (simp_all add: rate_ok_def clamp_float_unit)

lemma config_ok_init: "config_ok dir_config_init"
  by (simp add: config_ok_def dir_config_init_def limit_defs in_int32_def rate_ok_def)

lemma apply_setting_ok [inv_intros]:
  "setting_typed s \<Longrightarrow> config_ok c \<Longrightarrow> config_ok (apply_setting s c)"
  by (cases s) (auto simp: config_ok_def cfg_simps clamp_int_def limit_defs in_int32_def Let_def)

lemma apply_settings_ok:
  "\<forall>s \<in> set ss. setting_typed s \<Longrightarrow> config_ok c \<Longrightarrow> config_ok (fold apply_setting ss c)"
  by (induction ss arbitrary: c) (simp_all add: apply_setting_ok)

text \<open>No overflow on the way from the setting to the snapshot.\<close>

lemma ThrottleBytes_exact:
  assumes "config_ok c"
  shows "uint (ThrottleBytesPerSecond c) = throttle_kbytes_per_sec c * 1024"
proof -
  have b: "0 \<le> throttle_kbytes_per_sec c" "throttle_kbytes_per_sec c \<le> 10240"
    using assms by (simp_all add: config_ok_def limit_defs)
  have "ThrottleBytesPerSecond c = of_int (throttle_kbytes_per_sec c * 1024)"
    by (simp add: ThrottleBytesPerSecond_def)
  then have "uint (ThrottleBytesPerSecond c) = take_bit 64 (throttle_kbytes_per_sec c * 1024)"
    by (simp only: uint_word_of_int_eq) simp
  also have "\<dots> = throttle_kbytes_per_sec c * 1024"
    using b by (intro take_bit_int_eq_self) auto
  finally show ?thesis .
qed

text \<open>The revision moves exactly when the stored rate does.\<close>

lemma SetThrottle_revision:
  "throttle_revision (SetThrottleKBytesPerSec v c) =
     throttle_revision c +
       (if throttle_kbytes_per_sec (SetThrottleKBytesPerSec v c) = throttle_kbytes_per_sec c then 0 else 1)"
  by (simp add: SetThrottleKBytesPerSec_def Let_def)

lemma other_settings_keep_throttle:
  "\<forall>v. s \<noteq> ThrottleKBytesPerSec v \<Longrightarrow>
     throttle_revision (apply_setting s c) = throttle_revision c \<and>
     throttle_kbytes_per_sec (apply_setting s c) = throttle_kbytes_per_sec c"
  by (cases s) (simp_all add: cfg_simps)

section \<open>Rate draws\<close>

definition ShouldApplyRate :: "'g rng_ops \<Rightarrow> float32 \<Rightarrow> 'g \<Rightarrow> bool \<times> 'g" where
  "ShouldApplyRate R rate g =
     (if f_le rate (Fin 0) then (False, g)
      else if f_le (Fin 1) rate then (True, g)
      else (case draw_real R g of (u, g') \<Rightarrow> (f_less (Fin u) rate, g')))"

definition ShouldDrop :: "'g rng_ops \<Rightarrow> float32 \<Rightarrow> 'g \<Rightarrow> bool \<times> 'g" where
  "ShouldDrop R rate g = ShouldApplyRate R rate g"

lemma ShouldApplyRate_zero [simp]: "ShouldApplyRate R (Fin 0) g = (False, g)"
  by (simp add: ShouldApplyRate_def f_le_def)

lemma ShouldApplyRate_one [simp]: "ShouldApplyRate R (Fin 1) g = (True, g)"
  by (simp add: ShouldApplyRate_def f_le_def)

text \<open>A NaN that a setter let through never applies.\<close>

lemma ShouldApplyRate_NaN [simp]: "fst (ShouldApplyRate R NaN g) = False"
  by (simp add: ShouldApplyRate_def f_le_def split: prod.split)

lemma ShouldApplyRate_between:
  assumes "0 < q" and "q < 1" and "draw_real R g = (u, g')"
  shows "ShouldApplyRate R (Fin q) g = (u < q, g')"
  using assms by (simp add: ShouldApplyRate_def f_le_def)

end
