(* ===== verification/Effect_Engine.thy ===== *)
theory Effect_Engine
  imports Effect_Config
begin

unbundle bit_operations_syntax

text \<open>
  The effect engine (include/core/PacketEffectEngine.h, src/core/PacketEffectEngine.cpp): for one packet
  at one time it decides on a drop, a number of copies and a release time for each copy. The state of
  a direction is the random engine, the rest of a running burst, the end of the throttle's backlog and
  the last throttle revision seen. Times are nanoseconds of the steady clock.
\<close>

section \<open>Effects and emissions\<close>

datatype effect_kind = kDrop | kDelay | kDuplicate | kBandwidthThrottle | kBurstDrop | kDelayJitter

fun ToMask :: "effect_kind \<Rightarrow> u8" where
  "ToMask kDrop = 1"
| "ToMask kDelay = 2"
| "ToMask kDuplicate = 4"
| "ToMask kBandwidthThrottle = 8"
| "ToMask kBurstDrop = 16"
| "ToMask kDelayJitter = 32"

record emission =
  applied_effects :: u8
  immediate_packets :: "owned_packet list"
  scheduled_packets :: "scheduled_packet list"

definition emission_init :: emission where
  "emission_init = \<lparr>applied_effects = 0, immediate_packets = [], scheduled_packets = []\<rparr>"

definition AddImmediate :: "owned_packet \<Rightarrow> emission \<Rightarrow> emission" where
  "AddImmediate p em = em\<lparr>immediate_packets := immediate_packets em @ [p]\<rparr>"

definition AddScheduled :: "owned_packet \<Rightarrow> int \<Rightarrow> emission \<Rightarrow> emission" where
  "AddScheduled p t em = em\<lparr>scheduled_packets := scheduled_packets em @ [\<lparr>packet = p, release_at = t\<rparr>]\<rparr>"

text \<open>\<open>emission.applied_effects |= ToMask(kind)\<close>\<close>

definition add_effect :: "effect_kind \<Rightarrow> emission \<Rightarrow> emission" where
  "add_effect k em = em\<lparr>applied_effects := applied_effects em OR ToMask k\<rparr>"

definition HasEffect :: "effect_kind \<Rightarrow> emission \<Rightarrow> bool" where
  "HasEffect k em \<longleftrightarrow> applied_effects em AND ToMask k \<noteq> 0"

definition ImmediateCount :: "emission \<Rightarrow> nat" where
  "ImmediateCount em = length (immediate_packets em)"

definition ScheduledCount :: "emission \<Rightarrow> nat" where
  "ScheduledCount em = length (scheduled_packets em)"

definition TotalEmittedCount :: "emission \<Rightarrow> nat" where
  "TotalEmittedCount em = ImmediateCount em + ScheduledCount em"

section \<open>The engine of one direction\<close>

record 'g dir_engine =
  rng :: 'g
  burst_packets_remaining :: int
  next_throttle_release_at :: int
  last_throttle_revision :: u64

definition dir_engine_init :: "'g \<Rightarrow> 'g dir_engine" where
  "dir_engine_init seed =
     \<lparr>rng = seed, burst_packets_remaining = 0, next_throttle_release_at = 0, last_throttle_revision = 0\<rparr>"

definition TransmissionTimeForPacket :: "nat \<Rightarrow> u64 \<Rightarrow> int" where
  "TransmissionTimeForPacket packet_length throttle_bytes_per_second =
     (if packet_length = 0 \<or> throttle_bytes_per_second = 0 then 0
      else
        let packet_bytes = of_nat packet_length :: u64;
            transmission_nanos =
              (packet_bytes * 1000000000 + throttle_bytes_per_second - 1) div throttle_bytes_per_second
        in uint (max transmission_nanos 1))"

definition ResetThrottleStateIfNeeded :: "dir_snapshot \<Rightarrow> 'g dir_engine \<Rightarrow> 'g dir_engine" where
  "ResetThrottleStateIfNeeded snap e =
     (if snap_throttle_revision snap \<noteq> last_throttle_revision e then
        e\<lparr>next_throttle_release_at := 0, last_throttle_revision := snap_throttle_revision snap\<rparr>
      else e)"

definition draw_rate :: "'g rng_ops \<Rightarrow> float32 \<Rightarrow> 'g dir_engine \<Rightarrow> bool \<times> 'g dir_engine" where
  "draw_rate R rate e = (case ShouldApplyRate R rate (rng e) of (b, g) \<Rightarrow> (b, e\<lparr>rng := g\<rparr>))"

definition ShouldDropPacket ::
  "'g rng_ops \<Rightarrow> dir_snapshot \<Rightarrow> emission \<Rightarrow> 'g dir_engine \<Rightarrow> bool \<times> emission \<times> 'g dir_engine" where
  "ShouldDropPacket R snap em e =
     (if \<not> snap_burst_drop_enabled snap then
        (let e = e\<lparr>burst_packets_remaining := 0\<rparr>;
             (dropped, e) = draw_rate R (snap_drop_rate snap) e
         in if dropped then (True, add_effect kDrop em, e) else (False, em, e))
      else if burst_packets_remaining e > 0 then
        (True, add_effect kBurstDrop (add_effect kDrop em),
         e\<lparr>burst_packets_remaining := burst_packets_remaining e - 1\<rparr>)
      else
        (let (started, e) = draw_rate R (snap_burst_drop_rate snap) e in
         if started then
           (True, add_effect kBurstDrop (add_effect kDrop em),
            e\<lparr>burst_packets_remaining := snap_burst_drop_length snap - 1\<rparr>)
         else (False, em, e)))"

text \<open>The delay is in milliseconds.\<close>

definition ResolveScheduledDelay ::
  "'g rng_ops \<Rightarrow> dir_snapshot \<Rightarrow> emission \<Rightarrow> 'g dir_engine \<Rightarrow> int \<times> emission \<times> 'g dir_engine" where
  "ResolveScheduledDelay R snap em e =
     (let scheduled_delay = snap_delay snap;
          em = (if snap_delay snap > 0 then add_effect kDelay em else em)
      in if snap_delay_jitter_ms snap > 0 then
           (case draw_int R 0 (snap_delay_jitter_ms snap) (rng e) of
              (jitter_ms, g) \<Rightarrow> (scheduled_delay + jitter_ms, add_effect kDelayJitter em, e\<lparr>rng := g\<rparr>))
         else (scheduled_delay, em, e))"

text \<open>
  The loop over the copies: its state is \<open>throttle_release_at\<close>, \<open>applied_throttle\<close> and the emission.
\<close>

fun emit_loop ::
  "owned_packet \<Rightarrow> int \<Rightarrow> int \<Rightarrow> bool \<Rightarrow> int \<Rightarrow> nat \<Rightarrow> int \<times> bool \<times> emission \<Rightarrow> int \<times> bool \<times> emission" where
  "emit_loop p now base_release_at has_throttle transmission_time 0 st = st"
| "emit_loop p now base_release_at has_throttle transmission_time (Suc k)
     (throttle_release_at, applied_throttle, em) =
     (let throttled = max base_release_at throttle_release_at;
          release_at = (if has_throttle then throttled else base_release_at);
          applied_throttle' = (applied_throttle \<or> has_throttle \<and> throttled > base_release_at);
          throttle_release_at' =
            (if has_throttle then throttled + transmission_time else throttle_release_at);
          em' = (if release_at \<le> now then AddImmediate p em else AddScheduled p release_at em)
      in emit_loop p now base_release_at has_throttle transmission_time k
           (throttle_release_at', applied_throttle', em'))"

definition EmitPacketCopies ::
  "owned_packet \<Rightarrow> nat \<Rightarrow> int \<Rightarrow> int \<Rightarrow> u64 \<Rightarrow> emission \<Rightarrow> 'g dir_engine \<Rightarrow> emission \<times> 'g dir_engine" where
  "EmitPacketCopies p total_copy_count now scheduled_delay bps em e =
     (let has_throttle = bps > 0;
          base_release_at = now + scheduled_delay * ns_per_ms;
          throttle_release_at =
            (if next_throttle_release_at e < now then now else next_throttle_release_at e);
          transmission_time = TransmissionTimeForPacket (unat (pkt_length p)) bps;
          (throttle_release_at, applied_throttle, em) =
            emit_loop p now base_release_at has_throttle transmission_time total_copy_count
              (throttle_release_at, False, em)
      in if has_throttle then
           (if applied_throttle then add_effect kBandwidthThrottle em else em,
            e\<lparr>next_throttle_release_at := throttle_release_at\<rparr>)
         else (em, e))"

definition dir_Process ::
  "'g rng_ops \<Rightarrow> dir_snapshot \<Rightarrow> owned_packet \<Rightarrow> int \<Rightarrow> 'g dir_engine \<Rightarrow> emission \<times> 'g dir_engine" where
  "dir_Process R snap p now e =
     (let e = ResetThrottleStateIfNeeded snap e;
          (dropped, em, e) = ShouldDropPacket R snap emission_init e
      in if dropped then (em, e)
         else
           (let (duplicated, e) =
                  (if snap_duplicate_count snap > 0 then draw_rate R (snap_duplicate_rate snap) e
                   else (False, e));
                total_copy_count = (if duplicated then 1 + nat (snap_duplicate_count snap) else 1);
                em = (if duplicated then add_effect kDuplicate em else em);
                (scheduled_delay, em, e) = ResolveScheduledDelay R snap em e
            in EmitPacketCopies p total_copy_count now scheduled_delay
                 (snap_throttle_bytes_per_second snap) em e))"

section \<open>Both directions\<close>

record 'g effect_engine =
  outbound_engine :: "'g dir_engine"
  inbound_engine :: "'g dir_engine"

definition effect_engine_init :: "'g \<Rightarrow> 'g \<Rightarrow> 'g effect_engine" where
  "effect_engine_init s1 s2 =
     \<lparr>outbound_engine = dir_engine_init s1, inbound_engine = dir_engine_init s2\<rparr>"

definition Process ::
  "'g rng_ops \<Rightarrow> effect_config \<Rightarrow> owned_packet \<Rightarrow> int \<Rightarrow> 'g effect_engine \<Rightarrow> emission \<times> 'g effect_engine" where
  "Process R cfg p now e =
     (if is_outbound (metadata p) then
        (case dir_Process R (Snapshot (outbound cfg)) p now (outbound_engine e) of
           (em, d) \<Rightarrow> (em, e\<lparr>outbound_engine := d\<rparr>))
      else
        (case dir_Process R (Snapshot (inbound cfg)) p now (inbound_engine e) of
           (em, d) \<Rightarrow> (em, e\<lparr>inbound_engine := d\<rparr>)))"

section \<open>Effect masks\<close>

lemma HasEffect_init [simp]: "\<not> HasEffect k emission_init"
  by (simp add: HasEffect_def emission_init_def)

lemma HasEffect_add [simp]: "HasEffect k (add_effect k' em) \<longleftrightarrow> k = k' \<or> HasEffect k em"
  by (cases k; cases k') (simp_all add: HasEffect_def add_effect_def and.commute [of _ "ToMask _"]
      bit.conj_disj_distrib2 bit.conj_disj_distrib)

lemma add_effect_sel [simp]:
  "immediate_packets (add_effect k em) = immediate_packets em"
  "scheduled_packets (add_effect k em) = scheduled_packets em"
  by (simp_all add: add_effect_def)

lemma draw_rate_frame [simp]:
  "burst_packets_remaining (snd (draw_rate R r e)) = burst_packets_remaining e"
  "next_throttle_release_at (snd (draw_rate R r e)) = next_throttle_release_at e"
  "last_throttle_revision (snd (draw_rate R r e)) = last_throttle_revision e"
  by (simp_all add: draw_rate_def split: prod.split)


section \<open>The copies of one packet\<close>

lemma draw_rate_eq:
  "draw_rate R r e = (b, e') \<Longrightarrow>
     burst_packets_remaining e' = burst_packets_remaining e \<and>
     next_throttle_release_at e' = next_throttle_release_at e \<and>
     last_throttle_revision e' = last_throttle_revision e"
  using draw_rate_frame [of R r e] by simp

text \<open>The release times the loop computes, one per copy.\<close>

fun copy_times :: "int \<Rightarrow> bool \<Rightarrow> int \<Rightarrow> nat \<Rightarrow> int \<Rightarrow> int list" where
  "copy_times base has_throttle tx 0 c = []"
| "copy_times base has_throttle tx (Suc k) c =
     (if has_throttle then max base c # copy_times base has_throttle tx k (max base c + tx)
      else base # copy_times base has_throttle tx k c)"

lemma length_copy_times [simp]: "length (copy_times base h tx k c) = k"
  by (induction base h tx k c rule: copy_times.induct) simp_all

lemma copy_times_unthrottled [simp]: "copy_times base False tx k c = replicate k base"
  by (induction k) simp_all

lemma copy_times_ge: "t \<in> set (copy_times base h tx k c) \<Longrightarrow> base \<le> t"
proof (induction k arbitrary: c)
  case (Suc k)
  from Suc.prems Suc.IH show ?case by (cases h) (auto simp del: copy_times_unthrottled)
qed simp

lemma copy_times_start:
  "0 \<le> tx \<Longrightarrow> t \<in> set (copy_times base True tx k c) \<Longrightarrow> c \<le> t"
  by (induction k arbitrary: c) force+

lemma copy_times_sorted: "0 \<le> tx \<Longrightarrow> sorted (copy_times base h tx k c)"
proof (cases h)
  case True
  assume "0 \<le> tx"
  have "sorted (copy_times base True tx k c)"
  proof (induction k arbitrary: c)
    case (Suc k)
    have "max base c \<le> t" if "t \<in> set (copy_times base True tx k (max base c + tx))" for t
      using copy_times_start [OF \<open>0 \<le> tx\<close> that] \<open>0 \<le> tx\<close> by linarith
    with Suc.IH [of "max base c + tx"] show ?case by (simp only: copy_times.simps if_True sorted_simps) blast
  qed simp
  with True show ?thesis by simp
next
  case False
  have "sorted (replicate k base)" by (induction k) auto
  with False show ?thesis by simp
qed

text \<open>With a backlog that ends before the base time the first copy is not held back.\<close>

lemma copy_times_prompt: "c \<le> base \<Longrightarrow> 0 < k \<Longrightarrow> hd (copy_times base h tx k c) = base"
  by (cases k) auto

lemma emit_loop_spec:
  assumes "emit_loop p now base h tx k (c, ap, em) = (c', ap', em')"
  shows "let ts = copy_times base h tx k c in
    immediate_packets em' = immediate_packets em @ replicate (length (filter (\<lambda>t. t \<le> now) ts)) p \<and>
    scheduled_packets em' =
      scheduled_packets em @ map (\<lambda>t. \<lparr>packet = p, release_at = t\<rparr>) (filter (\<lambda>t. now < t) ts) \<and>
    applied_effects em' = applied_effects em \<and>
    (ap' \<longleftrightarrow> ap \<or> h \<and> (\<exists>t \<in> set ts. base < t)) \<and>
    c' = (if h \<and> ts \<noteq> [] then last ts + tx else c)"
  using assms
proof (induction k arbitrary: c ap em)
  case 0
  then show ?case by simp
next
  case (Suc k)
  let ?t = "if h then max base c else base" and ?c1 = "if h then max base c + tx else c"
  let ?em = "if ?t \<le> now then AddImmediate p em else AddScheduled p ?t em"
  let ?ap = "ap \<or> h \<and> max base c > base"
  have "emit_loop p now base h tx k (?c1, ?ap, ?em) = (c', ap', em')"
    using Suc.prems by (simp add: Let_def)
  note IH = Suc.IH [OF this, unfolded Let_def]
  have ts: "copy_times base h tx (Suc k) c = ?t # copy_times base h tx k ?c1"
    by simp
  have imm: "immediate_packets ?em = immediate_packets em @ (if ?t \<le> now then [p] else [])"
    and sch: "scheduled_packets ?em =
      scheduled_packets em @ (if now < ?t then [\<lparr>packet = p, release_at = ?t\<rparr>] else [])"
    and eff: "applied_effects ?em = applied_effects em"
    by (auto simp: AddImmediate_def AddScheduled_def)
  have ne: "copy_times base h tx k ?c1 = [] \<longleftrightarrow> k = 0"
    by (metis length_copy_times length_0_conv)
  show ?case
    unfolding Let_def ts
    using IH imm sch eff ne by (cases "k = 0") auto
qed

section \<open>One packet\<close>

abbreviation reset_next :: "dir_snapshot \<Rightarrow> 'g dir_engine \<Rightarrow> int" where
  "reset_next snap e \<equiv> next_throttle_release_at (ResetThrottleStateIfNeeded snap e)"

abbreviation tx_time :: "owned_packet \<Rightarrow> dir_snapshot \<Rightarrow> int" where
  "tx_time p snap \<equiv> TransmissionTimeForPacket (unat (pkt_length p)) (snap_throttle_bytes_per_second snap)"

definition dropped_outcome :: "dir_snapshot \<Rightarrow> 'g dir_engine \<Rightarrow> emission \<Rightarrow> 'g dir_engine \<Rightarrow> bool" where
  "dropped_outcome snap e em e' \<longleftrightarrow>
     immediate_packets em = [] \<and> scheduled_packets em = [] \<and> HasEffect kDrop em \<and>
     (\<forall>k. HasEffect k em \<longrightarrow> k = kDrop \<or> k = kBurstDrop) \<and>
     next_throttle_release_at e' = reset_next snap e"

definition kept_outcome ::
  "dir_snapshot \<Rightarrow> owned_packet \<Rightarrow> int \<Rightarrow> 'g dir_engine \<Rightarrow> nat \<Rightarrow> int \<Rightarrow> emission \<Rightarrow> 'g dir_engine \<Rightarrow> bool" where
  "kept_outcome snap p now e k d em e' \<longleftrightarrow>
     (let base = now + d * ns_per_ms;
          h = snap_throttle_bytes_per_second snap > 0;
          ts = copy_times base h (tx_time p snap) k (max now (reset_next snap e))
      in \<not> HasEffect kDrop em \<and> \<not> HasEffect kBurstDrop em \<and>
         (HasEffect kDuplicate em \<and> 0 < snap_duplicate_count snap \<and> k = 1 + nat (snap_duplicate_count snap) \<or>
          \<not> HasEffect kDuplicate em \<and> k = 1) \<and>
         snap_delay snap \<le> d \<and> d \<le> snap_delay snap + max 0 (snap_delay_jitter_ms snap) \<and>
         (HasEffect kDelay em \<longleftrightarrow> snap_delay snap > 0) \<and>
         (HasEffect kDelayJitter em \<longleftrightarrow> snap_delay_jitter_ms snap > 0) \<and>
         (HasEffect kBandwidthThrottle em \<longleftrightarrow> h \<and> (\<exists>t \<in> set ts. base < t)) \<and>
         immediate_packets em = replicate (length (filter (\<lambda>t. t \<le> now) ts)) p \<and>
         scheduled_packets em = map (\<lambda>t. \<lparr>packet = p, release_at = t\<rparr>) (filter (\<lambda>t. now < t) ts) \<and>
         next_throttle_release_at e' = (if h then last ts + tx_time p snap else reset_next snap e))"

lemma EmitPacketCopies_spec:
  assumes "EmitPacketCopies p k now d bps em e = (em', e')" and "0 < k"
    and "immediate_packets em = []" and "scheduled_packets em = []"
  shows "let base = now + d * ns_per_ms; tx = TransmissionTimeForPacket (unat (pkt_length p)) bps;
      ts = copy_times base (bps > 0) tx k (max now (next_throttle_release_at e))
    in immediate_packets em' = replicate (length (filter (\<lambda>t. t \<le> now) ts)) p \<and>
       scheduled_packets em' = map (\<lambda>t. \<lparr>packet = p, release_at = t\<rparr>) (filter (\<lambda>t. now < t) ts) \<and>
       (\<forall>x. HasEffect x em' \<longleftrightarrow>
          HasEffect x em \<or> x = kBandwidthThrottle \<and> bps > 0 \<and> (\<exists>t \<in> set ts. base < t)) \<and>
       next_throttle_release_at e' = (if bps > 0 then last ts + tx else next_throttle_release_at e) \<and>
       burst_packets_remaining e' = burst_packets_remaining e \<and>
       last_throttle_revision e' = last_throttle_revision e \<and> rng e' = rng e"
proof -
  let ?b = "now + d * ns_per_ms" and ?tx = "TransmissionTimeForPacket (unat (pkt_length p)) bps"
  have c: "(if next_throttle_release_at e < now then now else next_throttle_release_at e) =
      max now (next_throttle_release_at e)" by auto
  obtain c' ap em1 where l: "emit_loop p now ?b (bps > 0) ?tx k
      (max now (next_throttle_release_at e), False, em) = (c', ap, em1)"
    by (metis prod_cases3)
  have ne: "copy_times ?b (bps > 0) ?tx k (max now (next_throttle_release_at e)) \<noteq> []"
    using assms(2) by (metis length_copy_times less_numeral_extra(3) list.size(3))
  note s = emit_loop_spec [OF l, unfolded Let_def]
  have eff: "HasEffect x em1 = HasEffect x em" for x
    using s by (simp add: HasEffect_def)
  from assms(1) l have "em' = (if bps > 0 \<and> ap then add_effect kBandwidthThrottle em1 else em1)"
    and "e' = (if bps > 0 then e\<lparr>next_throttle_release_at := c'\<rparr> else e)"
    by (auto simp: EmitPacketCopies_def Let_def c split: if_splits)
  with s eff ne assms(3,4) show ?thesis by (auto simp: Let_def)
qed

lemma ResetThrottle_frame [simp]:
  "rng (ResetThrottleStateIfNeeded snap e) = rng e"
  "burst_packets_remaining (ResetThrottleStateIfNeeded snap e) = burst_packets_remaining e"
  "last_throttle_revision (ResetThrottleStateIfNeeded snap e) = snap_throttle_revision snap"
  by (simp_all add: ResetThrottleStateIfNeeded_def)

lemma ShouldDropPacket_spec:
  assumes "ShouldDropPacket R snap emission_init e = (b, em, e')"
  shows "next_throttle_release_at e' = next_throttle_release_at e \<and>
    last_throttle_revision e' = last_throttle_revision e \<and>
    immediate_packets em = [] \<and> scheduled_packets em = [] \<and>
    (\<forall>k. HasEffect k em \<longleftrightarrow> b \<and> (k = kDrop \<or> snap_burst_drop_enabled snap \<and> k = kBurstDrop))"
proof -
  have init: "immediate_packets emission_init = []" "scheduled_packets emission_init = []"
    by (simp_all add: emission_init_def)
  obtain b1 e1 where d1: "draw_rate R (snap_drop_rate snap) (e\<lparr>burst_packets_remaining := 0\<rparr>) = (b1, e1)"
    by force
  obtain b2 e2 where d2: "draw_rate R (snap_burst_drop_rate snap) e = (b2, e2)" by force
  from draw_rate_eq [OF d1] draw_rate_eq [OF d2]
  have "next_throttle_release_at e1 = next_throttle_release_at e"
    "last_throttle_revision e1 = last_throttle_revision e"
    "next_throttle_release_at e2 = next_throttle_release_at e"
    "last_throttle_revision e2 = last_throttle_revision e" by simp_all
  with assms init d1 d2 show ?thesis
    by (auto simp: ShouldDropPacket_def Let_def split: if_splits)
qed

lemma ResolveScheduledDelay_spec:
  assumes "rng_lawful R" and "ResolveScheduledDelay R snap em e = (d, em', e')"
  shows "snap_delay snap \<le> d \<and> d \<le> snap_delay snap + max 0 (snap_delay_jitter_ms snap) \<and>
    immediate_packets em' = immediate_packets em \<and> scheduled_packets em' = scheduled_packets em \<and>
    (\<forall>k. HasEffect k em' \<longleftrightarrow> HasEffect k em \<or> k = kDelay \<and> snap_delay snap > 0 \<or>
       k = kDelayJitter \<and> snap_delay_jitter_ms snap > 0) \<and>
    next_throttle_release_at e' = next_throttle_release_at e \<and>
    burst_packets_remaining e' = burst_packets_remaining e \<and>
    last_throttle_revision e' = last_throttle_revision e"
proof (cases "snap_delay_jitter_ms snap > 0")
  case True
  obtain j g where j: "draw_int R 0 (snap_delay_jitter_ms snap) (rng e) = (j, g)" by force
  then have "0 \<le> j \<and> j \<le> snap_delay_jitter_ms snap"
    using draw_int_bounds [OF assms(1)] True by (metis less_le)
  with assms(2) j True show ?thesis by (auto simp: ResolveScheduledDelay_def Let_def split: if_splits)
qed (use assms(2) in \<open>auto simp: ResolveScheduledDelay_def Let_def split: if_splits\<close>)

lemma dir_Process_kept:
  assumes "rng_lawful R" and "dir_Process R snap p now e = (em, e')"
    and sd: "ShouldDropPacket R snap emission_init (ResetThrottleStateIfNeeded snap e) = (b, em1, e1)"
    and nb: "\<not> b"
  shows "last_throttle_revision e' = snap_throttle_revision snap \<and> (\<exists>k d. kept_outcome snap p now e k d em e')"
proof -
  let ?e0 = "ResetThrottleStateIfNeeded snap e"
  note sp = ShouldDropPacket_spec [OF sd]
  obtain dup e2 where du: "(if snap_duplicate_count snap > 0 then draw_rate R (snap_duplicate_rate snap) e1
      else (False, e1)) = (dup, e2)" by force
  then have d: "next_throttle_release_at e2 = next_throttle_release_at e1"
    "last_throttle_revision e2 = last_throttle_revision e1" "dup \<Longrightarrow> snap_duplicate_count snap > 0"
    by (auto dest: draw_rate_eq split: if_splits)
  let ?k = "if dup then 1 + nat (snap_duplicate_count snap) else 1"
  let ?em2 = "if dup then add_effect kDuplicate em1 else em1"
  obtain dl em3 e3 where rd: "ResolveScheduledDelay R snap ?em2 e2 = (dl, em3, e3)"
    by (metis prod_cases3)
  note rs = ResolveScheduledDelay_spec [OF assms(1) rd]
  have "dir_Process R snap p now e =
      EmitPacketCopies p ?k now dl (snap_throttle_bytes_per_second snap) em3 e3"
    using nb by (simp only: dir_Process_def Let_def sd du rd prod.case if_False)
  then have ep: "EmitPacketCopies p ?k now dl (snap_throttle_bytes_per_second snap) em3 e3 = (em, e')"
    using assms(2) by simp
  have "0 < ?k" "immediate_packets em3 = []" "scheduled_packets em3 = []"
    using rs sp by (auto split: if_splits)
  note es = EmitPacketCopies_spec [OF ep this, unfolded Let_def]
  have n: "next_throttle_release_at e3 = next_throttle_release_at ?e0"
    using rs d sp by simp
  have H: "HasEffect x em3 \<longleftrightarrow> x = kDuplicate \<and> dup \<or> x = kDelay \<and> snap_delay snap > 0 \<or>
      x = kDelayJitter \<and> snap_delay_jitter_ms snap > 0" for x
    using rs sp nb by auto
  have bounds: "snap_delay snap \<le> dl" "dl \<le> snap_delay snap + max 0 (snap_delay_jitter_ms snap)"
    using rs by simp_all
  note imm = es [THEN conjunct1] and sch = es [THEN conjunct2, THEN conjunct1]
    and eff = es [THEN conjunct2, THEN conjunct2, THEN conjunct1, THEN spec]
    and nxt = es [THEN conjunct2, THEN conjunct2, THEN conjunct2, THEN conjunct1]
  have "kept_outcome snap p now e ?k dl em e'"
    unfolding kept_outcome_def Let_def
  proof (intro conjI)
    show "HasEffect kDuplicate em \<and> 0 < snap_duplicate_count snap \<and> ?k = 1 + nat (snap_duplicate_count snap) \<or>
        \<not> HasEffect kDuplicate em \<and> ?k = 1"
      using d(3) by (cases dup) (simp_all only: eff H, simp_all)
  qed (simp_all only: eff H imm sch nxt n bounds effect_kind.distinct simp_thms if_True if_False)
  moreover have "last_throttle_revision e' = snap_throttle_revision snap"
    using es rs d sp by simp
  ultimately show ?thesis by blast
qed

lemma dir_Process_outcome:
  assumes "rng_lawful R" and "dir_Process R snap p now e = (em, e')"
  shows "last_throttle_revision e' = snap_throttle_revision snap \<and>
    (dropped_outcome snap e em e' \<or> (\<exists>k d. kept_outcome snap p now e k d em e'))"
proof -
  let ?e0 = "ResetThrottleStateIfNeeded snap e"
  obtain b em1 e1 where sd: "ShouldDropPacket R snap emission_init ?e0 = (b, em1, e1)"
    by (metis prod_cases3)
  show ?thesis
  proof (cases b)
    case True
    with assms(2) sd have "em = em1" "e' = e1" by (simp_all add: dir_Process_def Let_def)
    with ShouldDropPacket_spec [OF sd] True show ?thesis by (auto simp: dropped_outcome_def)
  next
    case False
    from dir_Process_kept [OF assms sd False] show ?thesis by blast
  qed
qed

end
