(* ===== verification/Effect_Laws.thy ===== *)
theory Effect_Laws
  imports Effect_Engine
begin

text \<open>
  What the effect engine promises over runs of packets: the throttle keeps the releases of a direction
  at least one transmission time apart, so it never lets more bytes through than its rate allows; a
  burst drops a packet count that is fixed when it starts; a configuration without effects passes every
  packet on at once.
\<close>

section \<open>Transmission times\<close>

lemma unat_mult_no_wrap:
  "unat (a :: 'a::len word) * unat b < 2 ^ LENGTH('a) \<Longrightarrow> unat (a * b) = unat a * unat b"
  by (simp add: unat_word_ariths)

text \<open>At the sizes and rates the program allows nothing wraps: the result is the rounded-up quotient.\<close>

lemma TransmissionTime_exact:
  assumes "n \<le> kStandardMtuSize" and "unat bps \<le> 10240 * 1024" and "0 < n" and "0 < bps"
  shows "TransmissionTimeForPacket n bps =
    (int n * 1000000000 + int (unat bps) - 1) div int (unat bps)"
    and "1 \<le> TransmissionTimeForPacket n bps"
    and "int n * 1000000000 \<le> int (unat bps) * TransmissionTimeForPacket n bps"
proof -
  let ?b = "unat bps" and ?p = "of_nat n :: u64"
  have b0: "0 < ?b" using assms(4) by (simp add: word_less_nat_alt)
  have n: "n \<le> 1500" using assms(1) by (simp add: kStandardMtuSize_def)
  then have up: "unat ?p = n" by (simp add: unat_of_nat take_bit_nat_eq_self_iff)
  have m: "unat (?p * 1000000000) = n * 1000000000"
    using n up by (subst unat_mult_no_wrap) simp_all
  have a: "unat (?p * 1000000000 + bps) = n * 1000000000 + ?b"
    using n m assms(2) by (subst unat_add_no_wrap) simp_all
  have "(1 :: u64) \<le> ?p * 1000000000 + bps"
    using a b0 by (simp add: word_le_nat_alt)
  then have s: "unat (?p * 1000000000 + bps - 1) = n * 1000000000 + ?b - 1"
    using a by (simp add: unat_sub)
  then have d: "unat ((?p * 1000000000 + bps - 1) div bps) = (n * 1000000000 + ?b - 1) div ?b"
    by (simp add: unat_div)
  have ge: "1 \<le> (n * 1000000000 + ?b - 1) div ?b"
  proof -
    have "?b \<le> n * 1000000000 + ?b - 1" using assms(3) by simp
    then show ?thesis using b0 by (simp add: div_greater_zero_iff Suc_le_eq)
  qed
  then have "(1 :: u64) \<le> (?p * 1000000000 + bps - 1) div bps"
    using d by (simp add: word_le_nat_alt)
  then have "TransmissionTimeForPacket n bps = int (unat ((?p * 1000000000 + bps - 1) div bps))"
    using assms(3,4) by (simp add: TransmissionTimeForPacket_def Let_def max_def)
  then have t: "TransmissionTimeForPacket n bps = int ((n * 1000000000 + ?b - 1) div ?b)"
    using d by simp
  then show "1 \<le> TransmissionTimeForPacket n bps" using ge by simp
  show "TransmissionTimeForPacket n bps = (int n * 1000000000 + int ?b - 1) div int ?b"
    using t b0 by (simp add: of_nat_div of_nat_diff)
  have "n * 1000000000 + ?b - 1 < ?b * ((n * 1000000000 + ?b - 1) div ?b) + ?b"
    using b0 by (metis div_mod_decomp mod_less_divisor mult.commute nat_add_left_cancel_less)
  then have "n * 1000000000 \<le> ?b * ((n * 1000000000 + ?b - 1) div ?b)"
    using b0 by linarith
  then have "int (n * 1000000000) \<le> int (?b * ((n * 1000000000 + ?b - 1) div ?b))" by linarith
  then show "int n * 1000000000 \<le> int ?b * TransmissionTimeForPacket n bps"
    using t by simp
qed

lemma TransmissionTime_zero [simp]:
  "TransmissionTimeForPacket 0 bps = 0" "TransmissionTimeForPacket n 0 = 0"
  by (simp_all add: TransmissionTimeForPacket_def)

lemma TransmissionTime_nonneg: "0 \<le> TransmissionTimeForPacket n bps"
  by (simp add: TransmissionTimeForPacket_def Let_def)

lemma TransmissionTime_bytes:
  assumes "n \<le> kStandardMtuSize" and "unat bps \<le> 10240 * 1024" and "0 < bps"
  shows "int n * 1000000000 \<le> int (unat bps) * TransmissionTimeForPacket n bps"
  using TransmissionTime_exact(3) [OF assms(1,2) _ assms(3)] by (cases "n = 0") simp_all

section \<open>Release times of an emission\<close>

definition emission_times :: "int \<Rightarrow> emission \<Rightarrow> int list" where
  "emission_times now em =
     replicate (length (immediate_packets em)) now @ map release_at (scheduled_packets em)"

lemma sorted_split_at: "sorted ts \<Longrightarrow> filter (\<lambda>t. t \<le> c) ts @ filter (\<lambda>t. (c::'a::linorder) < t) ts = ts"
proof (induction ts)
  case (Cons t ts)
  show ?case
  proof (cases "t \<le> c")
    case False
    with Cons.prems have "\<forall>x \<in> set ts. c < x" by fastforce
    then have "filter (\<lambda>t. t \<le> c) ts = []" "filter (\<lambda>t. c < t) ts = ts"
      by (simp_all add: filter_empty_conv filter_id_conv not_le)
    with False show ?thesis by (simp add: not_le)
  qed (use Cons in simp)
qed simp

lemma emission_times_kept:
  assumes "kept_outcome snap p now e k d em e'" and "0 \<le> snap_delay snap"
  shows "emission_times now em = copy_times (now + d * ns_per_ms) (snap_throttle_bytes_per_second snap > 0)
    (tx_time p snap) k (max now (reset_next snap e))"
proof -
  let ?ts = "copy_times (now + d * ns_per_ms) (snap_throttle_bytes_per_second snap > 0)
    (tx_time p snap) k (max now (reset_next snap e))"
  have d: "0 \<le> d" using assms by (simp add: kept_outcome_def Let_def)
  have "now \<le> t" if "t \<in> set ?ts" for t
    using copy_times_ge [OF that] d by (simp add: order.trans [OF _ copy_times_ge [OF that]])
  then have "\<forall>t \<in> set (filter (\<lambda>t. t \<le> now) ?ts). t = now" by (auto intro: antisym)
  then have "replicate (length (filter (\<lambda>t. t \<le> now) ?ts)) now = filter (\<lambda>t. t \<le> now) ?ts"
    by (rule replicate_length_same)
  moreover have "sorted ?ts" by (rule copy_times_sorted) (rule TransmissionTime_nonneg)
  ultimately have "replicate (length (filter (\<lambda>t. t \<le> now) ?ts)) now @ filter (\<lambda>t. now < t) ?ts = ?ts"
    using sorted_split_at [of ?ts now] by simp
  moreover have "emission_times now em =
      replicate (length (filter (\<lambda>t. t \<le> now) ?ts)) now @ filter (\<lambda>t. now < t) ?ts"
    using assms(1) by (simp add: emission_times_def kept_outcome_def Let_def comp_def)
  ultimately show ?thesis by simp
qed

section \<open>Throttle spacing over a run\<close>

text \<open>
  A run processes packets one after the other with the configuration unchanged. \<open>releases\<close> lists the
  copies in the order they are emitted: when each leaves and how long it is.
\<close>

fun dir_run ::
  "'g rng_ops \<Rightarrow> dir_snapshot \<Rightarrow> (owned_packet \<times> int) list \<Rightarrow> 'g dir_engine \<Rightarrow> emission list \<times> 'g dir_engine" where
  "dir_run R snap [] e = ([], e)"
| "dir_run R snap ((p, now) # ps) e =
     (case dir_Process R snap p now e of
        (em, e1) \<Rightarrow> (case dir_run R snap ps e1 of (ems, e2) \<Rightarrow> (em # ems, e2)))"

definition releases :: "(owned_packet \<times> int) list \<Rightarrow> emission list \<Rightarrow> (int \<times> nat) list" where
  "releases ps ems =
     concat (map2 (\<lambda>(p, now) em. map (\<lambda>t. (t, unat (pkt_length p))) (emission_times now em)) ps ems)"

text \<open>\<open>spaced tx c xs\<close>: no release before \<open>c\<close>, and each at least \<open>tx\<close> of its length before the next.\<close>

fun spaced :: "(nat \<Rightarrow> int) \<Rightarrow> int \<Rightarrow> (int \<times> nat) list \<Rightarrow> bool" where
  "spaced tx c [] = True"
| "spaced tx c ((t, l) # xs) = (c \<le> t \<and> spaced tx (t + tx l) xs)"

lemma spaced_weaken: "spaced tx c xs \<Longrightarrow> c' \<le> c \<Longrightarrow> spaced tx c' xs"
  by (cases xs) auto

lemma spaced_append:
  "spaced tx c (xs @ ys) \<longleftrightarrow>
     spaced tx c xs \<and> spaced tx (if xs = [] then c else fst (last xs) + tx (snd (last xs))) ys"
  by (induction xs arbitrary: c) auto

lemma copy_times_spaced:
  "spaced tx c (map (\<lambda>t. (t, l)) (copy_times base True (tx l) k c))"
  by (induction k arbitrary: c) (auto intro: spaced_weaken)

lemma dir_Process_spaced:
  assumes "rng_lawful R" and "dir_Process R snap p now e = (em, e')" and "0 \<le> snap_delay snap"
    and thr: "snap_throttle_bytes_per_second snap > 0"
    and rev: "last_throttle_revision e = snap_throttle_revision snap"
  defines "tx \<equiv> \<lambda>n. TransmissionTimeForPacket n (snap_throttle_bytes_per_second snap)"
    and "xs \<equiv> map (\<lambda>t. (t, unat (pkt_length p))) (emission_times now em)"
  shows "spaced tx (next_throttle_release_at e) xs"
    and "(if xs = [] then next_throttle_release_at e else fst (last xs) + tx (snd (last xs))) =
      next_throttle_release_at e'"
    and "last_throttle_revision e' = snap_throttle_revision snap"
proof -
  have n: "reset_next snap e = next_throttle_release_at e"
    using rev by (simp add: ResetThrottleStateIfNeeded_def)
  note out = dir_Process_outcome [OF assms(1,2)]
  then show "last_throttle_revision e' = snap_throttle_revision snap" by simp
  from out consider "dropped_outcome snap e em e'" | k d where "kept_outcome snap p now e k d em e'" by blast
  then have "spaced tx (next_throttle_release_at e) xs \<and>
    (if xs = [] then next_throttle_release_at e else fst (last xs) + tx (snd (last xs))) = next_throttle_release_at e'"
  proof cases
    case 1
    then show ?thesis using n by (simp add: dropped_outcome_def xs_def emission_times_def)
  next
    case 2
    let ?ts = "copy_times (now + d * ns_per_ms) True (tx (unat (pkt_length p))) k
      (max now (next_throttle_release_at e))"
    have ts: "emission_times now em = ?ts"
      using emission_times_kept [OF 2 assms(3)] thr n by (simp add: tx_def)
    have "k \<noteq> 0" using 2 by (auto simp: kept_outcome_def Let_def)
    then have ne: "?ts \<noteq> []" by (metis length_copy_times list.size(3))
    have "next_throttle_release_at e' = last ?ts + tx (unat (pkt_length p))"
      using 2 thr n by (simp add: kept_outcome_def Let_def tx_def)
    moreover have "spaced tx (next_throttle_release_at e) xs"
      unfolding xs_def ts by (rule spaced_weaken [OF copy_times_spaced]) simp
    ultimately show ?thesis using ne ts by (simp add: xs_def last_map)
  qed
  then show "spaced tx (next_throttle_release_at e) xs"
    and "(if xs = [] then next_throttle_release_at e else fst (last xs) + tx (snd (last xs))) =
      next_throttle_release_at e'" by simp_all
qed

lemma dir_run_spaced:
  assumes "rng_lawful R" and "0 \<le> snap_delay snap" and "snap_throttle_bytes_per_second snap > 0"
    and "last_throttle_revision e = snap_throttle_revision snap"
  shows "spaced (\<lambda>n. TransmissionTimeForPacket n (snap_throttle_bytes_per_second snap))
    (next_throttle_release_at e) (releases ps (fst (dir_run R snap ps e)))"
  using assms(4)
proof (induction ps arbitrary: e)
  case (Cons pn ps)
  obtain p now where pn: "pn = (p, now)" by force
  obtain em e1 where pr: "dir_Process R snap p now e = (em, e1)" by force
  obtain ems e2 where run: "dir_run R snap ps e1 = (ems, e2)" by force
  note s = dir_Process_spaced [OF assms(1) pr assms(2,3) Cons.prems]
  from Cons.IH [OF s(3)] run s(1,2) show ?case
    by (simp add: pn pr releases_def spaced_append split del: if_split)
qed (simp add: releases_def)

text \<open>Spacing bounds the bytes: between two releases only so many fit.\<close>

lemma spaced_bytes:
  assumes "\<And>n. n \<in> set (map snd xs) \<Longrightarrow> int n * 1000000000 \<le> B * tx n"
    and "spaced tx c (xs @ [(t, l)])" and "0 \<le> B"
  shows "int (sum_list (map snd xs)) * 1000000000 \<le> B * (t - c)"
  using assms(1,2)
proof (induction xs arbitrary: c)
  case Nil
  then show ?case using assms(3) by simp
next
  case (Cons x xs)
  obtain t0 l0 where x: "x = (t0, l0)" by force
  from Cons.prems x have "int (sum_list (map snd xs)) * 1000000000 \<le> B * (t - (t0 + tx l0))"
    by (intro Cons.IH) simp_all
  moreover have "int l0 * 1000000000 \<le> B * tx l0" using Cons.prems(1) x by simp
  moreover have "B * (t0 - c) \<ge> 0" using Cons.prems(2) x assms(3) by simp
  ultimately show ?case using x by (simp add: algebra_simps)
qed

lemma spaced_mid: "spaced tx c (ys @ x # zs) \<Longrightarrow> spaced tx (fst x) (x # zs)"
  by (cases x) (auto simp: spaced_append)

lemma spaced_mono: "spaced tx c (xs @ [(t, l)]) \<Longrightarrow> (\<And>n. 0 \<le> tx n) \<Longrightarrow> c \<le> t"
proof (induction xs arbitrary: c)
  case (Cons x xs)
  obtain t0 l0 where x: "x = (t0, l0)" by force
  from Cons x have "t0 + tx l0 \<le> t" by simp
  with Cons.prems(1) Cons.prems(2) [of l0] x show ?case by simp
qed simp

lemma spaced_window:
  assumes sp: "spaced tx c rel" and "i \<le> j" and j: "j < length rel"
    and bytes: "\<And>n. n \<in> snd ` set rel \<Longrightarrow> int n * 1000000000 \<le> B * tx n"
    and "0 \<le> B" and nonneg: "\<And>n. 0 \<le> tx n"
  shows "int (sum_list (map snd (take (j - i) (drop i rel)))) * 1000000000 \<le>
      B * (fst (rel ! j) - fst (rel ! i)) \<and> fst (rel ! i) \<le> fst (rel ! j)"
proof (cases "i = j")
  case False
  let ?ys = "take (j - i) (drop i rel)"
  obtain t l where tl: "rel ! j = (t, l)" by force
  have "take j rel = take i rel @ ?ys" using assms(2) by (metis le_add_diff_inverse take_add)
  then have "rel = take i rel @ ?ys @ (t, l) # drop (Suc j) rel"
    using id_take_nth_drop [OF j] tl by simp
  then have "spaced tx c (take i rel @ ?ys @ [(t, l)] @ drop (Suc j) rel)" using sp by simp
  then obtain c0 where c0: "spaced tx c0 (?ys @ [(t, l)])" by (simp only: spaced_append) blast
  have ys: "?ys = rel ! i # take (j - Suc i) (drop (Suc i) rel)"
    using assms(2) j False by (metis Cons_nth_drop_Suc Suc_diff_Suc le_neq_implies_less less_trans take_Suc_Cons)
  obtain t0 l0 where "rel ! i = (t0, l0)" by force
  with c0 ys have s: "spaced tx (fst (rel ! i)) (?ys @ [(t, l)])" by simp
  have "int n * 1000000000 \<le> B * tx n" if "n \<in> set (map snd ?ys)" for n
    using that bytes by (auto dest!: in_set_takeD in_set_dropD)
  from spaced_bytes [OF this s assms(5)] spaced_mono [OF s nonneg] tl show ?thesis by simp
qed simp

section \<open>Bursts\<close>

lemma dir_Process_burst:
  assumes "snap_burst_drop_enabled snap" and "0 < burst_packets_remaining e"
  shows "\<exists>em. dir_Process R snap p now e =
      (em, (ResetThrottleStateIfNeeded snap e)\<lparr>burst_packets_remaining := burst_packets_remaining e - 1\<rparr>) \<and>
    HasEffect kBurstDrop em \<and> immediate_packets em = [] \<and> scheduled_packets em = []"
  using assms by (simp add: dir_Process_def ShouldDropPacket_def Let_def emission_init_def)

definition burst_dropped :: "emission \<Rightarrow> bool" where
  "burst_dropped em \<longleftrightarrow> HasEffect kBurstDrop em \<and> TotalEmittedCount em = 0"

lemma dir_run_burst:
  assumes "snap_burst_drop_enabled snap" and "int (length ps) \<le> burst_packets_remaining e"
  shows "list_all burst_dropped (fst (dir_run R snap ps e)) \<and>
    burst_packets_remaining (snd (dir_run R snap ps e)) = burst_packets_remaining e - int (length ps) \<and>
    rng (snd (dir_run R snap ps e)) = rng e"
  using assms(2)
proof (induction ps arbitrary: e)
  case (Cons pn ps)
  obtain p now where pn: "pn = (p, now)" by force
  let ?e1 = "(ResetThrottleStateIfNeeded snap e)\<lparr>burst_packets_remaining := burst_packets_remaining e - 1\<rparr>"
  from Cons.prems have "0 < burst_packets_remaining e" by simp
  from dir_Process_burst [OF assms(1) this, of R p now] obtain em where
    em: "dir_Process R snap p now e = (em, ?e1)" "burst_dropped em"
    by (auto simp: burst_dropped_def TotalEmittedCount_def ImmediateCount_def ScheduledCount_def)
  obtain ems e2 where run: "dir_run R snap ps ?e1 = (ems, e2)" by force
  from Cons.IH [of ?e1] Cons.prems run em show ?case by (simp add: pn)
qed simp

lemma dir_Process_starts_burst:
  assumes "rng_lawful R" and "dir_Process R snap p now e = (em, e')" and "HasEffect kBurstDrop em"
    and "burst_packets_remaining e \<le> 0"
  shows "snap_burst_drop_enabled snap" and "burst_packets_remaining e' = snap_burst_drop_length snap - 1"
    and "TotalEmittedCount em = 0"
proof -
  obtain b em1 e1 where sd: "ShouldDropPacket R snap emission_init (ResetThrottleStateIfNeeded snap e) = (b, em1, e1)"
    by (metis prod_cases3)
  have b: "b"
  proof (rule ccontr)
    assume "\<not> b"
    from dir_Process_kept [OF assms(1,2) sd this] assms(3) show False
      by (auto simp: kept_outcome_def Let_def)
  qed
  then have eq: "em = em1" "e' = e1" using assms(2) sd by (simp_all add: dir_Process_def Let_def)
  note sp = ShouldDropPacket_spec [OF sd]
  from sp eq assms(3) show en: "snap_burst_drop_enabled snap" by simp
  show "TotalEmittedCount em = 0"
    using sp eq by (simp add: TotalEmittedCount_def ImmediateCount_def ScheduledCount_def)
  from sd en assms(4) b eq show "burst_packets_remaining e' = snap_burst_drop_length snap - 1"
    by (auto simp: ShouldDropPacket_def Let_def split: if_splits prod.splits)
qed

section \<open>Properties\<close>

lemma config_ok_snapshot:
  assumes "config_ok c"
  shows "0 \<le> snap_delay (Snapshot c)" and "unat (snap_throttle_bytes_per_second (Snapshot c)) \<le> 10240 * 1024"
    and "0 \<le> snap_delay_jitter_ms (Snapshot c)" and "snap_delay_jitter_ms (Snapshot c) \<le> 1000"
    and "0 < snap_duplicate_count (Snapshot c)" and "snap_duplicate_count (Snapshot c) \<le> 64"
    and "1 \<le> snap_burst_drop_length (Snapshot c)" and "snap_burst_drop_length (Snapshot c) \<le> 32"
proof -
  have "uint (ThrottleBytesPerSecond c) \<le> 10240 * 1024"
    using ThrottleBytes_exact [OF assms] assms by (simp add: config_ok_def limit_defs)
  then show "unat (snap_throttle_bytes_per_second (Snapshot c)) \<le> 10240 * 1024"
    by (simp add: Snapshot_def) (metis nat_le_iff of_nat_numeral unat_eq_nat_uint)
qed (use assms in \<open>simp_all add: config_ok_def Snapshot_def limit_defs\<close>)

text \<open>All effects of a direction off; the settings that only shape an effect do not matter.\<close>

definition no_effects :: "dir_config \<Rightarrow> bool" where
  "no_effects c \<longleftrightarrow> delay_ms c = 0 \<and> delay_jitter_ms c = 0 \<and> throttle_kbytes_per_sec c = 0 \<and>
     \<not> burst_drop_enabled c \<and> drop_rate c = Fin 0 \<and> duplicate_rate c = Fin 0"

lemma dir_Process_no_effects:
  assumes "no_effects c"
  shows "fst (dir_Process R (Snapshot c) p now d) =
      \<lparr>applied_effects = 0, immediate_packets = [p], scheduled_packets = []\<rparr> \<and>
    rng (snd (dir_Process R (Snapshot c) p now d)) = rng d"
  using assms
  by (simp add: no_effects_def dir_Process_def ShouldDropPacket_def ResolveScheduledDelay_def EmitPacketCopies_def
      draw_rate_def Snapshot_def ThrottleBytesPerSecond_def emission_init_def AddImmediate_def Let_def)

text \<open>A packet and a configuration for the instances below.\<close>

definition sample_addr :: wd_address where
  "sample_addr = \<lparr>Event = 0, Outbound = True,
     Flow = \<lparr>ProcessId = 7, LocalAddr = [1, 0, 0, 0], RemoteAddr = [2, 0, 0, 0], LocalPort = 3, RemotePort = 4, Protocol = 17\<rparr>,
     addr_rest = []\<rparr>"

definition sample_packet :: "nat \<Rightarrow> owned_packet" where
  "sample_packet n =
     \<lparr>pkt_data = replicate kStandardMtuSize 0, pkt_length = of_nat n, pkt_addr = sample_addr,
      metadata = \<lparr>tuple = TupleFromFlow sample_addr, pid = 7, is_outbound = True\<rparr>\<rparr>"

definition throttled_config :: dir_config where
  "throttled_config = SetThrottleKBytesPerSec 1 dir_config_init"

lemma throttled_config_ok: "config_ok throttled_config"
  using apply_setting_ok [of "ThrottleKBytesPerSec 1" dir_config_init] config_ok_init
  by (simp add: throttled_config_def in_int32_def)

lemma sample_packet_ok: "n \<le> 1500 \<Longrightarrow> packet_ok (sample_packet n)"
  by (simp add: packet_ok_def sample_packet_def kStandardMtuSize_def unat_of_nat take_bit_nat_eq_self_iff)

text \<open>
  C17: the throttle keeps its rate. Over any run of packets with one configuration, whose throttle is on
  and known to the engine, take two releases of the run: the bytes of the releases from the first up to
  the second, the second excluded, are no more than the configured rate allows in the time between
  them. It holds with delay, jitter and duplicates on too, and the releases come in FIFO order.
\<close>

theorem throttle_bandwidth_bound:
  assumes "rng_lawful R" and "config_ok c" and "0 < throttle_kbytes_per_sec c"
    and "\<forall>(p, now) \<in> set ps. packet_ok p"
    and "last_throttle_revision e = throttle_revision c"
    and "rel = releases ps (fst (dir_run R (Snapshot c) ps e))" and "i \<le> j" and "j < length rel"
  shows "int (sum_list (map snd (take (j - i) (drop i rel)))) * 1000000000 \<le>
      throttle_kbytes_per_sec c * 1024 * (fst (rel ! j) - fst (rel ! i)) \<and> fst (rel ! i) \<le> fst (rel ! j)"
proof (rule spaced_window)
  let ?B = "snap_throttle_bytes_per_second (Snapshot c)"
  note sn = config_ok_snapshot [OF assms(2)]
  have uB: "int (unat ?B) = throttle_kbytes_per_sec c * 1024"
    using ThrottleBytes_exact [OF assms(2)] by (simp add: Snapshot_def)
  then have "0 < unat ?B" using assms(3) by linarith
  then have B0: "0 < ?B" by (simp add: word_less_nat_alt)
  show "spaced (\<lambda>n. TransmissionTimeForPacket n ?B) (next_throttle_release_at e) rel"
    using dir_run_spaced [OF assms(1) sn(1) B0, of e ps] assms(5,6) by (simp add: Snapshot_def)
  show "int n * 1000000000 \<le> throttle_kbytes_per_sec c * 1024 * TransmissionTimeForPacket n ?B"
    if n: "n \<in> snd ` set rel" for n
  proof -
    from n obtain p now where "(p, now) \<in> set ps" "n = unat (pkt_length p)"
      using assms(6) by (auto simp: releases_def dest!: set_zip_leftD)
    then have "n \<le> kStandardMtuSize" using assms(4) by (auto simp: packet_ok_def)
    from TransmissionTime_bytes [OF this sn(2) B0] uB show ?thesis by simp
  qed
qed (use assms(3,7,8) in \<open>simp_all add: TransmissionTime_nonneg\<close>)

definition throttled_packets :: "(owned_packet \<times> int) list" where
  "throttled_packets = [(sample_packet 1024, 5), (sample_packet 1, 6)]"

definition throttled_engine :: "unit dir_engine" where
  "throttled_engine = (dir_engine_init ())\<lparr>last_throttle_revision := 1\<rparr>"

lemma throttled_run:
  "releases throttled_packets (fst (dir_run least_rng (Snapshot throttled_config) throttled_packets throttled_engine)) =
   [(5, 1024), (1000000005, 1)]"
  by code_simp

lemma throttle_bandwidth_bound_witness:
  "(1024 :: int) * 1000000000 \<le> 1 * 1024 * (1000000005 - 5)"
proof -
  have c: "0 < throttle_kbytes_per_sec throttled_config"
    "last_throttle_revision throttled_engine = throttle_revision throttled_config"
    "throttle_kbytes_per_sec throttled_config = 1"
    by code_simp+
  have "\<forall>(p, now) \<in> set throttled_packets. packet_ok p"
    by (simp add: throttled_packets_def sample_packet_ok)
  from throttle_bandwidth_bound [OF least_rng_lawful throttled_config_ok c(1) this c(2) throttled_run [symmetric],
      of 0 1] c(3)
  show ?thesis by simp
qed

lemma dir_Process_copies:
  assumes "rng_lawful R" and "config_ok c" and "dir_Process R (Snapshot c) p now e = (em, e')"
  shows "TotalEmittedCount em =
      (if HasEffect kDrop em then 0 else if HasEffect kDuplicate em then 1 + nat (duplicate_count c) else 1) \<and>
    TotalEmittedCount em \<le> 65 \<and>
    set (immediate_packets em) \<union> packet ` set (scheduled_packets em) \<subseteq> {p}"
proof -
  note sn = config_ok_snapshot [OF assms(2)]
  have dc: "snap_duplicate_count (Snapshot c) = duplicate_count c" by (simp add: Snapshot_def)
  from dir_Process_outcome [OF assms(1,3)]
  consider "dropped_outcome (Snapshot c) e em e'" | k d where "kept_outcome (Snapshot c) p now e k d em e'" by blast
  then show ?thesis
  proof cases
    case 1
    then show ?thesis
      by (simp add: dropped_outcome_def TotalEmittedCount_def ImmediateCount_def ScheduledCount_def)
  next
    case 2
    define ts where "ts = copy_times (now + d * ns_per_ms) (snap_throttle_bytes_per_second (Snapshot c) > 0)
      (tx_time p (Snapshot c)) k (max now (reset_next (Snapshot c) e))"
    have em: "immediate_packets em = replicate (length (filter (\<lambda>t. t \<le> now) ts)) p"
      "scheduled_packets em = map (\<lambda>t. \<lparr>packet = p, release_at = t\<rparr>) (filter (\<lambda>t. now < t) ts)"
      using 2 by (simp_all add: kept_outcome_def Let_def ts_def)
    have "length (filter (\<lambda>t. t \<le> now) ts) + length (filter (\<lambda>t. now < t) ts) = k"
      using sum_length_filter_compl [of "\<lambda>t. t \<le> now" ts] by (simp add: not_le ts_def)
    then have "TotalEmittedCount em = k"
      using em by (simp add: TotalEmittedCount_def ImmediateCount_def ScheduledCount_def)
    moreover have "\<not> HasEffect kDrop em"
      "HasEffect kDuplicate em \<and> k = 1 + nat (duplicate_count c) \<or> \<not> HasEffect kDuplicate em \<and> k = 1"
      using 2 dc by (auto simp: kept_outcome_def Let_def)
    moreover have "k \<le> 65" using calculation(3) sn(5,6) dc by auto
    ultimately show ?thesis using em by auto
  qed
qed

text \<open>
  C18: a packet is dropped or copied, never altered. If the emission says so it is dropped and nothing is
  emitted; otherwise exactly one copy leaves, or one more than the configured duplicates, at most 65,
  every copy being the packet itself.
\<close>

theorem process_copies:
  assumes "rng_lawful R" and "config_ok c" and "dir_Process R (Snapshot c) p now e = (em, e')"
  shows "TotalEmittedCount em =
      (if HasEffect kDrop em then 0 else if HasEffect kDuplicate em then 1 + nat (duplicate_count c) else 1) \<and>
    TotalEmittedCount em \<le> 65 \<and>
    set (immediate_packets em) \<union> packet ` set (scheduled_packets em) \<subseteq> {p}"
  using assms by (rule dir_Process_copies)

lemma process_copies_witness:
  "TotalEmittedCount (fst (dir_Process least_rng
      (Snapshot (SetDuplicateRate (Fin 1) (SetDuplicateCount 3 dir_config_init))) (sample_packet 10) 5
      (dir_engine_init ()))) \<le> 65"
proof -
  have "config_ok (SetDuplicateRate (Fin 1) (SetDuplicateCount 3 dir_config_init))"
    using apply_settings_ok [of "[DuplicateCount 3, DuplicateRate (Fin 1)]" dir_config_init] config_ok_init
    by (simp add: in_int32_def)
  from process_copies [OF least_rng_lawful this prod.collapse [symmetric]] show ?thesis by blast
qed

text \<open>
  When copies leave. A copy that is sent at once leaves only when no delay is configured (or the
  delay's sum with the jitter is zero); a scheduled one is due later than now, no earlier than the
  configured delay, and without a throttle no later than the delay plus the jitter's maximum.
\<close>

theorem process_release_window:
  assumes "rng_lawful R" and "config_ok c" and "dir_Process R (Snapshot c) p now e = (em, e')"
  shows "(immediate_packets em \<noteq> [] \<longrightarrow> delay_ms c = 0) \<and>
    (\<forall>s \<in> set (scheduled_packets em). now < release_at s \<and> now + delay_ms c * ns_per_ms \<le> release_at s \<and>
       (throttle_kbytes_per_sec c = 0 \<longrightarrow>
          release_at s \<le> now + (delay_ms c + delay_jitter_ms c) * ns_per_ms))"
proof -
  note sn = config_ok_snapshot [OF assms(2)]
  have dl: "snap_delay (Snapshot c) = delay_ms c" "snap_delay_jitter_ms (Snapshot c) = delay_jitter_ms c"
    by (simp_all add: Snapshot_def)
  from dir_Process_outcome [OF assms(1,3)]
  consider "dropped_outcome (Snapshot c) e em e'" | k d where "kept_outcome (Snapshot c) p now e k d em e'" by blast
  then show ?thesis
  proof cases
    case 1
    then show ?thesis by (simp add: dropped_outcome_def)
  next
    case 2
    define ts where "ts = copy_times (now + d * ns_per_ms) (snap_throttle_bytes_per_second (Snapshot c) > 0)
      (tx_time p (Snapshot c)) k (max now (reset_next (Snapshot c) e))"
    have em: "immediate_packets em = replicate (length (filter (\<lambda>t. t \<le> now) ts)) p"
      "scheduled_packets em = map (\<lambda>t. \<lparr>packet = p, release_at = t\<rparr>) (filter (\<lambda>t. now < t) ts)"
      and d: "delay_ms c \<le> d" "d \<le> delay_ms c + delay_jitter_ms c"
      using 2 dl sn(3) by (simp_all add: kept_outcome_def Let_def ts_def)
    have ge: "now + d * ns_per_ms \<le> t" if "t \<in> set ts" for t
      using that copy_times_ge by (simp add: ts_def)
    have "delay_ms c = 0" if "immediate_packets em \<noteq> []"
    proof -
      from that em obtain t where "t \<in> set ts" "t \<le> now"
        by (auto simp: filter_empty_conv)
      with ge [of t] d(1) sn(1) dl show ?thesis by simp
    qed
    moreover have "t \<le> now + (delay_ms c + delay_jitter_ms c) * ns_per_ms"
      if "t \<in> set ts" "throttle_kbytes_per_sec c = 0" for t
    proof -
      have "t = now + d * ns_per_ms"
        using that by (simp add: ts_def Snapshot_def ThrottleBytesPerSecond_def)
      then show ?thesis using d(2) by simp
    qed
    ultimately show ?thesis
      using em ge d by (auto intro: order.trans [OF _ ge])
  qed
qed

lemma process_release_window_witness:
  "scheduled_packets (fst (dir_Process least_rng (Snapshot (SetDelayMs 20 dir_config_init)) (sample_packet 10) 5
      (dir_engine_init ()))) = [\<lparr>packet = sample_packet 10, release_at = 20000005\<rparr>] \<and>
   immediate_packets (fst (dir_Process least_rng (Snapshot (SetDelayMs 20 dir_config_init)) (sample_packet 10) 5
      (dir_engine_init ()))) = []"
proof -
  let ?c = "SetDelayMs 20 dir_config_init"
  have "config_ok ?c"
    using apply_setting_ok [of "DelayMs 20" dir_config_init] config_ok_init by (simp add: in_int32_def)
  note w = process_release_window [OF least_rng_lawful this prod.collapse [symmetric],
      of "sample_packet 10" 5 "dir_engine_init ()"]
  have "delay_ms ?c = 20" by (simp add: SetDelayMs_def)
  with w have "immediate_packets (fst (dir_Process least_rng (Snapshot ?c) (sample_packet 10) 5
      (dir_engine_init ()))) = []" by auto
  moreover have "scheduled_packets (fst (dir_Process least_rng (Snapshot ?c) (sample_packet 10) 5
      (dir_engine_init ()))) = [\<lparr>packet = sample_packet 10, release_at = 20000005\<rparr>]"
    by code_simp
  ultimately show ?thesis by simp
qed

text \<open>
  With nothing configured the engine is transparent. Whatever the engine's state, a packet of a
  direction with all effects off leaves at once, alone, unmarked, and no random number is drawn.
\<close>

theorem no_effects_passthrough:
  assumes "no_effects (ConfigForDirection (is_outbound (metadata p)) cfg)" and "Process R cfg p now e = (em, e')"
  shows "em = \<lparr>applied_effects = 0, immediate_packets = [p], scheduled_packets = []\<rparr> \<and>
    rng (outbound_engine e') = rng (outbound_engine e) \<and> rng (inbound_engine e') = rng (inbound_engine e)"
proof (cases "is_outbound (metadata p)")
  case True
  with dir_Process_no_effects [of "outbound cfg" R p now "outbound_engine e"] assms show ?thesis
    by (auto simp: Process_def ConfigForDirection_def split: prod.splits)
next
  case False
  with dir_Process_no_effects [of "inbound cfg" R p now "inbound_engine e"] assms show ?thesis
    by (auto simp: Process_def ConfigForDirection_def split: prod.splits)
qed

lemma no_effects_passthrough_witness:
  "fst (Process least_rng effect_config_init (sample_packet 10) 5 (effect_engine_init () ())) =
     \<lparr>applied_effects = 0, immediate_packets = [sample_packet 10], scheduled_packets = []\<rparr>"
proof -
  have "no_effects (ConfigForDirection (is_outbound (metadata (sample_packet 10))) effect_config_init)"
    by code_simp
  from no_effects_passthrough [OF this prod.collapse [symmetric]] show ?thesis by blast
qed

text \<open>
  C38: a burst drops exactly the configured number of packets. If a packet starts a burst (none was
  running), it and the next \<open>L - 1\<close> packets are all dropped, whatever they are and whenever they come,
  with no further random draw; after them no burst is running.
\<close>

theorem burst_drops_exactly:
  assumes "rng_lawful R" and "config_ok c" and "burst_packets_remaining e \<le> 0"
    and "dir_Process R (Snapshot c) p now e = (em, e1)" and "HasEffect kBurstDrop em"
    and "length ps = nat (burst_drop_length c) - 1"
  shows "list_all burst_dropped (em # fst (dir_run R (Snapshot c) ps e1)) \<and>
    burst_packets_remaining (snd (dir_run R (Snapshot c) ps e1)) = 0 \<and>
    rng (snd (dir_run R (Snapshot c) ps e1)) = rng e1"
proof -
  note st = dir_Process_starts_burst [OF assms(1,4,5,3)]
  have len: "int (length ps) = burst_packets_remaining e1"
    using st(2) assms(6) config_ok_snapshot(7) [OF assms(2)] by (simp add: Snapshot_def)
  then show ?thesis
    using dir_run_burst [OF st(1), of ps e1] st(3) assms(5) by (simp add: burst_dropped_def)
qed

definition burst_config :: dir_config where
  "burst_config = SetBurstDropLength 3 (SetBurstDropRate (Fin 1) (SetBurstDropEnabled True dir_config_init))"

lemma burst_drops_exactly_witness:
  "list_all burst_dropped
     (fst (dir_run least_rng (Snapshot burst_config)
       [(sample_packet 1, 1), (sample_packet 2, 2), (sample_packet 3, 3)] (dir_engine_init ())))"
proof -
  have ok: "config_ok burst_config"
    using apply_settings_ok [of "[BurstDropEnabled True, BurstDropRate (Fin 1), BurstDropLength 3]" dir_config_init]
      config_ok_init by (simp add: in_int32_def burst_config_def)
  have c: "burst_packets_remaining (dir_engine_init ()) \<le> 0"
    "HasEffect kBurstDrop (fst (dir_Process least_rng (Snapshot burst_config) (sample_packet 1) 1 (dir_engine_init ())))"
    "length [(sample_packet 2, 2), (sample_packet 3, 3 :: int)] = nat (burst_drop_length burst_config) - 1"
    by code_simp+
  from burst_drops_exactly [OF least_rng_lawful ok c(1) prod.collapse [symmetric] c(2,3)] show ?thesis
    by (simp add: case_prod_beta)
qed

text \<open>
  Changing the throttle forgets its backlog. If the configuration's revision is new to the engine
  and the packet is kept, its first copy leaves right at its base time, as if no packet had been
  throttled before; without delay and jitter it leaves at once.
\<close>

theorem throttle_change_clears_backlog:
  assumes "rng_lawful R" and "config_ok c" and "dir_Process R (Snapshot c) p now e = (em, e')"
    and "throttle_revision c \<noteq> last_throttle_revision e" and "\<not> HasEffect kDrop em" and "0 \<le> now"
  shows "last_throttle_revision e' = throttle_revision c \<and>
    (\<exists>d. delay_ms c \<le> d \<and> d \<le> delay_ms c + delay_jitter_ms c \<and>
       emission_times now em \<noteq> [] \<and> hd (emission_times now em) = now + d * ns_per_ms)"
proof -
  note sn = config_ok_snapshot [OF assms(2)]
  have dl: "snap_delay (Snapshot c) = delay_ms c" "snap_delay_jitter_ms (Snapshot c) = delay_jitter_ms c"
    "snap_throttle_revision (Snapshot c) = throttle_revision c"
    by (simp_all add: Snapshot_def)
  note out = dir_Process_outcome [OF assms(1,3)]
  with assms(5) obtain k d where 2: "kept_outcome (Snapshot c) p now e k d em e'"
    by (auto simp: dropped_outcome_def)
  then have k: "k \<noteq> 0" "delay_ms c \<le> d" "d \<le> delay_ms c + delay_jitter_ms c"
    using dl sn(3) by (auto simp: kept_outcome_def Let_def)
  have "reset_next (Snapshot c) e = 0"
    using assms(4) dl by (simp add: ResetThrottleStateIfNeeded_def)
  then have "max now (reset_next (Snapshot c) e) \<le> now + d * ns_per_ms"
    using assms(6) k(2) sn(1) dl by simp
  note t = emission_times_kept [OF 2 sn(1)]
  have "hd (emission_times now em) = now + d * ns_per_ms"
    unfolding t using \<open>max now _ \<le> _\<close> k(1) by (intro copy_times_prompt) simp_all
  moreover have "emission_times now em \<noteq> []"
    using k(1) t length_copy_times by (metis list.size(3))
  moreover have "last_throttle_revision e' = throttle_revision c" using out dl(3) by simp
  ultimately show ?thesis using k(2,3) by blast
qed

lemma throttle_change_clears_backlog_witness:
  "\<exists>d. 0 \<le> d \<and> d \<le> 0 \<and>
     hd (emission_times 7 (fst (dir_Process least_rng (Snapshot throttled_config) (sample_packet 10) 7
       ((dir_engine_init ())\<lparr>next_throttle_release_at := 1000\<rparr>)))) = 7 + d * ns_per_ms"
proof -
  let ?e = "(dir_engine_init ())\<lparr>next_throttle_release_at := 1000\<rparr>"
  have c: "throttle_revision throttled_config \<noteq> last_throttle_revision ?e"
    "\<not> HasEffect kDrop (fst (dir_Process least_rng (Snapshot throttled_config) (sample_packet 10) 7 ?e))"
    "delay_ms throttled_config = 0" "delay_jitter_ms throttled_config = 0"
    by code_simp+
  from throttle_change_clears_backlog [OF least_rng_lawful throttled_config_ok prod.collapse [symmetric] c(1,2)] c(3,4)
  show ?thesis by auto
qed

text \<open>
  The directions do not disturb each other. Processing a packet uses only the configuration and the
  engine of its own direction, and leaves the other engine as it was.
\<close>

theorem directions_independent:
  assumes "is_outbound (metadata p) = d" and "ConfigForDirection d cfg = ConfigForDirection d cfg'"
    and "(if d then outbound_engine e else inbound_engine e) = (if d then outbound_engine f else inbound_engine f)"
    and "Process R cfg p now e = (em, e')" and "Process R cfg' p now f = (em', f')"
  shows "em = em' \<and>
    (if d then inbound_engine e' else outbound_engine e') = (if d then inbound_engine e else outbound_engine e) \<and>
    (if d then outbound_engine e' else inbound_engine e') = (if d then outbound_engine f' else inbound_engine f')"
  using assms by (cases d) (auto simp: Process_def ConfigForDirection_def split: prod.splits)

lemma directions_independent_witness:
  "inbound_engine (snd (Process least_rng effect_config_init (sample_packet 10) 5 (effect_engine_init () ()))) =
     dir_engine_init ()"
proof -
  have d: "is_outbound (metadata (sample_packet 10)) = True" by (simp add: sample_packet_def)
  from directions_independent [where R = least_rng, OF d refl refl prod.collapse [symmetric] prod.collapse [symmetric]]
  have "inbound_engine (snd (Process least_rng effect_config_init (sample_packet 10) 5 (effect_engine_init () ()))) =
      inbound_engine (effect_engine_init () ())"
    by simp
  then show ?thesis by (simp add: effect_engine_init_def)
qed

text \<open>
  C39: transmission times are exact. For every packet and every rate the settings allow, the 64-bit
  computation does not wrap: the result is the length divided by the rate, in nanoseconds, rounded up.
\<close>

theorem transmission_time_exact:
  assumes "packet_ok p" and "0 < unat (pkt_length p)" and "config_ok c" and "0 < throttle_kbytes_per_sec c"
  shows "TransmissionTimeForPacket (unat (pkt_length p)) (ThrottleBytesPerSecond c) =
    (int (unat (pkt_length p)) * 1000000000 + throttle_kbytes_per_sec c * 1024 - 1) div
      (throttle_kbytes_per_sec c * 1024)"
proof -
  note sn = config_ok_snapshot(2) [OF assms(3)]
  have u: "int (unat (ThrottleBytesPerSecond c)) = throttle_kbytes_per_sec c * 1024"
    using ThrottleBytes_exact [OF assms(3)] by simp
  then have "0 < unat (ThrottleBytesPerSecond c)" using assms(4) by linarith
  then have "0 < ThrottleBytesPerSecond c" by (simp add: word_less_nat_alt)
  with TransmissionTime_exact(1) [of "unat (pkt_length p)" "ThrottleBytesPerSecond c"] assms(1,2) sn u
  show ?thesis by (simp add: packet_ok_def Snapshot_def)
qed

lemma transmission_time_exact_witness:
  "TransmissionTimeForPacket (unat (pkt_length (sample_packet 1500))) (ThrottleBytesPerSecond throttled_config) =
     1464843750"
proof -
  have "throttle_kbytes_per_sec throttled_config = 1" "unat (pkt_length (sample_packet 1500)) = 1500"
    by code_simp+
  with transmission_time_exact [OF sample_packet_ok _ throttled_config_ok, of 1500] show ?thesis by simp
qed

text \<open>
  Every configuration the setters can reach is in range, so the engine's preconditions hold for
  whatever sequence of values the user interface stores, including NaN rates and extreme integers.
\<close>

theorem settings_always_in_range:
  assumes "\<forall>s \<in> set ss. setting_typed s"
  shows "config_ok (fold apply_setting ss dir_config_init)"
  using assms config_ok_init by (rule apply_settings_ok)

lemma settings_always_in_range_witness:
  "config_ok (fold apply_setting [DelayMs (- 5), DropRate NaN, DuplicateCount 1000, ThrottleKBytesPerSec (2 ^ 31 - 1)]
     dir_config_init)"
  by (rule settings_always_in_range) (simp add: in_int32_def)

end
