(* ===== verification/Target_Pids.thy ===== *)
theory Target_Pids
  imports Packet_Types
begin

text \<open>
  The set of targeted processes (\<open>TargetPidSet\<close> in include/core/EffectConfig.h): a mutex-protected set
  with a cached copy of its only element, which the capture thread reads without the lock. First
  the operations run alone, then the steps of one UI thread that writes and any number of threads
  that read.
\<close>

section \<open>The set and its operations\<close>

text \<open>An \<open>unordered_set\<close> as the list of its elements in iteration order.\<close>

record pid_set =
  pids :: "u32 list"
  cached_pid :: u32

definition kNoCachedPid :: u32 where
  "kNoCachedPid = - 1"

definition set_insert :: "'a \<Rightarrow> 'a list \<Rightarrow> 'a list" where
  "set_insert x xs = (if x \<in> set xs then xs else x # xs)"

definition set_erase :: "'a \<Rightarrow> 'a list \<Rightarrow> 'a list" where
  "set_erase x xs = removeAll x xs"

definition RefreshCachedPidLocked :: "pid_set \<Rightarrow> pid_set" where
  "RefreshCachedPidLocked s =
     (if length (pids s) = 1 then s\<lparr>cached_pid := hd (pids s)\<rparr> else s\<lparr>cached_pid := kNoCachedPid\<rparr>)"

definition Add :: "u32 \<Rightarrow> pid_set \<Rightarrow> pid_set" where
  "Add p s = RefreshCachedPidLocked (s\<lparr>pids := set_insert p (pids s)\<rparr>)"

definition Remove :: "u32 \<Rightarrow> pid_set \<Rightarrow> pid_set" where
  "Remove p s = RefreshCachedPidLocked (s\<lparr>pids := set_erase p (pids s)\<rparr>)"

definition Clear :: "pid_set \<Rightarrow> pid_set" where
  "Clear s = s\<lparr>pids := [], cached_pid := kNoCachedPid\<rparr>"

definition SetSelectedPid :: "u32 \<Rightarrow> pid_set \<Rightarrow> pid_set" where
  "SetSelectedPid p s = s\<lparr>pids := set_insert p [], cached_pid := p\<rparr>"

definition Contains :: "u32 \<Rightarrow> pid_set \<Rightarrow> bool" where
  "Contains p s =
     (if cached_pid s \<noteq> kNoCachedPid then cached_pid s = p else p \<in> set (pids s))"

definition pid_set_init :: pid_set where
  "pid_set_init = \<lparr>pids = [], cached_pid = kNoCachedPid\<rparr>"

datatype pid_op = OpAdd u32 | OpRemove u32 | OpClear | OpSelect u32

fun apply_pid_op :: "pid_op \<Rightarrow> pid_set \<Rightarrow> pid_set" where
  "apply_pid_op (OpAdd p) s = Add p s"
| "apply_pid_op (OpRemove p) s = Remove p s"
| "apply_pid_op OpClear s = Clear s"
| "apply_pid_op (OpSelect p) s = SetSelectedPid p s"

text \<open>What the operations mean on sets.\<close>

fun pid_op_set :: "pid_op \<Rightarrow> u32 set \<Rightarrow> u32 set" where
  "pid_op_set (OpAdd p) A = insert p A"
| "pid_op_set (OpRemove p) A = A - {p}"
| "pid_op_set OpClear A = {}"
| "pid_op_set (OpSelect p) A = {p}"

lemmas pid_defs = Add_def Remove_def Clear_def SetSelectedPid_def RefreshCachedPidLocked_def
  set_insert_def set_erase_def

section \<open>The cache never lies\<close>

definition pid_set_inv :: "pid_set \<Rightarrow> bool" where
  "pid_set_inv s \<longleftrightarrow> distinct (pids s) \<and> (cached_pid s \<noteq> kNoCachedPid \<longrightarrow> set (pids s) = {cached_pid s})"

lemma pid_set_inv_init: "pid_set_inv pid_set_init"
  by (simp add: pid_set_inv_def pid_set_init_def)

lemma set_single: "length xs = 1 \<Longrightarrow> set xs = {hd xs}"
  by (cases xs) auto

lemma pids_Refresh [simp]: "pids (RefreshCachedPidLocked s) = pids s"
  by (simp add: RefreshCachedPidLocked_def)

lemma refresh_cached:
  "cached_pid (RefreshCachedPidLocked s) \<noteq> kNoCachedPid \<Longrightarrow>
     set (pids s) = {cached_pid (RefreshCachedPidLocked s)}"
  by (auto simp: RefreshCachedPidLocked_def length_Suc_conv split: if_splits)

lemma Refresh_inv: "distinct (pids s) \<Longrightarrow> pid_set_inv (RefreshCachedPidLocked s)"
  using refresh_cached [of s] by (simp add: pid_set_inv_def)

lemma apply_pid_op_inv [inv_intros]: "pid_set_inv s \<Longrightarrow> pid_set_inv (apply_pid_op a s)"
proof (cases a)
  case (OpAdd p)
  assume "pid_set_inv s"
  then have "distinct (set_insert p (pids s))" by (simp add: pid_set_inv_def set_insert_def)
  with OpAdd show ?thesis by (simp add: Add_def Refresh_inv)
next
  case (OpRemove p)
  assume "pid_set_inv s"
  then have "distinct (removeAll p (pids s))" by (simp add: pid_set_inv_def distinct_removeAll)
  with OpRemove show ?thesis by (simp add: Remove_def set_erase_def Refresh_inv)
qed (simp_all add: pid_set_inv_def Clear_def SetSelectedPid_def set_insert_def)

lemma apply_pid_op_set: "set (pids (apply_pid_op a s)) = pid_op_set a (set (pids s))"
  by (cases a) (auto simp: Add_def Remove_def Clear_def SetSelectedPid_def set_insert_def set_erase_def)

lemma Contains_iff: "pid_set_inv s \<Longrightarrow> Contains p s \<longleftrightarrow> p \<in> set (pids s)"
  by (auto simp: Contains_def pid_set_inv_def)

lemma pid_ops_refine:
  "pid_set_inv s \<Longrightarrow> pid_set_inv (fold apply_pid_op ops s) \<and>
     set (pids (fold apply_pid_op ops s)) = fold pid_op_set ops (set (pids s))"
  by (induction ops arbitrary: s) (simp_all add: apply_pid_op_inv apply_pid_op_set)

lemma set_SetSelectedPid: "set (pids (SetSelectedPid p s)) = {p}"
  by (simp add: SetSelectedPid_def set_insert_def)

section \<open>One writer, many readers\<close>

text \<open>
  Each writing operation locks the mutex, changes the set (which is only touched under the lock),
  stores the cached value and unlocks; \<open>Contains\<close> loads the cached value and, if there is none,
  locks and looks. \<open>values\<close> lists what the set was, one value per completed change; a reader
  remembers how many there were when it was called.
\<close>

datatype writer_pc = WIdle | WLocked pid_op | WMutated pid_op | WStored

datatype reader_pc = RIdle | RStart u32 nat | RLocking u32 nat | RLocked u32 nat | RDone u32 nat bool

datatype lock_holder = Writer | Reader nat

record pid_sys =
  pset :: pid_set
  mutex :: "lock_holder option"
  wpc :: writer_pc
  rpc :: "nat \<Rightarrow> reader_pc"
  "values" :: "u32 set list"

definition pid_sys_init :: pid_sys where
  "pid_sys_init =
     \<lparr>pset = pid_set_init, mutex = None, wpc = WIdle, rpc = (\<lambda>_. RIdle), values = [{}]\<rparr>"

inductive pid_step :: "pid_sys \<Rightarrow> pid_sys \<Rightarrow> bool" where
  w_lock: "wpc s = WIdle \<Longrightarrow> mutex s = None \<Longrightarrow>
     pid_step s (s\<lparr>wpc := WLocked a, mutex := Some Writer\<rparr>)"
| w_mutate: "wpc s = WLocked a \<Longrightarrow>
     pid_step s (s\<lparr>pset := (pset s)\<lparr>pids := pids (apply_pid_op a (pset s))\<rparr>, wpc := WMutated a\<rparr>)"
| w_store: "wpc s = WMutated a \<Longrightarrow>
     c = (case a of OpClear \<Rightarrow> kNoCachedPid | OpSelect p \<Rightarrow> p
          | _ \<Rightarrow> cached_pid (RefreshCachedPidLocked (pset s))) \<Longrightarrow>
     pid_step s (s\<lparr>pset := (pset s)\<lparr>cached_pid := c\<rparr>, wpc := WStored,
                   values := values s @ [set (pids (pset s))]\<rparr>)"
| w_unlock: "wpc s = WStored \<Longrightarrow> pid_step s (s\<lparr>wpc := WIdle, mutex := None\<rparr>)"
| r_call: "rpc s i = RIdle \<or> (\<exists>p' n' b. rpc s i = RDone p' n' b) \<Longrightarrow>
     pid_step s (s\<lparr>rpc := (rpc s)(i := RStart p (length (values s) - 1))\<rparr>)"
| r_hit: "rpc s i = RStart p n \<Longrightarrow> cached_pid (pset s) \<noteq> kNoCachedPid \<Longrightarrow>
     pid_step s (s\<lparr>rpc := (rpc s)(i := RDone p n (cached_pid (pset s) = p))\<rparr>)"
| r_miss: "rpc s i = RStart p n \<Longrightarrow> cached_pid (pset s) = kNoCachedPid \<Longrightarrow>
     pid_step s (s\<lparr>rpc := (rpc s)(i := RLocking p n)\<rparr>)"
| r_lock: "rpc s i = RLocking p n \<Longrightarrow> mutex s = None \<Longrightarrow>
     pid_step s (s\<lparr>rpc := (rpc s)(i := RLocked p n), mutex := Some (Reader i)\<rparr>)"
| r_look: "rpc s i = RLocked p n \<Longrightarrow>
     pid_step s (s\<lparr>rpc := (rpc s)(i := RDone p n (p \<in> set (pids (pset s)))), mutex := None\<rparr>)"

inductive pid_reachable :: "pid_sys \<Rightarrow> bool" where
  init: "pid_reachable pid_sys_init"
| step: "pid_reachable s \<Longrightarrow> pid_step s t \<Longrightarrow> pid_reachable t"

inductive_cases pid_stepE: "pid_step s t"

text \<open>
  The answer of a finished call is membership in one of the values the set had during the call.
\<close>

definition reader_ok :: "pid_sys \<Rightarrow> reader_pc \<Rightarrow> bool" where
  "reader_ok s r =
     (case r of
        RIdle \<Rightarrow> True
      | RStart p n \<Rightarrow> n < length (values s)
      | RLocking p n \<Rightarrow> n < length (values s)
      | RLocked p n \<Rightarrow> n < length (values s)
      | RDone p n b \<Rightarrow> (\<exists>k. n \<le> k \<and> k < length (values s) \<and> b = (p \<in> values s ! k)))"

definition pid_sys_inv :: "pid_sys \<Rightarrow> bool" where
  "pid_sys_inv s \<longleftrightarrow> values s \<noteq> [] \<and>
     (cached_pid (pset s) \<noteq> kNoCachedPid \<longrightarrow> last (values s) = {cached_pid (pset s)}) \<and>
     ((\<forall>a. wpc s \<noteq> WMutated a) \<longrightarrow> set (pids (pset s)) = last (values s)) \<and>
     (\<forall>p. wpc s = WMutated (OpSelect p) \<longrightarrow> set (pids (pset s)) = {p}) \<and>
     (mutex s = Some Writer \<longleftrightarrow> wpc s \<noteq> WIdle) \<and>
     (\<forall>i. mutex s = Some (Reader i) \<longleftrightarrow> (\<exists>p n. rpc s i = RLocked p n)) \<and>
     (\<forall>i. reader_ok s (rpc s i))"

lemma reader_ok_more:
  "reader_ok s r \<Longrightarrow> values t = values s @ vs \<Longrightarrow> reader_ok t r"
  by (cases r) (auto simp: reader_ok_def nth_append intro: trans_less_add1)

lemma reader_ok_frame [simp]:
  "reader_ok (s\<lparr>rpc := f\<rparr>) = reader_ok s" "reader_ok (s\<lparr>wpc := w\<rparr>) = reader_ok s"
  "reader_ok (s\<lparr>mutex := m\<rparr>) = reader_ok s" "reader_ok (s\<lparr>pset := q\<rparr>) = reader_ok s"
  by (simp_all add: reader_ok_def fun_eq_iff split: reader_pc.split)

lemma reader_done_now:
  assumes "n < length (values s)" and "A = last (values s)"
  shows "reader_ok s (RDone p n (p \<in> A))"
proof -
  have "n \<le> length (values s) - 1" "length (values s) - 1 < length (values s)"
    using assms(1) by simp_all
  moreover have "values s ! (length (values s) - 1) = A"
    using assms last_conv_nth [of "values s"] by fastforce
  ultimately show ?thesis unfolding reader_ok_def reader_pc.case by blast
qed

lemma pid_sys_inv_reader: "pid_sys_inv s \<Longrightarrow> reader_ok s (rpc s i)"
  by (simp only: pid_sys_inv_def)

lemma pid_sys_inv_init: "pid_sys_inv pid_sys_init"
  by (simp add: pid_sys_inv_def pid_sys_init_def pid_set_init_def reader_ok_def)

lemma reader_moves:
  assumes "pid_sys_inv s" and "reader_ok s r" and "\<forall>p n. rpc s i \<noteq> RLocked p n" and "\<forall>p n. r \<noteq> RLocked p n"
  shows "pid_sys_inv (s\<lparr>rpc := (rpc s)(i := r)\<rparr>)"
  using assms by (auto simp: pid_sys_inv_def)

lemma reader_started: "pid_sys_inv s \<Longrightarrow> rpc s i = RStart p n \<or> rpc s i = RLocking p n \<or> rpc s i = RLocked p n \<Longrightarrow> n < length (values s)"
  using pid_sys_inv_reader [of s i] by (auto simp: reader_ok_def)

lemma w_store_inv:
  assumes inv: "pid_sys_inv s" and a: "wpc s = WMutated a"
    and c: "c = (case a of OpClear \<Rightarrow> kNoCachedPid | OpSelect p \<Rightarrow> p | _ \<Rightarrow> cached_pid (RefreshCachedPidLocked (pset s)))"
  shows "pid_sys_inv (s\<lparr>pset := (pset s)\<lparr>cached_pid := c\<rparr>, wpc := WStored, values := values s @ [set (pids (pset s))]\<rparr>)"
    (is "pid_sys_inv ?t")
proof -
  have "set (pids (pset s)) = {c}" if "c \<noteq> kNoCachedPid"
    using that
  proof (cases a)
    case (OpSelect p)
    with inv a c show "set (pids (pset s)) = {c}" by (simp add: pid_sys_inv_def)
  qed (use c refresh_cached [of "pset s"] in simp_all)
  moreover have "reader_ok ?t (rpc s i)" for i
    using pid_sys_inv_reader [OF inv] by (rule reader_ok_more) simp
  ultimately show ?thesis using inv a by (auto simp: pid_sys_inv_def)
qed

lemma r_look_inv:
  assumes inv: "pid_sys_inv s" and i: "rpc s i = RLocked p n"
  shows "pid_sys_inv (s\<lparr>rpc := (rpc s)(i := RDone p n (p \<in> set (pids (pset s)))), mutex := None\<rparr>)"
    (is "pid_sys_inv ?t")
proof -
  have held: "mutex s = Some (Reader i)" using inv i by (auto simp: pid_sys_inv_def)
  then have w: "wpc s = WIdle" using inv by (auto simp: pid_sys_inv_def)
  then have now: "set (pids (pset s)) = last (values s)" using inv by (simp add: pid_sys_inv_def)
  from reader_done_now [OF reader_started [OF inv, of i p] now] i
  have fin: "reader_ok ?t (RDone p n (p \<in> set (pids (pset s))))" by simp
  have rest: "reader_ok ?t (rpc s j)" for j using pid_sys_inv_reader [OF inv] by simp
  have alone: "rpc s j \<noteq> RLocked q m" if "j \<noteq> i" for j q m
    using held inv that unfolding pid_sys_inv_def by fastforce
  show ?thesis
    unfolding pid_sys_inv_def
  proof (intro conjI)
    show "\<forall>j. reader_ok ?t (rpc ?t j)" using fin rest by simp
    show "\<forall>j. (mutex ?t = Some (Reader j)) = (\<exists>q m. rpc ?t j = RLocked q m)" using alone by simp
    show "(mutex ?t = Some Writer) = (wpc ?t \<noteq> WIdle)" using w by simp
  qed (use inv w in \<open>simp_all add: pid_sys_inv_def\<close>)
qed

lemma pid_step_inv: "pid_step s t \<Longrightarrow> pid_sys_inv s \<Longrightarrow> pid_sys_inv t"
proof (induction rule: pid_step.induct)
  case (w_lock s a)
  then show ?case by (auto simp: pid_sys_inv_def)
next
  case (w_mutate s a)
  then show ?case by (auto simp: pid_sys_inv_def set_SetSelectedPid)
next
  case (w_store s a c)
  then show ?case by (intro w_store_inv)
next
  case (w_unlock s)
  then show ?case by (auto simp: pid_sys_inv_def)
next
  case (r_call s i p)
  then have "reader_ok s (RStart p (length (values s) - 1))" by (simp add: pid_sys_inv_def reader_ok_def)
  with r_call show ?case by (intro reader_moves) auto
next
  case (r_hit s i p n)
  then have "{cached_pid (pset s)} = last (values s)" by (simp add: pid_sys_inv_def)
  from reader_done_now [OF reader_started [OF r_hit(3), of i p n] this, of p] r_hit(1)
  have "reader_ok s (RDone p n (cached_pid (pset s) = p))" by (simp add: eq_commute)
  with r_hit show ?case by (intro reader_moves) auto
next
  case (r_miss s i p n)
  then have "reader_ok s (RLocking p n)" using reader_started [of s i p n] by (simp add: reader_ok_def)
  with r_miss show ?case by (intro reader_moves) auto
next
  case (r_lock s i p n)
  then have "reader_ok s (RLocked p n)" using reader_started [of s i p n] by (simp add: reader_ok_def)
  with r_lock pid_sys_inv_reader [OF r_lock(3)] show ?case by (fastforce simp: pid_sys_inv_def)
next
  case (r_look s i p n)
  then show ?case by (intro r_look_inv)
qed

lemma pid_reachable_inv: "pid_reachable s \<Longrightarrow> pid_sys_inv s"
  by (induction rule: pid_reachable.induct) (simp_all add: pid_sys_inv_init pid_step_inv)

section \<open>Properties\<close>

text \<open>
  C16: \<open>Contains\<close> is linearizable. With a thread that changes the set and any number of threads that
  query it without a lock, every finished query answers membership in a value the set had at some
  moment between the query's call and its return.
\<close>

theorem contains_linearizable:
  assumes "pid_reachable s" and "rpc s i = RDone p n b"
  shows "\<exists>k. n \<le> k \<and> k < length (values s) \<and> b = (p \<in> values s ! k)"
  using pid_sys_inv_reader [OF pid_reachable_inv [OF assms(1)], of i] assms(2) by (simp add: reader_ok_def)

definition one_query :: pid_sys where
  "one_query = pid_sys_init\<lparr>rpc := (\<lambda>_. RIdle)(0 := RDone 5 0 False)\<rparr>"

lemma one_query_reachable: "pid_reachable one_query"
proof -
  note eqs = pid_sys_init_def pid_set_init_def
  let ?r = "\<lambda>x. pid_sys_init\<lparr>rpc := (\<lambda>_. RIdle)(0 := x)\<rparr>"
  from pid_reachable.step [OF pid_reachable.init r_call [of _ 0 5]] have "pid_reachable (?r (RStart 5 0))"
    by (simp add: eqs)
  from pid_reachable.step [OF this r_miss [of _ 0 5 0]] have "pid_reachable (?r (RLocking 5 0))"
    by (simp add: eqs)
  from pid_reachable.step [OF this r_lock [of _ 0 5 0]]
  have "pid_reachable ((?r (RLocked 5 0))\<lparr>mutex := Some (Reader 0)\<rparr>)" by (simp add: eqs)
  from pid_reachable.step [OF this r_look [of _ 0 5 0]] show ?thesis by (simp add: eqs one_query_def)
qed

lemma contains_linearizable_witness: "\<exists>k. k < length (values one_query) \<and> False = (5 \<in> values one_query ! k)"
  using contains_linearizable [OF one_query_reachable, of 0 5 0 False] by (simp add: one_query_def)

text \<open>
  Run alone, the set behaves as a set. After any operations \<open>Contains\<close> answers membership in what
  the operations mean, also for the pid that the cache uses as its sentinel.
\<close>

theorem pid_set_refines_set:
  "Contains p (fold apply_pid_op ops pid_set_init) \<longleftrightarrow> p \<in> fold pid_op_set ops {}"
proof -
  note r = pid_ops_refine [OF pid_set_inv_init, of ops]
  from Contains_iff [OF conjunct1 [OF r], of p] r show ?thesis by (simp add: pid_set_init_def)
qed

end
