(* ===== verification/Sched_Queue.thy ===== *)
theory Sched_Queue
  imports Interfaces Packet_Types
begin

text \<open>
  The time-ordered queue of the delay thread (include/core/ScheduledPacketQueue.h). Its elements are
  pointers into the packet pool; \<open>key\<close> reads the release time through the pointer. The
  \<open>std::priority_queue\<close> inside is the binary heap on a vector that \<open>push_heap\<close> and \<open>pop_heap\<close>
  maintain. The last section discharges the contract \<open>min_queue\<close> for it and reads off the loops
  \<open>PopReady\<close> and \<open>DrainAll\<close>.
\<close>

section \<open>The binary heap\<close>

abbreviation parent :: "nat \<Rightarrow> nat" where
  "parent i \<equiv> (i - 1) div 2"

definition swap :: "nat \<Rightarrow> nat \<Rightarrow> 'a list \<Rightarrow> 'a list" where
  "swap i j xs = xs[i := xs ! j, j := xs ! i]"

function sift_up :: "('a \<Rightarrow> 'k::linorder) \<Rightarrow> nat \<Rightarrow> 'a list \<Rightarrow> 'a list" where
  "sift_up key i xs =
     (if 0 < i \<and> key (xs ! i) < key (xs ! parent i) then sift_up key (parent i) (swap i (parent i) xs)
      else xs)"
  by pat_completeness auto
termination by (relation "measure (\<lambda>(key, i, xs). i)") auto

definition min_child :: "('a \<Rightarrow> 'k::linorder) \<Rightarrow> nat \<Rightarrow> 'a list \<Rightarrow> nat" where
  "min_child key i xs =
     (if 2 * i + 2 < length xs \<and> key (xs ! (2 * i + 2)) < key (xs ! (2 * i + 1)) then 2 * i + 2
      else 2 * i + 1)"

lemma min_child_bounds: "i < min_child key i xs" "min_child key i xs \<le> 2 * i + 2"
  by (auto simp: min_child_def)

lemma length_swap [simp]: "length (swap i j xs) = length xs"
  by (simp add: swap_def)

function sift_down :: "('a \<Rightarrow> 'k::linorder) \<Rightarrow> nat \<Rightarrow> 'a list \<Rightarrow> 'a list" where
  "sift_down key i xs =
     (let m = min_child key i xs in
      if m < length xs \<and> key (xs ! m) < key (xs ! i) then sift_down key m (swap i m xs) else xs)"
  by pat_completeness auto
termination
proof (relation "measure (\<lambda>(key, i, xs). length xs - i)", simp, clarify)
  fix key :: "'a \<Rightarrow> 'b" and i :: nat and xs :: "'a list"
  assume "min_child key i xs < length xs"
  moreover have "i < min_child key i xs" by (rule min_child_bounds)
  ultimately show "((key, min_child key i xs, swap i (min_child key i xs) xs), key, i, xs)
      \<in> measure (\<lambda>(key, i, xs). length xs - i)" by simp
qed

declare sift_up.simps [simp del] sift_down.simps [simp del]

definition heap_push :: "('a \<Rightarrow> 'k::linorder) \<Rightarrow> 'a \<Rightarrow> 'a list \<Rightarrow> 'a list" where
  "heap_push key x xs = sift_up key (length xs) (xs @ [x])"

definition heap_top :: "'a list \<Rightarrow> 'a option" where
  "heap_top xs = (if xs = [] then None else Some (xs ! 0))"

definition heap_pop :: "('a \<Rightarrow> 'k::linorder) \<Rightarrow> 'a list \<Rightarrow> 'a list" where
  "heap_pop key xs =
     (if length xs \<le> 1 then [] else sift_down key 0 ((butlast xs)[0 := last xs]))"

section \<open>The heap order\<close>

definition heap_ok :: "('a \<Rightarrow> 'k::linorder) \<Rightarrow> 'a list \<Rightarrow> bool" where
  "heap_ok key xs \<longleftrightarrow> (\<forall>i < length xs. 0 < i \<longrightarrow> key (xs ! parent i) \<le> key (xs ! i))"

lemma mset_swap [simp]: "i < length xs \<Longrightarrow> j < length xs \<Longrightarrow> mset (swap i j xs) = mset xs"
  by (simp add: swap_def mset_swap)

lemma nth_swap:
  "i < length xs \<Longrightarrow> j < length xs \<Longrightarrow> k < length xs \<Longrightarrow>
   swap i j xs ! k = (if k = i then xs ! j else if k = j then xs ! i else xs ! k)"
  by (auto simp: swap_def nth_list_update)

lemma heap_root_min:
  assumes "heap_ok key xs" and "i < length xs"
  shows "key (xs ! 0) \<le> key (xs ! i)"
  using assms(2)
proof (induction i rule: less_induct)
  case (less i)
  show ?case
  proof (cases "i = 0")
    case False
    then have "key (xs ! 0) \<le> key (xs ! parent i)" using less by auto
    also have "\<dots> \<le> key (xs ! i)" using assms(1) less.prems False by (simp add: heap_ok_def)
    finally show ?thesis .
  qed simp
qed

text \<open>The order is broken at most between \<open>i\<close> and its parent, respectively \<open>i\<close> and its children.\<close>

definition broken_up :: "('a \<Rightarrow> 'k::linorder) \<Rightarrow> nat \<Rightarrow> 'a list \<Rightarrow> bool" where
  "broken_up key i xs \<longleftrightarrow>
     (\<forall>j < length xs. 0 < j \<and> j \<noteq> i \<longrightarrow> key (xs ! parent j) \<le> key (xs ! j)) \<and>
     (\<forall>j < length xs. 0 < j \<and> 0 < i \<and> parent j = i \<longrightarrow> key (xs ! parent i) \<le> key (xs ! j))"

definition broken_down :: "('a \<Rightarrow> 'k::linorder) \<Rightarrow> nat \<Rightarrow> 'a list \<Rightarrow> bool" where
  "broken_down key i xs \<longleftrightarrow>
     (\<forall>j < length xs. 0 < j \<and> parent j \<noteq> i \<longrightarrow> key (xs ! parent j) \<le> key (xs ! j)) \<and>
     (\<forall>j < length xs. 0 < j \<and> 0 < i \<and> parent j = i \<longrightarrow> key (xs ! parent i) \<le> key (xs ! j))"

lemma parent_less: "0 < i \<Longrightarrow> parent i < i"
  by auto

lemma broken_up_step:
  assumes "broken_up key i xs" and "i < length xs" and "0 < i" and "key (xs ! i) < key (xs ! parent i)"
  shows "broken_up key (parent i) (swap i (parent i) xs)"
proof -
  let ?p = "parent i"
  have p: "?p < i" "?p < length xs" using assms(2,3) by auto
  have ok: "key (xs ! parent j) \<le> key (xs ! j)" if "j < length xs" "0 < j" "j \<noteq> i" for j
    using assms(1) that by (simp add: broken_up_def)
  have up: "key (xs ! ?p) \<le> key (xs ! j)" if "j < length xs" "0 < j" "parent j = i" for j
    using assms(1,3) that by (simp add: broken_up_def)
  note n = nth_swap [OF assms(2) p(2)]
  have A: "key (swap i ?p xs ! parent j) \<le> key (swap i ?p xs ! j)"
    if j: "j < length xs" "0 < j" "j \<noteq> ?p" for j
  proof -
    have pj: "parent j < length xs" "parent j < j" using j by auto
    consider "j = i" | "j \<noteq> i" "parent j = i" | "j \<noteq> i" "parent j = ?p" | "j \<noteq> i" "parent j \<noteq> i" "parent j \<noteq> ?p"
      by blast
    then show ?thesis
    proof cases
      case 1
      then show ?thesis using n j p assms(4) by simp
    next
      case 2
      then show ?thesis using n j p up [of j] by simp
    next
      case 3
      then show ?thesis using n j p pj ok [of j] assms(4) by simp
    next
      case 4
      then show ?thesis using n j p pj ok [of j] by simp
    qed
  qed
  have B: "key (swap i ?p xs ! parent ?p) \<le> key (swap i ?p xs ! j)"
    if j: "j < length xs" "0 < j" "0 < ?p" "parent j = ?p" for j
  proof -
    have pp: "parent ?p < ?p" using j(3) by auto
    have g: "key (xs ! parent ?p) \<le> key (xs ! ?p)" using ok [of ?p] p j(3) by simp
    show ?thesis
    proof (cases "j = i")
      case True
      then show ?thesis using n j p pp g by simp
    next
      case False
      have "j \<noteq> ?p" using j by auto
      then show ?thesis using False n j p pp g ok [of j] by simp
    qed
  qed
  from A B show ?thesis by (simp add: broken_up_def)
qed

lemma sift_up_ok:
  assumes "broken_up key i xs" and "i < length xs"
  shows "heap_ok key (sift_up key i xs) \<and> mset (sift_up key i xs) = mset xs"
  using assms
proof (induction key i xs rule: sift_up.induct)
  case (1 key i xs)
  show ?case
  proof (cases "0 < i \<and> key (xs ! i) < key (xs ! parent i)")
    case True
    then have p: "parent i < length xs" using 1(3) by auto
    have "broken_up key (parent i) (swap i (parent i) xs)"
      using broken_up_step [OF 1(2,3)] True by blast
    with 1 True p show ?thesis by (subst (1 2) sift_up.simps) simp
  next
    case False
    have "heap_ok key xs"
      unfolding heap_ok_def
    proof (intro allI impI)
      fix j assume j: "j < length xs" "0 < j"
      show "key (xs ! parent j) \<le> key (xs ! j)"
        using False 1(2) j by (cases "j = i") (auto simp: broken_up_def not_less)
    qed
    with False show ?thesis by (subst (1 2) sift_up.simps) auto
  qed
qed

lemma min_child_least:
  assumes "j < length xs" and "0 < j" and "parent j = i"
  shows "min_child key i xs < length xs" and "key (xs ! min_child key i xs) \<le> key (xs ! j)"
proof -
  have "j = 2 * i + 1 \<or> j = 2 * i + 2" using assms(2,3) by arith
  then show "min_child key i xs < length xs" and "key (xs ! min_child key i xs) \<le> key (xs ! j)"
    using assms(1) by (auto simp: min_child_def)
qed

lemma parent_min_child: "parent (min_child key i xs) = i"
  by (auto simp: min_child_def)

lemma broken_down_step:
  assumes "broken_down key i xs" and m: "m = min_child key i xs" and "m < length xs"
    and "key (xs ! m) < key (xs ! i)"
  shows "broken_down key m (swap i m xs)"
proof -
  have im: "i < m" "i < length xs" "parent m = i" "0 < m"
    using m assms(3) min_child_bounds(1) [of i key xs] parent_min_child [of key i xs] by auto
  have ok: "key (xs ! parent j) \<le> key (xs ! j)" if "j < length xs" "0 < j" "parent j \<noteq> i" for j
    using assms(1) that by (simp add: broken_down_def)
  have up: "key (xs ! parent i) \<le> key (xs ! j)" if "j < length xs" "0 < j" "0 < i" "parent j = i" for j
    using assms(1) that by (simp add: broken_down_def)
  have least: "key (xs ! m) \<le> key (xs ! j)" if "j < length xs" "0 < j" "parent j = i" for j
    using min_child_least [OF that, of key] m by simp
  note n = nth_swap [OF im(2) assms(3)]
  have A: "key (swap i m xs ! parent j) \<le> key (swap i m xs ! j)"
    if j: "j < length xs" "0 < j" "parent j \<noteq> m" for j
  proof -
    have pj: "parent j < length xs" "parent j < j" using j by auto
    consider "j = m" | "j = i" | "j \<noteq> m" "j \<noteq> i" "parent j = i" | "j \<noteq> m" "j \<noteq> i" "parent j \<noteq> i" by blast
    then show ?thesis
    proof cases
      case 1
      then show ?thesis using n im assms(3,4) by simp
    next
      case 2
      then have "key (xs ! parent i) \<le> key (xs ! m)" using up [of m] im assms(3) j by simp
      with 2 show ?thesis using n im j pj by simp
    next
      case 3
      then show ?thesis using n im j pj least [of j] by simp
    next
      case 4
      then show ?thesis using n im j pj ok [of j] by simp
    qed
  qed
  have B: "key (swap i m xs ! parent m) \<le> key (swap i m xs ! j)"
    if j: "j < length xs" "0 < j" "parent j = m" for j
  proof -
    have "j \<noteq> m" "j \<noteq> i" "m \<noteq> i" using j im by auto
    then show ?thesis using n im assms(3) j ok [of j] by simp
  qed
  from A B show ?thesis by (simp add: broken_down_def)
qed

lemma sift_down_ok:
  assumes "broken_down key i xs" and "i < length xs"
  shows "heap_ok key (sift_down key i xs) \<and> mset (sift_down key i xs) = mset xs"
  using assms
proof (induction key i xs rule: sift_down.induct)
  case (1 key i xs)
  let ?m = "min_child key i xs"
  show ?case
  proof (cases "?m < length xs \<and> key (xs ! ?m) < key (xs ! i)")
    case True
    then have "broken_down key ?m (swap i ?m xs)"
      using broken_down_step [OF 1(2) refl] by blast
    with 1(1) [OF refl True] 1(3) True show ?thesis
      by (subst (1 2) sift_down.simps) (simp add: Let_def)
  next
    case False
    have "heap_ok key xs"
      unfolding heap_ok_def
    proof (intro allI impI)
      fix j assume j: "j < length xs" "0 < j"
      show "key (xs ! parent j) \<le> key (xs ! j)"
      proof (cases "parent j = i")
        case True
        with min_child_least [OF j True, of key] False show ?thesis by (simp add: not_less)
      qed (use 1(2) j in \<open>simp add: broken_down_def\<close>)
    qed
    with False show ?thesis by (subst (1 2) sift_down.simps) (auto simp: Let_def)
  qed
qed

section \<open>Push and pop\<close>

lemma heap_ok_Nil [simp]: "heap_ok key []"
  by (simp add: heap_ok_def)

lemma heap_push_ok:
  assumes "heap_ok key xs"
  shows "heap_ok key (heap_push key x xs) \<and> mset (heap_push key x xs) = add_mset x (mset xs)"
proof -
  have "broken_up key (length xs) (xs @ [x])"
  proof -
    have "parent j < length xs" if "j < length (xs @ [x])" "j \<noteq> length xs" for j
      using that by auto
    moreover have "parent j \<noteq> length xs" if "j < length (xs @ [x])" "0 < j" for j
      using that by auto
    ultimately show ?thesis
      using assms by (auto simp: broken_up_def heap_ok_def nth_append less_Suc_eq)
  qed
  from sift_up_ok [OF this] show ?thesis by (simp add: heap_push_def)
qed

lemma heap_pop_ok:
  assumes ok: "heap_ok key xs" and "xs \<noteq> []"
  shows "heap_ok key (heap_pop key xs) \<and> mset (heap_pop key xs) = mset xs - {#xs ! 0#}"
proof (cases "length xs \<le> 1")
  case True
  with assms(2) have "length xs = 1" by (cases xs) auto
  then show ?thesis by (auto simp: heap_pop_def length_Suc_conv)
next
  case False
  then obtain y ys z where xs: "xs = y # ys @ [z]"
    by (metis One_nat_def append_butlast_last_id assms(2) le_refl length_0_conv length_Cons list.exhaust
        butlast.simps(2) last.simps)
  have b: "(butlast xs)[0 := last xs] = z # ys" by (simp add: xs)
  have "broken_down key 0 (z # ys)"
    unfolding broken_down_def
  proof (intro conjI allI impI)
    fix j assume j: "j < length (z # ys)" "0 < j \<and> parent j \<noteq> 0"
    then have "j < length xs" "0 < j" by (simp_all add: xs)
    with ok have "key (xs ! parent j) \<le> key (xs ! j)" by (simp add: heap_ok_def)
    moreover have "xs ! k = (z # ys) ! k" if "0 < k" "k < length (z # ys)" for k
      using that by (cases k) (simp_all add: xs nth_append)
    moreover have "parent j < length (z # ys)" using j(1) by auto
    ultimately show "key ((z # ys) ! parent j) \<le> key ((z # ys) ! j)" using j by simp
  qed simp
  from sift_down_ok [OF this] show ?thesis using False b by (simp add: heap_pop_def xs)
qed

lemma heap_top_min:
  assumes "heap_ok key xs" and "heap_top xs = Some x"
  shows "x \<in> set xs" and "y \<in> set xs \<Longrightarrow> key x \<le> key y"
proof -
  from assms(2) have x: "x = xs ! 0" "xs \<noteq> []" by (auto simp: heap_top_def split: if_splits)
  then show "x \<in> set xs" by simp
  show "key x \<le> key y" if "y \<in> set xs"
    using that heap_root_min [OF assms(1)] x by (auto simp: in_set_conv_nth)
qed

text \<open>The heap only reads the keys of what is in it.\<close>

lemma heap_ok_cong: "(\<And>x. x \<in> set xs \<Longrightarrow> key x = key' x) \<Longrightarrow> heap_ok key xs = heap_ok key' xs"
  by (simp add: heap_ok_def)

section \<open>The heap implements the priority-queue contract\<close>

interpretation heap: min_queue key "heap_push key" heap_top "heap_pop key" mset "heap_ok key"
  for key :: "'a \<Rightarrow> 'k::linorder"
proof (unfold_locales, goal_cases)
  case (1 q x)
  then show ?case by (simp add: heap_push_ok)
next
  case (2 q x)
  then show ?case by (simp add: heap_push_ok)
next
  case (3 q)
  then show ?case by (simp add: heap_top_def)
next
  case (4 q x)
  then show ?case by (auto dest: heap_top_min)
next
  case (5 q x)
  then show ?case by (auto simp: heap_top_def heap_pop_ok split: if_splits)
next
  case (6 q)
  then show ?case by (auto simp: heap_top_def heap_pop_ok split: if_splits)
qed

section \<open>ScheduledPacketQueue\<close>

definition Push :: "('a \<Rightarrow> int) \<Rightarrow> 'a \<Rightarrow> 'a list \<Rightarrow> 'a list" where
  "Push key p q = heap_push key p q"

definition PopReady :: "('a \<Rightarrow> int) \<Rightarrow> int \<Rightarrow> nat \<Rightarrow> 'a list \<Rightarrow> 'a list \<times> 'a list" where
  "PopReady key now limit q = pop_while heap_top (heap_pop key) (\<lambda>p. key p \<le> now) limit q"

text \<open>The loop of \<open>DrainAll\<close> ends when the queue is empty, after as many rounds as it has elements.\<close>

definition DrainAll :: "('a \<Rightarrow> int) \<Rightarrow> 'a list \<Rightarrow> 'a list \<times> 'a list" where
  "DrainAll key q = pop_while heap_top (heap_pop key) (\<lambda>_. True) (Suc (length q)) q"

definition Empty :: "'a list \<Rightarrow> bool" where
  "Empty q \<longleftrightarrow> q = []"

definition Peek :: "'a list \<Rightarrow> 'a option" where
  "Peek q = (if q = [] then None else heap_top q)"

lemmas sched_defs = Push_def PopReady_def DrainAll_def Empty_def Peek_def

lemma Push_spec [inv_intros]:
  "heap_ok key q \<Longrightarrow> heap_ok key (Push key p q) \<and> mset (Push key p q) = add_mset p (mset q)"
  by (simp add: sched_defs heap_push_ok)

lemma PopReady_split:
  assumes "heap_ok key q" and "PopReady key now limit q = (out, q')"
  shows "heap_ok key q'" and "mset out + mset q' = mset q" and "\<forall>p \<in> set out. key p \<le> now"
    and "length out \<le> limit" and "sorted (map key out)"
    and "\<forall>p \<in> set out. \<forall>r \<in> set q'. key p \<le> key r"
  using heap.pop_while_spec [OF assms(1), of "\<lambda>p. key p \<le> now" limit]
    heap.pop_while_sorted [OF assms(1), of "\<lambda>p. key p \<le> now" limit] assms(2)
  by (simp_all add: PopReady_def)

lemma PopReady_none_due:
  assumes "heap_ok key q" and "PopReady key now limit q = (out, q')" and "length out < limit"
    and "p \<in> set q'"
  shows "now < key p"
proof -
  from assms(4) have "q' \<noteq> []" by auto
  then obtain x where x: "heap_top q' = Some x" by (simp add: heap_top_def)
  have "\<not> key x \<le> now"
    using heap.pop_while_stop [OF assms(1), of "\<lambda>p. key p \<le> now" limit] assms(2,3) x
    by (simp add: PopReady_def)
  with heap_top_min(2) [OF PopReady_split(1) [OF assms(1,2)] x assms(4)] show ?thesis by simp
qed

lemma DrainAll_spec:
  assumes "heap_ok key q"
  shows "snd (DrainAll key q) = [] \<and> mset (fst (DrainAll key q)) = mset q \<and>
    sorted (map key (fst (DrainAll key q)))"
  using heap.pop_while_all [OF assms, of "Suc (length q)"]
    heap.pop_while_sorted [OF assms, of "\<lambda>_. True" "Suc (length q)"]
  by (simp add: DrainAll_def del: pop_while.simps)

section \<open>Properties\<close>

text \<open>
  \<open>PopReady\<close> hands over due packets, earliest first, and never too many. What it pops and what stays
  are together what was queued; everything popped is due and in order of release time; nothing that
  stays is earlier than anything popped; and when it stops short of the limit, nothing due is left.
\<close>

theorem pop_ready_earliest_due:
  assumes "heap_ok key q" and "PopReady key now limit q = (out, q')"
  shows "mset out + mset q' = mset q \<and> heap_ok key q' \<and> length out \<le> limit \<and>
    (\<forall>p \<in> set out. key p \<le> now) \<and> sorted (map key out) \<and> (\<forall>p \<in> set out. \<forall>r \<in> set q'. key p \<le> key r) \<and>
    (length out < limit \<longrightarrow> (\<forall>p \<in> set q'. now < key p))"
  using PopReady_split [OF assms] PopReady_none_due [OF assms] by blast

lemma pop_ready_earliest_due_witness:
  "PopReady (\<lambda>x. x) 5 2 (Push (\<lambda>x. x) 3 (Push (\<lambda>x. x) 9 (Push (\<lambda>x. x) (1 :: int) []))) = ([1, 3], [9])"
proof -
  let ?q = "Push (\<lambda>x. x) 3 (Push (\<lambda>x. x) 9 (Push (\<lambda>x. x) (1 :: int) []))"
  have ok: "heap_ok (\<lambda>x. x) ?q" by (intro conjunct1 [OF Push_spec] heap_ok_Nil)
  have "PopReady (\<lambda>x. x) 5 2 ?q = ([1, 3], [9])" by code_simp
  from pop_ready_earliest_due [OF ok this] this show ?thesis by simp
qed

end
