(* ===== verification/Divert.thy ===== *)
theory Divert
  imports Diagnostics
begin

text \<open>
  The packet-diversion driver as the program sees it. WinDivert is not part of the repository, so each
  of its functions the program calls is a parameter: it gets the state of the world outside and answers
  with a Windows error code, 0 for success. The environment of the pipeline is that world, the
  diagnostics object, and the list of the send calls made so far.
\<close>

datatype divert_layer = LayerNetwork | LayerFlow

datatype divert_how = ShutdownRecv | ShutdownSend | ShutdownBoth

datatype divert_param = ParamQueueLength | ParamQueueSize

text \<open>
  What \<open>WinDivertHelperParsePacket\<close> answers for the bytes it is given, when it succeeds: the IPv4 and
  the UDP header if the packet has them, and how many bytes follow the packet.
\<close>

record parsed =
  parsed_ip :: "ip_hdr option"
  parsed_udp :: "udp_hdr option"
  next_len :: nat

record 'w divert_ops =
  divert_open :: "divert_layer \<Rightarrow> 'w \<Rightarrow> u32 \<times> 'w"
  divert_set_param :: "divert_param \<Rightarrow> u64 \<Rightarrow> 'w \<Rightarrow> u32 \<times> 'w"
  divert_shutdown :: "divert_layer \<Rightarrow> divert_how \<Rightarrow> 'w \<Rightarrow> 'w"
  divert_close :: "divert_layer \<Rightarrow> 'w \<Rightarrow> 'w"
  divert_recv :: "'w \<Rightarrow> (u32 + wd_address) \<times> 'w"
  divert_recv_ex :: "'w \<Rightarrow> (u32 + u8 list \<times> wd_address list) \<times> 'w"
  divert_send :: "u8 list \<Rightarrow> wd_address list \<Rightarrow> 'w \<Rightarrow> u32 \<times> 'w"
  parse_packet :: "u8 list \<Rightarrow> parsed option"

text \<open>A send call: the bytes of the packets one after the other, and one address per packet.\<close>

record send_call =
  call_bytes :: "u8 list"
  call_addrs :: "wd_address list"
  call_error :: u32

record 'w env =
  world :: 'w
  calls :: "send_call list"
  logs :: diagnostics

definition env_send :: "'w divert_ops \<Rightarrow> u8 list \<Rightarrow> wd_address list \<Rightarrow> 'w env \<Rightarrow> u32 \<times> 'w env" where
  "env_send D bs addrs v =
     (case divert_send D bs addrs (world v) of
        (gle, w) \<Rightarrow>
          (gle, v\<lparr>world := w, calls := calls v @ [\<lparr>call_bytes = bs, call_addrs = addrs, call_error = gle\<rparr>]\<rparr>))"

definition env_log :: "log_site \<Rightarrow> log_level \<Rightarrow> log_message \<Rightarrow> 'w env \<Rightarrow> 'w env" where
  "env_log site lvl msg v = v\<lparr>logs := LogRateLimited site lvl msg (logs v)\<rparr>"

definition env_count :: "counter \<Rightarrow> u64 \<Rightarrow> 'w env \<Rightarrow> 'w env" where
  "env_count c n v = v\<lparr>logs := Increment c n (logs v)\<rparr>"

lemma env_log_sel [simp]:
  "world (env_log s l m v) = world v" "calls (env_log s l m v) = calls v"
  "Get c (logs (env_log s l m v)) = Get c (logs v)"
  by (simp_all add: env_log_def)

lemma env_count_sel [simp]:
  "world (env_count c n v) = world v" "calls (env_count c n v) = calls v"
  "Get c' (logs (env_count c n v)) = (if c' = c then Get c' (logs v) + n else Get c' (logs v))"
  by (simp_all add: env_count_def)

lemma env_send_calls:
  "env_send D bs addrs v = (gle, v') \<Longrightarrow>
     calls v' = calls v @ [\<lparr>call_bytes = bs, call_addrs = addrs, call_error = gle\<rparr>] \<and> logs v' = logs v"
  by (auto simp: env_send_def split: prod.splits)

text \<open>
  Two instances of the driver: one that does everything it is asked, one that refuses to send. Their
  world is the list of what they will still deliver.
\<close>

type_synonym script = "(u32 + u8 list \<times> wd_address list) list"

definition scripted_driver :: "(u8 list \<Rightarrow> parsed option) \<Rightarrow> u32 \<Rightarrow> script divert_ops" where
  "scripted_driver parse send_error =
     \<lparr>divert_open = (\<lambda>_ w. (0, w)), divert_set_param = (\<lambda>_ _ w. (0, w)),
      divert_shutdown = (\<lambda>_ _ w. w), divert_close = (\<lambda>_ w. w),
      divert_recv = (\<lambda>w. case w of
          [] \<Rightarrow> (Inl ERROR_NO_DATA, [])
        | Inl e # w' \<Rightarrow> (Inl e, w')
        | Inr (_, as) # w' \<Rightarrow> (case as of a # _ \<Rightarrow> (Inr a, w') | [] \<Rightarrow> (Inl ERROR_NO_DATA, w'))),
      divert_recv_ex = (\<lambda>w. case w of [] \<Rightarrow> (Inl ERROR_NO_DATA, []) | r # w' \<Rightarrow> (r, w')),
      divert_send = (\<lambda>_ _ w. (send_error, w)), parse_packet = parse\<rparr>"

definition env_init :: "'w \<Rightarrow> 'w env" where
  "env_init w = \<lparr>world = w, calls = [], logs = diagnostics_init 0\<rparr>"

text \<open>Plain log calls: each is one entry.\<close>

definition env_log_always :: "log_level \<Rightarrow> log_message \<Rightarrow> 'w env \<Rightarrow> 'w env" where
  "env_log_always lvl msg v = v\<lparr>logs := Log lvl msg (logs v)\<rparr>"

lemma env_log_always_sel [simp]:
  "world (env_log_always l m v) = world v" "calls (env_log_always l m v) = calls v"
  "Get c (logs (env_log_always l m v)) = Get c (logs v)"
  by (simp_all add: env_log_always_def)

end
