(* ===== verification/Delay_Queue.thy ===== *)
theory Delay_Queue
  imports Spsc_Queue Sched_Queue Divert
begin

text \<open>
  The delay queue (include/core/DelayQueue.h, src/core/DelayQueue.cpp): a pool of packet slots, a ring of
  free slots and a ring of slots handed to the delay thread, and that thread's time-ordered queue.
  Pointers into the pool are indices. An operation that would spin on a full ring is \<open>None\<close>; the
  invariant shows that none does.
\<close>

section \<open>State\<close>

record delay_queue =
  memory_pool :: "scheduled_packet list"
  free_queue :: "nat spsc"
  handoff_queue :: "nat spsc"
  sched :: "nat list"
  running :: bool
  thread_alive :: bool

text \<open>\<open>release_at\<close> through a pointer, for the comparator of the queue.\<close>

definition slot_key :: "scheduled_packet list \<Rightarrow> nat \<Rightarrow> int" where
  "slot_key pool i = release_at (pool ! i)"

definition empty_packet :: scheduled_packet where
  "empty_packet =
     \<lparr>packet = \<lparr>pkt_data = replicate kStandardMtuSize 0, pkt_length = 0,
                pkt_addr = \<lparr>Event = 0, Outbound = False,
                  Flow = \<lparr>ProcessId = 0, LocalAddr = [0, 0, 0, 0], RemoteAddr = [0, 0, 0, 0],
                          LocalPort = 0, RemotePort = 0, Protocol = 0\<rparr>, addr_rest = []\<rparr>,
                metadata = \<lparr>tuple = \<lparr>src_addr = 0, dst_addr = 0, src_port = 0, dst_port = 0, protocol = 0\<rparr>,
                            pid = 0, is_outbound = False\<rparr>\<rparr>,
      release_at = 0\<rparr>"

text \<open>The constructor pushes every slot onto the free ring.\<close>

definition DelayQueue_new :: "(nat \<Rightarrow> nat) \<Rightarrow> nat \<Rightarrow> delay_queue option" where
  "DelayQueue_new alloc pad =
     (case push_all spsc_emplace [0..<kDelayQueueCapacity] (spsc_new alloc pad kDelayQueueCapacity) of
        None \<Rightarrow> None
      | Some free \<Rightarrow>
          Some \<lparr>memory_pool = replicate kDelayQueueCapacity empty_packet, free_queue = free,
                handoff_queue = spsc_new alloc pad kDelayQueueCapacity, sched = [],
                running = False, thread_alive = False\<rparr>)"

definition dq_Start :: "delay_queue \<Rightarrow> delay_queue" where
  "dq_Start q = q\<lparr>running := True, thread_alive := True\<rparr>"

section \<open>The producer\<close>

definition dq_Push :: "scheduled_packet \<Rightarrow> delay_queue \<Rightarrow> 'w env \<Rightarrow> (delay_queue \<times> 'w env) option" where
  "dq_Push p q v =
     (case spsc_front (free_queue q) of
        (None, f) \<Rightarrow>
          Some (q\<lparr>free_queue := f\<rparr>,
                env_count kPoolExhausted 1
                  (env_log SitePoolExhausted kWarn
                    (''DelayQueue: free pool exhausted, dropping packet to avoid blocking capture loop'', []) v))
      | (Some slot, f) \<Rightarrow>
          (let q = q\<lparr>free_queue := spsc_pop f\<rparr>;
               q = q\<lparr>memory_pool := (memory_pool q)[slot := p]\<rparr>
           in case spsc_emplace slot (handoff_queue q) of
                None \<Rightarrow> None
              | Some h \<Rightarrow> Some (q\<lparr>handoff_queue := h\<rparr>, v)))"

section \<open>The delay thread\<close>

definition Reinject :: "'w divert_ops \<Rightarrow> scheduled_packet \<Rightarrow> 'w env \<Rightarrow> 'w env" where
  "Reinject D p v =
     (let (gle, v) = env_send D (Bytes (packet p)) [pkt_addr (packet p)] v in
      if gle \<noteq> 0 then
        env_count kReinjectFailures 1
          (env_log SiteReinjectSend kWarn (''DelayQueue: WinDivertSend failed (GLE={})'', [ANum (unat gle)]) v)
      else v)"

definition kBatchSize :: nat where
  "kBatchSize = 128"

definition kBatchBufferLen :: nat where
  "kBatchBufferLen = kBatchSize * kStandardMtuSize"

text \<open>What the callback of \<open>PopReady\<close> collects.\<close>

record batch =
  send_buf :: "u8 list"
  send_addrs :: "wd_address list"
  ready_packets :: "nat list"
  send_len :: u32
  send_count :: u32

definition batch_init :: batch where
  "batch_init = \<lparr>send_buf = [], send_addrs = [], ready_packets = [], send_len = 0, send_count = 0\<rparr>"

definition batch_add :: "scheduled_packet list \<Rightarrow> nat \<Rightarrow> batch \<Rightarrow> batch" where
  "batch_add pool i b =
     \<lparr>send_buf = send_buf b @ Bytes (packet (pool ! i)),
      send_addrs = send_addrs b @ [pkt_addr (packet (pool ! i))],
      ready_packets = ready_packets b @ [i],
      send_len = send_len b + pkt_length (packet (pool ! i)),
      send_count = send_count b + 1\<rparr>"

text \<open>The inner loop of \<open>DrainLoop\<close>: everything handed over goes into the time-ordered queue.\<close>

definition take_handoff :: "delay_queue \<Rightarrow> bool \<times> delay_queue" where
  "take_handoff q =
     (let (xs, h) = drain_fifo spsc_front spsc_pop (Suc (capacity (handoff_queue q))) (handoff_queue q)
      in (xs \<noteq> [], q\<lparr>handoff_queue := h, sched := fold (Push (slot_key (memory_pool q))) xs (sched q)\<rparr>))"

definition send_batch :: "'w divert_ops \<Rightarrow> batch \<Rightarrow> 'w env \<Rightarrow> 'w env" where
  "send_batch D b v =
     (let (gle, v) = env_send D (take (unat (send_len b)) (send_buf b)) (send_addrs b) v in
      if gle \<noteq> 0 then
        env_count kReinjectFailures (ucast (send_count b))
          (env_log SiteDrainBatchSend kWarn
            (''DelayQueue: batch WinDivertSendEx failed (GLE={}, packets={})'',
             [ANum (unat gle), ANum (unat (send_count b))]) v)
      else env_count kPacketsReinjected (ucast (send_count b)) v)"

definition send_ready :: "'w divert_ops \<Rightarrow> int \<Rightarrow> delay_queue \<Rightarrow> 'w env \<Rightarrow> (bool \<times> delay_queue \<times> 'w env) option" where
  "send_ready D now q v =
     (let (popped, left) = PopReady (slot_key (memory_pool q)) now kBatchSize (sched q);
          b = fold (batch_add (memory_pool q)) popped batch_init;
          q = q\<lparr>sched := left\<rparr>
      in if send_count b > 0 then
           (let v = send_batch D b v in
            case push_all spsc_emplace (ready_packets b) (free_queue q) of
              None \<Rightarrow> None
            | Some f \<Rightarrow> Some (True, q\<lparr>free_queue := f\<rparr>, v))
         else Some (False, q, v))"

datatype pause = NoPause | SleepOneMs | YieldNow

definition idle_pause :: "int \<Rightarrow> delay_queue \<Rightarrow> pause" where
  "idle_pause now q =
     (case Peek (sched q) of
        Some i \<Rightarrow> (if slot_key (memory_pool q) i - now > ns_per_ms then SleepOneMs else YieldNow)
      | None \<Rightarrow> SleepOneMs)"

text \<open>One round of \<open>DrainLoop\<close>; \<open>now\<close> and \<open>now2\<close> are its two readings of the clock.\<close>

definition drain_round ::
  "'w divert_ops \<Rightarrow> int \<Rightarrow> int \<Rightarrow> delay_queue \<Rightarrow> 'w env \<Rightarrow> (pause \<times> delay_queue \<times> 'w env) option" where
  "drain_round D now now2 q v =
     (let (did_work, q) = take_handoff q in
      case send_ready D now q v of
        None \<Rightarrow> None
      | Some (sent, q, v) \<Rightarrow>
          Some (if did_work \<or> sent then NoPause else idle_pause now2 q, q, v))"

section \<open>Stopping\<close>

fun flush_handoff :: "'w divert_ops \<Rightarrow> nat \<Rightarrow> delay_queue \<Rightarrow> 'w env \<Rightarrow> (delay_queue \<times> 'w env) option" where
  "flush_handoff D 0 q v = Some (q, v)"
| "flush_handoff D (Suc n) q v =
     (case spsc_front (handoff_queue q) of
        (None, h) \<Rightarrow> Some (q\<lparr>handoff_queue := h\<rparr>, v)
      | (Some _, h) \<Rightarrow>
          (case spsc_front h of
             (None, h) \<Rightarrow> Some (q\<lparr>handoff_queue := h\<rparr>, v)
           | (Some i, h) \<Rightarrow>
               (let v = Reinject D (memory_pool q ! i) v;
                    q = q\<lparr>handoff_queue := spsc_pop h\<rparr>
                in case spsc_emplace i (free_queue q) of
                     None \<Rightarrow> None
                   | Some f \<Rightarrow> flush_handoff D n (q\<lparr>free_queue := f\<rparr>) v)))"

fun flush_scheduled :: "'w divert_ops \<Rightarrow> nat list \<Rightarrow> delay_queue \<Rightarrow> 'w env \<Rightarrow> (delay_queue \<times> 'w env) option" where
  "flush_scheduled D [] q v = Some (q, v)"
| "flush_scheduled D (i # is) q v =
     (let v = Reinject D (memory_pool q ! i) v in
      case spsc_emplace i (free_queue q) of
        None \<Rightarrow> None
      | Some f \<Rightarrow> flush_scheduled D is (q\<lparr>free_queue := f\<rparr>) v)"

definition FlushPackets :: "'w divert_ops \<Rightarrow> delay_queue \<Rightarrow> 'w env \<Rightarrow> (delay_queue \<times> 'w env) option" where
  "FlushPackets D q v =
     (case flush_handoff D (Suc (capacity (handoff_queue q))) q v of
        None \<Rightarrow> None
      | Some (q, v) \<Rightarrow>
          (case DrainAll (slot_key (memory_pool q)) (sched q) of
             (popped, left) \<Rightarrow> flush_scheduled D popped (q\<lparr>sched := left\<rparr>) v))"

definition dq_Stop :: "'w divert_ops \<Rightarrow> delay_queue \<Rightarrow> 'w env \<Rightarrow> (delay_queue \<times> 'w env) option" where
  "dq_Stop D q v = FlushPackets D (q\<lparr>running := False, thread_alive := False\<rparr>) v"

section \<open>Invariant and abstraction\<close>

declare length_spsc_items [simp del]

text \<open>
  Every slot is in exactly one place: free, handed over, or scheduled. The abstraction is the multiset
  of the packets held.
\<close>

definition held_slots :: "delay_queue \<Rightarrow> nat list" where
  "held_slots q = spsc_items (handoff_queue q) @ sched q"

definition dq_inv :: "delay_queue \<Rightarrow> bool" where
  "dq_inv q \<longleftrightarrow>
     length (memory_pool q) = kDelayQueueCapacity \<and>
     spsc_inv (free_queue q) \<and> spsc_inv (handoff_queue q) \<and>
     kDelayQueueCapacity \<le> spsc_capacity (free_queue q) \<and>
     kDelayQueueCapacity \<le> spsc_capacity (handoff_queue q) \<and>
     heap_ok (slot_key (memory_pool q)) (sched q) \<and>
     mset (spsc_items (free_queue q)) + mset (held_slots q) = mset [0..<kDelayQueueCapacity] \<and>
     (\<forall>i \<in> set (held_slots q). packet_ok (packet (memory_pool q ! i)))"

definition held :: "delay_queue \<Rightarrow> scheduled_packet multiset" where
  "held q = mset (map (\<lambda>i. memory_pool q ! i) (held_slots q))"

lemma held_slots_range:
  assumes "dq_inv q"
  shows "i \<in> set (held_slots q) \<Longrightarrow> i < kDelayQueueCapacity"
    and "i \<in> set (spsc_items (free_queue q)) \<Longrightarrow> i < kDelayQueueCapacity"
    and "i \<in> set (spsc_items (free_queue q)) \<Longrightarrow> i \<notin> set (held_slots q)"
    and "distinct (held_slots q)"
proof -
  have m: "mset (spsc_items (free_queue q) @ held_slots q) = mset [0..<kDelayQueueCapacity]"
    using assms by (simp add: dq_inv_def)
  then have "set (spsc_items (free_queue q) @ held_slots q) = {0..<kDelayQueueCapacity}"
    by (metis atLeastLessThan_upt mset_eq_setD)
  then have s: "set (spsc_items (free_queue q)) \<union> set (held_slots q) = {0..<kDelayQueueCapacity}" by simp
  then show "i \<in> set (held_slots q) \<Longrightarrow> i < kDelayQueueCapacity"
    and "i \<in> set (spsc_items (free_queue q)) \<Longrightarrow> i < kDelayQueueCapacity" by auto
  have "distinct (spsc_items (free_queue q) @ held_slots q)"
    using mset_eq_imp_distinct_iff [OF m] by simp
  then show "i \<in> set (spsc_items (free_queue q)) \<Longrightarrow> i \<notin> set (held_slots q)"
    and "distinct (held_slots q)" by auto
qed

lemma slot_count:
  "dq_inv q \<Longrightarrow> length (spsc_items (free_queue q)) + length (held_slots q) = kDelayQueueCapacity"
proof -
  assume "dq_inv q"
  then have "size (mset (spsc_items (free_queue q)) + mset (held_slots q)) = size (mset [0..<kDelayQueueCapacity])"
    by (simp only: dq_inv_def)
  then show ?thesis by simp
qed

lemma size_held: "size (held q) = length (held_slots q)"
  by (simp add: held_def)

text \<open>Construction.\<close>

definition alloc_ok :: "(nat \<Rightarrow> nat) \<Rightarrow> nat \<Rightarrow> bool" where
  "alloc_ok alloc pad \<longleftrightarrow> (\<forall>n. n \<le> alloc n) \<and> 2 * pad + kDelayQueueCapacity + 2 < SIZE_MAX"

lemma DelayQueue_new_ok:
  assumes "alloc_ok alloc pad"
  shows "\<exists>q. DelayQueue_new alloc pad = Some q \<and> dq_inv q \<and> held q = {#} \<and>
    length (spsc_items (free_queue q)) = kDelayQueueCapacity"
proof -
  let ?n = "spsc_new alloc pad kDelayQueueCapacity :: nat spsc"
  have n: "spsc_inv ?n" "spsc_items ?n = []" "kDelayQueueCapacity \<le> spsc_capacity ?n"
  proof -
    have "\<And>n. n \<le> alloc n" "kDelayQueueCapacity < SIZE_MAX - 2 * pad" "2 * pad + 2 < SIZE_MAX"
      using assms unfolding alloc_ok_def by auto
    from spsc_new_inv [OF this, where 'a = nat]
    show "spsc_inv ?n" "spsc_items ?n = []" "kDelayQueueCapacity \<le> spsc_capacity ?n" by simp_all
  qed
  from ring.push_all_ok [OF n(1), of "[0..<kDelayQueueCapacity]"] n(2,3) obtain f where
    f: "push_all spsc_emplace [0..<kDelayQueueCapacity] ?n = Some f" "spsc_inv f"
      "spsc_items f = [0..<kDelayQueueCapacity]" "spsc_capacity f = spsc_capacity ?n"
    by auto
  with n show ?thesis
    by (auto simp: DelayQueue_new_def dq_inv_def held_def held_slots_def)
qed

section \<open>Pushing\<close>

text \<open>A packet that takes the next free slot.\<close>

lemma slot_filled:
  assumes inv: "dq_inv q" and pk: "packet_ok (packet p)" and items: "spsc_items (free_queue q) = i # rest"
    and h: "spsc_inv h" "spsc_items h = spsc_items (handoff_queue q) @ [i]" "spsc_capacity h = spsc_capacity (handoff_queue q)"
    and f: "spsc_inv f" "spsc_items f = rest" "spsc_capacity f = spsc_capacity (free_queue q)"
  defines "q' \<equiv> q\<lparr>free_queue := f, memory_pool := (memory_pool q)[i := p], handoff_queue := h\<rparr>"
  shows "dq_inv q' \<and> held q' = add_mset p (held q)"
proof -
  have s: "i \<in> set (spsc_items (free_queue q))" using items by simp
  note rng = held_slots_range [OF inv]
  have hs: "mset (held_slots q') = add_mset i (mset (held_slots q))"
    using h by (simp add: q'_def held_slots_def)
  have old: "(memory_pool q)[i := p] ! j = memory_pool q ! j" if "j \<in> set (held_slots q)" for j
    using that rng(3) [OF s] by (metis nth_list_update_neq)
  have new: "(memory_pool q)[i := p] ! i = p" using rng(2) [OF s] inv by (simp add: dq_inv_def)
  have "image_mset ((!) ((memory_pool q)[i := p])) (mset (held_slots q)) =
      image_mset ((!) (memory_pool q)) (mset (held_slots q))"
    by (rule image_mset_cong) (simp add: old)
  then have held: "held q' = add_mset p (held q)"
    unfolding held_def mset_map hs using new by (simp add: q'_def)
  have "heap_ok (slot_key (memory_pool q')) (sched q)"
    using inv old by (subst heap_ok_cong [of _ _ "slot_key (memory_pool q)"])
      (simp_all add: q'_def dq_inv_def slot_key_def held_slots_def)
  moreover have "packet_ok (packet (memory_pool q' ! j))" if "j \<in> set (held_slots q')" for j
  proof -
    have "j = i \<or> j \<in> set (held_slots q)" using that h by (auto simp: q'_def held_slots_def)
    then show ?thesis using new old pk inv by (auto simp: q'_def dq_inv_def)
  qed
  ultimately have "dq_inv q'"
    using inv h f items by (auto simp: q'_def dq_inv_def held_slots_def)
  with held show ?thesis by simp
qed

lemma dq_Push_spec:
  assumes inv: "dq_inv q" and pk: "packet_ok (packet p)"
  shows "\<exists>q' v'. dq_Push p q v = Some (q', v') \<and> dq_inv q' \<and> calls v' = calls v \<and>
    (if size (held q) < kDelayQueueCapacity
     then held q' = add_mset p (held q) \<and> v' = v
     else held q' = held q \<and> Get kPoolExhausted (logs v') = Get kPoolExhausted (logs v) + 1)"
proof -
  let ?f = "free_queue q" and ?h = "handoff_queue q"
  have i: "spsc_inv ?f" "spsc_inv ?h" using inv by (simp_all add: dq_inv_def)
  note fr = ring.front_value [OF i(1)] and fr' = ring.front_frame [OF i(1)]
  obtain r f1 where f1: "spsc_front ?f = (r, f1)" by force
  show ?thesis
  proof (cases "spsc_items ?f")
    case Nil
    then have full: "\<not> size (held q) < kDelayQueueCapacity" using slot_count [OF inv] size_held [of q] by simp
    have "held (q\<lparr>free_queue := f1\<rparr>) = held q" by (simp add: held_def held_slots_def)
    moreover have "dq_inv (q\<lparr>free_queue := f1\<rparr>)"
      using inv fr' f1 by (simp add: dq_inv_def held_slots_def)
    ultimately show ?thesis using Nil full fr f1 by (simp add: dq_Push_def)
  next
    case (Cons s rest)
    then have free: "length (held_slots q) < kDelayQueueCapacity" using slot_count [OF inv] by simp
    then have "length (spsc_items ?h) < spsc_capacity ?h" using inv by (simp add: held_slots_def dq_inv_def)
    from ring.push_ok [OF i(2) this, of s] obtain h where
      h: "spsc_emplace s ?h = Some h" "spsc_inv h" "spsc_items h = spsc_items ?h @ [s]"
        "spsc_capacity h = spsc_capacity ?h" by blast
    have "spsc_inv (spsc_pop f1)" "spsc_items (spsc_pop f1) = rest" "spsc_capacity (spsc_pop f1) = spsc_capacity ?f"
      using ring.pop_ok [OF i(1)] Cons f1 by simp_all
    from slot_filled [OF inv pk Cons h(2-4) this]
    show ?thesis using Cons fr f1 h(1) free size_held [of q] by (simp add: dq_Push_def Let_def)
  qed
qed

section \<open>The delay thread's round\<close>

lemma fold_Push:
  "heap_ok key s \<Longrightarrow> heap_ok key (fold (Push key) xs s) \<and> mset (fold (Push key) xs s) = mset xs + mset s"
  by (induction xs arbitrary: s) (simp_all add: Push_spec)

lemma dq_inv_permute:
  assumes "dq_inv q" and "mset (held_slots q') = mset (held_slots q)" and "memory_pool q' = memory_pool q"
    and "free_queue q' = free_queue q" and "spsc_inv (handoff_queue q')"
    and "spsc_capacity (handoff_queue q') = spsc_capacity (handoff_queue q)"
    and "heap_ok (slot_key (memory_pool q)) (sched q')"
  shows "dq_inv q' \<and> held q' = held q"
  using assms mset_eq_setD [OF assms(2)] by (simp add: dq_inv_def held_def)

lemma take_handoff_spec:
  assumes inv: "dq_inv q" and "take_handoff q = (did, q')"
  shows "dq_inv q' \<and> held q' = held q \<and> spsc_items (handoff_queue q') = [] \<and>
    memory_pool q' = memory_pool q \<and> (did \<longleftrightarrow> spsc_items (handoff_queue q) \<noteq> [])"
proof -
  let ?h = "handoff_queue q" and ?key = "slot_key (memory_pool q)"
  have h: "spsc_inv ?h" and hp: "heap_ok ?key (sched q)" using inv by (simp_all add: dq_inv_def)
  have len: "length (spsc_items ?h) < Suc (capacity ?h)"
    using spsc_size_items [OF h] by (simp add: spsc_capacity_def)
  note d = ring.drain_all [OF h len]
  obtain xs h' where dr: "drain_fifo spsc_front spsc_pop (Suc (capacity ?h)) ?h = (xs, h')" by force
  note fp = fold_Push [OF hp, of xs]
  have q': "did \<longleftrightarrow> xs \<noteq> []" "q' = q\<lparr>handoff_queue := h', sched := fold (Push ?key) xs (sched q)\<rparr>"
    using assms(2) dr by (simp_all add: take_handoff_def Let_def del: drain_fifo.simps)
  have "dq_inv q' \<and> held q' = held q"
    by (rule dq_inv_permute [OF inv]) (use d dr fp q' in \<open>simp_all add: held_slots_def\<close>)
  with d dr q' show ?thesis by simp
qed

lemma batch_fold:
  "send_buf (fold (batch_add pool) is b) = send_buf b @ concat (map (\<lambda>i. Bytes (packet (pool ! i))) is)"
  "send_addrs (fold (batch_add pool) is b) = send_addrs b @ map (\<lambda>i. pkt_addr (packet (pool ! i))) is"
  "ready_packets (fold (batch_add pool) is b) = ready_packets b @ is"
  "send_count (fold (batch_add pool) is b) = send_count b + of_nat (length is)"
  by (induction "is" arbitrary: b) (simp_all add: batch_add_def algebra_simps)

lemma batch_length:
  assumes "\<forall>i \<in> set is. packet_ok (packet (pool ! i))"
    and "unat (send_len b) = length (send_buf b)" and "length (send_buf b) + kStandardMtuSize * length is < 2 ^ 32"
  shows "unat (send_len (fold (batch_add pool) is b)) = length (send_buf (fold (batch_add pool) is b)) \<and>
    length (send_buf (fold (batch_add pool) is b)) \<le> length (send_buf b) + kStandardMtuSize * length is"
  using assms
proof (induction "is" arbitrary: b)
  case (Cons i "is")
  let ?p = "packet (pool ! i)"
  have ok: "unat (pkt_length ?p) \<le> kStandardMtuSize" "length (Bytes ?p) = unat (pkt_length ?p)"
    using Cons.prems(1) by (simp_all add: packet_ok_def length_Bytes)
  have "unat (send_len (batch_add pool i b)) = length (send_buf (batch_add pool i b))"
    unfolding batch_add_def using Cons.prems(2,3) ok
    by (simp add: unat_add_no_wrap)
  moreover have "length (send_buf (batch_add pool i b)) \<le> length (send_buf b) + kStandardMtuSize"
    using ok by (simp add: batch_add_def)
  ultimately show ?case
    using Cons.IH [of "batch_add pool i b"] Cons.prems(1,3) by simp
qed simp

definition batch_send :: "scheduled_packet list \<Rightarrow> u8 list \<times> wd_address list" where
  "batch_send ps = (concat (map (\<lambda>p. Bytes (packet p)) ps), map (\<lambda>p. pkt_addr (packet p)) ps)"

definition sends_of :: "send_call list \<Rightarrow> (u8 list \<times> wd_address list) list" where
  "sends_of cs = map (\<lambda>c. (call_bytes c, call_addrs c)) cs"

lemma sends_of_snoc [simp]: "sends_of (cs @ [c]) = sends_of cs @ [(call_bytes c, call_addrs c)]"
  by (simp add: sends_of_def)

lemma send_batch_calls:
  "sends_of (calls (send_batch D b v)) =
     sends_of (calls v) @ [(take (unat (send_len b)) (send_buf b), send_addrs b)]"
  by (auto simp: send_batch_def Let_def dest: env_send_calls split: prod.split)

lemma send_batch_counts:
  "Get kPacketsReinjected (logs (send_batch D b v)) + Get kReinjectFailures (logs (send_batch D b v)) =
     Get kPacketsReinjected (logs v) + Get kReinjectFailures (logs v) + ucast (send_count b)"
  by (auto simp: send_batch_def Let_def dest!: env_send_calls split: prod.split)

text \<open>Moving held slots back to the free ring.\<close>

lemma free_slots:
  assumes inv: "dq_inv q" and split: "mset (held_slots q) = mset is + mset (held_slots q0)"
    and f: "push_all spsc_emplace is (free_queue q) = Some f"
    and q0: "memory_pool q0 = memory_pool q" "spsc_inv (handoff_queue q0)"
      "spsc_capacity (handoff_queue q0) = spsc_capacity (handoff_queue q)"
      "heap_ok (slot_key (memory_pool q)) (sched q0)"
  shows "dq_inv (q0\<lparr>free_queue := f\<rparr>) \<and>
    held q = mset (map (\<lambda>i. memory_pool q ! i) is) + held (q0\<lparr>free_queue := f\<rparr>)"
proof -
  have fi: "spsc_inv (free_queue q)" using inv by (simp add: dq_inv_def)
  have "length (held_slots q) = length is + length (held_slots q0)"
    using split by (metis size_mset size_union)
  then have "length (spsc_items (free_queue q)) + length is \<le> spsc_capacity (free_queue q)"
    using slot_count [OF inv] inv by (simp add: dq_inv_def)
  from ring.push_all_ok [OF fi this] f have f': "spsc_inv f" "spsc_items f = spsc_items (free_queue q) @ is"
    "spsc_capacity f = spsc_capacity (free_queue q)" by auto
  have hs: "held_slots (q0\<lparr>free_queue := f\<rparr>) = held_slots q0" by (simp add: held_slots_def)
  have "set (held_slots q0) \<subseteq> set (held_slots q)"
    using split by (metis set_mset_mono set_mset_mset mset_subset_eq_add_right)
  then have "dq_inv (q0\<lparr>free_queue := f\<rparr>)"
    using inv f' q0 split hs unfolding dq_inv_def by (auto simp: ac_simps)
  moreover have "held q = mset (map (\<lambda>i. memory_pool q ! i) is) + held (q0\<lparr>free_queue := f\<rparr>)"
    unfolding held_def mset_map hs split using q0(1) by simp
  ultimately show ?thesis by blast
qed

lemma free_slots_push:
  assumes inv: "dq_inv q" and "mset is \<subseteq># mset (held_slots q)"
  shows "\<exists>f. push_all spsc_emplace is (free_queue q) = Some f"
proof -
  have fi: "spsc_inv (free_queue q)" using inv by (simp add: dq_inv_def)
  have "length is \<le> length (held_slots q)" using assms(2) by (metis size_mset size_mset_mono)
  then have "length (spsc_items (free_queue q)) + length is \<le> spsc_capacity (free_queue q)"
    using slot_count [OF inv] inv by (simp add: dq_inv_def)
  from ring.push_all_ok [OF fi this] show ?thesis by blast
qed

text \<open>The batch the slots of a round are gathered in: it fits the buffer, and no count of it wraps.\<close>

lemma ready_batch:
  assumes "\<forall>i \<in> set is. packet_ok (packet (pool ! i))" and "length is \<le> kBatchSize"
  defines "b \<equiv> fold (batch_add pool) is batch_init" and "ps \<equiv> map (\<lambda>i. pool ! i) is"
  shows "take (unat (send_len b)) (send_buf b) = fst (batch_send ps)" and "send_addrs b = snd (batch_send ps)"
    and "ready_packets b = is" and "0 < send_count b \<longleftrightarrow> is \<noteq> []" and "(ucast (send_count b) :: u64) = of_nat (length is)"
    and "length (fst (batch_send ps)) \<le> kBatchBufferLen"
proof -
  have bf: "send_buf b = fst (batch_send ps)" "send_count b = of_nat (length is)"
    by (simp_all add: b_def ps_def batch_fold batch_init_def batch_send_def comp_def)
  show "send_addrs b = snd (batch_send ps)" "ready_packets b = is"
    by (simp_all add: b_def ps_def batch_fold batch_init_def batch_send_def comp_def)
  have "kStandardMtuSize * length is \<le> kStandardMtuSize * 128"
    using assms(2) by (simp add: kBatchSize_def)
  then have "kStandardMtuSize * length is < 2 ^ 32" by (simp add: kStandardMtuSize_def)
  then have bl: "unat (send_len b) = length (send_buf b) \<and> length (send_buf b) \<le> kStandardMtuSize * length is"
    using batch_length [of "is" pool batch_init] assms(1) by (simp add: b_def batch_init_def subset_iff)
  then show "take (unat (send_len b)) (send_buf b) = fst (batch_send ps)" by (simp add: bf)
  show "length (fst (batch_send ps)) \<le> kBatchBufferLen"
    using bl bf assms(2) by (simp add: kBatchBufferLen_def kStandardMtuSize_def)
  have "length is < 2 ^ 32" using assms(2) by (simp add: kBatchSize_def)
  then have u: "unat (send_count b) = length is"
    unfolding bf by (simp add: unat_of_nat take_bit_nat_eq_self_iff)
  then show "0 < send_count b \<longleftrightarrow> is \<noteq> []" by (simp add: word_less_nat_alt)
  show "(ucast (send_count b) :: u64) = of_nat (length is)" using u by (metis of_nat_unat)
qed

lemma send_ready_spec:
  assumes inv: "dq_inv q" and empty: "spsc_items (handoff_queue q) = []"
  shows "\<exists>sent q' v' ps. send_ready D now q v = Some (sent, q', v') \<and> dq_inv q' \<and>
    held q = mset ps + held q' \<and> sorted (map release_at ps) \<and> (\<forall>p \<in> set ps. release_at p \<le> now) \<and>
    length ps \<le> kBatchSize \<and> (length ps < kBatchSize \<longrightarrow> (\<forall>p \<in># held q'. now < release_at p)) \<and>
    (\<forall>p \<in> set ps. \<forall>r \<in># held q'. release_at p \<le> release_at r) \<and>
    length (fst (batch_send ps)) \<le> kBatchBufferLen \<and> (sent \<longleftrightarrow> ps \<noteq> []) \<and>
    sends_of (calls v') = sends_of (calls v) @ (if ps = [] then [] else [batch_send ps]) \<and>
    Get kPacketsReinjected (logs v') + Get kReinjectFailures (logs v') =
      Get kPacketsReinjected (logs v) + Get kReinjectFailures (logs v) + of_nat (length ps) \<and>
    spsc_items (handoff_queue q') = [] \<and> memory_pool q' = memory_pool q"
proof -
  let ?pool = "memory_pool q" and ?key = "slot_key (memory_pool q)"
  have hp: "heap_ok ?key (sched q)" and pk: "\<forall>i \<in> set (held_slots q). packet_ok (packet (?pool ! i))"
    using inv by (simp_all add: dq_inv_def)
  obtain ii left where pr: "PopReady ?key now kBatchSize (sched q) = (ii, left)" by force
  note sp = PopReady_split [OF hp pr] and none = PopReady_none_due [OF hp pr]
  let ?b = "fold (batch_add ?pool) ii batch_init" and ?ps = "map (\<lambda>i. ?pool ! i) ii"
  let ?q0 = "q\<lparr>sched := left\<rparr>"
  have split: "mset (held_slots q) = mset ii + mset (held_slots ?q0)"
    using sp(2) empty by (simp add: held_slots_def)
  then have "set ii \<subseteq> set (held_slots q)" by (metis mset_subset_eq_add_left set_mset_mono set_mset_mset)
  then have pki: "\<forall>i \<in> set ii. packet_ok (packet (?pool ! i))" using pk by blast
  note bt = ready_batch [OF pki sp(4)]
  from free_slots_push [OF inv, of ii] split obtain f where f: "push_all spsc_emplace ii (free_queue q) = Some f"
    by auto
  let ?q' = "?q0\<lparr>free_queue := f\<rparr>"
  have fs: "dq_inv ?q'" "held q = mset ?ps + held ?q'"
    using free_slots [OF inv split f] inv sp(1) by (simp_all add: dq_inv_def)
  have left: "held ?q' = mset (map (\<lambda>i. ?pool ! i) left)"
    using empty by (simp add: held_def held_slots_def)
  have order: "\<forall>p \<in> set ?ps. release_at p \<le> now" "sorted (map release_at ?ps)"
    "\<forall>p \<in> set ?ps. \<forall>r \<in># held ?q'. release_at p \<le> release_at r"
    "length ?ps < kBatchSize \<longrightarrow> (\<forall>p \<in># held ?q'. now < release_at p)"
    using sp(3,5,6) none left by (simp_all add: slot_key_def [abs_def] comp_def)
  show ?thesis
  proof (cases "ii = []")
    case True
    then have "?q' = ?q0" using f by simp
    moreover have "send_ready D now q v = Some (False, ?q0, v)"
      using pr bt(4) True by (simp add: send_ready_def Let_def batch_init_def)
    ultimately show ?thesis
      using fs order True empty by (intro exI [of _ False] exI [of _ ?q0] exI [of _ v] exI [of _ "[]"])
        (simp add: batch_send_def)
  next
    case False
    then have "send_ready D now q v = Some (True, ?q', send_batch D ?b v)"
      using pr bt(3,4) f by (simp add: send_ready_def Let_def)
    moreover have "sends_of (calls (send_batch D ?b v)) = sends_of (calls v) @ [batch_send ?ps]"
      using bt(1,2) by (simp add: send_batch_calls)
    ultimately show ?thesis
      using fs order False empty bt(5,6) sp(4) send_batch_counts [of D ?b v]
      by (intro exI [of _ True] exI [of _ ?q'] exI [of _ "send_batch D ?b v"] exI [of _ ?ps]) simp
  qed
qed

lemma drain_round_spec:
  assumes inv: "dq_inv q"
  shows "\<exists>pz q' v' ps. drain_round D now now2 q v = Some (pz, q', v') \<and> dq_inv q' \<and>
    held q = mset ps + held q' \<and> sorted (map release_at ps) \<and> (\<forall>p \<in> set ps. release_at p \<le> now) \<and>
    length ps \<le> kBatchSize \<and> (length ps < kBatchSize \<longrightarrow> (\<forall>p \<in># held q'. now < release_at p)) \<and>
    (\<forall>p \<in> set ps. \<forall>r \<in># held q'. release_at p \<le> release_at r) \<and>
    length (fst (batch_send ps)) \<le> kBatchBufferLen \<and>
    sends_of (calls v') = sends_of (calls v) @ (if ps = [] then [] else [batch_send ps]) \<and>
    Get kPacketsReinjected (logs v') + Get kReinjectFailures (logs v') =
      Get kPacketsReinjected (logs v) + Get kReinjectFailures (logs v) + of_nat (length ps) \<and>
    (pz \<noteq> NoPause \<longrightarrow> ps = [] \<and> spsc_items (handoff_queue q) = []) \<and>
    (pz = SleepOneMs \<longrightarrow> (\<forall>p \<in># held q'. now2 + ns_per_ms < release_at p))"
proof -
  obtain did q1 where th: "take_handoff q = (did, q1)" by force
  note t = take_handoff_spec [OF inv th]
  from send_ready_spec [of q1 D now v] t obtain sent q' v' ps where
    sr: "send_ready D now q1 v = Some (sent, q', v')" "dq_inv q'" "held q = mset ps + held q'"
      "sorted (map release_at ps)" "\<forall>p \<in> set ps. release_at p \<le> now" "length ps \<le> kBatchSize"
      "length ps < kBatchSize \<longrightarrow> (\<forall>p \<in># held q'. now < release_at p)"
      "\<forall>p \<in> set ps. \<forall>r \<in># held q'. release_at p \<le> release_at r"
      "length (fst (batch_send ps)) \<le> kBatchBufferLen" "sent \<longleftrightarrow> ps \<noteq> []"
      "sends_of (calls v') = sends_of (calls v) @ (if ps = [] then [] else [batch_send ps])"
      "Get kPacketsReinjected (logs v') + Get kReinjectFailures (logs v') =
        Get kPacketsReinjected (logs v) + Get kReinjectFailures (logs v) + of_nat (length ps)"
      "spsc_items (handoff_queue q') = []"
    by metis
  let ?pz = "if did \<or> sent then NoPause else idle_pause now2 q'"
  have eq: "drain_round D now now2 q v = Some (?pz, q', v')"
    using th sr(1) by (simp add: drain_round_def Let_def)
  have np: "?pz \<noteq> NoPause \<longrightarrow> ps = [] \<and> spsc_items (handoff_queue q) = []"
    using t sr(10) by simp
  have hp: "heap_ok (slot_key (memory_pool q')) (sched q')" using sr(2) by (simp add: dq_inv_def)
  have sl: "\<forall>p \<in># held q'. now2 + ns_per_ms < release_at p" if pz: "?pz = SleepOneMs"
  proof
    fix p assume "p \<in># held q'"
    then obtain i where i: "i \<in> set (sched q')" "p = memory_pool q' ! i"
      using sr(13) by (auto simp: held_def held_slots_def)
    then have "sched q' \<noteq> []" by auto
    then obtain x where x: "heap_top (sched q') = Some x" "Peek (sched q') = Some x"
      by (simp add: heap_top_def Peek_def)
    have "idle_pause now2 q' = SleepOneMs" using pz by (simp split: if_splits)
    with x have "now2 + ns_per_ms < slot_key (memory_pool q') x"
      by (simp add: idle_pause_def split: if_splits)
    also have "\<dots> \<le> slot_key (memory_pool q') i" using heap_top_min(2) [OF hp x(1) i(1)] .
    finally show "now2 + ns_per_ms < release_at p" using i by (simp add: slot_key_def)
  qed
  show ?thesis
    using eq sr np sl by blast
qed

section \<open>Flushing\<close>

definition single_send :: "scheduled_packet \<Rightarrow> u8 list \<times> wd_address list" where
  "single_send p = (Bytes (packet p), [pkt_addr (packet p)])"

lemma Reinject_calls: "sends_of (calls (Reinject D p v)) = sends_of (calls v) @ [single_send p]"
  by (auto simp: Reinject_def Let_def single_send_def dest: env_send_calls split: prod.split)

lemma flush_scheduled_spec:
  assumes "spsc_inv (free_queue q)" and "length (spsc_items (free_queue q)) + length ii \<le> spsc_capacity (free_queue q)"
  shows "\<exists>f v'. flush_scheduled D ii q v = Some (q\<lparr>free_queue := f\<rparr>, v') \<and>
    push_all spsc_emplace ii (free_queue q) = Some f \<and>
    sends_of (calls v') = sends_of (calls v) @ map (\<lambda>i. single_send (memory_pool q ! i)) ii"
  using assms
proof (induction ii arbitrary: q v)
  case (Cons i ii)
  then have "length (spsc_items (free_queue q)) < spsc_capacity (free_queue q)" by simp
  from ring.push_ok [OF Cons.prems(1) this, of i] obtain f where
    f: "spsc_emplace i (free_queue q) = Some f" "spsc_inv f" "spsc_items f = spsc_items (free_queue q) @ [i]"
      "spsc_capacity f = spsc_capacity (free_queue q)" by blast
  from Cons.IH [of "q\<lparr>free_queue := f\<rparr>" "Reinject D (memory_pool q ! i) v"] f Cons.prems(2)
  obtain g v' where "flush_scheduled D ii (q\<lparr>free_queue := f\<rparr>) (Reinject D (memory_pool q ! i) v) =
      Some (q\<lparr>free_queue := g\<rparr>, v')" "push_all spsc_emplace ii f = Some g"
    "sends_of (calls v') = sends_of (calls (Reinject D (memory_pool q ! i) v)) @ map (\<lambda>i. single_send (memory_pool q ! i)) ii"
    by auto
  with f show ?case by (simp add: Reinject_calls Let_def)
qed simp

lemma flush_handoff_spec:
  assumes "spsc_inv (free_queue q)" and "spsc_inv (handoff_queue q)"
    and "length (spsc_items (free_queue q)) + length (spsc_items (handoff_queue q)) \<le> spsc_capacity (free_queue q)"
    and "length (spsc_items (handoff_queue q)) < n"
  shows "\<exists>f h v'. flush_handoff D n q v = Some (q\<lparr>free_queue := f, handoff_queue := h\<rparr>, v') \<and>
    push_all spsc_emplace (spsc_items (handoff_queue q)) (free_queue q) = Some f \<and>
    spsc_inv h \<and> spsc_items h = [] \<and> spsc_capacity h = spsc_capacity (handoff_queue q) \<and>
    sends_of (calls v') =
      sends_of (calls v) @ map (\<lambda>i. single_send (memory_pool q ! i)) (spsc_items (handoff_queue q))"
  using assms
proof (induction n arbitrary: q v)
  case (Suc n)
  let ?h = "handoff_queue q"
  obtain r h1 where f1: "spsc_front ?h = (r, h1)" by force
  note v1 = ring.front_value [OF Suc.prems(2)] and fr1 = ring.front_frame [OF Suc.prems(2)]
  have h1: "spsc_inv h1" "spsc_items h1 = spsc_items ?h" "spsc_capacity h1 = spsc_capacity ?h"
    using fr1 f1 by simp_all
  obtain r2 h2 where f2: "spsc_front h1 = (r2, h2)" by force
  show ?case
  proof (cases "spsc_items ?h")
    case Nil
    then have "flush_handoff D (Suc n) q v = Some (q\<lparr>free_queue := free_queue q, handoff_queue := h1\<rparr>, v)"
      using v1 f1 by simp
    then show ?thesis
      using h1 Nil by (intro exI [of _ "free_queue q"] exI [of _ h1] exI [of _ v]) simp
  next
    case (Cons i ii)
    have r: "r = Some i" "r2 = Some i"
      using v1 f1 ring.front_value [OF h1(1)] f2 h1 Cons by simp_all
    have p: "spsc_inv (spsc_pop h2)" "spsc_items (spsc_pop h2) = ii" "spsc_capacity (spsc_pop h2) = spsc_capacity ?h"
      using ring.pop_ok [OF h1(1)] f2 h1 Cons by simp_all
    have "length (spsc_items (free_queue q)) < spsc_capacity (free_queue q)"
      using Suc.prems(3) Cons by simp
    from ring.push_ok [OF Suc.prems(1) this, of i] obtain f where
      f: "spsc_emplace i (free_queue q) = Some f" "spsc_inv f" "spsc_items f = spsc_items (free_queue q) @ [i]"
        "spsc_capacity f = spsc_capacity (free_queue q)" by blast
    let ?q = "q\<lparr>handoff_queue := spsc_pop h2, free_queue := f\<rparr>"
    from Suc.IH [of ?q "Reinject D (memory_pool q ! i) v"] f p Suc.prems(3,4) Cons
    obtain g h v' where g: "flush_handoff D n ?q (Reinject D (memory_pool q ! i) v) =
        Some (?q\<lparr>free_queue := g, handoff_queue := h\<rparr>, v')"
      "push_all spsc_emplace ii f = Some g" "spsc_inv h" "spsc_items h = []"
      "spsc_capacity h = spsc_capacity ?h"
      "sends_of (calls v') = sends_of (calls (Reinject D (memory_pool q ! i) v)) @
         map (\<lambda>i. single_send (memory_pool q ! i)) ii"
      by auto
    have "flush_handoff D (Suc n) q v = Some (q\<lparr>free_queue := g, handoff_queue := h\<rparr>, v')"
      using f1 f2 r f(1) g(1) by (simp add: Let_def)
    moreover have "push_all spsc_emplace (spsc_items ?h) (free_queue q) = Some g"
      using Cons f(1) g(2) by simp
    moreover have "sends_of (calls v') =
        sends_of (calls v) @ map (\<lambda>i. single_send (memory_pool q ! i)) (spsc_items ?h)"
      using Cons g(6) by (simp add: Reinject_calls)
    ultimately show ?thesis using g(3-5) by blast
  qed
qed simp

text \<open>The two halves: what waits in the ring, then what the heap holds.\<close>

lemma flush_handoff_part:
  assumes inv: "dq_inv q"
  shows "\<exists>f h v'. flush_handoff D (Suc (capacity (handoff_queue q))) q v = Some (q\<lparr>free_queue := f, handoff_queue := h\<rparr>, v') \<and>
    dq_inv (q\<lparr>free_queue := f, handoff_queue := h\<rparr>) \<and> spsc_items h = [] \<and>
    held q = mset (map (\<lambda>i. memory_pool q ! i) (spsc_items (handoff_queue q))) + held (q\<lparr>free_queue := f, handoff_queue := h\<rparr>) \<and>
    sends_of (calls v') = sends_of (calls v) @ map single_send (map (\<lambda>i. memory_pool q ! i) (spsc_items (handoff_queue q)))"
proof -
  let ?hi = "spsc_items (handoff_queue q)"
  have i: "spsc_inv (free_queue q)" "spsc_inv (handoff_queue q)" "heap_ok (slot_key (memory_pool q)) (sched q)"
    using inv by (simp_all add: dq_inv_def)
  have "length (spsc_items (free_queue q)) + length ?hi \<le> spsc_capacity (free_queue q)"
    using slot_count [OF inv] inv by (simp add: dq_inv_def held_slots_def)
  moreover have "length ?hi < Suc (capacity (handoff_queue q))"
    using spsc_size_items [OF i(2)] by (simp add: spsc_capacity_def)
  ultimately obtain f h v1 where fh:
    "flush_handoff D (Suc (capacity (handoff_queue q))) q v = Some (q\<lparr>free_queue := f, handoff_queue := h\<rparr>, v1)"
    "push_all spsc_emplace ?hi (free_queue q) = Some f" "spsc_inv h" "spsc_items h = []"
    "spsc_capacity h = spsc_capacity (handoff_queue q)"
    "sends_of (calls v1) = sends_of (calls v) @ map (\<lambda>i. single_send (memory_pool q ! i)) ?hi"
    using flush_handoff_spec [OF i(1,2)] by blast
  have c: "q\<lparr>handoff_queue := h\<rparr>\<lparr>free_queue := f\<rparr> = q\<lparr>free_queue := f, handoff_queue := h\<rparr>" by simp
  have "mset (held_slots q) = mset ?hi + mset (held_slots (q\<lparr>handoff_queue := h\<rparr>))"
    using fh(4) by (simp add: held_slots_def)
  from free_slots [OF inv this fh(2), unfolded c] fh i(3) show ?thesis
    by (intro exI [of _ f] exI [of _ h] exI [of _ v1]) (simp add: comp_def)
qed

lemma flush_scheduled_part:
  assumes inv: "dq_inv q" and empty: "spsc_items (handoff_queue q) = []"
    and dr: "DrainAll (slot_key (memory_pool q)) (sched q) = (popped, left)"
  shows "\<exists>q' v'. flush_scheduled D popped (q\<lparr>sched := left\<rparr>) v = Some (q', v') \<and> dq_inv q' \<and> held q' = {#} \<and>
    held q = mset (map (\<lambda>i. memory_pool q ! i) popped) \<and>
    sends_of (calls v') = sends_of (calls v) @ map single_send (map (\<lambda>i. memory_pool q ! i) popped)"
proof -
  have i: "spsc_inv (free_queue q)" "spsc_inv (handoff_queue q)" "heap_ok (slot_key (memory_pool q)) (sched q)"
    using inv by (simp_all add: dq_inv_def)
  have da: "left = []" "mset popped = mset (sched q)"
    using DrainAll_spec [OF i(3)] dr by simp_all
  have "length (spsc_items (free_queue q)) + length popped \<le> spsc_capacity (free_queue q)"
    using slot_count [OF inv] inv da(2) empty by (simp add: dq_inv_def held_slots_def flip: size_mset)
  with i(1) flush_scheduled_spec [of "q\<lparr>sched := left\<rparr>" popped D v] obtain g v2 where g:
    "flush_scheduled D popped (q\<lparr>sched := left\<rparr>) v = Some (q\<lparr>sched := left\<rparr>\<lparr>free_queue := g\<rparr>, v2)"
    "push_all spsc_emplace popped (free_queue q) = Some g"
    "sends_of (calls v2) = sends_of (calls v) @ map (\<lambda>i. single_send (memory_pool q ! i)) popped"
    by auto
  have "mset (held_slots q) = mset popped + mset (held_slots (q\<lparr>sched := left\<rparr>))"
    using da empty by (simp add: held_slots_def)
  from free_slots [OF inv this g(2)] i(2) da(1) have q2: "dq_inv (q\<lparr>sched := left\<rparr>\<lparr>free_queue := g\<rparr>)"
    "held q = mset (map (\<lambda>i. memory_pool q ! i) popped) + held (q\<lparr>sched := left\<rparr>\<lparr>free_queue := g\<rparr>)"
    by simp_all
  moreover have "held (q\<lparr>sched := left\<rparr>\<lparr>free_queue := g\<rparr>) = {#}" using empty da(1) by (simp add: held_def held_slots_def)
  ultimately show ?thesis using g(1,3) by (simp add: comp_def)
qed

lemma FlushPackets_spec:
  assumes inv: "dq_inv q"
  shows "\<exists>q' v' ps. FlushPackets D q v = Some (q', v') \<and> dq_inv q' \<and> held q' = {#} \<and> mset ps = held q \<and>
    sends_of (calls v') = sends_of (calls v) @ map single_send ps"
proof -
  let ?items = "map (\<lambda>i. memory_pool q ! i)"
  from flush_handoff_part [OF inv] obtain f h v1 where
    fh: "flush_handoff D (Suc (capacity (handoff_queue q))) q v = Some (q\<lparr>free_queue := f, handoff_queue := h\<rparr>, v1)"
    and q1: "dq_inv (q\<lparr>free_queue := f, handoff_queue := h\<rparr>)" "spsc_items h = []"
      "held q = mset (?items (spsc_items (handoff_queue q))) + held (q\<lparr>free_queue := f, handoff_queue := h\<rparr>)"
      "sends_of (calls v1) = sends_of (calls v) @ map single_send (?items (spsc_items (handoff_queue q)))" by blast
  obtain popped left where dr: "DrainAll (slot_key (memory_pool q)) (sched q) = (popped, left)" by force
  from flush_scheduled_part [OF q1(1), of popped left D v1] dr q1(2) obtain q' v' where
    g: "flush_scheduled D popped (q\<lparr>free_queue := f, handoff_queue := h, sched := left\<rparr>) v1 = Some (q', v')" "dq_inv q'" "held q' = {#}"
      "held (q\<lparr>free_queue := f, handoff_queue := h\<rparr>) = mset (?items popped)"
      "sends_of (calls v') = sends_of (calls v1) @ map single_send (?items popped)" by auto
  have "FlushPackets D q v = Some (q', v')" unfolding FlushPackets_def fh using dr g(1) by simp
  moreover have "mset (?items (spsc_items (handoff_queue q) @ popped)) = held q" using q1(3) g(4) by simp
  moreover have "sends_of (calls v') = sends_of (calls v) @ map single_send (?items (spsc_items (handoff_queue q) @ popped))"
    using q1(4) g(5) by simp
  ultimately show ?thesis using g(2,3) by blast
qed

section \<open>Properties\<close>

definition sample_scheduled :: "int \<Rightarrow> scheduled_packet" where
  "sample_scheduled t = empty_packet\<lparr>release_at := t\<rparr>"

lemma sample_scheduled_ok: "packet_ok (packet (sample_scheduled t))"
  by (simp add: sample_scheduled_def empty_packet_def packet_ok_def kStandardMtuSize_def)

lemma sample_alloc_ok: "alloc_ok (\<lambda>n. n) 8"
  by (simp add: alloc_ok_def SIZE_MAX_def kDelayQueueCapacity_def)

text \<open>
  A new delay queue is empty and in order. The constructor never spins although it pushes 4096
  slots, every slot is free, and no packet is held.
\<close>

theorem delay_queue_starts_empty:
  assumes "alloc_ok alloc pad"
  shows "\<exists>q. DelayQueue_new alloc pad = Some q \<and> dq_inv q \<and> held q = {#} \<and>
    length (spsc_items (free_queue q)) = 4096"
  using DelayQueue_new_ok [OF assms] by (simp add: kDelayQueueCapacity_def)

lemma delay_queue_starts_empty_witness:
  "\<exists>q. DelayQueue_new (\<lambda>n. n) 8 = Some q \<and> held q = {#}"
  using delay_queue_starts_empty [OF sample_alloc_ok] by blast

text \<open>
  A push adds the packet or is counted as lost. It never blocks the capture thread and keeps the
  slots in order; with fewer than 4096 packets held the packet is held from then on and nothing else
  changes, with 4096 the queue is unchanged and the pool-exhausted counter goes up by one.
\<close>

theorem push_holds_or_counts:
  assumes "dq_inv q" and "packet_ok (packet p)"
  shows "\<exists>q' v'. dq_Push p q v = Some (q', v') \<and> dq_inv q' \<and>
    (if size (held q) < 4096 then held q' = add_mset p (held q) \<and> v' = v
     else held q' = held q \<and> Get kPoolExhausted (logs v') = Get kPoolExhausted (logs v) + 1 \<and> calls v' = calls v)"
proof -
  have "kDelayQueueCapacity = 4096" by (simp add: kDelayQueueCapacity_def)
  with dq_Push_spec [OF assms, of v] show ?thesis by (auto split: if_splits)
qed

lemma push_holds_or_counts_witness:
  "\<exists>q q'. DelayQueue_new (\<lambda>n. n) 8 = Some q \<and>
     dq_Push (sample_scheduled 5) q (env_init ()) = Some (q', env_init ()) \<and> held q' = {#sample_scheduled 5#}"
proof -
  from DelayQueue_new_ok [OF sample_alloc_ok] obtain q where
    q: "DelayQueue_new (\<lambda>n. n) 8 = Some q" "dq_inv q" "held q = {#}" by blast
  from push_holds_or_counts [OF q(2) sample_scheduled_ok, of 5 "env_init ()"] q show ?thesis by fastforce
qed

text \<open>
  A round of the delay thread sends what is due, once, in order. From any well-formed state the
  round comes to an end; at most 128 packets leave, all due, ordered by release time, none later than
  one that stays, in one call whose buffer they fit; if fewer than 128 leave, nothing due stays. What is
  left is exactly what was held less what was sent, each sent packet is counted as sent or failed, and
  the thread only sleeps when the next packet is more than a millisecond away.
\<close>

theorem drain_round_sends_due:
  assumes "dq_inv q"
  shows "\<exists>pz q' v' ps. drain_round D now now2 q v = Some (pz, q', v') \<and> dq_inv q' \<and> held q = mset ps + held q' \<and>
    sorted (map release_at ps) \<and> (\<forall>p \<in> set ps. release_at p \<le> now) \<and> length ps \<le> 128 \<and>
    (length ps < 128 \<longrightarrow> (\<forall>p \<in># held q'. now < release_at p)) \<and>
    (\<forall>p \<in> set ps. \<forall>r \<in># held q'. release_at p \<le> release_at r) \<and>
    length (fst (batch_send ps)) \<le> 128 * 1500 \<and>
    sends_of (calls v') = sends_of (calls v) @ (if ps = [] then [] else [batch_send ps]) \<and>
    Get kPacketsReinjected (logs v') + Get kReinjectFailures (logs v') =
      Get kPacketsReinjected (logs v) + Get kReinjectFailures (logs v) + of_nat (length ps) \<and>
    (pz = SleepOneMs \<longrightarrow> ps = [] \<and> (\<forall>p \<in># held q'. now2 + 1000000 < release_at p))"
proof -
  have k: "kBatchSize = 128" "kBatchBufferLen = 128 * 1500"
    by (simp_all add: kBatchSize_def kBatchBufferLen_def kStandardMtuSize_def)
  have "SleepOneMs \<noteq> NoPause" by simp
  with drain_round_spec [OF assms, of D now now2 v, unfolded k] show ?thesis by blast
qed

lemma drain_round_sends_due_witness:
  "\<exists>q pz q' v' ps. DelayQueue_new (\<lambda>n. n) 8 = Some q \<and>
     drain_round (scripted_driver (\<lambda>_. None) 0) 5 5 q (env_init []) = Some (pz, q', v') \<and> {#} = mset ps + held q'"
proof -
  from DelayQueue_new_ok [OF sample_alloc_ok] obtain q where
    q: "DelayQueue_new (\<lambda>n. n) 8 = Some q" "dq_inv q" "held q = {#}" by blast
  from drain_round_sends_due [OF q(2), of "scripted_driver (\<lambda>_. None) 0" 5 5 "env_init []"] q(1,3)
  show ?thesis by metis
qed

end
