(* ===== verification/Flow_Tracker.thy ===== *)
theory Flow_Tracker
  imports Divert "HOL-Library.AList"
begin

unbundle bit_operations_syntax

text \<open>
  The flow tracker (include/core/FlowTracker.h, src/core/FlowTracker.cpp): which process owns a UDP
  flow. It caches flows and local endpoints, fed by the driver's flow events, and asks the system's UDP
  table when the caches do not know. An \<open>unordered_map\<close> is an association list with distinct keys.
\<close>

section \<open>Keys\<close>

definition IsNoisePid :: "u32 \<Rightarrow> bool" where
  "IsNoisePid p \<longleftrightarrow> p = 0 \<or> p = kSystemPid"

definition MakeEndpointKey :: "u32 \<Rightarrow> u16 \<Rightarrow> u64" where
  "MakeEndpointKey local_addr local_port = push_bit 16 (ucast local_addr) OR ucast local_port"

definition LocalEndpointKey :: "five_tuple \<Rightarrow> bool \<Rightarrow> u64" where
  "LocalEndpointKey t is_out =
     (if is_out then MakeEndpointKey (src_addr t) (src_port t) else MakeEndpointKey (dst_addr t) (dst_port t))"

lemma bit_endpoint_key:
  "bit (MakeEndpointKey a p) n \<longleftrightarrow> (if n < 16 then bit p n else n < 48 \<and> bit a (n - 16))"
proof -
  have "\<not> bit p n" if "16 \<le> n" using that bit_imp_le_length [of p n] by auto
  moreover have "\<not> bit a (n - 16)" if "48 \<le> n" using that bit_imp_le_length [of a "n - 16"] by auto
  ultimately show ?thesis
    by (cases "n < 48") (auto simp: MakeEndpointKey_def bit_simps)
qed

lemma MakeEndpointKey_inject [simp]:
  "MakeEndpointKey a p = MakeEndpointKey b q \<longleftrightarrow> a = b \<and> p = q"
proof
  assume eq: "MakeEndpointKey a p = MakeEndpointKey b q"
  have "p = q"
  proof (rule bit_word_eqI)
    fix n assume "n < LENGTH(16)"
    then show "bit p n = bit q n" using bit_endpoint_key [of a p n] bit_endpoint_key [of b q n] eq by simp
  qed
  moreover have "a = b"
  proof (rule bit_word_eqI)
    fix n assume "n < LENGTH(32)"
    then show "bit a n = bit b n"
      using bit_endpoint_key [of a p "n + 16"] bit_endpoint_key [of b q "n + 16"] eq by simp
  qed
  ultimately show "a = b \<and> p = q" by simp
qed simp

section \<open>The system's UDP table\<close>

text \<open>
  \<open>GetExtendedUdpTable\<close> is Windows': a parameter that gets the size of the buffer (none for a null
  pointer) and answers with a code, the size it wants and the rows it wrote.
\<close>

record udp_row =
  dwLocalAddr :: u32
  dwLocalPort :: u32
  dwOwningPid :: u32

type_synonym 'w udp_table = "u32 option \<Rightarrow> 'w \<Rightarrow> u32 \<times> u32 \<times> udp_row list \<times> 'w"

definition NO_ERROR :: u32 where "NO_ERROR = 0"
definition ERROR_INSUFFICIENT_BUFFER :: u32 where "ERROR_INSUFFICIENT_BUFFER = 122"

text \<open>The retry loop; it runs for as long as the answer is \<open>ERROR_INSUFFICIENT_BUFFER\<close>.\<close>

partial_function (option) udp_retry ::
  "'w udp_table \<Rightarrow> u32 \<Rightarrow> u32 \<Rightarrow> udp_row list \<Rightarrow> 'w \<Rightarrow> (u32 \<times> udp_row list \<times> 'w) option" where
  "udp_retry T ret n rows w =
     (if ret = ERROR_INSUFFICIENT_BUFFER then
        (case T (Some n) w of (ret', n', rows', w') \<Rightarrow> udp_retry T ret' n' rows' w')
      else Some (ret, rows, w))"

declare udp_retry.simps [code]

text \<open>An entry as the visitor gets it: host byte order, the port cut to 16 bits.\<close>

definition udp_entry :: "udp_row \<Rightarrow> u32 \<times> u16 \<times> u32" where
  "udp_entry r = (ntohl (dwLocalAddr r), ntohs (ucast (dwLocalPort r)), dwOwningPid r)"

text \<open>
  \<open>ForEachUdpEntry\<close>: whether the table could be read, and what the visitor is called with. The visitors
  of the program do not touch the table or the log, so running one over the list afterwards is the
  same.
\<close>

definition ForEachUdpEntry :: "'w udp_table \<Rightarrow> 'w env \<Rightarrow> (bool \<times> (u32 \<times> u16 \<times> u32) list \<times> 'w env) option" where
  "ForEachUdpEntry T v =
     (case T None (world v) of
        (ret, n, rows, w) \<Rightarrow>
          (case udp_retry T ret n rows w of
             None \<Rightarrow> None
           | Some (ret, rows, w) \<Rightarrow>
               (let v = v\<lparr>world := w\<rparr> in
                if ret \<noteq> NO_ERROR then
                  Some (False, [],
                    env_count kDriverErrors 1
                      (env_log_always kWarn (''GetExtendedUdpTable failed (code={})'', [ANum (unat ret)]) v))
                else Some (True, map udp_entry rows, v))))"

definition system_visit :: "u32 \<Rightarrow> u16 \<Rightarrow> u32 \<times> u16 \<times> u32 \<Rightarrow> u32 \<Rightarrow> u32" where
  "system_visit local_addr local_port = (\<lambda>(addr, port, p) result.
     if port = local_port \<and> (addr = local_addr \<or> addr = 0) \<and> \<not> IsNoisePid p then p else result)"

definition LookupPidFromSystem :: "'w udp_table \<Rightarrow> u32 \<Rightarrow> u16 \<Rightarrow> 'w env \<Rightarrow> (u32 \<times> 'w env) option" where
  "LookupPidFromSystem T local_addr local_port v =
     (case ForEachUdpEntry T v of
        None \<Rightarrow> None
      | Some (_, entries, v) \<Rightarrow> Some (fold (system_visit local_addr local_port) entries 0, v))"

section \<open>The tracker\<close>

record flow_tracker =
  flow_table :: "(five_tuple \<times> u32) list"
  endpoint_to_pid :: "(u64 \<times> u32) list"
  ft_running :: bool
  ft_thread :: bool
  ft_handle :: bool
  ft_has_callback :: bool
  ft_fatal_calls :: "u32 list"

definition flow_tracker_init :: flow_tracker where
  "flow_tracker_init =
     \<lparr>flow_table = [], endpoint_to_pid = [], ft_running = False, ft_thread = False, ft_handle = False,
      ft_has_callback = False, ft_fatal_calls = []\<rparr>"

definition SetFatalCallback :: "bool \<Rightarrow> flow_tracker \<Rightarrow> flow_tracker" where
  "SetFatalCallback b t = t\<lparr>ft_has_callback := b\<rparr>"

definition NotifyFatal :: "u32 \<Rightarrow> flow_tracker \<Rightarrow> flow_tracker" where
  "NotifyFatal gle t = (if ft_has_callback t then t\<lparr>ft_fatal_calls := ft_fatal_calls t @ [gle]\<rparr> else t)"

definition bootstrap_visit :: "u32 \<times> u16 \<times> u32 \<Rightarrow> (u64 \<times> u32) list \<Rightarrow> (u64 \<times> u32) list" where
  "bootstrap_visit = (\<lambda>(local_addr, port, p) snapshot.
     if \<not> IsNoisePid p then AList.update (MakeEndpointKey local_addr port) p snapshot else snapshot)"

definition BootstrapFromSystem :: "'w udp_table \<Rightarrow> flow_tracker \<Rightarrow> 'w env \<Rightarrow> (flow_tracker \<times> 'w env) option" where
  "BootstrapFromSystem T t v =
     (case ForEachUdpEntry T v of
        None \<Rightarrow> None
      | Some (_, entries, v) \<Rightarrow>
          (let snapshot = fold bootstrap_visit entries [] in
           Some (t\<lparr>endpoint_to_pid := snapshot\<rparr>,
             env_log_always kInfo
               (''FlowTracker: bootstrapped {} UDP endpoints from system table'', [ANum (length snapshot)]) v)))"

definition ft_Start ::
  "'w divert_ops \<Rightarrow> 'w udp_table \<Rightarrow> flow_tracker \<Rightarrow> 'w env \<Rightarrow> ((startup_error + unit) \<times> flow_tracker \<times> 'w env) option" where
  "ft_Start D T t v =
     (if ft_running t then Some (Inl kAlreadyRunning, t, v)
      else
        (case divert_open D LayerFlow (world v) of
           (gle, w) \<Rightarrow>
             (let v = v\<lparr>world := w\<rparr> in
              if gle \<noteq> 0 then
                Some (Inl (MapWinDivertOpenError gle), t\<lparr>ft_handle := False\<rparr>,
                  env_count kDriverErrors 1
                    (env_log_always kError (''FlowTracker: WinDivertOpen failed (GLE={})'', [ANum (unat gle)]) v))
              else
                (case BootstrapFromSystem T (t\<lparr>ft_handle := True\<rparr>) v of
                   None \<Rightarrow> None
                 | Some (t, v) \<Rightarrow>
                     Some (Inr (), t\<lparr>ft_running := True, ft_thread := True\<rparr>,
                       env_log_always kInfo (''FlowTracker running'', []) v)))))"

definition ft_Stop :: "'w divert_ops \<Rightarrow> flow_tracker \<Rightarrow> 'w env \<Rightarrow> flow_tracker \<times> 'w env" where
  "ft_Stop D t v =
     (let was_running = ft_running t;
          t = t\<lparr>ft_running := False\<rparr>;
          v = (if ft_handle t then v\<lparr>world := divert_shutdown D LayerFlow ShutdownBoth (world v)\<rparr> else v);
          t = t\<lparr>ft_thread := False\<rparr>;
          v = (if ft_handle t then v\<lparr>world := divert_close D LayerFlow (world v)\<rparr> else v);
          t = t\<lparr>ft_handle := False\<rparr>;
          v = (if was_running then env_log_always kInfo (''FlowTracker stopped'', []) v else v)
      in (t, v))"

definition InsertFlow :: "five_tuple \<Rightarrow> u32 \<Rightarrow> flow_tracker \<Rightarrow> flow_tracker" where
  "InsertFlow tup p t =
     t\<lparr>flow_table := AList.update (Reversed tup) p (AList.update tup p (flow_table t))\<rparr>"

text \<open>The lookup under the shared lock: flow, then local endpoint, then wildcard endpoint.\<close>

definition cached_pid_of :: "five_tuple \<Rightarrow> bool \<Rightarrow> flow_tracker \<Rightarrow> u32 option" where
  "cached_pid_of tup is_out t =
     (case map_of (flow_table t) tup of
        Some p \<Rightarrow> Some p
      | None \<Rightarrow>
          (case map_of (endpoint_to_pid t) (LocalEndpointKey tup is_out) of
             Some p \<Rightarrow> Some p
           | None \<Rightarrow>
               (let local_port = (if is_out then src_port tup else dst_port tup)
                in map_of (endpoint_to_pid t) (MakeEndpointKey 0 local_port))))"

definition LookupPid ::
  "'w udp_table \<Rightarrow> five_tuple \<Rightarrow> bool \<Rightarrow> flow_tracker \<Rightarrow> 'w env \<Rightarrow> (u32 \<times> flow_tracker \<times> 'w env) option" where
  "LookupPid T tup is_out t v =
     (case cached_pid_of tup is_out t of
        Some p \<Rightarrow> Some (p, t, env_count kFlowCacheHits 1 v)
      | None \<Rightarrow>
          (let v = env_count kFlowCacheKernelScans 1 v;
               local_addr = (if is_out then src_addr tup else dst_addr tup);
               local_port = (if is_out then src_port tup else dst_port tup)
           in case LookupPidFromSystem T local_addr local_port v of
                None \<Rightarrow> None
              | Some (p, v) \<Rightarrow> Some (p, if p \<noteq> 0 then InsertFlow tup p t else t, v)))"

definition OnFlowEstablished :: "five_tuple \<Rightarrow> u32 \<Rightarrow> flow_tracker \<Rightarrow> flow_tracker" where
  "OnFlowEstablished tup p t =
     (if IsNoisePid p then t
      else t\<lparr>flow_table := AList.update (Reversed tup) p (AList.update tup p (flow_table t)),
             endpoint_to_pid := AList.update (MakeEndpointKey (src_addr tup) (src_port tup)) p (endpoint_to_pid t)\<rparr>)"

definition OnFlowDeleted :: "five_tuple \<Rightarrow> flow_tracker \<Rightarrow> flow_tracker" where
  "OnFlowDeleted tup t =
     t\<lparr>flow_table := AList.delete (Reversed tup) (AList.delete tup (flow_table t)),
       endpoint_to_pid := AList.delete (MakeEndpointKey 0 (src_port tup))
         (AList.delete (MakeEndpointKey (src_addr tup) (src_port tup)) (endpoint_to_pid t))\<rparr>"

section \<open>The tracking loop\<close>

datatype loop_next = LoopContinue | LoopExit

text \<open>One round; the number is \<open>consecutive_failures\<close>.\<close>

definition tracking_round ::
  "'w divert_ops \<Rightarrow> u32 \<Rightarrow> flow_tracker \<Rightarrow> 'w env \<Rightarrow> loop_next \<times> u32 \<times> flow_tracker \<times> 'w env" where
  "tracking_round D n t v =
     (case divert_recv D (world v) of
        (Inl gle, w) \<Rightarrow>
          (case ClassifyRecvFailure gle n ''FlowTracker'' (logs v) of
             (action, n', d) \<Rightarrow>
               (let v = v\<lparr>world := w, logs := d\<rparr> in
                case action of
                  kContinue \<Rightarrow> (LoopContinue, n', t, v)
                | kExitClean \<Rightarrow> (LoopExit, n', t, v)
                | kExitFatal \<Rightarrow> (LoopExit, n', NotifyFatal gle t, v)))
      | (Inr addr, w) \<Rightarrow>
          (let v = v\<lparr>world := w\<rparr>;
               tup = TupleFromFlow addr
           in if Event addr = WINDIVERT_EVENT_FLOW_ESTABLISHED then
                (LoopContinue, 0, OnFlowEstablished tup (ProcessId (Flow addr)) t, v)
              else if Event addr = WINDIVERT_EVENT_FLOW_DELETED then
                (LoopContinue, 0, OnFlowDeleted tup t, v)
              else (LoopContinue, 0, t, v)))"

text \<open>The loop, for at most so many rounds; the flag says whether it has ended.\<close>

fun TrackingLoop ::
  "'w divert_ops \<Rightarrow> nat \<Rightarrow> u32 \<Rightarrow> flow_tracker \<Rightarrow> 'w env \<Rightarrow> bool \<times> flow_tracker \<times> 'w env" where
  "TrackingLoop D 0 n t v = (\<not> ft_running t, t, v)"
| "TrackingLoop D (Suc k) n t v =
     (if \<not> ft_running t then (True, t, v)
      else (case tracking_round D n t v of
              (LoopContinue, n', t', v') \<Rightarrow> TrackingLoop D k n' t' v'
            | (LoopExit, _, t', v') \<Rightarrow> (True, t', v')))"

section \<open>Invariant\<close>

text \<open>
  Keys are distinct, the flow table knows a flow in both directions or not at all, and no entry names
  the idle process or the system process.
\<close>

definition ft_inv :: "flow_tracker \<Rightarrow> bool" where
  "ft_inv t \<longleftrightarrow>
     distinct (map fst (flow_table t)) \<and> distinct (map fst (endpoint_to_pid t)) \<and>
     (\<forall>x. map_of (flow_table t) (Reversed x) = map_of (flow_table t) x) \<and>
     (\<forall>x p. map_of (flow_table t) x = Some p \<longrightarrow> \<not> IsNoisePid p) \<and>
     (\<forall>k p. map_of (endpoint_to_pid t) k = Some p \<longrightarrow> \<not> IsNoisePid p)"

lemma map_of_update [simp]: "map_of (AList.update k v al) = (map_of al)(k \<mapsto> v)"
  by (simp add: update_conv')

lemma map_of_AList_delete [simp]: "map_of (AList.delete k al) = (map_of al)(k := None)"
  by (simp add: delete_conv')

declare map_of_eq_Some_iff [simp del]

lemma ft_inv_init: "ft_inv flow_tracker_init"
  by (simp add: ft_inv_def flow_tracker_init_def)

lemma InsertFlow_map:
  "map_of (flow_table (InsertFlow tup p t)) x =
     (if x = tup \<or> x = Reversed tup then Some p else map_of (flow_table t) x)"
  by (simp add: InsertFlow_def)

lemma InsertFlow_inv [inv_intros]: "ft_inv t \<Longrightarrow> \<not> IsNoisePid p \<Longrightarrow> ft_inv (InsertFlow tup p t)"
  by (auto simp: ft_inv_def InsertFlow_map Reversed_eq_swap)
    (simp_all add: InsertFlow_def distinct_update)

lemma OnFlowEstablished_eq:
  "\<not> IsNoisePid p \<Longrightarrow> OnFlowEstablished tup p t =
     (InsertFlow tup p t)\<lparr>endpoint_to_pid :=
        AList.update (MakeEndpointKey (src_addr tup) (src_port tup)) p (endpoint_to_pid t)\<rparr>"
  by (simp add: OnFlowEstablished_def InsertFlow_def)

lemma OnFlowEstablished_inv [inv_intros]:
  assumes "ft_inv t"
  shows "ft_inv (OnFlowEstablished tup p t)"
proof (cases "IsNoisePid p")
  case False
  from InsertFlow_inv [OF assms False, of tup] False assms show ?thesis
    by (auto simp: ft_inv_def OnFlowEstablished_eq distinct_update)
qed (use assms in \<open>simp add: OnFlowEstablished_def\<close>)

lemma OnFlowDeleted_inv [inv_intros]:
  "ft_inv t \<Longrightarrow> ft_inv (OnFlowDeleted tup t)"
  by (auto simp: ft_inv_def OnFlowDeleted_def distinct_delete Reversed_eq_swap split: if_splits)

lemma fold_bootstrap:
  assumes "distinct (map fst s)" and "\<forall>k p. map_of s k = Some p \<longrightarrow> \<not> IsNoisePid p"
  shows "distinct (map fst (fold bootstrap_visit es s)) \<and>
    (\<forall>k p. map_of (fold bootstrap_visit es s) k = Some p \<longrightarrow> \<not> IsNoisePid p)"
  using assms
proof (induction es arbitrary: s)
  case (Cons e es)
  obtain a pt p where e: "e = (a, pt, p)" by (metis prod_cases3)
  have "distinct (map fst (bootstrap_visit e s))"
    "\<forall>k p. map_of (bootstrap_visit e s) k = Some p \<longrightarrow> \<not> IsNoisePid p"
    using Cons.prems by (auto simp: e bootstrap_visit_def distinct_update)
  from Cons.IH [OF this] show ?case by simp
qed simp

lemma BootstrapFromSystem_inv [inv_intros]:
  "ft_inv t \<Longrightarrow> BootstrapFromSystem T t v = Some (t', v') \<Longrightarrow> ft_inv t'"
proof -
  assume inv: "ft_inv t" and "BootstrapFromSystem T t v = Some (t', v')"
  then obtain es where t': "t' = t\<lparr>endpoint_to_pid := fold bootstrap_visit es []\<rparr>"
    by (auto simp: BootstrapFromSystem_def Let_def split: option.splits)
  have "distinct (map fst (fold bootstrap_visit es [])) \<and>
      (\<forall>k p. map_of (fold bootstrap_visit es []) k = Some p \<longrightarrow> \<not> IsNoisePid p)"
    by (rule fold_bootstrap) simp_all
  with inv show ?thesis unfolding ft_inv_def t' by simp
qed

lemma NotifyFatal_inv [inv_intros]: "ft_inv t \<Longrightarrow> ft_inv (NotifyFatal gle t)"
  by (simp add: ft_inv_def NotifyFatal_def)

lemma system_visit_noise:
  "r \<noteq> kSystemPid \<Longrightarrow> fold (system_visit a pt) es r \<noteq> kSystemPid"
proof (induction es arbitrary: r)
  case (Cons e es)
  have "system_visit a pt e r \<noteq> kSystemPid"
    using Cons.prems by (auto simp: system_visit_def IsNoisePid_def split: prod.splits)
  from Cons.IH [OF this] show ?case by simp
qed simp

lemma LookupPidFromSystem_noise:
  assumes "LookupPidFromSystem T a pt v = Some (p, v')"
  shows "p = 0 \<or> \<not> IsNoisePid p"
proof -
  have "(0 :: u32) \<noteq> kSystemPid" by (simp add: kSystemPid_def)
  from system_visit_noise [OF this, of a pt] assms have "p \<noteq> kSystemPid"
    by (auto simp: LookupPidFromSystem_def split: option.splits)
  then show ?thesis by (auto simp: IsNoisePid_def)
qed

lemma LookupPid_inv [inv_intros]:
  "ft_inv t \<Longrightarrow> LookupPid T tup is_out t v = Some (p, t', v') \<Longrightarrow> ft_inv t'"
  by (auto simp: LookupPid_def Let_def InsertFlow_inv dest: LookupPidFromSystem_noise split: option.splits if_splits)

lemma tracking_round_inv [inv_intros]:
  "ft_inv t \<Longrightarrow> tracking_round D n t v = (r, n', t', v') \<Longrightarrow> ft_inv t'"
  by (auto simp: tracking_round_def Let_def OnFlowEstablished_inv OnFlowDeleted_inv NotifyFatal_inv
      split: prod.splits sum.splits recv_failure_action.splits if_splits)

lemma ft_Start_inv [inv_intros]:
  assumes "ft_inv t" and "ft_Start D T t v = Some (r, t', v')"
  shows "ft_inv t'"
proof -
  have set: "ft_inv (t\<lparr>ft_handle := b\<rparr>)" for b using assms(1) by (simp add: ft_inv_def)
  have run: "ft_inv (s\<lparr>ft_running := True, ft_thread := True\<rparr>)" if "ft_inv s" for s
    using that by (simp add: ft_inv_def)
  have boot: "ft_inv (s\<lparr>ft_running := True, ft_thread := True\<rparr>)"
    if "BootstrapFromSystem T (t\<lparr>ft_handle := True\<rparr>) w = Some (s, w')" for s w w'
    using BootstrapFromSystem_inv [OF set that] by (rule run)
  from assms set show ?thesis
    by (auto simp: ft_Start_def Let_def boot split: prod.splits if_splits option.splits)
qed

lemma ft_Stop_inv [inv_intros]: "ft_inv t \<Longrightarrow> ft_inv (fst (ft_Stop D t v))"
  by (simp add: ft_Stop_def Let_def ft_inv_def)

section \<open>What a lookup answers\<close>

lemma env_world_sel [simp]: "calls (v\<lparr>world := w\<rparr>) = calls v" "logs (v\<lparr>world := w\<rparr>) = logs v"
  by simp_all

lemma cached_InsertFlow:
  "x = tup \<or> x = Reversed tup \<Longrightarrow> cached_pid_of x d (InsertFlow tup p t) = Some p"
  by (simp add: cached_pid_of_def InsertFlow_map)

lemma LookupPid_cached:
  "cached_pid_of x d t = Some p \<Longrightarrow> LookupPid T x d t v = Some (p, t, env_count kFlowCacheHits 1 v)"
  by (simp add: LookupPid_def)

lemma LookupPid_scan:
  assumes "LookupPid T tup d t v = Some (p, t', v')" and "cached_pid_of tup d t = None"
  shows "t' = (if p \<noteq> 0 then InsertFlow tup p t else t)"
    and "Get kFlowCacheKernelScans (logs v') = Get kFlowCacheKernelScans (logs v) + 1"
proof -
  have "Get kFlowCacheKernelScans (logs v2) = Get kFlowCacheKernelScans (logs v1)"
    if "LookupPidFromSystem T a pt v1 = Some (q, v2)" for a pt q v1 v2
    using that by (auto simp: LookupPidFromSystem_def ForEachUdpEntry_def Let_def split: option.splits prod.splits if_splits)
  with assms show "t' = (if p \<noteq> 0 then InsertFlow tup p t else t)"
    and "Get kFlowCacheKernelScans (logs v') = Get kFlowCacheKernelScans (logs v) + 1"
    by (auto simp: LookupPid_def Let_def split: option.splits if_splits)
qed

lemma cached_not_noise: "ft_inv t \<Longrightarrow> cached_pid_of tup d t = Some p \<Longrightarrow> \<not> IsNoisePid p"
  by (auto simp: cached_pid_of_def ft_inv_def Let_def split: option.splits)

text \<open>The rows a scan accepts; the last one decides.\<close>

definition system_match :: "u32 \<Rightarrow> u16 \<Rightarrow> u32 \<times> u16 \<times> u32 \<Rightarrow> bool" where
  "system_match local_addr local_port = (\<lambda>(addr, port, p).
     port = local_port \<and> (addr = local_addr \<or> addr = 0) \<and> \<not> IsNoisePid p)"

lemma fold_system_visit:
  "fold (system_visit a pt) es r =
     (case filter (system_match a pt) es of [] \<Rightarrow> r | ms \<Rightarrow> snd (snd (last ms)))"
proof (induction es arbitrary: r)
  case (Cons e es)
  show ?case
  proof (cases "system_match a pt e")
    case True
    then have "system_visit a pt e r = snd (snd e)"
      by (auto simp: system_match_def system_visit_def)
    with True Cons.IH [of "snd (snd e)"] show ?thesis by (auto split: list.splits)
  next
    case False
    then have "system_visit a pt e r = r"
      by (cases e) (auto simp: system_match_def system_visit_def)
    with False Cons.IH show ?thesis by simp
  qed
qed simp

text \<open>How many answers the retry loop has to wait for.\<close>

fun udp_settles :: "'w udp_table \<Rightarrow> nat \<Rightarrow> u32 \<Rightarrow> u32 \<Rightarrow> 'w \<Rightarrow> bool" where
  "udp_settles T 0 ret n w = (ret \<noteq> ERROR_INSUFFICIENT_BUFFER)"
| "udp_settles T (Suc k) ret n w =
     (ret \<noteq> ERROR_INSUFFICIENT_BUFFER \<or> (case T (Some n) w of (ret', n', _, w') \<Rightarrow> udp_settles T k ret' n' w'))"

lemma udp_retry_done: "ret \<noteq> ERROR_INSUFFICIENT_BUFFER \<Longrightarrow> udp_retry T ret n rows w = Some (ret, rows, w)"
  by (subst udp_retry.simps) simp

lemma udp_retry_settles:
  "udp_settles T k ret n w \<Longrightarrow>
     \<exists>ret' rows' w'. udp_retry T ret n rows w = Some (ret', rows', w') \<and> ret' \<noteq> ERROR_INSUFFICIENT_BUFFER"
proof (induction k arbitrary: ret n rows w)
  case 0
  then show ?case by (simp add: udp_retry_done)
next
  case (Suc k)
  show ?case
  proof (cases "ret = ERROR_INSUFFICIENT_BUFFER")
    case True
    obtain r' n' rows' w' where T: "T (Some n) w = (r', n', rows', w')" by (metis prod_cases4)
    with Suc.prems True have "udp_settles T k r' n' w'" by simp
    from Suc.IH [OF this, of rows'] True T show ?thesis by (subst udp_retry.simps) simp
  qed (simp add: udp_retry_done)
qed

text \<open>A table that is read in one go, for the instances.\<close>

definition fixed_table :: "udp_row list \<Rightarrow> 'w udp_table" where
  "fixed_table rows = (\<lambda>n w. case n of None \<Rightarrow> (ERROR_INSUFFICIENT_BUFFER, 64, [], w) | Some _ \<Rightarrow> (NO_ERROR, 64, rows, w))"

lemma ForEachUdpEntry_fixed [simp]:
  "ForEachUdpEntry (fixed_table rows) v = Some (True, map udp_entry rows, v)"
  by (subst ForEachUdpEntry_def, simp add: fixed_table_def, subst udp_retry.simps, simp,
      subst udp_retry_done, simp add: NO_ERROR_def ERROR_INSUFFICIENT_BUFFER_def, simp)

text \<open>Whatever holds of all rows the table ever answers holds of what a scan finds.\<close>

definition table_answers :: "'w udp_table \<Rightarrow> bool" where
  "table_answers T \<longleftrightarrow> (\<forall>w ret n rows w'. T None w = (ret, n, rows, w') \<longrightarrow> (\<exists>k. udp_settles T k ret n w'))"

definition table_rows :: "'w udp_table \<Rightarrow> (udp_row \<Rightarrow> bool) \<Rightarrow> bool" where
  "table_rows T Q \<longleftrightarrow> (\<forall>m w ret n rows w'. T m w = (ret, n, rows, w') \<longrightarrow> list_all Q rows)"

lemma table_rows_True: "table_rows T (\<lambda>_. True)"
  by (simp add: table_rows_def list_all_iff)

lemma fixed_table_answers: "table_answers (fixed_table rows)"
  unfolding table_answers_def
proof (intro allI impI exI)
  fix w :: 'a and ret n :: u32 and rs :: "udp_row list" and w' :: 'a
  assume "fixed_table rows None w = (ret, n, rs, w')"
  then show "udp_settles (fixed_table rows) 1 ret n w'"
    by (simp add: fixed_table_def NO_ERROR_def ERROR_INSUFFICIENT_BUFFER_def)
qed

lemma fixed_table_rows: "list_all Q rows \<Longrightarrow> table_rows (fixed_table rows) Q"
  by (auto simp: table_rows_def fixed_table_def split: option.splits)

lemma udp_retry_rows:
  "udp_settles T k ret n w \<Longrightarrow> table_rows T Q \<Longrightarrow> list_all Q rows \<Longrightarrow>
     udp_retry T ret n rows w = Some (ret', rows', w') \<Longrightarrow> list_all Q rows'"
proof (induction k arbitrary: ret n rows w)
  case 0
  then show ?case by (simp add: udp_retry_done)
next
  case (Suc k)
  show ?case
  proof (cases "ret = ERROR_INSUFFICIENT_BUFFER")
    case True
    obtain r1 n1 rows1 w1 where T: "T (Some n) w = (r1, n1, rows1, w1)" by (metis prod_cases4)
    with Suc.prems True have "udp_settles T k r1 n1 w1" "udp_retry T r1 n1 rows1 w1 = Some (ret', rows', w')"
      by (simp, subst (asm) udp_retry.simps, simp)
    moreover have "list_all Q rows1" using Suc.prems(2) T unfolding table_rows_def by blast
    ultimately show ?thesis using Suc.IH Suc.prems(2) by blast
  qed (use Suc.prems in \<open>simp add: udp_retry_done\<close>)
qed

lemma ForEachUdpEntry_total:
  assumes "table_answers T" and "table_rows T Q"
  shows "\<exists>b es v'. ForEachUdpEntry T v = Some (b, es, v') \<and> calls v' = calls v \<and>
    (\<forall>e \<in> set es. \<exists>r. Q r \<and> e = udp_entry r)"
proof -
  obtain ret n rows w where T: "T None (world v) = (ret, n, rows, w)" by (metis prod_cases4)
  with assms(1) obtain k where k: "udp_settles T k ret n w" unfolding table_answers_def by blast
  from udp_retry_settles [OF k] obtain ret' rows' w' where r: "udp_retry T ret n rows w = Some (ret', rows', w')"
    by blast
  have "list_all Q rows" using assms(2) T unfolding table_rows_def by blast
  from udp_retry_rows [OF k assms(2) this r] have "list_all Q rows'" .
  with T r show ?thesis by (auto simp: ForEachUdpEntry_def Let_def list_all_iff)
qed

lemma system_visit_result:
  "fold (system_visit a pt) es r = r \<or> (\<exists>e \<in> set es. fold (system_visit a pt) es r = snd (snd e))"
proof (induction es arbitrary: r)
  case (Cons e es)
  have "system_visit a pt e r = r \<or> system_visit a pt e r = snd (snd e)"
    by (auto simp: system_visit_def split: prod.splits)
  with Cons.IH [of "system_visit a pt e r"] show ?case by auto
qed simp

lemma LookupPid_total:
  assumes "table_answers T" and rows: "table_rows T (\<lambda>r. Q (dwOwningPid r))"
  shows "\<exists>p t' v'. LookupPid T tup d t v = Some (p, t', v') \<and> calls v' = calls v \<and>
    (cached_pid_of tup d t = Some p \<and> t' = t \<or>
     cached_pid_of tup d t = None \<and> (p = 0 \<and> t' = t \<or> Q p \<and> t' = InsertFlow tup p t))"
proof (cases "cached_pid_of tup d t")
  case (Some p)
  then show ?thesis by (simp add: LookupPid_def)
next
  case None
  let ?a = "if d then src_addr tup else dst_addr tup" and ?pt = "if d then src_port tup else dst_port tup"
  let ?v = "env_count kFlowCacheKernelScans 1 v"
  from ForEachUdpEntry_total [OF assms, of ?v] obtain b es v' where
    fe: "ForEachUdpEntry T ?v = Some (b, es, v')" "calls v' = calls v"
      "\<forall>e \<in> set es. \<exists>r. Q (dwOwningPid r) \<and> e = udp_entry r" by auto
  let ?p = "fold (system_visit ?a ?pt) es 0"
  have "?p = 0 \<or> Q ?p"
    using system_visit_result [of ?a ?pt es 0] fe(3) by (fastforce simp: udp_entry_def)
  with fe None show ?thesis
    by (cases d) (auto simp: LookupPid_def LookupPidFromSystem_def Let_def)
qed

section \<open>Flow events\<close>

datatype flow_event = Established five_tuple u32 | Deleted five_tuple

fun apply_flow_event :: "flow_event \<Rightarrow> flow_tracker \<Rightarrow> flow_tracker" where
  "apply_flow_event (Established tup p) = OnFlowEstablished tup p"
| "apply_flow_event (Deleted tup) = OnFlowDeleted tup"

text \<open>The specification: who owns a flow after the events, the newest event first.\<close>

fun flow_owner :: "flow_event list \<Rightarrow> five_tuple \<Rightarrow> u32 option" where
  "flow_owner [] x = None"
| "flow_owner (Established tup p # es) x =
     (if (x = tup \<or> x = Reversed tup) \<and> \<not> IsNoisePid p then Some p else flow_owner es x)"
| "flow_owner (Deleted tup # es) x = (if x = tup \<or> x = Reversed tup then None else flow_owner es x)"

lemma apply_flow_event_map:
  "map_of (flow_table (apply_flow_event e t)) x =
     (case e of
        Established tup p \<Rightarrow>
          if (x = tup \<or> x = Reversed tup) \<and> \<not> IsNoisePid p then Some p else map_of (flow_table t) x
      | Deleted tup \<Rightarrow> if x = tup \<or> x = Reversed tup then None else map_of (flow_table t) x)"
  by (cases e) (simp_all add: OnFlowEstablished_def OnFlowDeleted_def)

lemma flow_events_refine:
  "map_of (flow_table (fold apply_flow_event es flow_tracker_init)) x = flow_owner (rev es) x"
proof (induction es rule: rev_induct)
  case Nil
  show ?case by (simp add: flow_tracker_init_def)
next
  case (snoc e es)
  then show ?case by (cases e) (simp_all add: apply_flow_event_map del: apply_flow_event.simps)
qed

section \<open>A driver that keeps failing\<close>

lemma ClassifyRecvFailure_transient:
  assumes "transient_gle e" and "unat n < 32"
  shows "\<exists>d'. ClassifyRecvFailure e n who d = (kContinue, n + 1, d') \<and> unat (n + 1) = unat n + 1"
proof -
  have u: "unat (n + 1) = unat n + 1" using assms(2) by (simp add: unat_Suc_no_wrap)
  then have "\<not> n + 1 > kMaxConsecutiveRecvFailures"
    using assms(2) by (simp add: word_less_nat_alt kMaxConsecutiveRecvFailures_def)
  with assms(1) u show ?thesis by (simp add: ClassifyRecvFailure_def transient_gle_def Let_def)
qed

lemma ClassifyRecvFailure_last:
  assumes "transient_gle e" and "unat n = 32"
  shows "\<exists>d'. ClassifyRecvFailure e n who d = (kExitFatal, n + 1, d')"
proof -
  have "unat (n + 1) = 33" using assms(2) by (simp add: unat_Suc_no_wrap)
  then have "n + 1 > kMaxConsecutiveRecvFailures"
    by (simp add: word_less_nat_alt kMaxConsecutiveRecvFailures_def)
  with assms(1) show ?thesis by (simp add: ClassifyRecvFailure_def transient_gle_def Let_def)
qed

lemma TrackingLoop_failing:
  assumes fails: "\<And>w. divert_recv D w = (Inl e, w)" and e: "transient_gle e" and "ft_running t"
  shows "unat n + k = 32 \<Longrightarrow> \<exists>v'. TrackingLoop D (Suc k) n t v = (True, NotifyFatal e t, v')"
    and "unat n + k \<le> 32 \<Longrightarrow> \<exists>v'. TrackingLoop D k n t v = (False, t, v')"
proof (induction k arbitrary: n v)
  case 0
  {
    case 1
    then have "unat n = 32" by simp
    from ClassifyRecvFailure_last [OF e this] obtain d' where
      "ClassifyRecvFailure e n ''FlowTracker'' (logs v) = (kExitFatal, n + 1, d')" by blast
    with fails assms(3) show ?case by (simp add: tracking_round_def Let_def)
  next
    case 2
    show ?case using assms(3) by simp
  }
next
  case (Suc k)
  {
    case 1
    then have "unat n < 32" by simp
    from ClassifyRecvFailure_transient [OF e this] obtain d' where
      d: "ClassifyRecvFailure e n ''FlowTracker'' (logs v) = (kContinue, n + 1, d')" "unat (n + 1) = unat n + 1"
      by blast
    from Suc.IH(1) [of "n + 1" "v\<lparr>world := world v, logs := d'\<rparr>"] d 1 fails assms(3)
    show ?case by (simp add: tracking_round_def Let_def del: TrackingLoop.simps)
        (subst TrackingLoop.simps, simp add: tracking_round_def Let_def)
  next
    case 2
    then have "unat n < 32" by simp
    from ClassifyRecvFailure_transient [OF e this] obtain d' where
      d: "ClassifyRecvFailure e n ''FlowTracker'' (logs v) = (kContinue, n + 1, d')" "unat (n + 1) = unat n + 1"
      by blast
    from Suc.IH(2) [of "n + 1" "v\<lparr>world := world v, logs := d'\<rparr>"] d 2 fails assms(3)
    show ?case by (simp add: tracking_round_def Let_def)
  }
qed

section \<open>Properties\<close>

text \<open>
  The tracker's tables stay consistent. Flow events, lookups that ask the kernel, the bootstrap and
  rounds of the tracking loop all keep the invariant: a flow is known in both directions or in none,
  with the same owner, keys are unique, and the idle and the system process never own anything.
\<close>

theorem tracker_invariant:
  assumes "ft_inv t"
  shows "ft_inv (apply_flow_event ev t) \<and>
    (\<forall>p t' v'. LookupPid T tup d t v = Some (p, t', v') \<longrightarrow> ft_inv t' \<and> p \<noteq> kSystemPid) \<and>
    (\<forall>t' v'. BootstrapFromSystem T t v = Some (t', v') \<longrightarrow> ft_inv t') \<and>
    (\<forall>r n' t' v'. tracking_round D n t v = (r, n', t', v') \<longrightarrow> ft_inv t')"
proof (intro conjI allI impI)
  show "ft_inv (apply_flow_event ev t)"
    using assms by (cases ev) (simp_all add: OnFlowEstablished_inv OnFlowDeleted_inv)
  fix p t' v' assume l: "LookupPid T tup d t v = Some (p, t', v')"
  then show "ft_inv t'" by (rule LookupPid_inv [OF assms])
  have "p = 0 \<or> \<not> IsNoisePid p"
    using l cached_not_noise [OF assms] LookupPidFromSystem_noise
    by (fastforce simp: LookupPid_def Let_def split: option.splits)
  then show "p \<noteq> kSystemPid" by (auto simp: IsNoisePid_def kSystemPid_def)
qed (use assms BootstrapFromSystem_inv tracking_round_inv in blast)+

lemma tracker_invariant_witness:
  "ft_inv (apply_flow_event (Established \<lparr>src_addr = 1, dst_addr = 2, src_port = 3, dst_port = 4, protocol = 17\<rparr> 9)
     flow_tracker_init)"
  using tracker_invariant [OF ft_inv_init] by blast

text \<open>
  The flow table is the history of the flow events. After any sequence of events the owner of a
  flow, in either direction, is the process of the latest establishment of that flow that no deletion
  followed; establishments by the idle or the system process do not count.
\<close>

theorem flow_table_refines_history:
  "map_of (flow_table (fold apply_flow_event es flow_tracker_init)) x = flow_owner (rev es) x"
  by (rule flow_events_refine)

text \<open>
  A lookup answers from the flow, then the local endpoint, then the wildcard endpoint, and only asks
  the kernel when all three are missing; a kernel answer other than zero is remembered for both
  directions, so that looking up the packet or its reply again is a cache hit with the same answer.
\<close>

theorem lookup_is_cached:
  assumes "LookupPid T tup d t v = Some (p, t', v')"
  shows "(cached_pid_of tup d t = Some p \<longrightarrow> t' = t \<and> Get kFlowCacheHits (logs v') = Get kFlowCacheHits (logs v) + 1) \<and>
    (cached_pid_of tup d t \<noteq> None \<longrightarrow> cached_pid_of tup d t = Some p) \<and>
    (cached_pid_of tup d t = None \<longrightarrow>
       Get kFlowCacheKernelScans (logs v') = Get kFlowCacheKernelScans (logs v) + 1) \<and>
    (p \<noteq> 0 \<longrightarrow> LookupPid T tup d t' v'' = Some (p, t', env_count kFlowCacheHits 1 v'')) \<and>
    (cached_pid_of tup d t = None \<and> p \<noteq> 0 \<longrightarrow>
       LookupPid T (Reversed tup) d' t' v'' = Some (p, t', env_count kFlowCacheHits 1 v''))"
proof (cases "cached_pid_of tup d t")
  case (Some q)
  with assms have "q = p" "t' = t" "v' = env_count kFlowCacheHits 1 v" by (simp_all add: LookupPid_def)
  with Some show ?thesis by (simp add: LookupPid_def)
next
  case None
  from LookupPid_scan [OF assms None] have t': "t' = (if p \<noteq> 0 then InsertFlow tup p t else t)"
    and n: "Get kFlowCacheKernelScans (logs v') = Get kFlowCacheKernelScans (logs v) + 1" by simp_all
  have "LookupPid T x e t' v'' = Some (p, t', env_count kFlowCacheHits 1 v'')"
    if "p \<noteq> 0" "x = tup \<or> x = Reversed tup" for x e
    using that by (simp add: LookupPid_cached cached_InsertFlow t')
  with n None show ?thesis by simp
qed

lemma lookup_is_cached_witness:
  "LookupPid (fixed_table []) \<lparr>src_addr = 1, dst_addr = 2, src_port = 3, dst_port = 4, protocol = 17\<rparr> True
     (InsertFlow \<lparr>src_addr = 1, dst_addr = 2, src_port = 3, dst_port = 4, protocol = 17\<rparr> 9 flow_tracker_init) (env_init ()) =
   Some (9, InsertFlow \<lparr>src_addr = 1, dst_addr = 2, src_port = 3, dst_port = 4, protocol = 17\<rparr> 9 flow_tracker_init,
     env_count kFlowCacheHits 1 (env_init ()))"
proof -
  let ?x = "\<lparr>src_addr = 1, dst_addr = 2, src_port = 3, dst_port = 4, protocol = 17\<rparr>"
  let ?t = "InsertFlow ?x 9 flow_tracker_init"
  have "LookupPid (fixed_table []) ?x True ?t (env_init ()) = Some (9, ?t, env_count kFlowCacheHits 1 (env_init ()))"
    by (simp add: LookupPid_def cached_InsertFlow)
  from lookup_is_cached [OF this, of "env_init ()"] show ?thesis by simp
qed

text \<open>
  Asking the system terminates when the system does. If the table call stops answering that the
  buffer is too small after some number of retries, then every lookup returns; the loop itself has no
  bound.
\<close>

theorem lookup_terminates:
  assumes "table_answers T"
  shows "\<exists>p t' v'. LookupPid T tup d t v = Some (p, t', v')"
  using LookupPid_total [OF assms table_rows_True] by blast

lemma lookup_terminates_witness:
  "\<exists>p t' v'. LookupPid (fixed_table [\<lparr>dwLocalAddr = 0x01000000, dwLocalPort = 0x0300, dwOwningPid = 9\<rparr>])
     \<lparr>src_addr = 1, dst_addr = 2, src_port = 3, dst_port = 4, protocol = 17\<rparr> True flow_tracker_init (env_init ()) =
     Some (p, t', v')"
  by (rule lookup_terminates) (rule fixed_table_answers)

text \<open>
  In a kernel scan the last matching row wins, so a wildcard socket can hide the exact one. The scan
  answers the process of the last row with the port and the address or the wildcard address; with
  an exact row before a wildcard row of the same port it names the wildcard's process, while the caches
  filled from the same table name the exact one's.
\<close>

theorem kernel_scan_last_match:
  "LookupPidFromSystem (fixed_table rows) a pt v =
     Some (case filter (system_match a pt) (map udp_entry rows) of [] \<Rightarrow> 0 | ms \<Rightarrow> snd (snd (last ms)), v) \<and>
   (let rows = [\<lparr>dwLocalAddr = 0x01000000, dwLocalPort = 0x0300, dwOwningPid = 9\<rparr>,
                \<lparr>dwLocalAddr = 0, dwLocalPort = 0x0300, dwOwningPid = 8\<rparr>];
        x = \<lparr>src_addr = 1, dst_addr = 2, src_port = 3, dst_port = 4, protocol = 17\<rparr>
    in map_option fst (LookupPidFromSystem (fixed_table rows) 1 3 v) = Some 8 \<and>
       map_option (\<lambda>(t, _). cached_pid_of x True t) (BootstrapFromSystem (fixed_table rows) flow_tracker_init v) =
         Some (Some 9))"
proof -
  have scan: "LookupPidFromSystem (fixed_table rows) a pt v =
      Some (case filter (system_match a pt) (map udp_entry rows) of [] \<Rightarrow> 0 | ms \<Rightarrow> snd (snd (last ms)), v)" for rows a pt
    by (simp add: LookupPidFromSystem_def fold_system_visit)
  let ?rows = "[\<lparr>dwLocalAddr = 0x01000000, dwLocalPort = 0x0300, dwOwningPid = 9\<rparr>,
     \<lparr>dwLocalAddr = 0, dwLocalPort = 0x0300, dwOwningPid = 8\<rparr>]"
  have e: "map udp_entry ?rows = [(1, 3, 9), (0, 3, 8)]" by code_simp
  have m: "filter (system_match 1 3) [(1, 3, 9), (0, 3, 8)] = [(1, 3, 9), (0, 3, 8)]" by code_simp
  have b: "cached_pid_of \<lparr>src_addr = 1, dst_addr = 2, src_port = 3, dst_port = 4, protocol = 17\<rparr> True
      (flow_tracker_init\<lparr>endpoint_to_pid := fold bootstrap_visit [(1, 3, 9), (0, 3, 8)] []\<rparr>) = Some 9"
    by code_simp
  have "LookupPidFromSystem (fixed_table ?rows) 1 3 v = Some (8, v)"
    unfolding scan e m by simp
  moreover have "map_option (\<lambda>(t, _). cached_pid_of \<lparr>src_addr = 1, dst_addr = 2, src_port = 3, dst_port = 4, protocol = 17\<rparr> True t)
      (BootstrapFromSystem (fixed_table ?rows) flow_tracker_init v) = Some (Some 9)"
    unfolding BootstrapFromSystem_def ForEachUdpEntry_fixed e using b by (simp add: Let_def)
  ultimately show ?thesis using scan [of rows a pt] unfolding Let_def by simp
qed

text \<open>
  C40: a driver that keeps failing ends the tracking loop. If every receive fails with an error that is
  worth a retry, the loop is still running after 32 rounds and is over after 33, having called the
  fatal callback exactly once with that error.
\<close>

theorem tracking_loop_gives_up:
  assumes "\<forall>w. divert_recv D w = (Inl e, w)" and "transient_gle e" and "ft_running t" and "ft_has_callback t"
  shows "(\<exists>v'. TrackingLoop D 32 0 t v = (False, t, v')) \<and>
    (\<exists>t' v'. TrackingLoop D 33 0 t v = (True, t', v') \<and> ft_fatal_calls t' = ft_fatal_calls t @ [e])"
proof -
  have f: "\<And>w. divert_recv D w = (Inl e, w)" using assms(1) by blast
  have "\<exists>v'. TrackingLoop D (Suc 32) 0 t v = (True, NotifyFatal e t, v')"
    by (rule TrackingLoop_failing(1) [OF f assms(2,3)]) simp
  then have "\<exists>t' v'. TrackingLoop D 33 0 t v = (True, t', v') \<and> ft_fatal_calls t' = ft_fatal_calls t @ [e]"
    using assms(4) by (auto simp: NotifyFatal_def)
  moreover have "\<exists>v'. TrackingLoop D 32 0 t v = (False, t, v')"
    by (rule TrackingLoop_failing(2) [OF f assms(2,3)]) simp
  ultimately show ?thesis by blast
qed

lemma tracking_loop_gives_up_witness:
  "\<exists>t' v'. TrackingLoop ((scripted_driver (\<lambda>_. None) 0)\<lparr>divert_recv := \<lambda>w. (Inl 31, w)\<rparr>) 33 0
     (flow_tracker_init\<lparr>ft_running := True, ft_has_callback := True\<rparr>) (env_init []) = (True, t', v') \<and> ft_fatal_calls t' = [31]"
proof -
  let ?t = "flow_tracker_init\<lparr>ft_running := True, ft_has_callback := True\<rparr>"
  have t: "transient_gle 31" "ft_running ?t" "ft_has_callback ?t" "ft_fatal_calls ?t = []"
    by (simp_all add: transient_gle_def ERROR_NO_DATA_def ERROR_INVALID_HANDLE_def ERROR_OPERATION_ABORTED_def
        flow_tracker_init_def)
  from tracking_loop_gives_up [of "(scripted_driver (\<lambda>_. None) 0)\<lparr>divert_recv := \<lambda>w. (Inl 31, w)\<rparr>", OF _ t(1-3)] t(4)
  show ?thesis by auto
qed

end
