(* ===== verification/Interceptor.thy ===== *)
theory Interceptor
  imports Effect_Laws Target_Pids Delay_Queue Flow_Tracker
begin

text \<open>
  The packet interceptor (include/core/PacketInterceptor.h, src/core/PacketInterceptor.cpp): it takes
  batches of packets from the driver, finds the process of each, runs the packets of targeted processes
  through the effect engine, hands delayed copies to the delay queue and sends the rest of the batch
  back in one call. An operation that does not come to an end is \<open>None\<close>.
\<close>

section \<open>State\<close>

text \<open>The objects the interceptor holds or refers to.\<close>

record 'g pipeline =
  tracker :: flow_tracker
  targets :: pid_set
  effects :: effect_config
  engine :: "'g effect_engine"
  delay :: "delay_queue option"
  pi_running :: bool
  pi_thread :: bool
  pi_handle :: bool
  pi_has_callback :: bool
  pi_fatal_calls :: "u32 list"

text \<open>\<open>send_buf\<close> and \<open>send_addrs\<close> of the capture loop.\<close>

record outgoing =
  out_bytes :: "u8 list"
  out_addrs :: "wd_address list"

text \<open>What the interceptor gets from outside: the driver, the UDP table, the random engine.\<close>

record ('w, 'g) outside =
  driver :: "'w divert_ops"
  udp_table :: "'w udp_table"
  rand :: "'g rng_ops"

section \<open>One packet\<close>

definition append_immediate_packet ::
  "u8 list \<Rightarrow> wd_address \<Rightarrow> outgoing \<times> 'w env \<Rightarrow> outgoing \<times> 'w env" where
  "append_immediate_packet packet_data packet_addr = (\<lambda>(ob, v).
     if length packet_data > kStandardMtuSize then
       (ob, env_count kPacketsOversized 1
              (env_log SiteOversized kWarn
                (''PacketInterceptor: dropping oversized packet ({} bytes > {} MTU)'',
                 [ANum (length packet_data), ANum kStandardMtuSize]) v))
     else (ob\<lparr>out_bytes := out_bytes ob @ packet_data, out_addrs := out_addrs ob @ [packet_addr]\<rparr>, v))"

fun push_scheduled ::
  "scheduled_packet list \<Rightarrow> delay_queue \<Rightarrow> 'w env \<Rightarrow> (delay_queue \<times> 'w env) option" where
  "push_scheduled [] q v = Some (q, v)"
| "push_scheduled (p # ps) q v =
     (case dq_Push p q v of None \<Rightarrow> None | Some (q', v') \<Rightarrow> push_scheduled ps q' v')"

definition count_effects :: "bool \<Rightarrow> emission \<Rightarrow> 'w env \<Rightarrow> 'w env" where
  "count_effects is_out em v =
     (let v = (if HasEffect kDrop em then
                 env_count (if is_out then kPacketsDroppedOutbound else kPacketsDroppedInbound) 1 v
               else v);
          v = (if ScheduledCount em > 0 then
                 env_count (if is_out then kPacketsDelayedOutbound else kPacketsDelayedInbound) 1 v
               else v)
      in if HasEffect kDuplicate em then
           env_count (if is_out then kPacketsDuplicatedOutbound else kPacketsDuplicatedInbound)
             (of_nat (TotalEmittedCount em) - 1) v
         else v)"

text \<open>The body of \<open>if (owned_packet)\<close>.\<close>

definition apply_effects ::
  "('w, 'g) outside \<Rightarrow> int \<Rightarrow> owned_packet \<Rightarrow> 'g pipeline \<Rightarrow> outgoing \<Rightarrow> 'w env \<Rightarrow>
   ('g pipeline \<times> outgoing \<times> 'w env) option" where
  "apply_effects X now p s ob v =
     (let (em, eng) = Process (rand X) (effects s) p now (engine s);
          s = s\<lparr>engine := eng\<rparr>;
          v = count_effects (is_outbound (metadata p)) em v;
          (ob, v) = fold (\<lambda>ip. append_immediate_packet (Bytes ip) (pkt_addr ip)) (immediate_packets em) (ob, v)
      in case delay s of
           None \<Rightarrow> (if scheduled_packets em = [] then Some (s, ob, v) else None)
         | Some q \<Rightarrow>
             (case push_scheduled (scheduled_packets em) q v of
                None \<Rightarrow> None
              | Some (q, v) \<Rightarrow> Some (s\<lparr>delay := Some q\<rparr>, ob, v)))"

text \<open>One packet of a batch: \<open>data\<close> are its bytes, \<open>pr\<close> what the parser said of it.\<close>

definition handle_packet ::
  "('w, 'g) outside \<Rightarrow> int \<Rightarrow> u8 list \<Rightarrow> parsed \<Rightarrow> wd_address \<Rightarrow> 'g pipeline \<Rightarrow> outgoing \<Rightarrow> 'w env \<Rightarrow>
   ('g pipeline \<times> outgoing \<times> 'w env) option" where
  "handle_packet X now data pr addr s ob v =
     (let unhandled = (\<lambda>s v. case append_immediate_packet data addr (ob, v) of (ob, v) \<Rightarrow> Some (s, ob, v)) in
      case (parsed_ip pr, parsed_udp pr) of
        (Some ip, Some udp) \<Rightarrow>
          (let tup = TupleFromPacket ip udp in
           case LookupPid (udp_table X) tup (Outbound addr) (tracker s) v of
             None \<Rightarrow> None
           | Some (p, t, v) \<Rightarrow>
               (let s = s\<lparr>tracker := t\<rparr> in
                if p \<noteq> 0 \<and> Contains p (targets s) then
                  (case CopyFrom data addr \<lparr>tuple = tup, pid = p, is_outbound = Outbound addr\<rparr> of
                     Some op \<Rightarrow> apply_effects X now op s ob v
                   | None \<Rightarrow> unhandled s v)
                else unhandled s v))
      | _ \<Rightarrow> unhandled s v)"

section \<open>A batch\<close>

text \<open>
  The loop over the packets: the addresses that are left, the packet's index, the bytes that are left.
  \<open>clock i\<close> is what the clock says at packet \<open>i\<close>.
\<close>

fun capture_packets ::
  "('w, 'g) outside \<Rightarrow> (nat \<Rightarrow> int) \<Rightarrow> nat \<Rightarrow> wd_address list \<Rightarrow> nat \<Rightarrow> u8 list \<Rightarrow>
   'g pipeline \<Rightarrow> outgoing \<Rightarrow> 'w env \<Rightarrow> ('g pipeline \<times> outgoing \<times> 'w env) option" where
  "capture_packets X clock num_packets [] i cur s ob v = Some (s, ob, v)"
| "capture_packets X clock num_packets (addr # addrs) i cur s ob v =
     (case parse_packet (driver X) cur of
        None \<Rightarrow>
          Some (s, ob\<lparr>out_bytes := out_bytes ob @ cur, out_addrs := out_addrs ob @ (addr # addrs)\<rparr>,
            env_count kParseFailures 1
              (env_log SiteParseFailed kWarn
                (''PacketInterceptor: WinDivertHelperParsePacket failed, reinjecting the rest of the batch unchanged ({} of {})'',
                 [ANum i, ANum num_packets]) v))
      | Some pr \<Rightarrow>
          (let pkt_len = length cur - next_len pr in
           case handle_packet X (clock i) (take pkt_len cur) pr addr s ob v of
             None \<Rightarrow> None
           | Some (s, ob, v) \<Rightarrow>
               (if next_len pr = 0 then Some (s, ob, v)
                else capture_packets X clock num_packets addrs (i + 1) (drop pkt_len cur) s ob v)))"

definition count_captured :: "wd_address list \<Rightarrow> 'w env \<Rightarrow> 'w env" where
  "count_captured addrs v =
     (let outbound_count = length (filter Outbound addrs) in
      env_count kPacketsCapturedInbound (of_nat (length addrs) - of_nat outbound_count)
        (env_count kPacketsCapturedOutbound (of_nat outbound_count) v))"

definition send_outgoing :: "'w divert_ops \<Rightarrow> outgoing \<Rightarrow> 'w env \<Rightarrow> 'w env" where
  "send_outgoing D ob v =
     (if out_addrs ob = [] then v
      else
        (let (gle, v) = env_send D (out_bytes ob) (out_addrs ob) v;
             n = of_nat (length (out_addrs ob))
         in if gle \<noteq> 0 then
              env_count kReinjectFailures n
                (env_log SiteCaptureBatchSend kWarn
                  (''PacketInterceptor: batch WinDivertSendEx failed (GLE={}, packets={})'',
                   [ANum (unat gle), ANum (length (out_addrs ob))]) v)
            else env_count kPacketsReinjected n v))"

definition process_batch ::
  "('w, 'g) outside \<Rightarrow> (nat \<Rightarrow> int) \<Rightarrow> u8 list \<Rightarrow> wd_address list \<Rightarrow> 'g pipeline \<Rightarrow> 'w env \<Rightarrow>
   ('g pipeline \<times> 'w env) option" where
  "process_batch X clock bytes addrs s v =
     (let v = count_captured addrs v in
      case capture_packets X clock (length addrs) addrs 0 bytes s \<lparr>out_bytes = [], out_addrs = []\<rparr> v of
        None \<Rightarrow> None
      | Some (s, ob, v) \<Rightarrow> Some (s, send_outgoing (driver X) ob v))"

section \<open>The capture loop\<close>

definition pi_NotifyFatal :: "u32 \<Rightarrow> 'g pipeline \<Rightarrow> 'g pipeline" where
  "pi_NotifyFatal gle s =
     (if pi_has_callback s then s\<lparr>pi_fatal_calls := pi_fatal_calls s @ [gle]\<rparr> else s)"

definition capture_round ::
  "('w, 'g) outside \<Rightarrow> (nat \<Rightarrow> int) \<Rightarrow> u32 \<Rightarrow> 'g pipeline \<Rightarrow> 'w env \<Rightarrow>
   (loop_next \<times> u32 \<times> 'g pipeline \<times> 'w env) option" where
  "capture_round X clock n s v =
     (case divert_recv_ex (driver X) (world v) of
        (Inl gle, w) \<Rightarrow>
          (case ClassifyRecvFailure gle n ''PacketInterceptor'' (logs v) of
             (action, n', d) \<Rightarrow>
               (let v = v\<lparr>world := w, logs := d\<rparr> in
                case action of
                  kContinue \<Rightarrow> Some (LoopContinue, n', s, v)
                | kExitClean \<Rightarrow> Some (LoopExit, n', s, v)
                | kExitFatal \<Rightarrow> Some (LoopExit, n', pi_NotifyFatal gle s, v)))
      | (Inr (bytes, addrs), w) \<Rightarrow>
          (case process_batch X clock bytes addrs s (v\<lparr>world := w\<rparr>) of
             None \<Rightarrow> None
           | Some (s, v) \<Rightarrow> Some (LoopContinue, 0, s, v)))"

text \<open>The loop for at most so many rounds; \<open>clocks k\<close> is the clock during round \<open>k\<close> from the end.\<close>

fun CaptureLoop ::
  "('w, 'g) outside \<Rightarrow> (nat \<Rightarrow> nat \<Rightarrow> int) \<Rightarrow> nat \<Rightarrow> u32 \<Rightarrow> 'g pipeline \<Rightarrow> 'w env \<Rightarrow>
   (bool \<times> 'g pipeline \<times> 'w env) option" where
  "CaptureLoop X clocks 0 n s v = Some (\<not> pi_running s, s, v)"
| "CaptureLoop X clocks (Suc k) n s v =
     (if \<not> pi_running s then Some (True, s, v)
      else (case capture_round X (clocks k) n s v of
              None \<Rightarrow> None
            | Some (LoopContinue, n', s', v') \<Rightarrow> CaptureLoop X clocks k n' s' v'
            | Some (LoopExit, _, s', v') \<Rightarrow> Some (True, s', v')))"

section \<open>Start and stop\<close>

definition kQueueLength :: u64 where "kQueueLength = 8192"
definition kQueueSizeBytes :: u64 where "kQueueSizeBytes = 8 * 1024 * 1024"

definition set_param :: "'w divert_ops \<Rightarrow> divert_param \<Rightarrow> u64 \<Rightarrow> string \<Rightarrow> 'w env \<Rightarrow> 'w env" where
  "set_param D prm x msg v =
     (case divert_set_param D prm x (world v) of
        (gle, w) \<Rightarrow>
          (let v = v\<lparr>world := w\<rparr> in
           if gle \<noteq> 0 then env_log_always kWarn (msg, [ANum (unat gle)]) v else v))"

text \<open>\<open>alloc\<close> and \<open>pad\<close> are the allocator and the padding of the delay queue's rings.\<close>

definition pi_Start ::
  "'w divert_ops \<Rightarrow> (nat \<Rightarrow> nat) \<Rightarrow> nat \<Rightarrow> 'g pipeline \<Rightarrow> 'w env \<Rightarrow>
   ((startup_error + unit) \<times> 'g pipeline \<times> 'w env) option" where
  "pi_Start D alloc pad s v =
     (if pi_running s then Some (Inl kAlreadyRunning, s, v)
      else
        (case divert_open D LayerNetwork (world v) of
           (gle, w) \<Rightarrow>
             (let v = v\<lparr>world := w\<rparr> in
              if gle \<noteq> 0 then
                Some (Inl (MapWinDivertOpenError gle), s\<lparr>pi_handle := False\<rparr>,
                  env_count kDriverErrors 1
                    (env_log_always kError (''PacketInterceptor: WinDivertOpen failed (GLE={})'', [ANum (unat gle)]) v))
              else
                (let v = set_param D ParamQueueLength kQueueLength
                           ''PacketInterceptor: WinDivertSetParam(QUEUE_LENGTH) failed (GLE={})'' v;
                     v = set_param D ParamQueueSize kQueueSizeBytes
                           ''PacketInterceptor: WinDivertSetParam(QUEUE_SIZE) failed (GLE={})'' v
                 in case DelayQueue_new alloc pad of
                      None \<Rightarrow> None
                    | Some q \<Rightarrow>
                        Some (Inr (),
                          s\<lparr>pi_handle := True, delay := Some (dq_Start q), pi_running := True, pi_thread := True\<rparr>,
                          env_log_always kInfo (''PacketInterceptor running'', []) v)))))"

text \<open>The constructor, with the seeds of the two random engines, and the setter of the callback.\<close>

definition PacketInterceptor_new :: "flow_tracker \<Rightarrow> pid_set \<Rightarrow> effect_config \<Rightarrow> 'g \<Rightarrow> 'g \<Rightarrow> 'g pipeline" where
  "PacketInterceptor_new t ps cfg seed1 seed2 =
     \<lparr>tracker = t, targets = ps, effects = cfg, engine = effect_engine_init seed1 seed2, delay = None,
      pi_running = False, pi_thread = False, pi_handle = False, pi_has_callback = False, pi_fatal_calls = []\<rparr>"

definition pi_SetFatalCallback :: "bool \<Rightarrow> 'g pipeline \<Rightarrow> 'g pipeline" where
  "pi_SetFatalCallback b s = s\<lparr>pi_has_callback := b\<rparr>"

definition pi_Stop :: "'w divert_ops \<Rightarrow> 'g pipeline \<Rightarrow> 'w env \<Rightarrow> ('g pipeline \<times> 'w env) option" where
  "pi_Stop D s v =
     (let was_running = pi_running s;
          s = s\<lparr>pi_running := False\<rparr>;
          v = (if pi_handle s then v\<lparr>world := divert_shutdown D LayerNetwork ShutdownRecv (world v)\<rparr> else v);
          s = s\<lparr>pi_thread := False\<rparr>
      in case (case delay s of None \<Rightarrow> Some v | Some q \<Rightarrow> map_option snd (dq_Stop D q v)) of
           None \<Rightarrow> None
         | Some v \<Rightarrow>
             (let s = s\<lparr>delay := None\<rparr>;
                  v = (if pi_handle s then
                         v\<lparr>world := divert_close D LayerNetwork (divert_shutdown D LayerNetwork ShutdownSend (world v))\<rparr>
                       else v);
                  s = s\<lparr>pi_handle := False\<rparr>
              in Some (s, if was_running then env_log_always kInfo (''PacketInterceptor stopped'', []) v else v)))"

section \<open>Traffic of processes that are not targeted\<close>

text \<open>No cached owner is targeted, and the system's table names no targeted process.\<close>

definition untargeted :: "('w, 'g) outside \<Rightarrow> 'g pipeline \<Rightarrow> bool" where
  "untargeted X s \<longleftrightarrow>
     (\<forall>x p. map_of (flow_table (tracker s)) x = Some p \<longrightarrow> \<not> Contains p (targets s)) \<and>
     (\<forall>k p. map_of (endpoint_to_pid (tracker s)) k = Some p \<longrightarrow> \<not> Contains p (targets s)) \<and>
     table_answers (udp_table X) \<and> table_rows (udp_table X) (\<lambda>r. \<not> Contains (dwOwningPid r) (targets s))"

lemma untargeted_cached: "untargeted X s \<Longrightarrow> cached_pid_of tup d (tracker s) = Some p \<Longrightarrow> \<not> Contains p (targets s)"
  by (auto simp: cached_pid_of_def untargeted_def Let_def split: option.splits)

lemma LookupPid_oversized:
  "LookupPid T tup d t v = Some (p, t', v') \<Longrightarrow> Get kPacketsOversized (logs v') = Get kPacketsOversized (logs v)"
  by (auto simp: LookupPid_def LookupPidFromSystem_def ForEachUdpEntry_def Let_def
      split: option.splits prod.splits if_splits)

text \<open>The packet goes on as it is, unless it is above the MTU: then it is dropped and counted.\<close>

lemma append_immediate_small:
  "\<exists>v'. append_immediate_packet data addr (ob, v) =
     ((if length data \<le> kStandardMtuSize
       then ob\<lparr>out_bytes := out_bytes ob @ data, out_addrs := out_addrs ob @ [addr]\<rparr> else ob), v') \<and>
     calls v' = calls v \<and>
     Get kPacketsOversized (logs v') =
       Get kPacketsOversized (logs v) + (if length data \<le> kStandardMtuSize then 0 else 1)"
  by (simp add: append_immediate_packet_def)

lemma handle_packet_untargeted:
  assumes "untargeted X s"
  shows "\<exists>s' v'. handle_packet X now data pr addr s ob v =
      Some (s', if length data \<le> kStandardMtuSize
                then ob\<lparr>out_bytes := out_bytes ob @ data, out_addrs := out_addrs ob @ [addr]\<rparr> else ob, v') \<and>
    untargeted X s' \<and> calls v' = calls v \<and> delay s' = delay s \<and> engine s' = engine s \<and>
    Get kPacketsOversized (logs v') =
      Get kPacketsOversized (logs v) + (if length data \<le> kStandardMtuSize then 0 else 1)"
proof (cases "\<exists>ip udp. parsed_ip pr = Some ip \<and> parsed_udp pr = Some udp")
  case True
  then obtain ip udp where hd: "parsed_ip pr = Some ip" "parsed_udp pr = Some udp" by blast
  let ?tup = "TupleFromPacket ip udp"
  from LookupPid_total [of "udp_table X" "\<lambda>p. \<not> Contains p (targets s)" ?tup "Outbound addr" "tracker s" v]
    assms(1)
  obtain p t' v' where l: "LookupPid (udp_table X) ?tup (Outbound addr) (tracker s) v = Some (p, t', v')"
    "calls v' = calls v"
    "cached_pid_of ?tup (Outbound addr) (tracker s) = Some p \<and> t' = tracker s \<or>
     cached_pid_of ?tup (Outbound addr) (tracker s) = None \<and>
       (p = 0 \<and> t' = tracker s \<or> \<not> Contains p (targets s) \<and> t' = InsertFlow ?tup p (tracker s))"
    by (auto simp: untargeted_def)
  have no: "\<not> (p \<noteq> 0 \<and> Contains p (targets s))"
    using l(3) untargeted_cached [OF assms(1)] by auto
  have t: "t' = tracker s \<or> \<not> Contains p (targets s) \<and> t' = InsertFlow ?tup p (tracker s)" using l(3) by blast
  have "untargeted X (s\<lparr>tracker := t'\<rparr>)"
  proof -
    have "endpoint_to_pid t' = endpoint_to_pid (tracker s)" using t by (auto simp: InsertFlow_def)
    moreover have "\<not> Contains q (targets s)" if "map_of (flow_table t') x = Some q" for x q
      using t that assms(1) by (auto simp: InsertFlow_map untargeted_def split: if_splits)
    ultimately show ?thesis using assms(1) by (simp add: untargeted_def)
  qed
  with append_immediate_small [of data addr ob v'] show ?thesis
    using hd l no LookupPid_oversized [OF l(1)] by (auto simp: handle_packet_def Let_def)
next
  case False
  with append_immediate_small [of data addr ob v] show ?thesis
    using assms by (auto simp: handle_packet_def Let_def split: option.splits)
qed

text \<open>The packets of a batch with their addresses, and the part the parser gave up on.\<close>

fun batch_packets ::
  "(u8 list \<Rightarrow> parsed option) \<Rightarrow> wd_address list \<Rightarrow> u8 list \<Rightarrow>
   (u8 list \<times> wd_address) list \<times> u8 list \<times> wd_address list" where
  "batch_packets P [] cur = ([], [], [])"
| "batch_packets P (a # as) cur =
     (case P cur of
        None \<Rightarrow> ([], cur, a # as)
      | Some pr \<Rightarrow>
          (let n = length cur - next_len pr in
           if next_len pr = 0 then ([(take n cur, a)], [], [])
           else (case batch_packets P as (drop n cur) of (ps, rest) \<Rightarrow> ((take n cur, a) # ps, rest))))"

text \<open>
  A batch the driver delivers: every address has its packet and the packets follow each other; the
  parser may give up on the rest.
\<close>

fun batch_wf :: "(u8 list \<Rightarrow> parsed option) \<Rightarrow> wd_address list \<Rightarrow> u8 list \<Rightarrow> bool" where
  "batch_wf P [] cur = (cur = [])"
| "batch_wf P (a # as) cur =
     (case P cur of
        None \<Rightarrow> True
      | Some pr \<Rightarrow> next_len pr < length cur \<and>
          (if next_len pr = 0 then as = [] else batch_wf P as (drop (length cur - next_len pr) cur)))"

lemma batch_wf_whole:
  assumes "batch_wf P addrs cur" and "batch_packets P addrs cur = (pks, rest_bytes, rest_addrs)"
  shows "concat (map fst pks) @ rest_bytes = cur" and "map snd pks @ rest_addrs = addrs"
proof -
  have "concat (map fst pks) @ rest_bytes = cur \<and> map snd pks @ rest_addrs = addrs"
    using assms
  proof (induction P addrs cur arbitrary: pks rule: batch_packets.induct)
    case (2 P a as cur)
    then show ?case
      by (cases "P cur") (auto simp: Let_def split: if_splits prod.splits)
  qed simp
  then show "concat (map fst pks) @ rest_bytes = cur" "map snd pks @ rest_addrs = addrs" by simp_all
qed

text \<open>The packets of a batch that are not above the MTU.\<close>

definition within_mtu :: "(u8 list \<times> wd_address) list \<Rightarrow> (u8 list \<times> wd_address) list" where
  "within_mtu pks = filter (\<lambda>p. length (fst p) \<le> kStandardMtuSize) pks"

lemma within_mtu_simps [simp]:
  "within_mtu [] = []"
  "within_mtu (p # pks) = (if length (fst p) \<le> kStandardMtuSize then p # within_mtu pks else within_mtu pks)"
  by (simp_all add: within_mtu_def)

lemma length_within_mtu: "length (within_mtu pks) \<le> length pks"
  by (simp add: within_mtu_def)

lemma capture_packets_untargeted:
  assumes "untargeted X s" and "batch_packets (parse_packet (driver X)) addrs cur = (pks, rest_bytes, rest_addrs)"
  shows "\<exists>s' v'. capture_packets X clock n addrs i cur s ob v =
      Some (s', \<lparr>out_bytes = out_bytes ob @ concat (map fst (within_mtu pks)) @ rest_bytes,
                 out_addrs = out_addrs ob @ map snd (within_mtu pks) @ rest_addrs\<rparr>, v') \<and>
    calls v' = calls v \<and> delay s' = delay s \<and> engine s' = engine s \<and>
    Get kPacketsOversized (logs v') =
      Get kPacketsOversized (logs v) + of_nat (length pks - length (within_mtu pks))"
  using assms
proof (induction addrs arbitrary: i cur s ob v pks)
  case Nil
  then show ?case by simp
next
  case (Cons a as)
  show ?case
  proof (cases "parse_packet (driver X) cur")
    case None
    with Cons.prems(2) show ?thesis by auto
  next
    case (Some pr)
    let ?n = "length cur - next_len pr"
    let ?small = "length (take ?n cur) \<le> kStandardMtuSize"
    let ?ob = "if ?small then ob\<lparr>out_bytes := out_bytes ob @ take ?n cur, out_addrs := out_addrs ob @ [a]\<rparr> else ob"
    from handle_packet_untargeted [OF Cons.prems(1), of "clock i" "take ?n cur" pr a ob v] obtain s1 v1 where
      h: "handle_packet X (clock i) (take ?n cur) pr a s ob v = Some (s1, ?ob, v1)"
        "untargeted X s1" "calls v1 = calls v" "delay s1 = delay s" "engine s1 = engine s"
        "Get kPacketsOversized (logs v1) = Get kPacketsOversized (logs v) + (if ?small then 0 else 1)" by blast
    show ?thesis
    proof (cases "next_len pr = 0")
      case True
      then have "pks = [(take ?n cur, a)]" "rest_bytes = []" "rest_addrs = []"
        using Cons.prems(2) Some by (simp_all add: Let_def)
      with True Some h show ?thesis by (cases ?small) (simp_all add: Let_def)
    next
      case False
      then obtain pks' where pk: "batch_packets (parse_packet (driver X)) as (drop ?n cur) = (pks', rest_bytes, rest_addrs)"
        "pks = (take ?n cur, a) # pks'"
        using Cons.prems(2) Some by (auto simp: Let_def split: prod.splits)
      from Cons.IH [OF h(2) pk(1), of "i + 1" ?ob v1] obtain s2 v2 where
        r: "capture_packets X clock n as (i + 1) (drop ?n cur) s1 ?ob v1 =
          Some (s2, \<lparr>out_bytes = out_bytes ?ob @ concat (map fst (within_mtu pks')) @ rest_bytes,
                     out_addrs = out_addrs ?ob @ map snd (within_mtu pks') @ rest_addrs\<rparr>, v2)"
          "calls v2 = calls v1" "delay s2 = delay s1" "engine s2 = engine s1"
          "Get kPacketsOversized (logs v2) =
            Get kPacketsOversized (logs v1) + of_nat (length pks' - length (within_mtu pks'))"
        by blast
      have c: "capture_packets X clock n (a # as) i cur s ob v =
          capture_packets X clock n as (i + 1) (drop ?n cur) s1 ?ob v1"
        using Some False h(1) by (simp add: Let_def)
      show ?thesis
        unfolding c r(1) pk(2) using h(3-6) r(2-5) length_within_mtu [of pks']
        by (cases ?small) (simp_all add: Suc_diff_le)
    qed
  qed
qed

lemma send_outgoing_calls:
  "sends_of (calls (send_outgoing D ob v)) =
     sends_of (calls v) @ (if out_addrs ob = [] then [] else [(out_bytes ob, out_addrs ob)])"
  by (auto simp: send_outgoing_def Let_def dest: env_send_calls split: prod.split)

lemma count_captured_calls [simp]: "calls (count_captured addrs v) = calls v"
  by (simp add: count_captured_def Let_def)

section \<open>Every batch is processed to the end\<close>

definition pl_inv :: "'g pipeline \<Rightarrow> bool" where
  "pl_inv s \<longleftrightarrow> ft_inv (tracker s) \<and> pid_set_inv (targets s) \<and>
     config_ok (outbound (effects s)) \<and> config_ok (inbound (effects s)) \<and>
     (case delay s of None \<Rightarrow> True | Some q \<Rightarrow> dq_inv q)"

definition outside_ok :: "('w, 'g) outside \<Rightarrow> bool" where
  "outside_ok X \<longleftrightarrow> rng_lawful (rand X) \<and> table_answers (udp_table X)"

lemma push_scheduled_spec:
  assumes "dq_inv q" and "\<forall>p \<in> set ps. packet_ok (packet p)"
  shows "\<exists>q' v'. push_scheduled ps q v = Some (q', v') \<and> dq_inv q' \<and> calls v' = calls v \<and>
    held q' = held q + mset (take (kDelayQueueCapacity - size (held q)) ps) \<and>
    Get kPoolExhausted (logs v') =
      Get kPoolExhausted (logs v) + of_nat (length ps - (kDelayQueueCapacity - size (held q)))"
  using assms
proof (induction ps arbitrary: q v)
  case (Cons p ps)
  from dq_Push_spec [OF Cons.prems(1), of p v] Cons.prems(2) obtain q1 v1 where
    p1: "dq_Push p q v = Some (q1, v1)" "dq_inv q1" "calls v1 = calls v"
      "if size (held q) < kDelayQueueCapacity then held q1 = add_mset p (held q) \<and> v1 = v
       else held q1 = held q \<and> Get kPoolExhausted (logs v1) = Get kPoolExhausted (logs v) + 1"
    by auto
  from Cons.IH [OF p1(2), of v1] Cons.prems(2) obtain q2 v2 where
    p2: "push_scheduled ps q1 v1 = Some (q2, v2)" "dq_inv q2" "calls v2 = calls v1"
      "held q2 = held q1 + mset (take (kDelayQueueCapacity - size (held q1)) ps)"
      "Get kPoolExhausted (logs v2) =
        Get kPoolExhausted (logs v1) + of_nat (length ps - (kDelayQueueCapacity - size (held q1)))"
    by auto
  show ?case
  proof (cases "size (held q) < kDelayQueueCapacity")
    case True
    then have "kDelayQueueCapacity - size (held q) = Suc (kDelayQueueCapacity - size (held q1))"
      using p1(4) by simp
    with True p1 p2 show ?thesis by simp
  next
    case False
    with p1 p2 show ?thesis by (simp add: algebra_simps)
  qed
qed simp

lemma append_immediate_fold:
  assumes "\<forall>ip \<in> set ips. length (Bytes ip) \<le> kStandardMtuSize"
  shows "fold (\<lambda>ip. append_immediate_packet (Bytes ip) (pkt_addr ip)) ips (ob, v) =
    (ob\<lparr>out_bytes := out_bytes ob @ concat (map Bytes ips), out_addrs := out_addrs ob @ map pkt_addr ips\<rparr>, v)"
  using assms by (induction ips arbitrary: ob) (simp_all add: append_immediate_packet_def)

lemma count_effects_sel [simp]:
  "calls (count_effects d em v) = calls v"
  "Get kPoolExhausted (logs (count_effects d em v)) = Get kPoolExhausted (logs v)"
  by (simp_all add: count_effects_def Let_def)

lemma Process_emission:
  assumes "rng_lawful R" and "config_ok (outbound cfg)" and "config_ok (inbound cfg)"
    and "Process R cfg p now e = (em, e')"
  shows "immediate_packets em = replicate (ImmediateCount em) p"
    and "\<forall>x \<in> set (scheduled_packets em). packet x = p" and "TotalEmittedCount em \<le> 65"
    and "\<forall>x \<in> set (scheduled_packets em). now < release_at x \<and>
      now + delay_ms (ConfigForDirection (is_outbound (metadata p)) cfg) * ns_per_ms \<le> release_at x"
proof -
  obtain c d d' where c: "config_ok c" "dir_Process R (Snapshot c) p now d = (em, d')"
    and cfg: "c = ConfigForDirection (is_outbound (metadata p)) cfg"
    using assms by (auto simp: Process_def ConfigForDirection_def split: if_splits prod.splits)
  have all: "TotalEmittedCount em \<le> 65" "set (immediate_packets em) \<union> packet ` set (scheduled_packets em) \<subseteq> {p}"
    using dir_Process_copies [OF assms(1) c] by blast+
  then have "\<forall>y \<in> set (immediate_packets em). y = p" by auto
  then have "replicate (length (immediate_packets em)) p = immediate_packets em" by (rule replicate_length_same)
  then show "immediate_packets em = replicate (ImmediateCount em) p" by (simp add: ImmediateCount_def)
  show "\<forall>x \<in> set (scheduled_packets em). packet x = p" "TotalEmittedCount em \<le> 65" using all by auto
  show "\<forall>x \<in> set (scheduled_packets em). now < release_at x \<and>
      now + delay_ms (ConfigForDirection (is_outbound (metadata p)) cfg) * ns_per_ms \<le> release_at x"
    using process_release_window [OF assms(1) c] cfg by blast
qed

text \<open>
  What the delay queue may hold of a packet captured at a moment: a copy with its address, due later
  than that moment and not before the delay of its direction is over.
\<close>

definition held_for :: "effect_config \<Rightarrow> u8 list \<times> wd_address \<times> int \<Rightarrow> scheduled_packet \<Rightarrow> bool" where
  "held_for cfg m x \<longleftrightarrow> (case m of (data, addr, t) \<Rightarrow>
     Bytes (packet x) = data \<and> pkt_addr (packet x) = addr \<and> t < release_at x \<and>
     t + delay_ms (ConfigForDirection (Outbound addr) cfg) * ns_per_ms \<le> release_at x)"

text \<open>What becomes of the copies of one packet: sent now, held, or lost for want of a slot and counted.\<close>

lemma apply_effects_spec:
  assumes "outside_ok X" and inv: "pl_inv s" and q: "delay s = Some q" and p: "packet_ok p"
    and dir: "is_outbound (metadata p) = Outbound (pkt_addr p)"
    and em: "Process (rand X) (effects s) p now (engine s) = (em, eng)"
  shows "\<exists>s' q' v'. apply_effects X now p s ob v =
      Some (s', ob\<lparr>out_bytes := out_bytes ob @ concat (replicate (ImmediateCount em) (Bytes p)),
                  out_addrs := out_addrs ob @ replicate (ImmediateCount em) (pkt_addr p)\<rparr>, v') \<and>
    pl_inv s' \<and> delay s' = Some q' \<and> targets s' = targets s \<and> effects s' = effects s \<and> calls v' = calls v \<and>
    held q' = held q + mset (take (kDelayQueueCapacity - size (held q)) (scheduled_packets em)) \<and>
    (\<forall>x \<in> set (scheduled_packets em). held_for (effects s) (Bytes p, pkt_addr p, now) x) \<and>
    TotalEmittedCount em \<le> 65 \<and>
    Get kPoolExhausted (logs v') = Get kPoolExhausted (logs v) +
      of_nat (ScheduledCount em - (kDelayQueueCapacity - size (held q)))"
proof -
  have dq: "dq_inv q" using inv q by (simp add: pl_inv_def)
  have ok: "rng_lawful (rand X)" "config_ok (outbound (effects s))" "config_ok (inbound (effects s))"
    using assms(1) inv by (simp_all add: outside_ok_def pl_inv_def)
  note pe = Process_emission [OF ok em]
  let ?v = "count_effects (is_outbound (metadata p)) em v"
  let ?ob = "ob\<lparr>out_bytes := out_bytes ob @ concat (replicate (ImmediateCount em) (Bytes p)),
                  out_addrs := out_addrs ob @ replicate (ImmediateCount em) (pkt_addr p)\<rparr>"
  have len: "length (Bytes p) \<le> kStandardMtuSize" using p by (simp add: length_Bytes packet_ok_def)
  have f: "fold (\<lambda>ip. append_immediate_packet (Bytes ip) (pkt_addr ip)) (immediate_packets em) (ob, ?v) = (?ob, ?v)"
    unfolding pe(1) using len by (subst append_immediate_fold) simp_all
  have "\<forall>x \<in> set (scheduled_packets em). packet_ok (packet x)" using pe(2) p by simp
  from push_scheduled_spec [OF dq this, of ?v] obtain q' v' where
    ps: "push_scheduled (scheduled_packets em) q ?v = Some (q', v')" "dq_inv q'" "calls v' = calls v"
      "held q' = held q + mset (take (kDelayQueueCapacity - size (held q)) (scheduled_packets em))"
      "Get kPoolExhausted (logs v') = Get kPoolExhausted (logs v) +
        of_nat (length (scheduled_packets em) - (kDelayQueueCapacity - size (held q)))"
    by auto
  have "apply_effects X now p s ob v = Some (s\<lparr>engine := eng, delay := Some q'\<rparr>, ?ob, v')"
    using em f ps(1) q by (simp add: apply_effects_def Let_def)
  moreover have "pl_inv (s\<lparr>engine := eng, delay := Some q'\<rparr>)"
    using inv ps(2) by (simp add: pl_inv_def)
  moreover have "\<forall>x \<in> set (scheduled_packets em). held_for (effects s) (Bytes p, pkt_addr p, now) x"
    using pe(2,4) dir by (simp add: held_for_def)
  ultimately show ?thesis using ps(3-5) pe(3) by (simp add: ScheduledCount_def)
qed

text \<open>The packets of a batch with the moments they are handled at.\<close>

fun stamped :: "(nat \<Rightarrow> int) \<Rightarrow> nat \<Rightarrow> (u8 list \<times> wd_address) list \<Rightarrow> (u8 list \<times> wd_address \<times> int) list" where
  "stamped clock i [] = []"
| "stamped clock i ((data, addr) # ps) = (data, addr, clock i) # stamped clock (i + 1) ps"

definition plain :: "u8 list \<times> wd_address \<times> int \<Rightarrow> u8 list \<times> wd_address" where
  "plain m = (case m of (data, addr, _) \<Rightarrow> (data, addr))"

lemma plain_stamped [simp]: "plain ` set (stamped clock i ps) = set ps"
  by (induction clock i ps rule: stamped.induct) (simp_all add: plain_def)

text \<open>
  What becomes of the packets of a batch, one after the other: some copies of a packet go out, some are
  held, at most 65 together; \<open>xs\<close> is what goes out of all of them, \<open>new\<close> what is held.
\<close>

inductive copied ::
  "effect_config \<Rightarrow> (u8 list \<times> wd_address \<times> int) list \<Rightarrow> (u8 list \<times> wd_address) list \<Rightarrow>
   scheduled_packet multiset \<Rightarrow> bool" for cfg where
  copied_Nil: "copied cfg [] [] {#}"
| copied_Cons:
    "k + size hs \<le> 65 \<Longrightarrow> \<forall>x \<in># hs. held_for cfg m x \<Longrightarrow> copied cfg ms xs new \<Longrightarrow>
     copied cfg (m # ms) (replicate k (plain m) @ xs) (hs + new)"

lemma copied_one:
  "k + size hs \<le> 65 \<Longrightarrow> \<forall>x \<in># hs. held_for cfg m x \<Longrightarrow> copied cfg [m] (replicate k (plain m)) hs"
  using copied_Cons [OF _ _ copied_Nil] by fastforce

lemma copied_append:
  "copied cfg ms xs new \<Longrightarrow> copied cfg ns ys new2 \<Longrightarrow> copied cfg (ms @ ns) (xs @ ys) (new + new2)"
proof (induction rule: copied.induct)
  case (copied_Cons k hs m ms xs new)
  from copied.copied_Cons [OF copied_Cons.hyps(1,2) copied_Cons.IH [OF copied_Cons.prems]] show ?case
    by (simp add: ac_simps)
qed simp

lemma copied_held: "copied cfg ms xs new \<Longrightarrow> x \<in># new \<Longrightarrow> \<exists>m \<in> set ms. held_for cfg m x"
  by (induction rule: copied.induct) auto

lemma copied_set: "copied cfg ms xs new \<Longrightarrow> set xs \<subseteq> plain ` set ms"
  by (induction rule: copied.induct) (auto simp: set_replicate_conv_if)

lemma copied_length: "copied cfg ms xs new \<Longrightarrow> length xs \<le> 65 * length ms"
  by (induction rule: copied.induct) auto

lemma length_stamped [simp]: "length (stamped clock i ps) = length ps"
  by (induction clock i ps rule: stamped.induct) simp_all

text \<open>One step of a batch: the packets \<open>ms\<close> are copied, and the pipeline stays in order.\<close>

definition step_ok ::
  "(u8 list \<times> wd_address \<times> int) list \<Rightarrow> 'g pipeline \<Rightarrow> outgoing \<Rightarrow> 'w env \<Rightarrow> 'g pipeline \<Rightarrow> outgoing \<Rightarrow> 'w env \<Rightarrow> bool" where
  "step_ok ms s ob v s' ob' v' \<longleftrightarrow>
     pl_inv s' \<and> targets s' = targets s \<and> effects s' = effects s \<and> calls v' = calls v \<and>
     (\<exists>q q' new xs. delay s = Some q \<and> delay s' = Some q' \<and> held q' = held q + new \<and>
        out_bytes ob' = out_bytes ob @ concat (map fst xs) \<and> out_addrs ob' = out_addrs ob @ map snd xs \<and>
        copied (effects s) ms xs new)"

lemma step_ok_trans:
  assumes "step_ok ms s ob v s1 ob1 v1" and "step_ok ns s1 ob1 v1 s2 ob2 v2"
  shows "step_ok (ms @ ns) s ob v s2 ob2 v2"
proof -
  from assms(1) obtain q q1 n1 xs where 1: "delay s = Some q" "delay s1 = Some q1" "held q1 = held q + n1"
    "out_bytes ob1 = out_bytes ob @ concat (map fst xs)" "out_addrs ob1 = out_addrs ob @ map snd xs"
    "copied (effects s) ms xs n1" "effects s1 = effects s"
    unfolding step_ok_def by blast
  from assms(2) obtain q1' q2 n2 ys where 2: "delay s1 = Some q1'" "delay s2 = Some q2" "held q2 = held q1' + n2"
    "out_bytes ob2 = out_bytes ob1 @ concat (map fst ys)" "out_addrs ob2 = out_addrs ob1 @ map snd ys"
    "copied (effects s1) ns ys n2"
    unfolding step_ok_def by blast
  have "held q2 = held q + (n1 + n2)" using 1 2 by (simp add: ac_simps)
  moreover have "copied (effects s) (ms @ ns) (xs @ ys) (n1 + n2)" using copied_append [OF 1(6)] 1(7) 2(6) by simp
  moreover have "out_bytes ob2 = out_bytes ob @ concat (map fst (xs @ ys))" "out_addrs ob2 = out_addrs ob @ map snd (xs @ ys)"
    using 1 2 by simp_all
  ultimately show ?thesis
    using assms 1(1) 2(2) unfolding step_ok_def by metis
qed

text \<open>A packet that goes on as it is.\<close>

lemma append_immediate_step:
  fixes s0 :: "'g pipeline" and v0 :: "'w env"
  assumes q: "delay s = Some q" and s0: "pl_inv s0" "targets s0 = targets s" "effects s0 = effects s" "delay s0 = delay s"
    and c: "calls v0 = calls v"
  shows "\<exists>ob' v'. append_immediate_packet data addr (ob, v0) = (ob', v') \<and> step_ok [(data, addr, now)] s ob v s0 ob' v'"
proof (cases "length data > kStandardMtuSize")
  case True
  have "step_ok [(data, addr, now)] s ob v s0 ob v'" if "calls v' = calls v" for v' :: "'w env"
    unfolding step_ok_def using s0 q that by (intro conjI exI [of _ q] exI [of _ q] exI [of _ "{#}"] exI [of _ "[]"]) (simp_all add: copied_one [where k = 0, simplified])
  with True c show ?thesis by (simp add: append_immediate_packet_def)
next
  case False
  have "step_ok [(data, addr, now)] s ob v s0 (ob\<lparr>out_bytes := out_bytes ob @ data, out_addrs := out_addrs ob @ [addr]\<rparr>) v0"
    unfolding step_ok_def using s0 q c
    by (intro conjI exI [of _ q] exI [of _ q] exI [of _ "{#}"] exI [of _ "[(data, addr)]"])
      (use copied_one [of 1 "{#}" "effects s" "(data, addr, now)"] in \<open>simp_all add: plain_def\<close>)
  with False show ?thesis by (simp add: append_immediate_packet_def)
qed

text \<open>A packet that runs through the effects.\<close>

lemma apply_effects_step:
  assumes X: "outside_ok X" and inv: "pl_inv s" and q: "delay s = Some q" and c: "CopyFrom data addr meta = Some op"
    and dir: "is_outbound meta = Outbound addr"
  shows "\<exists>s' ob' v'. apply_effects X now op s ob v = Some (s', ob', v') \<and> step_ok [(data, addr, now)] s ob v s' ob' v'"
proof -
  note c = CopyFrom_Some [OF c]
  obtain em eng where em: "Process (rand X) (effects s) op now (engine s) = (em, eng)" by force
  let ?ob = "ob\<lparr>out_bytes := out_bytes ob @ concat (replicate (ImmediateCount em) (Bytes op)),
      out_addrs := out_addrs ob @ replicate (ImmediateCount em) (pkt_addr op)\<rparr>"
  let ?new = "mset (take (kDelayQueueCapacity - size (held q)) (scheduled_packets em))"
  from apply_effects_spec [OF X inv q c(2) _ em, of ob v] c dir obtain s' q' v' where
    a: "apply_effects X now op s ob v = Some (s', ?ob, v')"
      "pl_inv s'" "delay s' = Some q'" "targets s' = targets s" "effects s' = effects s" "calls v' = calls v"
      "held q' = held q + ?new"
      "\<forall>x \<in> set (scheduled_packets em). held_for (effects s) (data, addr, now) x" "TotalEmittedCount em \<le> 65"
    by auto
  have "ImmediateCount em + size ?new \<le> 65" using a(9) by (simp add: TotalEmittedCount_def ScheduledCount_def)
  moreover have "\<forall>x \<in># ?new. held_for (effects s) (data, addr, now) x" using a(8) by (auto dest: in_set_takeD)
  ultimately have "copied (effects s) [(data, addr, now)] (replicate (ImmediateCount em) (data, addr)) ?new"
    using copied_one [of "ImmediateCount em" ?new "effects s" "(data, addr, now)"] by (simp add: plain_def)
  then have "step_ok [(data, addr, now)] s ob v s' ?ob v'"
    unfolding step_ok_def using a q c
    by (intro conjI exI [of _ q] exI [of _ q'] exI [of _ ?new] exI [of _ "replicate (ImmediateCount em) (data, addr)"])
      simp_all
  with a(1) show ?thesis by blast
qed

text \<open>The tracker, and a call that only counts, are no part of a step.\<close>

lemma step_ok_from:
  "step_ok ms (s\<lparr>tracker := t\<rparr>) ob v1 s' ob' v' \<Longrightarrow> calls v1 = calls v \<Longrightarrow> step_ok ms s ob v s' ob' v'"
  by (simp add: step_ok_def)

lemma handle_packet_step:
  assumes X: "outside_ok X" and inv: "pl_inv s" and q: "delay s = Some q"
  shows "\<exists>s' ob' v'. handle_packet X now data pr addr s ob v = Some (s', ob', v') \<and>
    step_ok [(data, addr, now)] s ob v s' ob' v'"
proof (cases "\<exists>ip udp. parsed_ip pr = Some ip \<and> parsed_udp pr = Some udp")
  case False
  with append_immediate_step [OF q inv refl refl refl refl] show ?thesis
    by (auto simp: handle_packet_def Let_def split: option.splits)
next
  case True
  then obtain ip udp where hd: "parsed_ip pr = Some ip" "parsed_udp pr = Some udp" by blast
  let ?tup = "TupleFromPacket ip udp"
  from LookupPid_total [of "udp_table X" "\<lambda>_. True" ?tup "Outbound addr" "tracker s" v] X table_rows_True
  obtain p t v1 where l: "LookupPid (udp_table X) ?tup (Outbound addr) (tracker s) v = Some (p, t, v1)" "calls v1 = calls v"
    by (auto simp: outside_ok_def)
  let ?s1 = "s\<lparr>tracker := t\<rparr>" and ?meta = "\<lparr>tuple = ?tup, pid = p, is_outbound = Outbound addr\<rparr>"
  have s1: "pl_inv ?s1" using inv LookupPid_inv [OF _ l(1)] by (simp add: pl_inv_def)
  from append_immediate_step [OF q s1 _ _ _ l(2), where data = data and addr = addr and ob = ob and now = now] obtain ob' v' where
    i: "append_immediate_packet data addr (ob, v1) = (ob', v')" "step_ok [(data, addr, now)] s ob v ?s1 ob' v'" by auto
  show ?thesis
  proof (cases "p \<noteq> 0 \<and> Contains p (targets s)")
    case False
    with hd l i show ?thesis by (auto simp: handle_packet_def Let_def)
  next
    case tgt: True
    show ?thesis
    proof (cases "CopyFrom data addr ?meta")
      case None
      with hd l tgt i show ?thesis by (auto simp: handle_packet_def Let_def)
    next
      case (Some op)
      from apply_effects_step [OF X s1 _ Some, of q now ob v1] q obtain s' ob' v' where
        a: "apply_effects X now op ?s1 ob v1 = Some (s', ob', v')" "step_ok [(data, addr, now)] ?s1 ob v1 s' ob' v'" by auto
      from step_ok_from [OF a(2) l(2)] hd l tgt Some a(1) show ?thesis by (auto simp: handle_packet_def Let_def)
    qed
  qed
qed

lemma step_ok_refl: "pl_inv s \<Longrightarrow> delay s = Some q \<Longrightarrow> step_ok [] s ob v s ob v"
  unfolding step_ok_def
  by (intro conjI exI [of _ q] exI [of _ q] exI [of _ "{#}"] exI [of _ "[]"]) (simp_all add: copied_Nil)

text \<open>The rest the parser gave up on is appended as it is.\<close>

lemma capture_packets_step:
  assumes X: "outside_ok X" and "pl_inv s" and "delay s = Some q"
    and "batch_packets (parse_packet (driver X)) addrs cur = (pks, rest_bytes, rest_addrs)"
  shows "\<exists>s' ob1 v1 v'. capture_packets X clock num addrs i cur s ob v =
      Some (s', \<lparr>out_bytes = out_bytes ob1 @ rest_bytes, out_addrs = out_addrs ob1 @ rest_addrs\<rparr>, v') \<and>
    step_ok (stamped clock i pks) s ob v s' ob1 v1 \<and> calls v' = calls v1"
  using assms(2-4)
proof (induction addrs arbitrary: i cur s q ob v pks)
  case Nil
  then have "pks = []" "rest_bytes = []" "rest_addrs = []" by simp_all
  with step_ok_refl [OF Nil.prems(1,2), of ob v] show ?case
    by (intro exI [of _ s] exI [of _ ob] exI [of _ v]) simp
next
  case (Cons a as)
  show ?case
  proof (cases "parse_packet (driver X) cur")
    case None
    then have e: "pks = []" "rest_bytes = cur" "rest_addrs = a # as" using Cons.prems(3) by simp_all
    with None step_ok_refl [OF Cons.prems(1,2), of ob v] show ?thesis
      by (rule_tac exI [of _ s], rule_tac exI [of _ ob], rule_tac exI [of _ v]) simp
  next
    case (Some pr)
    let ?n = "length cur - next_len pr"
    from handle_packet_step [OF X Cons.prems(1,2), of "clock i" "take ?n cur" pr a ob v] obtain s1 ob1 v1 where
      h: "handle_packet X (clock i) (take ?n cur) pr a s ob v = Some (s1, ob1, v1)"
        "step_ok [(take ?n cur, a, clock i)] s ob v s1 ob1 v1" by blast
    show ?thesis
    proof (cases "next_len pr = 0")
      case True
      then have "pks = [(take ?n cur, a)]" "rest_bytes = []" "rest_addrs = []"
        using Cons.prems(3) Some by (simp_all add: Let_def)
      with True Some h show ?thesis
        by (intro exI [of _ s1] exI [of _ ob1] exI [of _ v1]) (simp add: Let_def)
    next
      case False
      then obtain pks' where pk: "batch_packets (parse_packet (driver X)) as (drop ?n cur) = (pks', rest_bytes, rest_addrs)"
        "pks = (take ?n cur, a) # pks'"
        using Cons.prems(3) Some by (auto simp: Let_def split: prod.splits)
      obtain q1 where i1: "pl_inv s1" "delay s1 = Some q1" using h(2) unfolding step_ok_def by blast
      from Cons.IH [OF i1 pk(1), of "i + 1" ob1 v1] obtain s2 ob2 v2 v' where
        r: "capture_packets X clock num as (i + 1) (drop ?n cur) s1 ob1 v1 =
          Some (s2, \<lparr>out_bytes = out_bytes ob2 @ rest_bytes, out_addrs = out_addrs ob2 @ rest_addrs\<rparr>, v')"
          "step_ok (stamped clock (i + 1) pks') s1 ob1 v1 s2 ob2 v2" "calls v' = calls v2" by blast
      have "step_ok (stamped clock i pks) s ob v s2 ob2 v2"
        using step_ok_trans [OF h(2) r(2)] pk(2) by simp
      moreover have "capture_packets X clock num (a # as) i cur s ob v =
          Some (s2, \<lparr>out_bytes = out_bytes ob2 @ rest_bytes, out_addrs = out_addrs ob2 @ rest_addrs\<rparr>, v')"
        using Some False h(1) r(1) by (simp add: Let_def)
      ultimately show ?thesis using r(3) by blast
    qed
  qed
qed

lemma process_batch_copied:
  assumes "outside_ok X" and "pl_inv s" and "delay s = Some q"
    and "batch_packets (parse_packet (driver X)) addrs bytes = (pks, rest_bytes, rest_addrs)"
  shows "\<exists>s' q' v' xs new. process_batch X clock bytes addrs s v = Some (s', v') \<and> pl_inv s' \<and>
    delay s' = Some q' \<and> held q' = held q + new \<and> targets s' = targets s \<and> effects s' = effects s \<and>
    copied (effects s) (stamped clock 0 pks) xs new \<and>
    sends_of (calls v') = sends_of (calls v) @
      (if xs = [] \<and> rest_addrs = [] then []
       else [(concat (map fst xs) @ rest_bytes, map snd xs @ rest_addrs)])"
proof -
  let ?ob = "\<lparr>out_bytes = [], out_addrs = []\<rparr>" and ?v = "count_captured addrs v"
  from capture_packets_step [OF assms, of clock "length addrs" 0 ?ob ?v]
  obtain s' ob1 v1 v' where c: "capture_packets X clock (length addrs) addrs 0 bytes s ?ob ?v =
      Some (s', \<lparr>out_bytes = out_bytes ob1 @ rest_bytes, out_addrs = out_addrs ob1 @ rest_addrs\<rparr>, v')"
    "step_ok (stamped clock 0 pks) s ?ob ?v s' ob1 v1" "calls v' = calls v1" by blast
  from c(2) assms(3) obtain q' new xs where o: "pl_inv s'" "targets s' = targets s" "effects s' = effects s"
    "calls v1 = calls v" "delay s' = Some q'" "held q' = held q + new"
    "copied (effects s) (stamped clock 0 pks) xs new"
    "out_bytes ob1 = concat (map fst xs)" "out_addrs ob1 = map snd xs"
    unfolding step_ok_def by auto
  let ?o = "\<lparr>out_bytes = out_bytes ob1 @ rest_bytes, out_addrs = out_addrs ob1 @ rest_addrs\<rparr>"
  have "process_batch X clock bytes addrs s v = Some (s', send_outgoing (driver X) ?o v')"
    using c(1) by (simp add: process_batch_def Let_def)
  moreover have "sends_of (calls (send_outgoing (driver X) ?o v')) = sends_of (calls v) @
      (if xs = [] \<and> rest_addrs = [] then []
       else [(concat (map fst xs) @ rest_bytes, map snd xs @ rest_addrs)])"
    using o c(3) by (simp add: send_outgoing_calls)
  ultimately show ?thesis using o by blast
qed

text \<open>The same, without saying which copies are whose.\<close>

lemma process_batch_spec:
  assumes "outside_ok X" and "pl_inv s" and "delay s = Some q"
    and "batch_packets (parse_packet (driver X)) addrs bytes = (pks, rest_bytes, rest_addrs)"
  shows "\<exists>s' q' v' xs new. process_batch X clock bytes addrs s v = Some (s', v') \<and> pl_inv s' \<and>
    delay s' = Some q' \<and> held q' = held q + new \<and> targets s' = targets s \<and> effects s' = effects s \<and>
    (\<forall>x \<in># new. \<exists>m \<in> set (stamped clock 0 pks). held_for (effects s) m x) \<and>
    set xs \<subseteq> set pks \<and> length xs \<le> 65 * length pks \<and>
    sends_of (calls v') = sends_of (calls v) @
      (if xs = [] \<and> rest_addrs = [] then []
       else [(concat (map fst xs) @ rest_bytes, map snd xs @ rest_addrs)])"
proof -
  from process_batch_copied [OF assms, of clock v] obtain s' q' v' xs new where
    o: "process_batch X clock bytes addrs s v = Some (s', v')" "pl_inv s'" "delay s' = Some q'"
      "held q' = held q + new" "targets s' = targets s" "effects s' = effects s"
      "copied (effects s) (stamped clock 0 pks) xs new"
      "sends_of (calls v') = sends_of (calls v) @
        (if xs = [] \<and> rest_addrs = [] then []
         else [(concat (map fst xs) @ rest_bytes, map snd xs @ rest_addrs)])" by blast
  show ?thesis
    using o copied_held [OF o(7)] copied_set [OF o(7)] copied_length [OF o(7)]
    by (intro exI [of _ s'] exI [of _ q'] exI [of _ v'] exI [of _ xs] exI [of _ new]) simp
qed

lemma pi_Stop_flushes:
  assumes "pl_inv s" and "delay s = Some q"
  shows "\<exists>s' v' ps. pi_Stop D s v = Some (s', v') \<and> mset ps = held q \<and>
    sends_of (calls v') = sends_of (calls v) @ map single_send ps \<and>
    delay s' = None \<and> \<not> pi_handle s' \<and> \<not> pi_running s' \<and> \<not> pi_thread s'"
proof -
  let ?v = "if pi_handle s then v\<lparr>world := divert_shutdown D LayerNetwork ShutdownRecv (world v)\<rparr> else v"
  let ?q = "q\<lparr>running := False, thread_alive := False\<rparr>"
  have "dq_inv ?q" "held ?q = held q"
    using assms by (simp_all add: pl_inv_def dq_inv_def held_slots_def held_def)
  from FlushPackets_spec [OF this(1), of D ?v] this(2) obtain q' v1 ps where
    f: "FlushPackets D ?q ?v = Some (q', v1)" "mset ps = held q"
      "sends_of (calls v1) = sends_of (calls ?v) @ map single_send ps" by auto
  have c: "calls ?v = calls v" by simp
  show ?thesis
    using f c assms(2) by (simp add: pi_Stop_def dq_Stop_def Let_def) blast
qed

section \<open>Properties\<close>

lemma send_outgoing_oversized [simp]:
  "Get kPacketsOversized (logs (send_outgoing D ob v)) = Get kPacketsOversized (logs v)"
  by (auto simp: send_outgoing_def env_send_def Let_def split: prod.splits)

lemma count_captured_oversized [simp]:
  "Get kPacketsOversized (logs (count_captured addrs v)) = Get kPacketsOversized (logs v)"
  by (simp add: count_captured_def Let_def)

text \<open>
  C6: traffic of processes that are not targeted passes through, but for packets above the MTU. If
  neither the caches nor the system's UDP table name a targeted process, then what leaves are exactly
  the received packets of at most 1500 bytes, each once and unchanged, in their order, followed by the
  untouched rest if the parser gave up, in one call (none if nothing is left); the others are dropped
  and counted as oversized, and neither the delay queue nor the effect engine is touched. In
  particular a batch without a packet above the MTU, in which every address has its packet, is sent back in one
  call with exactly the bytes and addresses that were received.
\<close>

theorem untargeted_batch_unchanged:
  assumes "untargeted X s" and "addrs \<noteq> []"
    and "batch_packets (parse_packet (driver X)) addrs bytes = (pks, rest_bytes, rest_addrs)"
  shows "\<exists>s' v'. process_batch X clock bytes addrs s v = Some (s', v') \<and> delay s' = delay s \<and> engine s' = engine s \<and>
    sends_of (calls v') = sends_of (calls v) @
      (if within_mtu pks = [] \<and> rest_addrs = [] then []
       else [(concat (map fst (within_mtu pks)) @ rest_bytes, map snd (within_mtu pks) @ rest_addrs)]) \<and>
    Get kPacketsOversized (logs v') =
      Get kPacketsOversized (logs v) + of_nat (length pks - length (within_mtu pks)) \<and>
    (batch_wf (parse_packet (driver X)) addrs bytes \<and> (\<forall>p \<in> set pks. length (fst p) \<le> kStandardMtuSize) \<longrightarrow>
      sends_of (calls v') = sends_of (calls v) @ [(bytes, addrs)])"
proof -
  let ?ob = "\<lparr>out_bytes = concat (map fst (within_mtu pks)) @ rest_bytes,
              out_addrs = map snd (within_mtu pks) @ rest_addrs\<rparr>"
  from capture_packets_untargeted [OF assms(1,3), of clock "length addrs" 0 "\<lparr>out_bytes = [], out_addrs = []\<rparr>"
      "count_captured addrs v"]
  obtain s' v' where c: "capture_packets X clock (length addrs) addrs 0 bytes s \<lparr>out_bytes = [], out_addrs = []\<rparr>
      (count_captured addrs v) = Some (s', ?ob, v')"
    "calls v' = calls v" "delay s' = delay s" "engine s' = engine s"
    "Get kPacketsOversized (logs v') =
      Get kPacketsOversized (logs v) + of_nat (length pks - length (within_mtu pks))" by auto
  have p: "process_batch X clock bytes addrs s v = Some (s', send_outgoing (driver X) ?ob v')"
    using c(1) by (simp add: process_batch_def)
  have "within_mtu pks = pks" if "\<forall>p \<in> set pks. length (fst p) \<le> kStandardMtuSize"
    using that by (simp add: within_mtu_def filter_id_conv)
  moreover have "concat (map fst pks) @ rest_bytes = bytes \<and> map snd pks @ rest_addrs = addrs"
    if "batch_wf (parse_packet (driver X)) addrs bytes" using batch_wf_whole [OF that assms(3)] by simp
  ultimately show ?thesis using p c(2-5) assms(2) by (auto simp: send_outgoing_calls)
qed

text \<open>A parser for the instances: the first byte is the length of the packet; it finds both headers.\<close>

definition sample_parse :: "u8 list \<Rightarrow> parsed option" where
  "sample_parse bs =
     (case bs of
        [] \<Rightarrow> None
      | b # _ \<Rightarrow>
          if unat b = 0 \<or> length bs < unat b then None
          else Some \<lparr>parsed_ip = Some \<lparr>SrcAddr = 16777216, DstAddr = 33554432, IpProtocol = 17\<rparr>,
                     parsed_udp = Some \<lparr>SrcPort = 768, DstPort = 1024\<rparr>, next_len = length bs - unat b\<rparr>)"

definition sample_outside :: "udp_row list \<Rightarrow> (script, unit) outside" where
  "sample_outside rows =
     \<lparr>driver = scripted_driver sample_parse 0, udp_table = fixed_table rows, rand = least_rng\<rparr>"

definition sample_pipeline :: "u32 \<Rightarrow> effect_config \<Rightarrow> delay_queue option \<Rightarrow> unit pipeline" where
  "sample_pipeline target cfg q =
     \<lparr>tracker = flow_tracker_init, targets = SetSelectedPid target pid_set_init, effects = cfg,
      engine = effect_engine_init () (), delay = q, pi_running = True, pi_thread = True, pi_handle = True,
      pi_has_callback = False, pi_fatal_calls = []\<rparr>"

lemma sample_outside_ok: "outside_ok (sample_outside rows)"
  by (simp add: outside_ok_def sample_outside_def fixed_table_answers)

lemma untargeted_batch_unchanged_witness:
  "\<exists>s' v'. process_batch (sample_outside [\<lparr>dwLocalAddr = 16777216, dwLocalPort = 768, dwOwningPid = 9\<rparr>]) (\<lambda>_. 0)
      [2, 7, 3, 8, 9] [sample_addr, sample_addr] (sample_pipeline 7 effect_config_init None) (env_init []) = Some (s', v') \<and>
    sends_of (calls v') = [([2, 7, 3, 8, 9], [sample_addr, sample_addr])]"
proof -
  let ?X = "sample_outside [\<lparr>dwLocalAddr = 16777216, dwLocalPort = 768, dwOwningPid = 9\<rparr>]"
  let ?s = "sample_pipeline 7 effect_config_init None"
  have "\<not> Contains 9 (targets ?s)" by code_simp
  then have u: "untargeted ?X ?s"
    by (simp add: untargeted_def sample_outside_def fixed_table_answers fixed_table_rows)
      (simp add: sample_pipeline_def flow_tracker_init_def)
  have b: "batch_packets (parse_packet (driver ?X)) [sample_addr, sample_addr] [2, 7, 3, 8, 9] =
      ([([2, 7], sample_addr), ([3, 8, 9], sample_addr)], [], [])"
    by (simp add: sample_outside_def scripted_driver_def sample_parse_def)
  have m: "within_mtu [([2, 7], sample_addr), ([3, 8, 9], sample_addr)] =
      [([2, 7], sample_addr), ([3, 8, 9], sample_addr)]" by (simp add: kStandardMtuSize_def)
  have "[sample_addr, sample_addr] \<noteq> []" by simp
  from untargeted_batch_unchanged [OF u this b, of "\<lambda>_. 0" "env_init []"] show ?thesis
    unfolding m by (auto simp: env_init_def sends_of_def)
qed

text \<open>
  C5: processing a batch always comes to an end, keeps the pipeline's invariant, and invents nothing.
  What goes out in the batch's one send call are copies of the received packets, packet by packet in
  their order, each with its own address, followed by the untouched rest if the parser gave up. What the
  delay queue gained are copies of received packets too, each due after the moment its packet was
  handled and not before the delay of its direction is over. Of every single packet at most 65 copies
  are made, those sent and those held together (\<open>copied\<close>).
\<close>

theorem batch_sends_only_copies:
  assumes "outside_ok X" and "pl_inv s" and "delay s = Some q"
    and "batch_packets (parse_packet (driver X)) addrs bytes = (pks, rest_bytes, rest_addrs)"
  shows "\<exists>s' q' v' xs new. process_batch X clock bytes addrs s v = Some (s', v') \<and> pl_inv s' \<and>
    delay s' = Some q' \<and> held q' = held q + new \<and> targets s' = targets s \<and> effects s' = effects s \<and>
    copied (effects s) (stamped clock 0 pks) xs new \<and>
    sends_of (calls v') = sends_of (calls v) @
      (if xs = [] \<and> rest_addrs = [] then []
       else [(concat (map fst xs) @ rest_bytes, map snd xs @ rest_addrs)])"
  using assms by (rule process_batch_copied)

lemma batch_sends_only_copies_witness:
  "\<exists>q s' v'. DelayQueue_new (\<lambda>n. n) 8 = Some q \<and>
     process_batch (sample_outside [\<lparr>dwLocalAddr = 16777216, dwLocalPort = 768, dwOwningPid = 9\<rparr>]) (\<lambda>_. 0)
       [2, 7, 3, 8, 9] [sample_addr, sample_addr] (sample_pipeline 9 effect_config_init (Some q)) (env_init []) =
       Some (s', v') \<and> pl_inv s'"
proof -
  let ?X = "sample_outside [\<lparr>dwLocalAddr = 16777216, dwLocalPort = 768, dwOwningPid = 9\<rparr>]"
  have "alloc_ok (\<lambda>n. n) 8" by (simp add: alloc_ok_def SIZE_MAX_def kDelayQueueCapacity_def)
  from DelayQueue_new_ok [OF this] obtain q where q: "DelayQueue_new (\<lambda>n. n) 8 = Some q" "dq_inv q" by blast
  let ?s = "sample_pipeline 9 effect_config_init (Some q)"
  have "pid_set_inv (SetSelectedPid 9 pid_set_init)"
    using apply_pid_op_inv [OF pid_set_inv_init, of "OpSelect 9"] by simp
  then have inv: "pl_inv ?s"
    using q(2) ft_inv_init config_ok_init by (simp add: pl_inv_def sample_pipeline_def effect_config_init_def)
  have d: "delay ?s = Some q" by (simp add: sample_pipeline_def)
  obtain pks rb ra where b: "batch_packets (parse_packet (driver ?X)) [sample_addr, sample_addr] [2, 7, 3, 8, 9] = (pks, rb, ra)"
    by (metis prod_cases3)
  from batch_sends_only_copies [OF sample_outside_ok inv d b, of "\<lambda>_. 0" "env_init []"] q(1) show ?thesis by blast
qed

text \<open>
  Stopping the interceptor loses no packet it holds. Whatever the pipeline's state, \<open>Stop\<close> comes to
  an end; every packet in the delay queue is handed to the driver exactly once, in a call of its own,
  and afterwards the pipeline is down: no queue, no handle, not running.
\<close>

theorem stop_flushes_held_packets:
  assumes "pl_inv s" and "delay s = Some q"
  shows "\<exists>s' v' ps. pi_Stop D s v = Some (s', v') \<and> mset ps = held q \<and>
    sends_of (calls v') = sends_of (calls v) @ map single_send ps \<and>
    delay s' = None \<and> \<not> pi_handle s' \<and> \<not> pi_running s' \<and> \<not> pi_thread s'"
  using assms by (rule pi_Stop_flushes)

lemma stop_flushes_held_packets_witness:
  "\<exists>q s' v'. DelayQueue_new (\<lambda>n. n) 8 = Some q \<and>
     pi_Stop (scripted_driver sample_parse 0) (sample_pipeline 9 effect_config_init (Some q)) (env_init []) = Some (s', v') \<and>
     delay s' = None"
proof -
  have "alloc_ok (\<lambda>n. n) 8" by (simp add: alloc_ok_def SIZE_MAX_def kDelayQueueCapacity_def)
  from DelayQueue_new_ok [OF this] obtain q where q: "DelayQueue_new (\<lambda>n. n) 8 = Some q" "dq_inv q" by blast
  let ?s = "sample_pipeline 9 effect_config_init (Some q)"
  have "pid_set_inv (SetSelectedPid 9 pid_set_init)"
    using apply_pid_op_inv [OF pid_set_inv_init, of "OpSelect 9"] by simp
  then have inv: "pl_inv ?s"
    using q(2) ft_inv_init config_ok_init by (simp add: pl_inv_def sample_pipeline_def effect_config_init_def)
  have d: "delay ?s = Some q" by (simp add: sample_pipeline_def)
  from stop_flushes_held_packets [OF inv d, of "scripted_driver sample_parse 0" "env_init []"] q(1) show ?thesis by blast
qed

text \<open>
  An oversized packet is lost even when its process is not targeted. A batch of one packet above
  the MTU, of a process that is not targeted, leads to no send call at all; it only shows in the
  counter of oversized packets.
\<close>

theorem oversized_untargeted_packet_lost:
  assumes "untargeted X s" and "parse_packet (driver X) bytes = Some pr" and "next_len pr = 0"
    and "kStandardMtuSize < length bytes"
  shows "\<exists>s' v'. process_batch X clock bytes [addr] s v = Some (s', v') \<and> calls v' = calls v \<and>
    Get kPacketsOversized (logs v') = Get kPacketsOversized (logs v) + 1"
proof -
  let ?v = "count_captured [addr] v" and ?ob = "\<lparr>out_bytes = [], out_addrs = []\<rparr>"
  have cnt: "Get kPacketsOversized (logs ?v) = Get kPacketsOversized (logs v)"
    by (simp add: count_captured_def Let_def)
  have "\<exists>s' v'. handle_packet X (clock 0) bytes pr addr s ?ob ?v = Some (s', ?ob, v') \<and> calls v' = calls v \<and>
      Get kPacketsOversized (logs v') = Get kPacketsOversized (logs v) + 1"
  proof (cases "\<exists>ip udp. parsed_ip pr = Some ip \<and> parsed_udp pr = Some udp")
    case False
    with assms(4) cnt show ?thesis
      by (auto simp: handle_packet_def append_immediate_packet_def Let_def split: option.splits)
  next
    case True
    then obtain ip udp where hd: "parsed_ip pr = Some ip" "parsed_udp pr = Some udp" by blast
    let ?tup = "TupleFromPacket ip udp"
    from LookupPid_total [of "udp_table X" "\<lambda>p. \<not> Contains p (targets s)" ?tup "Outbound addr" "tracker s" ?v] assms(1)
    obtain p t' v' where l: "LookupPid (udp_table X) ?tup (Outbound addr) (tracker s) ?v = Some (p, t', v')"
      "calls v' = calls v"
      "cached_pid_of ?tup (Outbound addr) (tracker s) = Some p \<or> p = 0 \<or> \<not> Contains p (targets s)"
      by (auto simp: untargeted_def)
    then have no: "\<not> (p \<noteq> 0 \<and> Contains p (targets s))" using untargeted_cached [OF assms(1)] by auto
    have "Get kPacketsOversized (logs v') = Get kPacketsOversized (logs v)"
      using LookupPid_oversized [OF l(1)] cnt by simp
    with hd l no assms(4) show ?thesis by (auto simp: handle_packet_def append_immediate_packet_def Let_def)
  qed
  then show ?thesis using assms(2,3)
    by (auto simp: process_batch_def Let_def send_outgoing_def)
qed

lemma oversized_untargeted_packet_lost_witness:
  "\<exists>s' v'. process_batch
      \<lparr>driver = scripted_driver (\<lambda>_. Some \<lparr>parsed_ip = None, parsed_udp = None, next_len = 0\<rparr>) 0,
       udp_table = fixed_table [], rand = least_rng\<rparr> (\<lambda>_. 0)
      (replicate 1501 0) [sample_addr] (sample_pipeline 7 effect_config_init None) (env_init []) = Some (s', v') \<and>
    calls v' = []"
proof -
  let ?X = "\<lparr>driver = scripted_driver (\<lambda>_. Some \<lparr>parsed_ip = None, parsed_udp = None, next_len = 0\<rparr>) 0,
       udp_table = fixed_table [], rand = least_rng\<rparr>"
  let ?s = "sample_pipeline 7 effect_config_init None"
  have "untargeted ?X ?s"
    by (simp add: untargeted_def fixed_table_answers fixed_table_rows)
      (simp add: sample_pipeline_def flow_tracker_init_def)
  moreover have "parse_packet (driver ?X) (replicate 1501 0) = Some \<lparr>parsed_ip = None, parsed_udp = None, next_len = 0\<rparr>"
    by (simp add: scripted_driver_def)
  ultimately show ?thesis
    using oversized_untargeted_packet_lost [of ?X ?s "replicate 1501 0" _ "\<lambda>_. 0" sample_addr "env_init []"]
    by (simp add: kStandardMtuSize_def env_init_def) blast
qed

end
