(* ===== verification/Process_Ident.thy ===== *)
theory Process_Ident
  imports Packet_Types "HOL-Library.Sublist"
begin

text \<open>
  Finding and identifying processes (include/platform/ProcessEnumerator.h,
  src/platform/ProcessEnumerator.cpp). Process ids are reused, so a process is identified by its id, its
  creation time and its executable. What the system answers is a parameter.
\<close>

section \<open>Strings\<close>

text \<open>
  Wide strings are lists of 16-bit units. \<open>_wcsnicmp\<close> compares up to so many units after folding
  their case (\<open>lower\<close>, the locale's) and stops at the first NUL; both strings have one after their
  last unit.
\<close>

type_synonym wstring = "u16 list"

definition first_unit :: "wstring \<Rightarrow> u16" where
  "first_unit s = (case s of [] \<Rightarrow> 0 | c # _ \<Rightarrow> c)"

fun wcsnicmp_eq :: "(u16 \<Rightarrow> u16) \<Rightarrow> nat \<Rightarrow> wstring \<Rightarrow> wstring \<Rightarrow> bool" where
  "wcsnicmp_eq lower 0 a b = True"
| "wcsnicmp_eq lower (Suc n) a b =
     (if lower (first_unit a) \<noteq> lower (first_unit b) then False
      else if first_unit a = 0 then True
      else wcsnicmp_eq lower n (tl a) (tl b))"

definition StartsWithInsensitive :: "(u16 \<Rightarrow> u16) \<Rightarrow> wstring \<Rightarrow> wstring \<Rightarrow> bool" where
  "StartsWithInsensitive lower str pre =
     (if length str < length pre then False else wcsnicmp_eq lower (length pre) str pre)"

definition EqualsInsensitive :: "(u16 \<Rightarrow> u16) \<Rightarrow> wstring \<Rightarrow> wstring \<Rightarrow> bool" where
  "EqualsInsensitive lower lhs rhs =
     (if length lhs \<noteq> length rhs then False else wcsnicmp_eq lower (length lhs) lhs rhs)"

definition wide :: "string \<Rightarrow> wstring" where
  "wide s = map of_char s"

section \<open>The system\<close>

record process_entry =
  th32ProcessID :: u32
  th32ParentProcessID :: u32
  szExeFile :: wstring

text \<open>
  The answers of the system at a moment \<open>'w\<close>. A query that fails is \<open>None\<close> (for
  \<open>OpenProcess\<close>: False); creation times are the two halves of a FILETIME, the high one first; the
  conversion to UTF-8 answers its length and what it writes.
\<close>

record 'w system_ops =
  OpenProcess :: "u32 \<Rightarrow> 'w \<Rightarrow> bool"
  QueryFullProcessImageName :: "u32 \<Rightarrow> 'w \<Rightarrow> wstring option"
  GetProcessTimes :: "u32 \<Rightarrow> 'w \<Rightarrow> (u32 \<times> u32) option"
  ProcessIdToSessionId :: "u32 \<Rightarrow> 'w \<Rightarrow> u32 option"
  Toolhelp32Snapshot :: "'w \<Rightarrow> process_entry list option"
  GetCurrentProcessId :: u32
  WindowsDirectory :: wstring
  fold_case :: "u16 \<Rightarrow> u16"
  utf8_length :: "wstring \<Rightarrow> int"
  utf8_write :: "wstring \<Rightarrow> int \<Rightarrow> int \<times> u8 list"

section \<open>Identities\<close>

record process_identity =
  id_pid :: u32
  creation_time :: u64
  exe_path :: wstring

definition no_identity :: process_identity where
  "no_identity = \<lparr>id_pid = 0, creation_time = 0, exe_path = []\<rparr>"

definition identity_IsValid :: "process_identity \<Rightarrow> bool" where
  "identity_IsValid i \<longleftrightarrow> id_pid i \<noteq> 0 \<and> creation_time i \<noteq> 0 \<and> exe_path i \<noteq> []"

datatype identity_error = kOpenFailed | kImagePathUnavailable | kCreationTimeUnavailable

definition FileTimeToUint64 :: "u32 \<times> u32 \<Rightarrow> u64" where
  "FileTimeToUint64 = (\<lambda>(hi, lo). or (push_bit 32 (ucast hi)) (ucast lo))"

definition ReadProcessIdentity :: "'w system_ops \<Rightarrow> 'w \<Rightarrow> u32 \<Rightarrow> identity_error + process_identity" where
  "ReadProcessIdentity Y w p =
     (case QueryFullProcessImageName Y p w of
        None \<Rightarrow> Inl kImagePathUnavailable
      | Some path \<Rightarrow>
          (if path = [] then Inl kImagePathUnavailable
           else (case GetProcessTimes Y p w of
                   None \<Rightarrow> Inl kCreationTimeUnavailable
                 | Some t \<Rightarrow> Inr \<lparr>id_pid = p, creation_time = FileTimeToUint64 t, exe_path = path\<rparr>)))"

definition GetProcessIdentity :: "'w system_ops \<Rightarrow> 'w \<Rightarrow> u32 \<Rightarrow> identity_error + process_identity" where
  "GetProcessIdentity Y w p = (if \<not> OpenProcess Y p w then Inl kOpenFailed else ReadProcessIdentity Y w p)"

definition IsProcessIdentityCurrent :: "'w system_ops \<Rightarrow> 'w \<Rightarrow> process_identity \<Rightarrow> bool" where
  "IsProcessIdentityCurrent Y w i =
     (if \<not> identity_IsValid i then False
      else (case GetProcessIdentity Y w (id_pid i) of
              Inl _ \<Rightarrow> False
            | Inr current \<Rightarrow> creation_time current = creation_time i \<and>
                EqualsInsensitive (fold_case Y) (exe_path current) (exe_path i)))"

section \<open>Enumeration\<close>

record process_info =
  info_pid :: u32
  info_parent_pid :: u32
  info_name :: "u8 list"
  info_exe_path :: wstring
  info_creation_time :: u64

definition IsSystemProcessPath :: "'w system_ops \<Rightarrow> wstring \<Rightarrow> bool" where
  "IsSystemProcessPath Y path =
     (if path = [] then True
      else
        let win = WindowsDirectory Y;
            below = (\<lambda>d. StartsWithInsensitive (fold_case Y) path (win @ wide d))
        in below (CHR 0x5C # ''System32'') \<or> below (CHR 0x5C # ''SysWOW64'') \<or>
           below (CHR 0x5C # ''SystemApps'') \<or> below (CHR 0x5C # ''WinSxS''))"

definition IsSessionZero :: "'w system_ops \<Rightarrow> 'w \<Rightarrow> u32 \<Rightarrow> bool" where
  "IsSessionZero Y w p = (case ProcessIdToSessionId Y p w of None \<Rightarrow> False | Some session_id \<Rightarrow> session_id = 0)"

definition WideToUtf8 :: "'w system_ops \<Rightarrow> wstring \<Rightarrow> u8 list" where
  "WideToUtf8 Y value =
     (if value = [] then []
      else
        let required_len = utf8_length Y value in
        if required_len \<le> 0 then []
        else case utf8_write Y value required_len of
               (written, data) \<Rightarrow> if written > 0 then take (nat written) data else [])"

text \<open>The loop over the snapshot; \<open>w i\<close> is the moment at which entry \<open>i\<close> is looked at.\<close>

fun enumerate_entries ::
  "'w system_ops \<Rightarrow> (nat \<Rightarrow> 'w) \<Rightarrow> nat \<Rightarrow> process_entry list \<Rightarrow> process_info list \<Rightarrow> process_info list" where
  "enumerate_entries Y w i [] result = result"
| "enumerate_entries Y w i (entry # entries) result =
     (let p = th32ProcessID entry;
          parent_pid = th32ParentProcessID entry;
          result =
            (if p \<noteq> 0 \<and> p \<noteq> kSystemPid \<and> p \<noteq> GetCurrentProcessId Y then
               (case GetProcessIdentity Y (w i) p of
                  Inl _ \<Rightarrow> result
                | Inr identity \<Rightarrow>
                    (if \<not> (IsSystemProcessPath Y (exe_path identity) \<or> IsSessionZero Y (w i) p) then
                       result @ [\<lparr>info_pid = p, info_parent_pid = parent_pid, info_name = WideToUtf8 Y (szExeFile entry),
                                  info_exe_path = exe_path identity, info_creation_time = creation_time identity\<rparr>]
                     else result))
             else result)
      in enumerate_entries Y w (Suc i) entries result)"

definition EnumerateProcesses :: "'w system_ops \<Rightarrow> 'w \<Rightarrow> (nat \<Rightarrow> 'w) \<Rightarrow> process_info list" where
  "EnumerateProcesses Y w0 w =
     (case Toolhelp32Snapshot Y w0 of None \<Rightarrow> [] | Some entries \<Rightarrow> enumerate_entries Y w 0 entries [])"

section \<open>Comparing strings\<close>

lemma first_unit_Cons [simp]: "first_unit (c # s) = c"
  by (simp add: first_unit_def)

lemma wcsnicmp_eq_take:
  assumes "0 \<notin> set a" and "n \<le> length a" and "n \<le> length b"
  shows "wcsnicmp_eq lower n a b \<longleftrightarrow> map lower (take n a) = map lower (take n b)"
  using assms
proof (induction lower n a b rule: wcsnicmp_eq.induct)
  case (2 lower n a b)
  obtain x a' y b' where "a = x # a'" "b = y # b'" using 2(3,4) by (cases a; cases b) auto
  with 2 show ?case by auto
qed simp

lemma StartsWithInsensitive_iff:
  assumes "0 \<notin> set str"
  shows "StartsWithInsensitive lower str pre \<longleftrightarrow>
    length pre \<le> length str \<and> map lower (take (length pre) str) = map lower pre"
  using assms by (auto simp: StartsWithInsensitive_def wcsnicmp_eq_take)

lemma EqualsInsensitive_iff: "0 \<notin> set lhs \<Longrightarrow> EqualsInsensitive lower lhs rhs \<longleftrightarrow> map lower lhs = map lower rhs"
  by (auto simp: EqualsInsensitive_def wcsnicmp_eq_take dest: map_eq_imp_length_eq)

text \<open>A string that begins with the prefix is recognised even if it has a NUL further on.\<close>

lemma wcsnicmp_eq_refl: "wcsnicmp_eq lower n (take n a @ b) a \<or> length a < n"
proof (induction n arbitrary: a)
  case (Suc n)
  then show ?case by (cases a) auto
qed simp

lemma StartsWithInsensitive_append: "StartsWithInsensitive lower (pre @ s) pre"
  using wcsnicmp_eq_refl [of lower "length pre" pre s] by (simp add: StartsWithInsensitive_def)

section \<open>What is listed\<close>

text \<open>The entries that are shown, with what is shown of them.\<close>

definition listed :: "'w system_ops \<Rightarrow> 'w \<Rightarrow> process_entry \<Rightarrow> process_info option" where
  "listed Y w entry =
     (let p = th32ProcessID entry in
      if p \<in> {0, kSystemPid, GetCurrentProcessId Y} then None
      else case GetProcessIdentity Y w p of
             Inl _ \<Rightarrow> None
           | Inr identity \<Rightarrow>
               (if IsSystemProcessPath Y (exe_path identity) \<or> IsSessionZero Y w p then None
                else Some \<lparr>info_pid = p, info_parent_pid = th32ParentProcessID entry,
                  info_name = WideToUtf8 Y (szExeFile entry), info_exe_path = exe_path identity,
                  info_creation_time = creation_time identity\<rparr>))"

lemma enumerate_entries_listed:
  "enumerate_entries Y w i entries result =
   result @ List.map_filter (\<lambda>(j, entry). listed Y (w j) entry) (enumerate i entries)"
proof (induction entries arbitrary: i result)
  case (Cons e es)
  then show ?case
    by (simp add: listed_def Let_def List.map_filter_simps split: sum.splits)
qed (simp add: List.map_filter_simps)

lemma GetProcessIdentity_pid: "GetProcessIdentity Y w p = Inr i \<Longrightarrow> id_pid i = p \<and> exe_path i \<noteq> []"
  by (auto simp: GetProcessIdentity_def ReadProcessIdentity_def split: if_splits option.splits)

lemma listed_SomeD:
  assumes "listed Y w e = Some r"
  shows "info_pid r = th32ProcessID e \<and> info_pid r \<notin> {0, kSystemPid, GetCurrentProcessId Y} \<and>
    \<not> IsSystemProcessPath Y (info_exe_path r) \<and> \<not> IsSessionZero Y w (info_pid r) \<and>
    GetProcessIdentity Y w (info_pid r) =
      Inr \<lparr>id_pid = info_pid r, creation_time = info_creation_time r, exe_path = info_exe_path r\<rparr>"
proof -
  from assms obtain i where g: "GetProcessIdentity Y w (th32ProcessID e) = Inr i"
    by (auto simp: listed_def Let_def split: if_splits sum.splits)
  with assms show ?thesis using GetProcessIdentity_pid [OF g]
    by (cases i) (auto simp: listed_def Let_def split: if_splits)
qed

section \<open>Properties\<close>

lemma prefix_map_take: "prefix (map f p) (map f s) \<longleftrightarrow> length p \<le> length s \<and> map f (take (length p) s) = map f p"
  by (metis append_take_drop_id length_map map_append prefixI prefix_def prefix_length_le take_map append_eq_conv_conj)

lemma StartsWithInsensitive_prefix:
  "0 \<notin> set str \<Longrightarrow> StartsWithInsensitive lower str p \<longleftrightarrow> prefix (map lower p) (map lower str)"
  by (simp add: StartsWithInsensitive_iff prefix_map_take)

lemma FileTimeToUint64_inject [simp]: "FileTimeToUint64 s = FileTimeToUint64 t \<longleftrightarrow> s = t"
proof -
  have b: "bit (FileTimeToUint64 (hi, lo)) n \<longleftrightarrow> (if n < 32 then bit lo n else bit hi (n - 32)) \<and> n < 64" for hi lo n
    using bit_imp_le_length [of hi "n - 32"] bit_imp_le_length [of lo n]
    by (auto simp: FileTimeToUint64_def bit_or_iff bit_push_bit_iff bit_ucast_iff possible_bit_word)
  have "hi = hi' \<and> lo = lo'" if e: "FileTimeToUint64 (hi, lo) = FileTimeToUint64 (hi', lo')" for hi lo hi' lo'
  proof -
    have "bit (FileTimeToUint64 (hi, lo)) n = bit (FileTimeToUint64 (hi', lo')) n" for n by (simp only: e)
    then have n: "(if n < 32 then bit lo n else bit hi (n - 32)) \<and> n < 64 \<longleftrightarrow>
        (if n < 32 then bit lo' n else bit hi' (n - 32)) \<and> n < 64" for n by (simp only: b)
    have "bit lo k = bit lo' k" if "k < 32" for k using n [of k] that by simp
    moreover have "bit hi k = bit hi' k" if "k < 32" for k using n [of "k + 32"] that by simp
    ultimately show ?thesis by (auto intro: bit_word_eqI)
  qed
  then show ?thesis by (cases s; cases t) auto
qed

text \<open>
  A path counts as a system path if it is empty or begins, ignoring case, with one of the four
  directories below the Windows directory, as a string: nothing asks for a separator after it, so that a
  program in a sibling directory such as System32Tools is hidden too.
\<close>

theorem system_path_is_string_prefix:
  assumes "0 \<notin> set path"
  shows "IsSystemProcessPath Y path \<longleftrightarrow> path = [] \<or>
    (\<exists>d \<in> {''System32'', ''SysWOW64'', ''SystemApps'', ''WinSxS''}.
       prefix (map (fold_case Y) (WindowsDirectory Y @ wide (CHR 0x5C # d))) (map (fold_case Y) path))"
  using assms by (auto simp: IsSystemProcessPath_def Let_def StartsWithInsensitive_prefix)

text \<open>A small system for the examples: one program beside System32, run as process 8.\<close>

definition sample_system :: "unit system_ops" where
  "sample_system = \<lparr>OpenProcess = (\<lambda>p _. p = 8), QueryFullProcessImageName = (\<lambda>_ _. Some [0x43, 0x3A, 0x78]),
     GetProcessTimes = (\<lambda>_ _. Some (1, 2)), ProcessIdToSessionId = (\<lambda>_ _. Some 1),
     Toolhelp32Snapshot = (\<lambda>_. Some [\<lparr>th32ProcessID = 4, th32ParentProcessID = 0, szExeFile = []\<rparr>,
       \<lparr>th32ProcessID = 8, th32ParentProcessID = 4, szExeFile = [0x78]\<rparr>]),
     GetCurrentProcessId = 12, WindowsDirectory = wide ''W'', fold_case = (\<lambda>c. c),
     utf8_length = (\<lambda>s. int (length s)), utf8_write = (\<lambda>s n. (n, map ucast s))\<rparr>"

lemma system_path_is_string_prefix_witness:
  "IsSystemProcessPath sample_system (wide (''W'' @ CHR 0x5C # ''System32Tools''))"
proof -
  have z: "0 \<notin> set (wide (''W'' @ CHR 0x5C # ''System32Tools''))" by code_simp
  have p: "prefix (map (fold_case sample_system) (WindowsDirectory sample_system @ wide (CHR 0x5C # ''System32'')))
      (map (fold_case sample_system) (wide (''W'' @ CHR 0x5C # ''System32Tools'')))" by code_simp
  show ?thesis unfolding system_path_is_string_prefix [OF z] using p by blast
qed

definition image_names_plain :: "'w system_ops \<Rightarrow> bool" where
  "image_names_plain Y \<longleftrightarrow> (\<forall>p w path. QueryFullProcessImageName Y p w = Some path \<longrightarrow> 0 \<notin> set path)"

text \<open>
  An identity is current exactly if a process with its id can be opened, was created at the very
  time of the identity and runs the same executable up to case. So a process that got a reused id, with
  another creation time, is never taken for the old one: the 64 bits determine the file time.
\<close>

theorem identity_current_iff_same_process:
  assumes "image_names_plain Y" and "creation_time i = FileTimeToUint64 t0"
  shows "IsProcessIdentityCurrent Y w i \<longleftrightarrow> identity_IsValid i \<and> OpenProcess Y (id_pid i) w \<and>
    GetProcessTimes Y (id_pid i) w = Some t0 \<and>
    (\<exists>path. path \<noteq> [] \<and> QueryFullProcessImageName Y (id_pid i) w = Some path \<and>
       map (fold_case Y) path = map (fold_case Y) (exe_path i))"
proof (cases "QueryFullProcessImageName Y (id_pid i) w")
  case None
  then show ?thesis by (simp add: IsProcessIdentityCurrent_def GetProcessIdentity_def ReadProcessIdentity_def)
next
  case (Some path)
  with assms(1) have "EqualsInsensitive (fold_case Y) path (exe_path i) \<longleftrightarrow> map (fold_case Y) path = map (fold_case Y) (exe_path i)"
    by (intro EqualsInsensitive_iff) (auto simp: image_names_plain_def)
  with Some assms(2) show ?thesis
    by (auto simp: IsProcessIdentityCurrent_def GetProcessIdentity_def ReadProcessIdentity_def split: option.splits)
qed

lemma identity_current_iff_same_process_witness:
  "\<not> IsProcessIdentityCurrent sample_system () \<lparr>id_pid = 8, creation_time = FileTimeToUint64 (1, 3), exe_path = [0x43, 0x3A, 0x78]\<rparr>"
proof -
  have p: "image_names_plain sample_system" by (simp add: image_names_plain_def sample_system_def)
  have t: "GetProcessTimes sample_system 8 () \<noteq> Some (1, 3)" by code_simp
  show ?thesis
    using identity_current_iff_same_process [OF p, of "\<lparr>id_pid = 8, creation_time = FileTimeToUint64 (1, 3), exe_path = [0x43, 0x3A, 0x78]\<rparr>" "(1, 3)"] t
    by simp
qed

text \<open>
  What the list leaves out, in terms of the system's answers: a path below the Windows directory is hidden
  by its text alone, so the four directory names also hide siblings that only begin with them.
\<close>

definition hidden_path :: "'w system_ops \<Rightarrow> wstring \<Rightarrow> bool" where
  "hidden_path Y path \<longleftrightarrow>
     (\<exists>d \<in> {''System32'', ''SysWOW64'', ''SystemApps'', ''WinSxS''}.
        prefix (map (fold_case Y) (WindowsDirectory Y @ wide (CHR 0x5C # d))) (map (fold_case Y) path))"

definition to_be_shown :: "'w system_ops \<Rightarrow> 'w \<Rightarrow> u32 \<Rightarrow> wstring \<Rightarrow> u32 \<times> u32 \<Rightarrow> bool" where
  "to_be_shown Y w p path t \<longleftrightarrow>
     p \<notin> {0, 4, GetCurrentProcessId Y} \<and> OpenProcess Y p w \<and>
     QueryFullProcessImageName Y p w = Some path \<and> path \<noteq> [] \<and> GetProcessTimes Y p w = Some t \<and>
     ProcessIdToSessionId Y p w \<noteq> Some 0 \<and> \<not> hidden_path Y path"

lemma GetProcessIdentity_iff:
  "GetProcessIdentity Y w p = Inr i \<longleftrightarrow> OpenProcess Y p w \<and>
     (\<exists>path t. QueryFullProcessImageName Y p w = Some path \<and> path \<noteq> [] \<and> GetProcessTimes Y p w = Some t \<and>
       i = \<lparr>id_pid = p, creation_time = FileTimeToUint64 t, exe_path = path\<rparr>)"
  by (auto simp: GetProcessIdentity_def ReadProcessIdentity_def split: option.split)

lemma IsSessionZero_iff: "IsSessionZero Y w p \<longleftrightarrow> ProcessIdToSessionId Y p w = Some 0"
  by (simp add: IsSessionZero_def split: option.split)

lemma listed_iff:
  assumes "image_names_plain Y"
  shows "listed Y w e = Some r \<longleftrightarrow> (\<exists>path t. to_be_shown Y w (th32ProcessID e) path t \<and>
    r = \<lparr>info_pid = th32ProcessID e, info_parent_pid = th32ParentProcessID e, info_name = WideToUtf8 Y (szExeFile e),
         info_exe_path = path, info_creation_time = FileTimeToUint64 t\<rparr>)"
proof -
  let ?p = "th32ProcessID e"
  have hid: "IsSystemProcessPath Y path \<longleftrightarrow> path = [] \<or> hidden_path Y path"
    if "QueryFullProcessImageName Y ?p w = Some path" for path
    using assms that system_path_is_string_prefix [of path Y] unfolding image_names_plain_def hidden_path_def by blast
  have "listed Y w e = Some r \<longleftrightarrow> ?p \<notin> {0, 4, GetCurrentProcessId Y} \<and> (\<exists>i. GetProcessIdentity Y w ?p = Inr i \<and>
      \<not> IsSystemProcessPath Y (exe_path i) \<and> ProcessIdToSessionId Y ?p w \<noteq> Some 0 \<and>
      r = \<lparr>info_pid = ?p, info_parent_pid = th32ParentProcessID e, info_name = WideToUtf8 Y (szExeFile e),
           info_exe_path = exe_path i, info_creation_time = creation_time i\<rparr>)"
    by (auto simp: listed_def Let_def IsSessionZero_iff kSystemPid_def split: sum.split)
  also have "\<dots> \<longleftrightarrow> (\<exists>path t. to_be_shown Y w ?p path t \<and>
      r = \<lparr>info_pid = ?p, info_parent_pid = th32ParentProcessID e, info_name = WideToUtf8 Y (szExeFile e),
           info_exe_path = path, info_creation_time = FileTimeToUint64 t\<rparr>)"
    unfolding GetProcessIdentity_iff to_be_shown_def using hid by auto
  finally show ?thesis .
qed

text \<open>
  C36: the process list is exactly what the system's answers say. Its processes are those of the
  snapshot, in its order, that are neither idle nor System nor the program itself, that can be opened, whose
  image path (not empty) and creation time can be read, whose session is not known to be zero, and
  whose path does not begin, ignoring case, with the Windows directory followed by a backslash and
  System32, SysWOW64, SystemApps or WinSxS. This last test is one of text, with no separator asked for after
  the name, so that programs in a sibling directory such as System32Tools are left out too. Each
  carries its parent, name and path, and its creation time as the system gave them when it was looked at. Paths are taken to
  hold no NUL.
\<close>

theorem enumeration_exact:
  assumes "Toolhelp32Snapshot Y w0 = Some entries" and "image_names_plain Y"
  shows "subseq (map info_pid (EnumerateProcesses Y w0 w)) (map th32ProcessID entries) \<and>
    (\<forall>r. r \<in> set (EnumerateProcesses Y w0 w) \<longleftrightarrow>
       (\<exists>i < length entries. \<exists>path t. to_be_shown Y (w i) (th32ProcessID (entries ! i)) path t \<and>
          r = \<lparr>info_pid = th32ProcessID (entries ! i), info_parent_pid = th32ParentProcessID (entries ! i),
               info_name = WideToUtf8 Y (szExeFile (entries ! i)), info_exe_path = path,
               info_creation_time = FileTimeToUint64 t\<rparr>))"
proof -
  let ?E = "List.map_filter (\<lambda>(j, entry). listed Y (w j) entry) (enumerate 0 entries)"
  have E: "EnumerateProcesses Y w0 w = ?E" by (simp add: EnumerateProcesses_def assms enumerate_entries_listed)
  have "subseq (map info_pid (List.map_filter (\<lambda>(j, entry). listed Y (w j) entry) (enumerate i es))) (map th32ProcessID es)"
    for i es
  proof (induction es arbitrary: i)
    case (Cons e es)
    then show ?case by (auto simp: List.map_filter_simps split: option.splits dest: listed_SomeD)
  qed (simp add: List.map_filter_simps)
  moreover have "r \<in> set ?E \<longleftrightarrow> (\<exists>i < length entries. listed Y (w i) (entries ! i) = Some r)" for r
    by (force simp: List.map_filter_def in_set_enumerate_eq image_iff)
  ultimately show ?thesis unfolding E listed_iff [OF assms(2)] by simp
qed

lemma enumeration_exact_witness: "map info_pid (EnumerateProcesses sample_system () (\<lambda>_. ())) = [8]"
proof -
  let ?es = "[\<lparr>th32ProcessID = 4, th32ParentProcessID = 0, szExeFile = []\<rparr>, \<lparr>th32ProcessID = 8, th32ParentProcessID = 4, szExeFile = [0x78]\<rparr>]"
  have s: "Toolhelp32Snapshot sample_system () = Some ?es" by (simp add: sample_system_def)
  have p: "image_names_plain sample_system" by (simp add: image_names_plain_def sample_system_def)
  have "subseq (map info_pid (EnumerateProcesses sample_system () (\<lambda>_. ()))) (map th32ProcessID ?es)"
    using enumeration_exact [OF s p, of "\<lambda>_. ()"] by blast
  moreover have "map info_pid (EnumerateProcesses sample_system () (\<lambda>_. ())) = [8]" by code_simp
  ultimately show ?thesis by simp
qed

end
