(* ===== verification/Process_Tree.thy ===== *)
theory Process_Tree
  imports Process_Ident "HOL-Library.Multiset"
begin

text \<open>
  The process list of the main window (src/ui/MainWindow.cpp): the tree built from the enumerated
  processes, and the text filter over it.
\<close>

section \<open>Items\<close>

text \<open>An item has the texts of its two columns and what is stored with it.\<close>

record item_data =
  text0 :: string
  text1 :: string
  kProcessPidRole :: u32
  kProcessCreationTimeRole :: u64
  kProcessExePathRole :: wstring

datatype tree_item = Item (item_data: item_data) (hidden: bool) (expanded: bool) (kids: "tree_item list")

definition IdentityFromItem :: "tree_item option \<Rightarrow> process_identity" where
  "IdentityFromItem item =
     (case item of
        None \<Rightarrow> no_identity
      | Some t \<Rightarrow> \<lparr>id_pid = kProcessPidRole (item_data t), creation_time = kProcessCreationTimeRole (item_data t),
                   exe_path = kProcessExePathRole (item_data t)\<rparr>)"

section \<open>The filter\<close>

text \<open>\<open>has s t\<close> is the case-insensitive test that \<open>s\<close> contains \<open>t\<close>.\<close>

definition self_matches :: "(string \<Rightarrow> string \<Rightarrow> bool) \<Rightarrow> string \<Rightarrow> tree_item \<Rightarrow> bool" where
  "self_matches has txt t \<longleftrightarrow> txt = [] \<or> has (text0 (item_data t)) txt \<or> has (text1 (item_data t)) txt"

fun FilterTreeItem :: "(string \<Rightarrow> string \<Rightarrow> bool) \<Rightarrow> string \<Rightarrow> tree_item \<Rightarrow> bool \<times> tree_item" where
  "FilterTreeItem has txt (Item d h e ks) =
     (let self = self_matches has txt (Item d h e ks);
          rs = map (FilterTreeItem has txt) ks;
          any = list_ex fst rs
      in (self \<or> any,
          Item d (\<not> self \<and> \<not> any) (if txt \<noteq> [] \<and> any then True else e) (map snd rs)))"

definition OnProcessFilterChanged :: "(string \<Rightarrow> string \<Rightarrow> bool) \<Rightarrow> string \<Rightarrow> tree_item list \<Rightarrow> tree_item list" where
  "OnProcessFilterChanged has txt ts = map (\<lambda>t. snd (FilterTreeItem has txt t)) ts"

section \<open>Building the tree\<close>

text \<open>
  \<open>shown_number\<close> is the system's text of a number and \<open>utf16\<close> its conversion of a UTF-8 name. The links
  between the items are made one process after the other: under its parent if that is listed and
  another process, else at the top level. \<open>grow\<close> reads the tree off the links; an item below itself
  is never met from the top level, so the number of processes is depth enough.
\<close>

definition parent_of :: "process_info list \<Rightarrow> process_info \<Rightarrow> u32 option" where
  "parent_of procs q =
     (if info_parent_pid q \<in> info_pid ` set procs \<and> info_parent_pid q \<noteq> info_pid q then Some (info_parent_pid q)
      else None)"

definition item_of :: "(u32 \<Rightarrow> string) \<Rightarrow> (u8 list \<Rightarrow> string) \<Rightarrow> process_info \<Rightarrow> item_data" where
  "item_of shown_number name_text q =
     \<lparr>text0 = shown_number (info_pid q), text1 = name_text (info_name q), kProcessPidRole = info_pid q,
      kProcessCreationTimeRole = info_creation_time q, kProcessExePathRole = info_exe_path q\<rparr>"

definition children_of :: "process_info list \<Rightarrow> u32 \<Rightarrow> process_info list" where
  "children_of procs p = filter (\<lambda>q. parent_of procs q = Some p) procs"

fun grow :: "(process_info \<Rightarrow> item_data) \<Rightarrow> process_info list \<Rightarrow> nat \<Rightarrow> process_info \<Rightarrow> tree_item" where
  "grow mk procs 0 q = Item (mk q) False False []"
| "grow mk procs (Suc n) q = Item (mk q) False False (map (grow mk procs n) (children_of procs (info_pid q)))"

definition forest :: "(process_info \<Rightarrow> item_data) \<Rightarrow> process_info list \<Rightarrow> tree_item list" where
  "forest mk procs = map (grow mk procs (length procs)) (filter (\<lambda>q. parent_of procs q = None) procs)"

fun find_item :: "u32 \<Rightarrow> tree_item list \<Rightarrow> tree_item option" where
  "find_item p [] = None"
| "find_item p (Item d h e ks # ts) =
     (if kProcessPidRole d = p then Some (Item d h e ks)
      else case find_item p ks of Some t \<Rightarrow> Some t | None \<Rightarrow> find_item p ts)"

text \<open>
  A new list of processes: the top-level items that were expanded stay so, and the selected
  process is looked for by its id (\<open>to_uint\<close> reads the number in an item's first column, zero if
  there is none). The result is the tree and the item that is now selected.
\<close>

definition OnProcessListReady ::
  "(string \<Rightarrow> u32) \<Rightarrow> (process_info \<Rightarrow> item_data) \<Rightarrow> (string \<Rightarrow> string \<Rightarrow> bool) \<Rightarrow> string \<Rightarrow>
   process_info list \<Rightarrow> tree_item list \<Rightarrow> tree_item option \<Rightarrow> tree_item list \<times> tree_item option" where
  "OnProcessListReady to_uint mk has filter_text procs old selected =
     (let selected_pid = (case selected of None \<Rightarrow> 0 | Some t \<Rightarrow> to_uint (text0 (item_data t)));
          expanded_pids = map (\<lambda>t. to_uint (text0 (item_data t))) (filter expanded old);
          top = map (\<lambda>t. if to_uint (text0 (item_data t)) \<in> set expanded_pids
                         then Item (item_data t) (hidden t) True (kids t) else t) (forest mk procs);
          selected_item = (if selected_pid \<in> info_pid ` set procs then find_item selected_pid top else None)
      in (OnProcessFilterChanged has filter_text top, selected_item))"

section \<open>The filter's effect\<close>

fun nodes :: "tree_item \<Rightarrow> tree_item list" where
  "nodes (Item d h e ks) = Item d h e ks # concat (map nodes ks)"

definition matches_below :: "(string \<Rightarrow> string \<Rightarrow> bool) \<Rightarrow> string \<Rightarrow> tree_item \<Rightarrow> bool" where
  "matches_below has txt t \<longleftrightarrow> (\<exists>m \<in> set (nodes t). self_matches has txt m)"

lemma fst_FilterTreeItem: "fst (FilterTreeItem has txt t) = matches_below has txt t"
proof (induction t)
  case (Item d h e ks)
  then have "list_ex fst (map (FilterTreeItem has txt) ks) \<longleftrightarrow> (\<exists>k \<in> set ks. matches_below has txt k)"
    by (auto simp: list_ex_iff)
  then show ?case by (auto simp: matches_below_def Let_def)
qed

text \<open>What the filter makes of an item, given the whole item as it was.\<close>

definition filter_ok :: "(string \<Rightarrow> string \<Rightarrow> bool) \<Rightarrow> string \<Rightarrow> tree_item \<Rightarrow> tree_item \<Rightarrow> bool" where
  "filter_ok has txt n n' \<longleftrightarrow>
     item_data n' = item_data n \<and> hidden n' = (\<not> matches_below has txt n) \<and>
     expanded n' = (expanded n \<or> txt \<noteq> [] \<and> (\<exists>k \<in> set (kids n). matches_below has txt k)) \<and>
     length (kids n') = length (kids n)"

lemma filter_ok_nodes: "list_all2 (filter_ok has txt) (nodes t) (nodes (snd (FilterTreeItem has txt t)))"
proof (induction t)
  case (Item d h e ks)
  let ?any = "list_ex fst (map (FilterTreeItem has txt) ks)"
  have any: "?any \<longleftrightarrow> (\<exists>k \<in> set ks. matches_below has txt k)" by (auto simp: list_ex_iff fst_FilterTreeItem)
  have below: "matches_below has txt (Item d h e ks) \<longleftrightarrow> self_matches has txt (Item d h e ks) \<or> ?any"
    unfolding any by (auto simp: matches_below_def)
  have "list_all2 (filter_ok has txt) (concat (map nodes xs)) (concat (map (nodes \<circ> (snd \<circ> FilterTreeItem has txt)) xs))"
    if "set xs \<subseteq> set ks" for xs
    using that
  proof (induction xs)
    case (Cons x xs)
    then have "list_all2 (filter_ok has txt) (nodes x) (nodes (snd (FilterTreeItem has txt x)))"
      using Item.IH [of x] by simp
    with Cons show ?case by (simp add: list_all2_appendI)
  qed simp
  from this [OF subset_refl]
  have tail: "list_all2 (filter_ok has txt) (concat (map nodes ks)) (concat (map nodes (map (snd \<circ> FilterTreeItem has txt) ks)))"
    by simp
  have F: "snd (FilterTreeItem has txt (Item d h e ks)) =
      Item d (\<not> matches_below has txt (Item d h e ks)) (if txt \<noteq> [] \<and> ?any then True else e)
        (map (snd \<circ> FilterTreeItem has txt) ks)"
    unfolding below by (simp add: Let_def)
  have "filter_ok has txt (Item d h e ks) (snd (FilterTreeItem has txt (Item d h e ks)))"
    unfolding F by (auto simp: filter_ok_def any simp del: map_map)
  with tail show ?case unfolding F nodes.simps list_all2_Cons by blast
qed

section \<open>Chains of parents\<close>

definition tree_pids :: "tree_item \<Rightarrow> u32 list" where
  "tree_pids t = map (\<lambda>n. kProcessPidRole (item_data n)) (nodes t)"

definition up :: "process_info list \<Rightarrow> u32 \<Rightarrow> u32 option" where
  "up procs p = Option.bind (map_of (map (\<lambda>q. (info_pid q, parent_of procs q)) procs) p) (\<lambda>x. x)"

fun anc :: "process_info list \<Rightarrow> nat \<Rightarrow> u32 \<Rightarrow> u32 option" where
  "anc procs 0 p = Some p"
| "anc procs (Suc d) p = Option.bind (anc procs d p) (up procs)"

lemma up_info:
  assumes "distinct (map info_pid procs)" and "q \<in> set procs"
  shows "up procs (info_pid q) = parent_of procs q"
proof -
  have "map_of (map (\<lambda>q. (info_pid q, parent_of procs q)) procs) (info_pid q) = Some (parent_of procs q)"
    using assms by (intro map_of_is_SomeI) (auto simp: comp_def)
  then show ?thesis by (simp add: up_def)
qed

lemma up_SomeD:
  assumes "distinct (map info_pid procs)" and "up procs p = Some x"
  shows "\<exists>q \<in> set procs. info_pid q = p \<and> parent_of procs q = Some x"
proof -
  from assms(2) have "map_of (map (\<lambda>q. (info_pid q, parent_of procs q)) procs) p = Some (Some x)"
    by (cases "map_of (map (\<lambda>q. (info_pid q, parent_of procs q)) procs) p") (simp_all add: up_def)
  from map_of_SomeD [OF this] show ?thesis by auto
qed

lemma parent_of_pid: "parent_of procs q = Some x \<Longrightarrow> x \<in> info_pid ` set procs"
  by (simp add: parent_of_def split: if_splits)

lemma tree_pids_grow_Suc:
  "(\<And>q. kProcessPidRole (mk q) = info_pid q) \<Longrightarrow>
   tree_pids (grow mk procs (Suc n) q) =
     info_pid q # concat (map (\<lambda>c. tree_pids (grow mk procs n c)) (children_of procs (info_pid q)))"
  by (simp add: tree_pids_def map_concat comp_def)

lemma count_list_concat: "count_list (concat xss) x = sum_list (map (\<lambda>xs. count_list xs x) xss)"
  by (induction xss) simp_all

lemma card_by_pid:
  assumes "distinct (map info_pid cs)"
  shows "sum_list (map (\<lambda>c. card {d. d \<le> n \<and> anc procs d p = Some (info_pid c)}) cs) =
    card {d. d \<le> n \<and> (\<exists>c \<in> set cs. anc procs d p = Some (info_pid c))}"
proof -
  have d: "distinct cs" and inj: "inj_on info_pid (set cs)" using assms by (simp_all add: distinct_map)
  have "sum_list (map (\<lambda>c. card {d. d \<le> n \<and> anc procs d p = Some (info_pid c)}) cs) =
      (\<Sum>c \<in> set cs. card {d. d \<le> n \<and> anc procs d p = Some (info_pid c)})"
    using d by (rule sum_list_distinct_conv_sum_set)
  also have "\<dots> = card (\<Union>c \<in> set cs. {d. d \<le> n \<and> anc procs d p = Some (info_pid c)})"
    using inj by (intro card_UN_disjoint [symmetric]) (auto dest: inj_onD)
  also have "(\<Union>c \<in> set cs. {d. d \<le> n \<and> anc procs d p = Some (info_pid c)}) =
      {d. d \<le> n \<and> (\<exists>c \<in> set cs. anc procs d p = Some (info_pid c))}" by auto
  finally show ?thesis .
qed

lemma distinct_filter_pids: "distinct (map info_pid procs) \<Longrightarrow> distinct (map info_pid (filter P procs))"
  by (rule distinct_map_filter)

lemma distinct_children: "distinct (map info_pid procs) \<Longrightarrow> distinct (map info_pid (children_of procs x))"
  unfolding children_of_def by (rule distinct_filter_pids)

lemma anc_Suc_child:
  assumes "distinct (map info_pid procs)"
  shows "anc procs (Suc d) p = Some x \<longleftrightarrow> (\<exists>c \<in> set (children_of procs x). anc procs d p = Some (info_pid c))"
proof
  assume "anc procs (Suc d) p = Some x"
  then obtain y where y: "anc procs d p = Some y" "up procs y = Some x" by (cases "anc procs d p") auto
  from up_SomeD [OF assms y(2)] y(1) show "\<exists>c \<in> set (children_of procs x). anc procs d p = Some (info_pid c)"
    by (auto simp: children_of_def)
next
  assume "\<exists>c \<in> set (children_of procs x). anc procs d p = Some (info_pid c)"
  then show "anc procs (Suc d) p = Some x" by (auto simp: children_of_def up_info [OF assms])
qed

text \<open>An item occurs in a tree once for every way up from it to the tree's root.\<close>

lemma count_grow:
  assumes "distinct (map info_pid procs)" and mk: "\<And>q. kProcessPidRole (mk q) = info_pid q"
  shows "count_list (tree_pids (grow mk procs n q)) p = card {d. d \<le> n \<and> anc procs d p = Some (info_pid q)}"
proof (induction n arbitrary: q)
  case 0
  have "{d. d \<le> 0 \<and> anc procs d p = Some (info_pid q)} = (if info_pid q = p then {0} else {})" by auto
  then show ?case by (simp add: tree_pids_def mk)
next
  case (Suc n)
  let ?D = "{d. d \<le> n \<and> anc procs (Suc d) p = Some (info_pid q)}"
  have "{d. d \<le> Suc n \<and> anc procs d p = Some (info_pid q)} = (if info_pid q = p then {0} else {}) \<union> Suc ` ?D"
  proof (intro set_eqI)
    fix d show "d \<in> {d. d \<le> Suc n \<and> anc procs d p = Some (info_pid q)} \<longleftrightarrow>
        d \<in> (if info_pid q = p then {0} else {}) \<union> Suc ` ?D"
      by (cases d) (auto simp del: anc.simps(2))
  qed
  moreover have "card ((if info_pid q = p then {0} else {}) \<union> Suc ` ?D) = (if info_pid q = p then 1 else 0) + card ?D"
    by (subst card_Un_disjoint) (auto simp: card_image simp del: anc.simps)
  moreover have "card ?D = sum_list (map (\<lambda>c. count_list (tree_pids (grow mk procs n c)) p) (children_of procs (info_pid q)))"
    unfolding Suc.IH card_by_pid [OF distinct_children [OF assms(1)]]
    by (simp only: anc_Suc_child [OF assms(1)])
  ultimately show ?case
    by (simp add: tree_pids_grow_Suc [OF mk] count_list_concat comp_def del: anc.simps grow.simps)
qed

text \<open>Under a rank that falls from child to parent, every way up ends at exactly one root.\<close>

lemma anc_rank:
  assumes "distinct (map info_pid procs)"
    and "\<forall>q \<in> set procs. \<forall>x. parent_of procs q = Some x \<longrightarrow> rank x < (rank (info_pid q) :: nat)"
  shows "anc procs d p = Some x \<Longrightarrow> anc procs e p = Some y \<Longrightarrow> d < e \<Longrightarrow> rank y < rank x"
proof (induction e arbitrary: y)
  case (Suc e)
  then obtain z where z: "anc procs e p = Some z" "up procs z = Some y" by (cases "anc procs e p") auto
  from up_SomeD [OF assms(1) z(2)] assms(2) have "rank y < rank z" by auto
  moreover have "d = e \<or> d < e" using Suc.prems(3) by auto
  ultimately show ?case using Suc.IH [OF Suc.prems(1) z(1)] Suc.prems(1) z(1) by auto
qed simp

lemma anc_in:
  assumes "distinct (map info_pid procs)" and "p \<in> info_pid ` set procs" and "anc procs d p = Some x"
  shows "x \<in> info_pid ` set procs"
proof (cases d)
  case (Suc e)
  with assms(3) obtain z where "up procs z = Some x" by (cases "anc procs e p") auto
  from up_SomeD [OF assms(1) this] parent_of_pid show ?thesis by blast
qed (use assms in simp)

lemma anc_None_mono: "anc procs d p = None \<Longrightarrow> d \<le> e \<Longrightarrow> anc procs e p = None"
  by (induction e) (auto simp: le_Suc_eq)

text \<open>Going up from a listed process comes to an end, since the ranks fall.\<close>

lemma anc_ends:
  assumes "distinct (map info_pid procs)"
    and "\<forall>q \<in> set procs. \<forall>x. parent_of procs q = Some x \<longrightarrow> rank x < (rank (info_pid q) :: nat)"
    and "p \<in> info_pid ` set procs"
  shows "\<exists>d \<le> length procs. anc procs (Suc d) p = None"
proof (rule ccontr)
  assume no: "\<not> (\<exists>d \<le> length procs. anc procs (Suc d) p = None)"
  have n: "anc procs d p \<noteq> None" if "d \<le> length procs" for d
  proof
    assume "anc procs d p = None"
    then have "anc procs (Suc d) p = None" by simp
    with no that show False by blast
  qed
  define f where "f d = the (anc procs d p)" for d
  have f: "anc procs d p = Some (f d)" if "d \<le> length procs" for d
    using n [OF that] unfolding f_def by (rule option.collapse [symmetric])
  have "f d \<noteq> f e" if "d < e" "e \<le> length procs" for d e
    using anc_rank [OF assms(1,2) f f that(1)] that by fastforce
  then have "inj_on f {..length procs}" by (intro linorder_inj_onI) auto
  moreover have "f ` {..length procs} \<subseteq> info_pid ` set procs" using anc_in [OF assms(1,3) f] by blast
  ultimately have "card {..length procs} \<le> card (info_pid ` set procs)" by (metis card_image card_mono finite_imageI finite_set)
  also have "\<dots> \<le> length procs" by (metis card_image_le card_length finite_set order_trans)
  finally show False by simp
qed

lemma one_root:
  assumes "distinct (map info_pid procs)"
    and "\<forall>q \<in> set procs. \<forall>x. parent_of procs q = Some x \<longrightarrow> rank x < (rank (info_pid q) :: nat)"
    and "p \<in> info_pid ` set procs"
  shows "\<exists>d. {d. d \<le> length procs \<and>
    (\<exists>c \<in> set (filter (\<lambda>q. parent_of procs q = None) procs). anc procs d p = Some (info_pid c))} = {d}"
proof -
  from anc_ends [OF assms] obtain d0 where d0: "d0 \<le> length procs" "anc procs (Suc d0) p = None" by blast
  define d where "d = (LEAST d. anc procs (Suc d) p = None)"
  have d: "d \<le> length procs" "anc procs (Suc d) p = None"
    unfolding d_def by (rule order_trans [OF Least_le [where P = "\<lambda>d. anc procs (Suc d) p = None", OF d0(2)] d0(1)],
        rule LeastI [where P = "\<lambda>d. anc procs (Suc d) p = None", OF d0(2)])
  have least: "anc procs (Suc e) p \<noteq> None" if "e < d" for e
    using not_less_Least [OF that [unfolded d_def]] .
  have "\<exists>x. anc procs d p = Some x"
  proof (cases d)
    case (Suc e)
    with least [of e] show ?thesis by (simp del: anc.simps)
  qed simp
  then obtain x where x: "anc procs d p = Some x" by blast
  with d(2) have "up procs x = None" by simp
  from anc_in [OF assms(1,3) x] obtain q where q: "q \<in> set procs" "info_pid q = x" by auto
  with \<open>up procs x = None\<close> have root: "parent_of procs q = None" using up_info [OF assms(1), of q] by simp
  have "e = d" if e: "anc procs e p = Some (info_pid c)" and c: "c \<in> set procs" "parent_of procs c = None" for e c
  proof -
    have "anc procs (Suc e) p = None" using e up_info [OF assms(1) c(1)] c(2) by simp
    then have "\<not> e < d" using least by blast
    moreover have "\<not> d < e" using anc_None_mono [OF d(2), of e] e by (auto simp: Suc_le_eq)
    ultimately show ?thesis by simp
  qed
  with d(1) x q root show ?thesis by (intro exI [of _ d]) auto
qed

section \<open>The shape of the tree\<close>

lemma forest_pids:
  assumes "distinct (map info_pid procs)"
    and acyclic: "\<forall>q \<in> set procs. \<forall>x. parent_of procs q = Some x \<longrightarrow> rank x < (rank (info_pid q) :: nat)"
    and mk: "\<And>q. kProcessPidRole (mk q) = info_pid q"
  shows "mset (concat (map tree_pids (forest mk procs))) = mset (map info_pid procs)"
proof (rule multiset_eqI)
  fix p
  let ?roots = "filter (\<lambda>q. parent_of procs q = None) procs"
  let ?D = "{d. d \<le> length procs \<and> (\<exists>c \<in> set ?roots. anc procs d p = Some (info_pid c))}"
  have "count_list (concat (map tree_pids (forest mk procs))) p =
      sum_list (map (\<lambda>c. card {d. d \<le> length procs \<and> anc procs d p = Some (info_pid c)}) ?roots)"
    by (simp add: count_list_concat forest_def comp_def count_grow [OF assms(1) mk] mk)
  also have "\<dots> = card ?D" by (rule card_by_pid [OF distinct_filter_pids [OF assms(1)]])
  also have "\<dots> = count_list (map info_pid procs) p"
  proof (cases "p \<in> info_pid ` set procs")
    case True
    then have "count (mset (map info_pid procs)) p = 1"
      using assms(1) unfolding distinct_count_atmost_1 by simp
    then have "count_list (map info_pid procs) p = 1" by (simp only: count_mset)
    moreover from one_root [OF assms(1,2) True] have "card ?D = 1" by (metis is_singletonI' is_singleton_altdef is_singletonI)
    ultimately show ?thesis by simp
  next
    case False
    have "anc procs d p = Some x \<Longrightarrow> x = p \<and> d = 0" for d x
    proof (induction d arbitrary: x)
      case (Suc d)
      then obtain z where "anc procs d p = Some z" "up procs z = Some x" by (cases "anc procs d p") auto
      with Suc.IH up_SomeD [OF assms(1), of z x] False show ?case by auto
    qed simp
    with False have "?D = {}" by auto
    moreover have "count_list (map info_pid procs) p = 0" using False by (simp add: count_list_0_iff)
    ultimately show ?thesis by (simp only: card.empty)
  qed
  finally show "count (mset (concat (map tree_pids (forest mk procs)))) p = count (mset (map info_pid procs)) p"
    by (simp only: count_mset)
qed

definition tree_nodes :: "tree_item list \<Rightarrow> tree_item list" where
  "tree_nodes ts = concat (map nodes ts)"

lemma set_tree_nodes: "set (tree_nodes ts) = (\<Union>t \<in> set ts. set (nodes t))"
  by (simp add: tree_nodes_def)

lemma map_tree_pids: "concat (map tree_pids ts) = map (\<lambda>n. kProcessPidRole (item_data n)) (tree_nodes ts)"
  by (simp add: tree_nodes_def tree_pids_def [abs_def] map_concat comp_def)

lemma root_in_nodes: "t \<in> set (nodes t)"
  by (cases t) simp

lemma nodes_kid: "m \<in> set (nodes t) \<Longrightarrow> m = t \<or> (\<exists>n \<in> set (nodes t). m \<in> set (kids n))"
proof (induction t)
  case (Item d h e ks)
  then show ?case using root_in_nodes by fastforce
qed

text \<open>Every item of a grown tree is itself grown from a listed process.\<close>

lemma nodes_grow:
  "m \<in> set (nodes (grow mk procs n q)) \<Longrightarrow> q \<in> set procs \<Longrightarrow> \<exists>k. \<exists>c \<in> set procs. m = grow mk procs k c"
proof (induction n arbitrary: q)
  case 0
  then have "m = grow mk procs 0 q" by simp
  with "0.prems"(2) show ?case by blast
next
  case (Suc n)
  from Suc.prems(1) consider "m = grow mk procs (Suc n) q"
    | c where "c \<in> set (children_of procs (info_pid q))" "m \<in> set (nodes (grow mk procs n c))" by auto
  then show ?case
  proof cases
    case 1
    with Suc.prems(2) show ?thesis by blast
  next
    case 2
    then have "c \<in> set procs" by (simp add: children_of_def)
    with 2 Suc.IH show ?thesis by blast
  qed
qed

lemma nodes_forest: "m \<in> set (tree_nodes (forest mk procs)) \<Longrightarrow> \<exists>k. \<exists>c \<in> set procs. m = grow mk procs k c"
  by (auto simp: set_tree_nodes forest_def dest: nodes_grow)

lemma grow_data [simp]: "item_data (grow mk procs k c) = mk c"
  by (cases k) simp_all

lemma kids_grow: "kids (grow mk procs k c) = [] \<or>
    (\<exists>j. kids (grow mk procs k c) = map (grow mk procs j) (children_of procs (info_pid c)))"
  by (cases k) auto

text \<open>No process is its own ancestor: a rank falls from child to parent.\<close>

definition ranked :: "(u32 \<Rightarrow> nat) \<Rightarrow> process_info list \<Rightarrow> bool" where
  "ranked rank procs \<longleftrightarrow>
     (\<forall>p \<in> set procs. \<forall>q \<in> set procs.
        info_parent_pid q = info_pid p \<and> info_pid p \<noteq> info_pid q \<longrightarrow> rank (info_pid p) < rank (info_pid q))"

lemma ranked_parent_of:
  "ranked rank procs \<Longrightarrow> \<forall>q \<in> set procs. \<forall>x. parent_of procs q = Some x \<longrightarrow> rank x < rank (info_pid q)"
  unfolding ranked_def parent_of_def by (force split: if_splits)

lemma same_pid: "distinct (map info_pid procs) \<Longrightarrow> p \<in> set procs \<Longrightarrow> q \<in> set procs \<Longrightarrow> info_pid p = info_pid q \<Longrightarrow> p = q"
  by (simp add: distinct_map inj_on_def)

text \<open>Each process has one item, and the items of its children are below it.\<close>

lemma forest_shape:
  assumes d: "distinct (map info_pid procs)" and r: "ranked rank procs"
    and mk: "\<And>q. kProcessPidRole (mk q) = info_pid q"
  shows "mset (map item_data (tree_nodes (forest mk procs))) = mset (map mk procs)"
    and "n \<in> set (tree_nodes (forest mk procs)) \<Longrightarrow>
      map item_data (kids n) = map mk (children_of procs (kProcessPidRole (item_data n)))"
proof -
  let ?N = "tree_nodes (forest mk procs)" and ?pid = "\<lambda>n. kProcessPidRole (item_data n)"
  have pids: "mset (map ?pid ?N) = mset (map info_pid procs)"
    using forest_pids [OF d ranked_parent_of [OF r] mk] unfolding map_tree_pids .
  define data where "data p = mk (THE q. q \<in> set procs \<and> info_pid q = p)" for p
  have data: "data (info_pid q) = mk q" if "q \<in> set procs" for q
    unfolding data_def using that by (subst the_equality [of _ q]) (auto intro: same_pid [OF d])
  have "item_data n = data (?pid n)" if n: "n \<in> set ?N" for n
    using nodes_forest [OF n] data by (auto simp: mk)
  then have "map item_data ?N = map data (map ?pid ?N)" by simp
  then have "mset (map item_data ?N) = image_mset data (mset (map ?pid ?N))" by (simp only: mset_map)
  also have "\<dots> = mset (map data (map info_pid procs))" unfolding pids by (simp only: mset_map)
  also have "map data (map info_pid procs) = map mk procs" using data by simp
  finally show "mset (map item_data ?N) = mset (map mk procs)" .
  have one: "n = m" if "n \<in> set ?N" "m \<in> set ?N" "?pid n = ?pid m" for n m
  proof -
    have "distinct (map ?pid ?N)" using pids d by (metis mset_eq_imp_distinct_iff)
    with that show ?thesis by (auto simp: distinct_map dest: inj_onD)
  qed
  have child: "\<exists>j. kids n = map (grow mk procs j) (children_of procs (?pid n))"
    if n: "n \<in> set ?N" and c: "c \<in> set (children_of procs (?pid n))" for n c
  proof -
    have cp: "c \<in> set procs" "parent_of procs c = Some (?pid n)" using c by (simp_all add: children_of_def)
    have "info_pid c \<in># mset (map ?pid ?N)" unfolding pids using cp(1) by simp
    then obtain m where m: "m \<in> set ?N" "?pid m = info_pid c" by auto
    have "m \<notin> set (forest mk procs)"
    proof
      assume "m \<in> set (forest mk procs)"
      then obtain q where "q \<in> set procs" "parent_of procs q = None" "m = grow mk procs (length procs) q"
        by (auto simp: forest_def)
      with m(2) cp same_pid [OF d, of q c] show False by (simp add: mk)
    qed
    with m(1) obtain n' where n': "n' \<in> set ?N" "m \<in> set (kids n')"
      unfolding set_tree_nodes using nodes_kid by blast
    from nodes_forest [OF n'(1)] obtain k p where p: "p \<in> set procs" "n' = grow mk procs k p" by blast
    with kids_grow [of mk procs k p] n'(2) obtain j where
      j: "kids n' = map (grow mk procs j) (children_of procs (info_pid p))" by auto
    with n'(2) obtain c' where c': "c' \<in> set (children_of procs (info_pid p))" "m = grow mk procs j c'" by auto
    then have "c' = c" using m(2) cp(1) same_pid [OF d, of c' c] by (simp add: mk children_of_def)
    with c'(1) cp(2) have "?pid n = ?pid n'" using p(2) by (simp add: children_of_def mk)
    with one [OF n n'(1)] j p(2) show ?thesis by (auto simp: mk)
  qed
  show "map item_data (kids n) = map mk (children_of procs (?pid n))" if n: "n \<in> set ?N"
  proof (cases "children_of procs (?pid n)")
    case Nil
    from nodes_forest [OF n] obtain k p where p: "n = grow mk procs k p" by blast
    with kids_grow [of mk procs k p] Nil show ?thesis by (auto simp: mk)
  next
    case (Cons c cs)
    with child [OF n, of c] show ?thesis by auto
  qed
qed

text \<open>An item that is in the tree is found by its id.\<close>

lemma tree_pids_Item: "tree_pids (Item d h e ks) = kProcessPidRole d # concat (map tree_pids ks)"
  by (simp add: tree_pids_def [abs_def] map_concat comp_def)

lemma tree_nodes_Cons: "tree_nodes (Item d h e ks # ts) = Item d h e ks # tree_nodes ks @ tree_nodes ts"
  by (simp add: tree_nodes_def)

lemma find_item_SomeD: "find_item p ts = Some t \<Longrightarrow> t \<in> set (tree_nodes ts) \<and> kProcessPidRole (item_data t) = p"
  by (induction p ts rule: find_item.induct) (auto simp: tree_nodes_Cons split: option.splits if_splits)

lemma find_item_exists: "p \<in> set (concat (map tree_pids ts)) \<Longrightarrow> \<exists>t. find_item p ts = Some t"
proof (induction p ts rule: find_item.induct)
  case (2 p d h e ks ts)
  from "2.prems" consider "kProcessPidRole d = p" | "p \<in> set (concat (map tree_pids ks))" | "p \<in> set (concat (map tree_pids ts))"
    by (auto simp: tree_pids_Item)
  then show ?case
  proof cases
    case 2
    with "2.IH"(1) show ?thesis by (cases "kProcessPidRole d = p") auto
  next
    case 3
    with "2.IH"(2) show ?thesis by (cases "find_item p ks") auto
  qed simp
qed simp

text \<open>A new list selects the item of the process whose id is the selected one, wherever it is in the tree.\<close>

lemma OnProcessListReady_selects:
  assumes d: "distinct (map info_pid procs)" and r: "ranked rank procs"
    and mk: "\<And>q. kProcessPidRole (mk q) = info_pid q"
    and q: "q \<in> set procs" "to_uint (text0 (item_data sel)) = info_pid q"
  shows "\<exists>new_tree t. OnProcessListReady to_uint mk has filter_text procs old (Some sel) = (new_tree, Some t) \<and> item_data t = mk q"
proof -
  let ?F = "forest mk procs"
  define keep where "keep t = (if to_uint (text0 (item_data t)) \<in>
      set (map (\<lambda>t. to_uint (text0 (item_data t))) (filter expanded old))
    then Item (item_data t) (hidden t) True (kids t) else t)" for t
  have nk: "map item_data (nodes (keep t)) = map item_data (nodes t)" for t
    by (cases t) (simp add: keep_def)
  then have "map item_data (tree_nodes (map keep ts)) = map item_data (tree_nodes ts)" for ts
    by (induction ts) (simp_all add: tree_nodes_def)
  from arg_cong [OF this [of ?F], of set] mset_eq_setD [OF forest_shape(1) [OF d r mk]]
  have data: "item_data ` set (tree_nodes (map keep ?F)) = mk ` set procs" by simp
  have "mk q \<in> item_data ` set (tree_nodes (map keep ?F))" using q(1) unfolding data by (rule imageI)
  then obtain n where "n \<in> set (tree_nodes (map keep ?F))" "item_data n = mk q" by (metis imageE)
  then have "info_pid q \<in> set (concat (map tree_pids (map keep ?F)))" unfolding map_tree_pids set_map using mk [of q]
    by (metis image_eqI)
  from find_item_exists [OF this] obtain t where t: "find_item (info_pid q) (map keep ?F) = Some t" by blast
  from find_item_SomeD [OF t] have tn: "t \<in> set (tree_nodes (map keep ?F))" "kProcessPidRole (item_data t) = info_pid q"
    by simp_all
  from imageI [OF tn(1), of item_data] obtain c where "c \<in> set procs" "item_data t = mk c" unfolding data by blast
  moreover from this(2) tn(2) have "info_pid c = info_pid q" using mk [of c] by simp
  ultimately have "item_data t = mk q" using same_pid [OF d _ q(1)] by blast
  with t q show ?thesis
    by (simp add: OnProcessListReady_def Let_def keep_def [abs_def])
qed

section \<open>Properties\<close>

text \<open>
  The filter shows exactly the matching processes with their ancestors. Item by item, the filtered
  tree has the same data; an item is hidden exactly if neither it nor anything below it matches; and
  an item is expanded if it was, or if the filter is not empty and something below it matches.
\<close>

theorem filter_shows_matches:
  "list_all2 (\<lambda>n n'. item_data n' = item_data n \<and> hidden n' = (\<not> (\<exists>m \<in> set (nodes n). self_matches has txt m)) \<and>
      expanded n' = (expanded n \<or> txt \<noteq> [] \<and> (\<exists>k \<in> set (kids n). \<exists>m \<in> set (nodes k). self_matches has txt m)) \<and>
      length (kids n') = length (kids n))
    (concat (map nodes ts)) (concat (map nodes (OnProcessFilterChanged has txt ts)))"
proof -
  have "list_all2 (filter_ok has txt) (concat (map nodes ts)) (concat (map nodes (OnProcessFilterChanged has txt ts)))"
    by (induction ts) (simp_all add: OnProcessFilterChanged_def list_all2_appendI filter_ok_nodes)
  then show ?thesis unfolding filter_ok_def matches_below_def .
qed


text \<open>
  A cycle of parents is not shown. Process ids are reused, so a process can name as its parent the
  id of a process that came later. The processes of a set in which everyone's listed parent is again in
  the set appear nowhere in the tree.
\<close>

theorem parent_cycle_not_shown:
  assumes "\<forall>q \<in> set procs. info_pid q \<in> C \<longrightarrow> (\<exists>p \<in> C. parent_of procs q = Some p)"
    and "distinct (map info_pid procs)"
  shows "set (concat (map tree_pids (forest (item_of shown_number name_text) procs))) \<inter> C = {}"
proof -
  let ?mk = "item_of shown_number name_text"
  have mk: "kProcessPidRole (?mk q) = info_pid q" for q by (simp add: item_of_def)
  have "set (tree_pids (grow ?mk procs n q)) \<inter> C = {}" if "info_pid q \<notin> C" for n q
    using that
  proof (induction n arbitrary: q)
    case 0
    then show ?case by (simp add: tree_pids_def mk)
  next
    case (Suc n)
    have "info_pid c \<notin> C" if "c \<in> set (children_of procs (info_pid q))" for c
      using that Suc.prems assms(1) by (auto simp: children_of_def)
    with Suc show ?case by (auto simp: tree_pids_grow_Suc [OF mk] simp del: grow.simps)
  qed
  moreover have "info_pid q \<notin> C" if "q \<in> set procs" "parent_of procs q = None" for q
    using assms(1) that by auto
  ultimately show ?thesis by (auto simp: forest_def)
qed

definition sample_info :: "u32 \<Rightarrow> u32 \<Rightarrow> process_info" where
  "sample_info p pp = \<lparr>info_pid = p, info_parent_pid = pp, info_name = [], info_exe_path = [], info_creation_time = 1\<rparr>"


lemma parent_cycle_not_shown_witness:
  "set (concat (map tree_pids (forest (item_of (\<lambda>_. []) (\<lambda>_. [])) [sample_info 8 6, sample_info 6 8]))) \<inter> {6, 8} = {}"
  by (rule parent_cycle_not_shown) (simp_all add: sample_info_def parent_of_def)

end
