(* ===== verification/Hotkeys.thy ===== *)
theory Hotkeys
  imports Prelude
begin

text \<open>
  Global hotkeys: the manager with its low-level hooks and stored bindings (include/ui/HotkeyManager.h,
  src/ui/HotkeyManager.cpp) and the line edit that captures a binding (include/ui/HotkeyEdit.h). The
  hooks of the system, the settings store and the system's key names are parameters.
\<close>

unbundle bit_operations_syntax

section \<open>Codes of the Windows and Qt headers\<close>

abbreviation (input) MOD_ALT :: u32 where "MOD_ALT \<equiv> 1"
abbreviation (input) MOD_CONTROL :: u32 where "MOD_CONTROL \<equiv> 2"
abbreviation (input) MOD_SHIFT :: u32 where "MOD_SHIFT \<equiv> 4"

abbreviation (input) ShiftModifier :: u32 where "ShiftModifier \<equiv> 0x02000000"
abbreviation (input) ControlModifier :: u32 where "ControlModifier \<equiv> 0x04000000"
abbreviation (input) AltModifier :: u32 where "AltModifier \<equiv> 0x08000000"

abbreviation (input) VK_LBUTTON :: u32 where "VK_LBUTTON \<equiv> 0x01"
abbreviation (input) VK_RBUTTON :: u32 where "VK_RBUTTON \<equiv> 0x02"
abbreviation (input) VK_MBUTTON :: u32 where "VK_MBUTTON \<equiv> 0x04"
abbreviation (input) VK_XBUTTON1 :: u32 where "VK_XBUTTON1 \<equiv> 0x05"
abbreviation (input) VK_XBUTTON2 :: u32 where "VK_XBUTTON2 \<equiv> 0x06"
abbreviation (input) VK_BACK :: u32 where "VK_BACK \<equiv> 0x08"
abbreviation (input) VK_TAB :: u32 where "VK_TAB \<equiv> 0x09"
abbreviation (input) VK_RETURN :: u32 where "VK_RETURN \<equiv> 0x0D"
abbreviation (input) VK_SHIFT :: u32 where "VK_SHIFT \<equiv> 0x10"
abbreviation (input) VK_CONTROL :: u32 where "VK_CONTROL \<equiv> 0x11"
abbreviation (input) VK_MENU :: u32 where "VK_MENU \<equiv> 0x12"
abbreviation (input) VK_ESCAPE :: u32 where "VK_ESCAPE \<equiv> 0x1B"
abbreviation (input) VK_SPACE :: u32 where "VK_SPACE \<equiv> 0x20"
abbreviation (input) VK_PRIOR :: u32 where "VK_PRIOR \<equiv> 0x21"
abbreviation (input) VK_NEXT :: u32 where "VK_NEXT \<equiv> 0x22"
abbreviation (input) VK_END :: u32 where "VK_END \<equiv> 0x23"
abbreviation (input) VK_HOME :: u32 where "VK_HOME \<equiv> 0x24"
abbreviation (input) VK_LEFT :: u32 where "VK_LEFT \<equiv> 0x25"
abbreviation (input) VK_UP :: u32 where "VK_UP \<equiv> 0x26"
abbreviation (input) VK_RIGHT :: u32 where "VK_RIGHT \<equiv> 0x27"
abbreviation (input) VK_DOWN :: u32 where "VK_DOWN \<equiv> 0x28"
abbreviation (input) VK_INSERT :: u32 where "VK_INSERT \<equiv> 0x2D"
abbreviation (input) VK_DELETE :: u32 where "VK_DELETE \<equiv> 0x2E"
abbreviation (input) VK_F1 :: u32 where "VK_F1 \<equiv> 0x70"
abbreviation (input) VK_F24 :: u32 where "VK_F24 \<equiv> 0x87"
abbreviation (input) VK_LSHIFT :: u32 where "VK_LSHIFT \<equiv> 0xA0"
abbreviation (input) VK_RSHIFT :: u32 where "VK_RSHIFT \<equiv> 0xA1"
abbreviation (input) VK_LCONTROL :: u32 where "VK_LCONTROL \<equiv> 0xA2"
abbreviation (input) VK_RCONTROL :: u32 where "VK_RCONTROL \<equiv> 0xA3"
abbreviation (input) VK_LMENU :: u32 where "VK_LMENU \<equiv> 0xA4"
abbreviation (input) VK_RMENU :: u32 where "VK_RMENU \<equiv> 0xA5"
abbreviation (input) VK_OEM_1 :: u32 where "VK_OEM_1 \<equiv> 0xBA"
abbreviation (input) VK_OEM_PLUS :: u32 where "VK_OEM_PLUS \<equiv> 0xBB"
abbreviation (input) VK_OEM_COMMA :: u32 where "VK_OEM_COMMA \<equiv> 0xBC"
abbreviation (input) VK_OEM_MINUS :: u32 where "VK_OEM_MINUS \<equiv> 0xBD"
abbreviation (input) VK_OEM_PERIOD :: u32 where "VK_OEM_PERIOD \<equiv> 0xBE"
abbreviation (input) VK_OEM_2 :: u32 where "VK_OEM_2 \<equiv> 0xBF"
abbreviation (input) VK_OEM_3 :: u32 where "VK_OEM_3 \<equiv> 0xC0"
abbreviation (input) VK_OEM_4 :: u32 where "VK_OEM_4 \<equiv> 0xDB"
abbreviation (input) VK_OEM_5 :: u32 where "VK_OEM_5 \<equiv> 0xDC"
abbreviation (input) VK_OEM_6 :: u32 where "VK_OEM_6 \<equiv> 0xDD"
abbreviation (input) VK_OEM_7 :: u32 where "VK_OEM_7 \<equiv> 0xDE"

abbreviation (input) Key_Space :: int where "Key_Space \<equiv> 0x20"
abbreviation (input) Key_Apostrophe :: int where "Key_Apostrophe \<equiv> 0x27"
abbreviation (input) Key_Plus :: int where "Key_Plus \<equiv> 0x2b"
abbreviation (input) Key_Comma :: int where "Key_Comma \<equiv> 0x2c"
abbreviation (input) Key_Minus :: int where "Key_Minus \<equiv> 0x2d"
abbreviation (input) Key_Period :: int where "Key_Period \<equiv> 0x2e"
abbreviation (input) Key_Slash :: int where "Key_Slash \<equiv> 0x2f"
abbreviation (input) Key_0 :: int where "Key_0 \<equiv> 0x30"
abbreviation (input) Key_9 :: int where "Key_9 \<equiv> 0x39"
abbreviation (input) Key_Semicolon :: int where "Key_Semicolon \<equiv> 0x3b"
abbreviation (input) Key_A :: int where "Key_A \<equiv> 0x41"
abbreviation (input) Key_Z :: int where "Key_Z \<equiv> 0x5a"
abbreviation (input) Key_BracketLeft :: int where "Key_BracketLeft \<equiv> 0x5b"
abbreviation (input) Key_Backslash :: int where "Key_Backslash \<equiv> 0x5c"
abbreviation (input) Key_BracketRight :: int where "Key_BracketRight \<equiv> 0x5d"
abbreviation (input) Key_QuoteLeft :: int where "Key_QuoteLeft \<equiv> 0x60"
abbreviation (input) Key_Escape :: int where "Key_Escape \<equiv> 0x01000000"
abbreviation (input) Key_Tab :: int where "Key_Tab \<equiv> 0x01000001"
abbreviation (input) Key_Backspace :: int where "Key_Backspace \<equiv> 0x01000003"
abbreviation (input) Key_Return :: int where "Key_Return \<equiv> 0x01000004"
abbreviation (input) Key_Enter :: int where "Key_Enter \<equiv> 0x01000005"
abbreviation (input) Key_Insert :: int where "Key_Insert \<equiv> 0x01000006"
abbreviation (input) Key_Delete :: int where "Key_Delete \<equiv> 0x01000007"
abbreviation (input) Key_Home :: int where "Key_Home \<equiv> 0x01000010"
abbreviation (input) Key_End :: int where "Key_End \<equiv> 0x01000011"
abbreviation (input) Key_Left :: int where "Key_Left \<equiv> 0x01000012"
abbreviation (input) Key_Up :: int where "Key_Up \<equiv> 0x01000013"
abbreviation (input) Key_Right :: int where "Key_Right \<equiv> 0x01000014"
abbreviation (input) Key_Down :: int where "Key_Down \<equiv> 0x01000015"
abbreviation (input) Key_PageUp :: int where "Key_PageUp \<equiv> 0x01000016"
abbreviation (input) Key_PageDown :: int where "Key_PageDown \<equiv> 0x01000017"
abbreviation (input) Key_F1 :: int where "Key_F1 \<equiv> 0x01000030"
abbreviation (input) Key_F24 :: int where "Key_F24 \<equiv> 0x01000047"

abbreviation (input) WM_KEYDOWN :: nat where "WM_KEYDOWN \<equiv> 0x100"
abbreviation (input) WM_SYSKEYDOWN :: nat where "WM_SYSKEYDOWN \<equiv> 0x104"
abbreviation (input) WM_LBUTTONDOWN :: nat where "WM_LBUTTONDOWN \<equiv> 0x201"
abbreviation (input) WM_RBUTTONDOWN :: nat where "WM_RBUTTONDOWN \<equiv> 0x204"
abbreviation (input) WM_MBUTTONDOWN :: nat where "WM_MBUTTONDOWN \<equiv> 0x207"
abbreviation (input) WM_XBUTTONDOWN :: nat where "WM_XBUTTONDOWN \<equiv> 0x20B"

section \<open>Key and modifier codes\<close>

definition QtKeyToVk :: "int \<Rightarrow> u32" where
  "QtKeyToVk key =
     (if Key_0 \<le> key \<and> key \<le> Key_9 then of_int key
      else if Key_A \<le> key \<and> key \<le> Key_Z then of_int key
      else if Key_F1 \<le> key \<and> key \<le> Key_F24 then VK_F1 + of_int (key - Key_F1)
      else if key = Key_Space then VK_SPACE
      else if key = Key_Return \<or> key = Key_Enter then VK_RETURN
      else if key = Key_Escape then VK_ESCAPE
      else if key = Key_Tab then VK_TAB
      else if key = Key_Backspace then VK_BACK
      else if key = Key_Delete then VK_DELETE
      else if key = Key_Insert then VK_INSERT
      else if key = Key_Home then VK_HOME
      else if key = Key_End then VK_END
      else if key = Key_PageUp then VK_PRIOR
      else if key = Key_PageDown then VK_NEXT
      else if key = Key_Up then VK_UP
      else if key = Key_Down then VK_DOWN
      else if key = Key_Left then VK_LEFT
      else if key = Key_Right then VK_RIGHT
      else if key = Key_Plus then VK_OEM_PLUS
      else if key = Key_Minus then VK_OEM_MINUS
      else if key = Key_BracketLeft then VK_OEM_4
      else if key = Key_BracketRight then VK_OEM_6
      else if key = Key_Semicolon then VK_OEM_1
      else if key = Key_Apostrophe then VK_OEM_7
      else if key = Key_Comma then VK_OEM_COMMA
      else if key = Key_Period then VK_OEM_PERIOD
      else if key = Key_Slash then VK_OEM_2
      else if key = Key_Backslash then VK_OEM_5
      else if key = Key_QuoteLeft then VK_OEM_3
      else 0)"

definition VkToQtKey :: "u32 \<Rightarrow> int" where
  "VkToQtKey vk =
     (if 0x30 \<le> vk \<and> vk \<le> 0x39 then Key_0 + uint (vk - 0x30)
      else if 0x41 \<le> vk \<and> vk \<le> 0x5A then Key_A + uint (vk - 0x41)
      else if VK_F1 \<le> vk \<and> vk \<le> VK_F24 then Key_F1 + uint (vk - VK_F1)
      else if vk = VK_SPACE then Key_Space
      else if vk = VK_RETURN then Key_Return
      else if vk = VK_ESCAPE then Key_Escape
      else if vk = VK_TAB then Key_Tab
      else if vk = VK_BACK then Key_Backspace
      else if vk = VK_DELETE then Key_Delete
      else if vk = VK_INSERT then Key_Insert
      else if vk = VK_HOME then Key_Home
      else if vk = VK_END then Key_End
      else if vk = VK_PRIOR then Key_PageUp
      else if vk = VK_NEXT then Key_PageDown
      else if vk = VK_UP then Key_Up
      else if vk = VK_DOWN then Key_Down
      else if vk = VK_LEFT then Key_Left
      else if vk = VK_RIGHT then Key_Right
      else if vk = VK_OEM_PLUS then Key_Plus
      else if vk = VK_OEM_MINUS then Key_Minus
      else if vk = VK_OEM_4 then Key_BracketLeft
      else if vk = VK_OEM_6 then Key_BracketRight
      else if vk = VK_OEM_1 then Key_Semicolon
      else if vk = VK_OEM_7 then Key_Apostrophe
      else if vk = VK_OEM_COMMA then Key_Comma
      else if vk = VK_OEM_PERIOD then Key_Period
      else if vk = VK_OEM_2 then Key_Slash
      else if vk = VK_OEM_5 then Key_Backslash
      else if vk = VK_OEM_3 then Key_QuoteLeft
      else 0)"

definition or_if :: "bool \<Rightarrow> u32 \<Rightarrow> u32 \<Rightarrow> u32" where
  "or_if b m r = (if b then r OR m else r)"

definition QtModsToWin32 :: "u32 \<Rightarrow> u32" where
  "QtModsToWin32 mods =
     (let result = 0;
          result = or_if (mods AND ControlModifier \<noteq> 0) MOD_CONTROL result;
          result = or_if (mods AND AltModifier \<noteq> 0) MOD_ALT result
      in or_if (mods AND ShiftModifier \<noteq> 0) MOD_SHIFT result)"

definition Win32ModsToQt :: "u32 \<Rightarrow> u32" where
  "Win32ModsToQt mods =
     (let result = 0;
          result = or_if (mods AND MOD_CONTROL \<noteq> 0) ControlModifier result;
          result = or_if (mods AND MOD_ALT \<noteq> 0) AltModifier result
      in or_if (mods AND MOD_SHIFT \<noteq> 0) ShiftModifier result)"

section \<open>Bindings\<close>

datatype hotkey_action =
    kToggleEffects | kIncrementDelay | kDecrementDelay | kIncrementDropRate | kDecrementDropRate | kActionCount

fun action_index :: "hotkey_action \<Rightarrow> nat" where
  "action_index kToggleEffects = 0"
| "action_index kIncrementDelay = 1"
| "action_index kDecrementDelay = 2"
| "action_index kIncrementDropRate = 3"
| "action_index kDecrementDropRate = 4"
| "action_index kActionCount = 5"

definition kHotkeyActionCount :: nat where
  "kHotkeyActionCount = action_index kActionCount"

definition all_actions :: "hotkey_action list" where
  "all_actions = [kToggleEffects, kIncrementDelay, kDecrementDelay, kIncrementDropRate, kDecrementDropRate]"

record hotkey_binding =
  modifiers :: u32
  vk :: u32

definition no_binding :: hotkey_binding where
  "no_binding = \<lparr>modifiers = 0, vk = 0\<rparr>"

definition IsValid :: "hotkey_binding \<Rightarrow> bool" where
  "IsValid b \<longleftrightarrow> vk b \<noteq> 0"

text \<open>A key sequence is the list of its chords, each a key with its modifiers.\<close>

definition FromKeySequence :: "(int \<times> u32) list \<Rightarrow> hotkey_binding" where
  "FromKeySequence chords =
     (case chords of
        [] \<Rightarrow> no_binding
      | (key, mods) # _ \<Rightarrow> \<lparr>modifiers = QtModsToWin32 mods, vk = QtKeyToVk key\<rparr>)"

definition ToKeySequence :: "hotkey_binding \<Rightarrow> (int \<times> u32) list" where
  "ToKeySequence b =
     (if \<not> IsValid b then []
      else let qt_key = VkToQtKey (vk b) in
        if qt_key = 0 then [] else [(qt_key, Win32ModsToQt (modifiers b))])"

section \<open>The system\<close>

datatype hook_kind = WH_KEYBOARD_LL | WH_MOUSE_LL

text \<open>
  Installing and removing hooks; \<open>live_hooks\<close> is the set of installed hooks. The laws say that an
  installed hook is new and that removing a hook removes that one.
\<close>

record ('h, 'o) hook_ops =
  SetWindowsHookEx :: "hook_kind \<Rightarrow> 'o \<Rightarrow> 'h option \<times> 'o"
  UnhookWindowsHookEx :: "'h \<Rightarrow> 'o \<Rightarrow> 'o"
  live_hooks :: "'o \<Rightarrow> 'h set"

definition hook_lawful :: "('h, 'o) hook_ops \<Rightarrow> bool" where
  "hook_lawful H \<longleftrightarrow>
     (\<forall>k w. case SetWindowsHookEx H k w of
        (None, w') \<Rightarrow> live_hooks H w' = live_hooks H w
      | (Some h, w') \<Rightarrow> h \<notin> live_hooks H w \<and> live_hooks H w' = insert h (live_hooks H w)) \<and>
     (\<forall>h w. live_hooks H (UnhookWindowsHookEx H h w) = live_hooks H w - {h})"

text \<open>The settings store, with unsigned values under string keys.\<close>

record 's settings_ops =
  set_value :: "string \<Rightarrow> u32 \<Rightarrow> 's \<Rightarrow> 's"
  get_value :: "string \<Rightarrow> u32 \<Rightarrow> 's \<Rightarrow> u32"

definition settings_lawful :: "'s settings_ops \<Rightarrow> bool" where
  "settings_lawful S \<longleftrightarrow>
     (\<forall>k x s k' d. get_value S k' d (set_value S k x s) = (if k' = k then x else get_value S k' d s))"

section \<open>The manager\<close>

record 'h hotkey_manager =
  bindings :: "hotkey_binding list"
  registered :: bool
  has_instance :: bool
  keyboard_hook :: "'h option"
  mouse_hook :: "'h option"

text \<open>The member defaults, and the class's static hooks before any manager exists.\<close>

definition hotkey_manager_blank :: "'h hotkey_manager" where
  "hotkey_manager_blank =
     \<lparr>bindings = replicate kHotkeyActionCount no_binding, registered = False, has_instance = False,
      keyboard_hook = None, mouse_hook = None\<rparr>"

fun ActionToSettingsKey :: "hotkey_action \<Rightarrow> string" where
  "ActionToSettingsKey kToggleEffects = ''ToggleEffects''"
| "ActionToSettingsKey kIncrementDelay = ''IncrementDelay''"
| "ActionToSettingsKey kDecrementDelay = ''DecrementDelay''"
| "ActionToSettingsKey kIncrementDropRate = ''IncrementDropRate''"
| "ActionToSettingsKey kDecrementDropRate = ''DecrementDropRate''"
| "ActionToSettingsKey kActionCount = ''Unknown''"

definition mods_key :: "hotkey_action \<Rightarrow> string" where
  "mods_key a = ''Hotkeys/'' @ ActionToSettingsKey a @ ''_mods''"

definition vk_key :: "hotkey_action \<Rightarrow> string" where
  "vk_key a = ''Hotkeys/'' @ ActionToSettingsKey a @ ''_vk''"

definition SaveSettings :: "'s settings_ops \<Rightarrow> 'h hotkey_manager \<Rightarrow> 's \<Rightarrow> 's" where
  "SaveSettings S m =
     fold (\<lambda>a s. let b = bindings m ! action_index a
                 in set_value S (vk_key a) (vk b) (set_value S (mods_key a) (modifiers b) s)) all_actions"

definition LoadSettings :: "'s settings_ops \<Rightarrow> 's \<Rightarrow> 'h hotkey_manager \<Rightarrow> 'h hotkey_manager" where
  "LoadSettings S s =
     fold (\<lambda>a m. m\<lparr>bindings := (bindings m)[action_index a :=
              \<lparr>modifiers = get_value S (mods_key a) 0 s, vk = get_value S (vk_key a) 0 s\<rparr>]\<rparr>) all_actions"

text \<open>The destructor of a \<open>UniqueHook\<close>.\<close>

definition close_hook :: "('h, 'o) hook_ops \<Rightarrow> 'h option \<Rightarrow> 'o \<Rightarrow> 'o" where
  "close_hook H h w = (case h of None \<Rightarrow> w | Some h \<Rightarrow> UnhookWindowsHookEx H h w)"

definition RemoveHooks :: "('h, 'o) hook_ops \<Rightarrow> 'h hotkey_manager \<times> 'o \<Rightarrow> 'h hotkey_manager \<times> 'o" where
  "RemoveHooks H = (\<lambda>(m, w).
     (m\<lparr>keyboard_hook := None, mouse_hook := None, registered := False\<rparr>,
      close_hook H (mouse_hook m) (close_hook H (keyboard_hook m) w)))"

definition InstallHooks :: "('h, 'o) hook_ops \<Rightarrow> 'h hotkey_manager \<times> 'o \<Rightarrow> 'h hotkey_manager \<times> 'o" where
  "InstallHooks H mw =
     (let (m, w) = RemoveHooks H mw;
          (kb, w) = SetWindowsHookEx H WH_KEYBOARD_LL w;
          (mouse, w) = SetWindowsHookEx H WH_MOUSE_LL w
      in if kb = None \<or> mouse = None then
           (m\<lparr>keyboard_hook := None, mouse_hook := None, registered := False\<rparr>,
            close_hook H kb (close_hook H mouse w))
         else (m\<lparr>keyboard_hook := kb, mouse_hook := mouse, registered := True\<rparr>, w))"

text \<open>The constructor and the destructor.\<close>

definition HotkeyManager_new ::
  "('h, 'o) hook_ops \<Rightarrow> 's settings_ops \<Rightarrow> 's \<Rightarrow> 'o \<Rightarrow> 'h hotkey_manager \<times> 'o" where
  "HotkeyManager_new H S s w =
     InstallHooks H (LoadSettings S s (hotkey_manager_blank\<lparr>has_instance := True\<rparr>), w)"

definition HotkeyManager_destroy :: "('h, 'o) hook_ops \<Rightarrow> 'h hotkey_manager \<times> 'o \<Rightarrow> 'h hotkey_manager \<times> 'o" where
  "HotkeyManager_destroy H = (\<lambda>(m, w). RemoveHooks H (m\<lparr>has_instance := False\<rparr>, w))"

definition SetBinding ::
  "('h, 'o) hook_ops \<Rightarrow> 's settings_ops \<Rightarrow> hotkey_action \<Rightarrow> hotkey_binding \<Rightarrow>
   'h hotkey_manager \<times> 'o \<times> 's \<Rightarrow> 'h hotkey_manager \<times> 'o \<times> 's" where
  "SetBinding H S a b = (\<lambda>(m, w, s).
     let index = action_index a in
     if index \<ge> kHotkeyActionCount then (m, w, s)
     else
       let was_registered = registered m;
           (m, w) = (if was_registered then RemoveHooks H (m, w) else (m, w));
           m = m\<lparr>bindings := (bindings m)[index := b]\<rparr>;
           (m, w) = (if was_registered then InstallHooks H (m, w) else (m, w))
       in (m, w, SaveSettings S m s))"

definition GetBinding :: "hotkey_action \<Rightarrow> 'h hotkey_manager \<Rightarrow> hotkey_binding" where
  "GetBinding a m =
     (let index = action_index a in if index \<ge> kHotkeyActionCount then no_binding else bindings m ! index)"

section \<open>Triggering\<close>

text \<open>\<open>key_state vk\<close> is what \<open>GetAsyncKeyState\<close> answers.\<close>

definition GetCurrentModifiers :: "(u32 \<Rightarrow> u16) \<Rightarrow> u32" where
  "GetCurrentModifiers key_state =
     (let mods = 0;
          mods = or_if (key_state VK_CONTROL AND 0x8000 \<noteq> 0) MOD_CONTROL mods;
          mods = or_if (key_state VK_SHIFT AND 0x8000 \<noteq> 0) MOD_SHIFT mods
      in or_if (key_state VK_MENU AND 0x8000 \<noteq> 0) MOD_ALT mods)"

text \<open>The windows are handles, none being the null handle; the result is the signals in their order.\<close>

definition CheckAndTrigger ::
  "'w option \<Rightarrow> 'w option \<Rightarrow> u32 \<Rightarrow> u32 \<Rightarrow> 'h hotkey_manager \<Rightarrow> hotkey_action list" where
  "CheckAndTrigger foreground_win my_win key mods m =
     (if foreground_win = my_win then []
      else filter (\<lambda>a. let b = bindings m ! action_index a
                       in IsValid b \<and> vk b = key \<and> modifiers b = mods) all_actions)"

definition is_modifier_key :: "u32 \<Rightarrow> bool" where
  "is_modifier_key key \<longleftrightarrow>
     key = VK_CONTROL \<or> key = VK_SHIFT \<or> key = VK_MENU \<or> key = VK_LCONTROL \<or> key = VK_RCONTROL \<or>
     key = VK_LSHIFT \<or> key = VK_RSHIFT \<or> key = VK_LMENU \<or> key = VK_RMENU"

text \<open>The hooks; both always pass the event on to the next hook.\<close>

definition KeyboardHookProc ::
  "'w option \<Rightarrow> 'w option \<Rightarrow> (u32 \<Rightarrow> u16) \<Rightarrow> int \<Rightarrow> nat \<Rightarrow> u32 \<Rightarrow> 'h hotkey_manager \<Rightarrow> hotkey_action list" where
  "KeyboardHookProc fg my key_state n_code w_param key m =
     (if n_code \<ge> 0 \<and> (w_param = WM_KEYDOWN \<or> w_param = WM_SYSKEYDOWN) \<and> has_instance m then
        (if \<not> is_modifier_key key then CheckAndTrigger fg my key (GetCurrentModifiers key_state) m else [])
      else [])"

text \<open>\<open>x_button\<close> is the high word of the hook structure's \<open>mouseData\<close>.\<close>

definition mouse_vk :: "nat \<Rightarrow> u16 \<Rightarrow> u32" where
  "mouse_vk w_param x_button =
     (if w_param = WM_LBUTTONDOWN then VK_LBUTTON
      else if w_param = WM_RBUTTONDOWN then VK_RBUTTON
      else if w_param = WM_MBUTTONDOWN then VK_MBUTTON
      else if w_param = WM_XBUTTONDOWN then (if x_button = 1 then VK_XBUTTON1 else VK_XBUTTON2)
      else 0)"

definition MouseHookProc ::
  "'w option \<Rightarrow> 'w option \<Rightarrow> (u32 \<Rightarrow> u16) \<Rightarrow> int \<Rightarrow> nat \<Rightarrow> u16 \<Rightarrow> 'h hotkey_manager \<Rightarrow> hotkey_action list" where
  "MouseHookProc fg my key_state n_code w_param x_button m =
     (if n_code \<ge> 0 \<and> has_instance m then
        (let key = mouse_vk w_param x_button
         in if key \<noteq> 0 then CheckAndTrigger fg my key (GetCurrentModifiers key_state) m else [])
      else [])"

section \<open>The line edit that captures a binding\<close>

record hotkey_edit =
  edit_binding :: hotkey_binding
  edit_text :: string

text \<open>The system's names of keys: the scan code, the name of a key, and a number in decimal.\<close>

record key_names =
  MapVirtualKeyW :: "u32 \<Rightarrow> u32"
  GetKeyNameTextW :: "u32 \<Rightarrow> string option"
  number :: "u32 \<Rightarrow> string"

fun join_plus :: "string list \<Rightarrow> string" where
  "join_plus [] = ''''"
| "join_plus [p] = p"
| "join_plus (p # ps) = p @ ''+'' @ join_plus ps"

definition key_part :: "key_names \<Rightarrow> u32 \<Rightarrow> string" where
  "key_part N key =
     (if key = VK_LBUTTON then ''Left Click''
      else if key = VK_RBUTTON then ''Right Click''
      else if key = VK_MBUTTON then ''Middle Click''
      else if key = VK_XBUTTON1 then ''Mouse 4''
      else if key = VK_XBUTTON2 then ''Mouse 5''
      else (case GetKeyNameTextW N (push_bit 16 (MapVirtualKeyW N key)) of
              Some name \<Rightarrow> name
            | None \<Rightarrow> number N key))"

definition BindingToString :: "key_names \<Rightarrow> hotkey_binding \<Rightarrow> string" where
  "BindingToString N b =
     (if \<not> IsValid b then ''''
      else join_plus
        ((if modifiers b AND MOD_CONTROL \<noteq> 0 then [''Ctrl''] else []) @
         (if modifiers b AND MOD_ALT \<noteq> 0 then [''Alt''] else []) @
         (if modifiers b AND MOD_SHIFT \<noteq> 0 then [''Shift''] else []) @ [key_part N (vk b)]))"

definition edit_SetBinding :: "key_names \<Rightarrow> hotkey_binding \<Rightarrow> hotkey_edit \<Rightarrow> hotkey_edit" where
  "edit_SetBinding N b e = e\<lparr>edit_binding := b, edit_text := BindingToString N b\<rparr>"

text \<open>The modifiers of an event; both handlers compute them the same way.\<close>

definition event_mods :: "u32 \<Rightarrow> u32" where
  "event_mods mods =
     (let hotkey_mods = 0;
          hotkey_mods = or_if (mods AND ControlModifier \<noteq> 0) MOD_CONTROL hotkey_mods;
          hotkey_mods = or_if (mods AND ShiftModifier \<noteq> 0) MOD_SHIFT hotkey_mods
      in or_if (mods AND AltModifier \<noteq> 0) MOD_ALT hotkey_mods)"

datatype mouse_button = LeftButton | RightButton | MiddleButton | XButton1 | XButton2 | OtherButton

text \<open>The handlers return the signals \<open>BindingChanged\<close> they emit.\<close>

definition mousePressEvent ::
  "key_names \<Rightarrow> mouse_button \<Rightarrow> u32 \<Rightarrow> hotkey_edit \<Rightarrow> hotkey_edit \<times> hotkey_binding list" where
  "mousePressEvent N button mods e =
     (case (case button of XButton1 \<Rightarrow> Some VK_XBUTTON1 | XButton2 \<Rightarrow> Some VK_XBUTTON2 | _ \<Rightarrow> None) of
        None \<Rightarrow> (e, [])
      | Some key \<Rightarrow>
          (let b = \<lparr>modifiers = event_mods mods, vk = key\<rparr> in (edit_SetBinding N b e, [b])))"

definition keyPressEvent ::
  "key_names \<Rightarrow> u32 \<Rightarrow> u32 \<Rightarrow> hotkey_edit \<Rightarrow> hotkey_edit \<times> hotkey_binding list" where
  "keyPressEvent N key mods e =
     (if is_modifier_key key then (e, [])
      else
        (let hotkey_mods = event_mods mods in
         if key = VK_ESCAPE \<and> hotkey_mods = 0 then
           (e\<lparr>edit_binding := no_binding, edit_text := ''''\<rparr>, [no_binding])
         else
           (let b = \<lparr>modifiers = hotkey_mods, vk = key\<rparr> in (edit_SetBinding N b e, [b]))))"

text \<open>The clear button beside an edit, and the button that clears all five.\<close>

definition clear_edit :: "key_names \<Rightarrow> hotkey_edit \<Rightarrow> hotkey_edit \<times> hotkey_binding list" where
  "clear_edit N e = (edit_SetBinding N no_binding e, [no_binding])"

text \<open>The edit of an action is connected to the manager: every signal stores the binding.\<close>

definition store_signals ::
  "('h, 'o) hook_ops \<Rightarrow> 's settings_ops \<Rightarrow> hotkey_action \<Rightarrow> hotkey_binding list \<Rightarrow>
   'h hotkey_manager \<times> 'o \<times> 's \<Rightarrow> 'h hotkey_manager \<times> 'o \<times> 's" where
  "store_signals H S a bs st = fold (SetBinding H S a) bs st"

definition clear_all_edits ::
  "('h, 'o) hook_ops \<Rightarrow> 's settings_ops \<Rightarrow> 'h hotkey_manager \<times> 'o \<times> 's \<Rightarrow> 'h hotkey_manager \<times> 'o \<times> 's" where
  "clear_all_edits H S = fold (\<lambda>a. store_signals H S a [no_binding]) all_actions"

end
