(* ===== verification/Effect_Controls.thy ===== *)
theory Effect_Controls
  imports Effect_Config Hotkeys
begin

text \<open>
  The effect controls of the main window (\<open>SetupUi\<close> and \<open>OnHotkeyTriggered\<close> in src/ui/MainWindow.cpp):
  sliders and spin boxes that follow each other, shared and per-direction controls, the check boxes that
  switch between them, and what all of them write into the effect configuration.
\<close>

section \<open>Widgets\<close>

text \<open>
  The widgets come in rows; a row has a shared control and one for each direction, and every
  control is a slider with a spin box.
\<close>

datatype row = DelayRow | JitterRow | ThrottleRow | DropRow | BurstChanceRow | BurstLengthRow | DuplicateRow | CopiesRow

datatype side = Shared | OutSide | InSide

text \<open>
  What Qt answers when a value is set on a widget with a range: the value it has then, and whether it
  emits \<open>valueChanged\<close>. Its documentation says that the value is moved into the range and that
  the signal is emitted when the value changes.
\<close>

type_synonym qt_set = "int \<times> int \<Rightarrow> int \<Rightarrow> int \<Rightarrow> int \<times> bool"

definition qt_lawful :: "qt_set \<Rightarrow> bool" where
  "qt_lawful Q \<longleftrightarrow> (\<forall>lo hi old v. lo \<le> hi \<longrightarrow> Q (lo, hi) old v = (clamp_int v lo hi, clamp_int v lo hi \<noteq> old))"

fun row_range :: "row \<Rightarrow> int \<times> int" where
  "row_range DelayRow = (0, 1000)"
| "row_range JitterRow = (0, kMaxDelayJitterMs)"
| "row_range ThrottleRow = (0, kMaxThrottleKBytesPerSec)"
| "row_range DropRow = (0, 100)"
| "row_range BurstChanceRow = (0, 100)"
| "row_range BurstLengthRow = (1, kMaxBurstDropLength)"
| "row_range DuplicateRow = (0, 100)"
| "row_range CopiesRow = (kDefaultDuplicateCopies, kMaxDuplicateCopies)"

text \<open>
  The window's part with these controls: values, check boxes, which shared controls are enabled, which
  containers with directional controls are visible, the steps of the hotkeys, and the configuration.
\<close>

record effect_panel =
  slider :: "row \<Rightarrow> side \<Rightarrow> int"
  spinbox :: "row \<Rightarrow> side \<Rightarrow> int"
  asymmetric :: "row \<Rightarrow> bool"
  burst_checked :: bool
  custom_copies :: bool
  shared_enabled :: "row \<Rightarrow> bool"
  drop_asymmetric_enabled :: bool
  directions_visible :: "row \<Rightarrow> bool"
  burst_controls_visible :: bool
  copies_controls_visible :: bool
  delay_step :: int
  drop_step :: int
  panel_effects :: effect_config

fun initial_value :: "row \<Rightarrow> int" where
  "initial_value BurstLengthRow = kDefaultBurstDropLength"
| "initial_value CopiesRow = kDefaultDuplicateCopies"
| "initial_value _ = 0"

section \<open>What a control writes\<close>

text \<open>
  \<open>static_cast<float>(value) / 100.0F\<close>: the quotient rounded to 24 significant bits, halves to even.
  The sliders hold 0 to 100; the exponent is found by doubling.
\<close>

fun binexp :: "nat \<Rightarrow> int \<Rightarrow> nat \<Rightarrow> nat" where
  "binexp 0 n k = k"
| "binexp (Suc f) n k = (if n * 2 ^ k \<ge> 100 * 2 ^ 23 then k else binexp f n (Suc k))"

definition round_half_even :: "int \<Rightarrow> int \<Rightarrow> int" where
  "round_half_even n d =
     (let q = n div d; r = n mod d
      in if 2 * r < d then q else if 2 * r > d then q + 1 else if even q then q else q + 1)"

definition percent :: "int \<Rightarrow> float32" where
  "percent v =
     (if v = 0 then Fin 0
      else let k = binexp 31 v 0 in Fin (of_int (round_half_even (v * 2 ^ k) 100) / 2 ^ k))"

fun row_setting :: "row \<Rightarrow> int \<Rightarrow> setting" where
  "row_setting DelayRow v = DelayMs v"
| "row_setting JitterRow v = DelayJitterMs v"
| "row_setting ThrottleRow v = ThrottleKBytesPerSec v"
| "row_setting DropRow v = DropRate (percent v)"
| "row_setting BurstChanceRow v = BurstDropRate (percent v)"
| "row_setting BurstLengthRow v = BurstDropLength v"
| "row_setting DuplicateRow v = DuplicateRate (percent v)"
| "row_setting CopiesRow v = DuplicateCount v"

definition set_effect :: "bool \<Rightarrow> setting \<Rightarrow> effect_panel \<Rightarrow> effect_panel" where
  "set_effect is_out s p = p\<lparr>panel_effects := SetForDirection is_out s (panel_effects p)\<rparr>"

definition set_both :: "setting \<Rightarrow> effect_panel \<Rightarrow> effect_panel" where
  "set_both s p = set_effect False s (set_effect True s p)"

text \<open>The copies' handlers return at once unless custom copies are chosen.\<close>

definition row_live :: "row \<Rightarrow> effect_panel \<Rightarrow> bool" where
  "row_live r p \<longleftrightarrow> r = CopiesRow \<longrightarrow> custom_copies p"

section \<open>Signals\<close>

definition put_slider :: "row \<Rightarrow> side \<Rightarrow> int \<Rightarrow> effect_panel \<Rightarrow> effect_panel" where
  "put_slider r s v p = p\<lparr>slider := (slider p)(r := (slider p r)(s := v))\<rparr>"

definition put_spinbox :: "row \<Rightarrow> side \<Rightarrow> int \<Rightarrow> effect_panel \<Rightarrow> effect_panel" where
  "put_spinbox r s v p = p\<lparr>spinbox := (spinbox p)(r := (spinbox p r)(s := v))\<rparr>"

text \<open>
  A signal runs its slots before the call that emitted it returns: first the spin box (or the slider)
  beside it, then the handler of the slider. \<open>SetSlider\<close> and \<open>SetSpinbox\<close> are \<open>setValue\<close>,
  \<open>SliderChanged\<close> is the handler, \<open>SyncSlider\<close> is the local function \<open>sync_slider_value\<close>. The
  number bounds the depth of nested calls; \<open>None\<close> means that it was not enough.
\<close>

datatype widget_call =
    SetSlider row side int | SetSpinbox row side int | SliderChanged row side int | SyncSlider row side int

primrec widget_run :: "qt_set \<Rightarrow> nat \<Rightarrow> widget_call \<Rightarrow> effect_panel \<Rightarrow> effect_panel option" where
  "widget_run Q 0 c p = None"
| "widget_run Q (Suc n) c p =
     (case c of
       SetSlider r s v \<Rightarrow>
         (let (x, changed) = Q (row_range r) (slider p r s) v;
              p = put_slider r s x p
          in if changed then
               Option.bind (widget_run Q n (SetSpinbox r s x) p) (widget_run Q n (SliderChanged r s x))
             else Some p)
     | SetSpinbox r s v \<Rightarrow>
         (let (x, changed) = Q (row_range r) (spinbox p r s) v;
              p = put_spinbox r s x p
          in if changed then widget_run Q n (SetSlider r s x) p else Some p)
     | SliderChanged r s v \<Rightarrow>
         (if \<not> row_live r p then Some p
          else (case s of
                  Shared \<Rightarrow>
                    Option.bind (widget_run Q n (SyncSlider r OutSide v) (set_both (row_setting r v) p))
                      (widget_run Q n (SyncSlider r InSide v))
                | OutSide \<Rightarrow> Some (set_effect True (row_setting r v) p)
                | InSide \<Rightarrow> Some (set_effect False (row_setting r v) p)))
     | SyncSlider r s v \<Rightarrow>
         (if slider p r s \<noteq> v then widget_run Q n (SetSlider r s v) p else Some p))"

text \<open>The depth that is always enough.\<close>

definition signal_depth :: nat where
  "signal_depth = 7"

definition slide :: "qt_set \<Rightarrow> row \<Rightarrow> side \<Rightarrow> int \<Rightarrow> effect_panel \<Rightarrow> effect_panel option" where
  "slide Q r s v = widget_run Q signal_depth (SetSlider r s v)"

definition spin :: "qt_set \<Rightarrow> row \<Rightarrow> side \<Rightarrow> int \<Rightarrow> effect_panel \<Rightarrow> effect_panel option" where
  "spin Q r s v = widget_run Q signal_depth (SetSpinbox r s v)"

section \<open>Check boxes\<close>

definition update_duplicate_copy_controls_visibility :: "effect_panel \<Rightarrow> effect_panel" where
  "update_duplicate_copy_controls_visibility p =
     p\<lparr>copies_controls_visible := custom_copies p \<and> \<not> asymmetric p DuplicateRow,
       directions_visible := (directions_visible p)(CopiesRow := custom_copies p \<and> asymmetric p DuplicateRow),
       shared_enabled := (shared_enabled p)(CopiesRow := custom_copies p \<and> \<not> asymmetric p DuplicateRow)\<rparr>"

definition update_burst_drop_controls_visibility :: "effect_panel \<Rightarrow> effect_panel" where
  "update_burst_drop_controls_visibility p =
     (let burst_mode = burst_checked p; asym = asymmetric p BurstChanceRow in
      p\<lparr>burst_controls_visible := burst_mode,
        drop_asymmetric_enabled := \<not> burst_mode,
        shared_enabled := (shared_enabled p)
          (DropRow := \<not> burst_mode \<and> \<not> asymmetric p DropRow,
           BurstChanceRow := burst_mode \<and> \<not> asym, BurstLengthRow := burst_mode \<and> \<not> asym),
        directions_visible := (directions_visible p)
          (DropRow := \<not> burst_mode \<and> asymmetric p DropRow,
           BurstChanceRow := burst_mode \<and> asym, BurstLengthRow := burst_mode \<and> asym)\<rparr>)"

text \<open>The directional sliders take the shared value, or the shared one takes the outbound value.\<close>

definition copy_to_directions :: "qt_set \<Rightarrow> row \<Rightarrow> effect_panel \<Rightarrow> effect_panel option" where
  "copy_to_directions Q r p =
     (let shared_value = slider p r Shared
      in Option.bind (slide Q r OutSide shared_value p) (slide Q r InSide shared_value))"

definition copy_from_outbound :: "qt_set \<Rightarrow> row \<Rightarrow> effect_panel \<Rightarrow> effect_panel option" where
  "copy_from_outbound Q r p = slide Q r Shared (slider p r OutSide) p"

definition show_directions :: "row \<Rightarrow> bool \<Rightarrow> effect_panel \<Rightarrow> effect_panel" where
  "show_directions r checked p =
     p\<lparr>shared_enabled := (shared_enabled p)(r := \<not> checked),
       directions_visible := (directions_visible p)(r := checked)\<rparr>"

text \<open>Delay, jitter, throttle and drop have the same handler.\<close>

definition row_asymmetric_toggled :: "qt_set \<Rightarrow> row \<Rightarrow> bool \<Rightarrow> effect_panel \<Rightarrow> effect_panel option" where
  "row_asymmetric_toggled Q r checked p =
     (let p = p\<lparr>asymmetric := (asymmetric p)(r := checked)\<rparr>
      in map_option (show_directions r checked)
           (if checked then copy_to_directions Q r p else copy_from_outbound Q r p))"

definition jitter_asymmetric_toggled :: "qt_set \<Rightarrow> bool \<Rightarrow> effect_panel \<Rightarrow> effect_panel option" where
  [simp]: "jitter_asymmetric_toggled Q = row_asymmetric_toggled Q JitterRow"

definition throttle_asymmetric_toggled :: "qt_set \<Rightarrow> bool \<Rightarrow> effect_panel \<Rightarrow> effect_panel option" where
  [simp]: "throttle_asymmetric_toggled Q = row_asymmetric_toggled Q ThrottleRow"

definition burst_drop_toggled :: "bool \<Rightarrow> effect_panel \<Rightarrow> effect_panel" where
  "burst_drop_toggled checked p =
     update_burst_drop_controls_visibility (set_both (BurstDropEnabled checked) (p\<lparr>burst_checked := checked\<rparr>))"

text \<open>Both shared values are read before any slider is set; setting the chance leaves the length's as it is.\<close>

definition burst_asymmetric_toggled :: "qt_set \<Rightarrow> bool \<Rightarrow> effect_panel \<Rightarrow> effect_panel option" where
  "burst_asymmetric_toggled Q checked p =
     (let p = p\<lparr>asymmetric := (asymmetric p)(BurstChanceRow := checked)\<rparr>
      in map_option update_burst_drop_controls_visibility
           (if checked then
              let shared_chance = slider p BurstChanceRow Shared; shared_length = slider p BurstLengthRow Shared
              in Option.bind (Option.bind (slide Q BurstChanceRow OutSide shared_chance p)
                      (slide Q BurstChanceRow InSide shared_chance))
                   (\<lambda>p. Option.bind (slide Q BurstLengthRow OutSide shared_length p)
                      (slide Q BurstLengthRow InSide shared_length))
            else Option.bind (copy_from_outbound Q BurstChanceRow p) (copy_from_outbound Q BurstLengthRow)))"

definition custom_copies_toggled :: "bool \<Rightarrow> effect_panel \<Rightarrow> effect_panel" where
  "custom_copies_toggled checked p =
     (let p = p\<lparr>custom_copies := checked\<rparr>
      in update_duplicate_copy_controls_visibility
           (if checked then
              if asymmetric p DuplicateRow then
                set_effect False (DuplicateCount (slider p CopiesRow InSide))
                  (set_effect True (DuplicateCount (slider p CopiesRow OutSide)) p)
              else set_both (DuplicateCount (slider p CopiesRow Shared)) p
            else set_both (DuplicateCount kDefaultDuplicateCopies) p))"

definition duplicate_asymmetric_toggled :: "qt_set \<Rightarrow> bool \<Rightarrow> effect_panel \<Rightarrow> effect_panel option" where
  "duplicate_asymmetric_toggled Q checked p =
     (let p = p\<lparr>asymmetric := (asymmetric p)(DuplicateRow := checked)\<rparr>;
          copies = (\<lambda>f p. if custom_copies p then f Q CopiesRow p else Some p)
      in map_option (\<lambda>p. update_duplicate_copy_controls_visibility (show_directions DuplicateRow checked p))
           (if checked then Option.bind (copy_to_directions Q DuplicateRow p) (copies copy_to_directions)
            else Option.bind (copy_from_outbound Q DuplicateRow p) (copies copy_from_outbound)))"

section \<open>Hotkeys\<close>

definition adjust_row :: "qt_set \<Rightarrow> row \<Rightarrow> int \<Rightarrow> effect_panel \<Rightarrow> effect_panel option" where
  "adjust_row Q r delta p =
     (if asymmetric p r then
        Option.bind (slide Q r OutSide (slider p r OutSide + delta) p)
          (\<lambda>p. slide Q r InSide (slider p r InSide + delta) p)
      else slide Q r Shared (slider p r Shared + delta) p)"

text \<open>The toggle hotkey presses the start button, which is not one of these controls.\<close>

fun hotkey_adjusts :: "qt_set \<Rightarrow> hotkey_action \<Rightarrow> effect_panel \<Rightarrow> effect_panel option" where
  "hotkey_adjusts Q kIncrementDelay p = adjust_row Q DelayRow (delay_step p) p"
| "hotkey_adjusts Q kDecrementDelay p = adjust_row Q DelayRow (- delay_step p) p"
| "hotkey_adjusts Q kIncrementDropRate p = adjust_row Q DropRow (drop_step p) p"
| "hotkey_adjusts Q kDecrementDropRate p = adjust_row Q DropRow (- drop_step p) p"
| "hotkey_adjusts Q _ p = Some p"

text \<open>The panel after \<open>SetupUi\<close>, with the steps from the settings.\<close>

definition panel_init :: "int \<Rightarrow> int \<Rightarrow> effect_panel" where
  "panel_init delay_st drop_st =
     update_duplicate_copy_controls_visibility (update_burst_drop_controls_visibility
       \<lparr>slider = (\<lambda>r _. initial_value r), spinbox = (\<lambda>r _. initial_value r), asymmetric = (\<lambda>_. False),
        burst_checked = False, custom_copies = False, shared_enabled = (\<lambda>_. True), drop_asymmetric_enabled = True,
        directions_visible = (\<lambda>_. False), burst_controls_visible = False, copies_controls_visible = False,
        delay_step = delay_st, drop_step = drop_st, panel_effects = effect_config_init\<rparr>)"

text \<open>
  What the user can do. A control takes input only while it is enabled and visible; a check box is
  toggled to the other state.
\<close>

datatype panel_action =
    Slide row side int | Spin row side int | ToggleAsymmetric row | ToggleBurst | ToggleCustomCopies
  | PressHotkey hotkey_action | StepDelay int | StepDrop int

definition usable :: "row \<Rightarrow> side \<Rightarrow> effect_panel \<Rightarrow> bool" where
  "usable r s p \<longleftrightarrow> (if s = Shared then shared_enabled p r else directions_visible p r)"

fun panel_step :: "qt_set \<Rightarrow> panel_action \<Rightarrow> effect_panel \<Rightarrow> effect_panel option" where
  "panel_step Q (Slide r s v) p = (if usable r s p then slide Q r s v p else Some p)"
| "panel_step Q (Spin r s v) p = (if usable r s p then spin Q r s v p else Some p)"
| "panel_step Q (ToggleAsymmetric r) p =
     (case r of
        DelayRow \<Rightarrow> row_asymmetric_toggled Q DelayRow (\<not> asymmetric p DelayRow) p
      | JitterRow \<Rightarrow> jitter_asymmetric_toggled Q (\<not> asymmetric p JitterRow) p
      | ThrottleRow \<Rightarrow> throttle_asymmetric_toggled Q (\<not> asymmetric p ThrottleRow) p
      | DropRow \<Rightarrow> (if drop_asymmetric_enabled p then row_asymmetric_toggled Q DropRow (\<not> asymmetric p DropRow) p else Some p)
      | BurstChanceRow \<Rightarrow> (if burst_controls_visible p
                          then burst_asymmetric_toggled Q (\<not> asymmetric p BurstChanceRow) p else Some p)
      | BurstLengthRow \<Rightarrow> Some p
      | DuplicateRow \<Rightarrow> duplicate_asymmetric_toggled Q (\<not> asymmetric p DuplicateRow) p
      | CopiesRow \<Rightarrow> Some p)"
| "panel_step Q ToggleBurst p = Some (burst_drop_toggled (\<not> burst_checked p) p)"
| "panel_step Q ToggleCustomCopies p = Some (custom_copies_toggled (\<not> custom_copies p) p)"
| "panel_step Q (PressHotkey a) p = hotkey_adjusts Q a p"
| "panel_step Q (StepDelay v) p = Some (p\<lparr>delay_step := fst (Q (1, 500) (delay_step p) v)\<rparr>)"
| "panel_step Q (StepDrop v) p = Some (p\<lparr>drop_step := fst (Q (1, 50) (drop_step p) v)\<rparr>)"

fun panel_run :: "qt_set \<Rightarrow> panel_action list \<Rightarrow> effect_panel \<Rightarrow> effect_panel option" where
  "panel_run Q [] p = Some p"
| "panel_run Q (a # as) p = Option.bind (panel_step Q a p) (panel_run Q as)"

end
