(* ===== verification/Main_Window.thy ===== *)
theory Main_Window
  imports Interceptor Process_Tree Effect_Controls
begin

text \<open>
  The main window as the owner of the pipeline (src/ui/MainWindow.cpp): it starts and stops the flow
  tracker and the interceptor for the selected process, watches that process, and gets the fatal errors
  of the pipeline's threads as queued events. A message box is one event: what happens while it is open
  comes after it. A run of the program is a list of events: what the user
  does, what the timers do, and the rounds of the three threads of the pipeline.
\<close>

section \<open>State\<close>

text \<open>
  A status is a format with its number arguments, and whether it is shown as an error. A tone is its
  frequency in Hz, its duration in ms and its volume.
\<close>

type_synonym status = "string \<times> nat list \<times> bool"

type_synonym tone = "int \<times> int \<times> int"

text \<open>
  The two threads' loops have their counter of consecutive failures while they run. \<open>tracker_obj\<close> and
  \<open>interceptor_obj\<close> are the owned objects; the interceptor refers to the window's tracker, targets and
  effects, so those of its fields are read from the window (\<open>referred\<close>). \<open>fatal_events\<close> are the queued
  calls of \<open>OnPipelineFatal\<close>, \<open>warnings\<close> the message boxes shown.
\<close>

record ('w, 'g) main_window =
  button :: string
  status :: status
  refresh_timer :: bool
  target_monitor_timer :: bool
  refresh_in_flight :: bool
  tree :: "tree_item list"
  selected :: "tree_item option"
  filter_text :: string
  selected_process_identity :: process_identity
  target_pids :: pid_set
  panel :: effect_panel
  tracker_obj :: "flow_tracker option"
  interceptor_obj :: "'g pipeline option"
  is_running :: bool
  sound_checked :: bool
  volume :: int
  tones :: "tone list"
  warnings :: "string list"
  tracking_loop :: "u32 option"
  capture_loop :: "u32 option"
  fatal_events :: "u32 list"
  outer :: "'w env"

text \<open>
  What the window gets from outside: the system at a moment \<open>'m\<close>, the pipeline's surroundings, the
  widgets, the allocator and padding of the delay queue's rings, the number in an item's text, the
  item of a process, and the case-insensitive substring test.
\<close>

record ('m, 'w, 'g) platform =
  sys :: "'m system_ops"
  out :: "('w, 'g) outside"
  qt :: qt_set
  ring_alloc :: "nat \<Rightarrow> nat"
  ring_pad :: nat
  number_of :: "string \<Rightarrow> u32"
  make_item :: "process_info \<Rightarrow> item_data"
  contains_text :: "string \<Rightarrow> string \<Rightarrow> bool"

definition referred :: "('w, 'g) main_window \<Rightarrow> flow_tracker \<Rightarrow> 'g pipeline \<Rightarrow> 'g pipeline" where
  "referred w t p = p\<lparr>tracker := t, targets := target_pids w, effects := panel_effects (panel w)\<rparr>"

section \<open>Status and sound\<close>

definition UpdatePipelineStatus :: "string \<Rightarrow> nat list \<Rightarrow> bool \<Rightarrow> ('w, 'g) main_window \<Rightarrow> ('w, 'g) main_window" where
  "UpdatePipelineStatus msg args is_error w = w\<lparr>status := (msg, args, is_error)\<rparr>"

definition PlayToggleSound :: "bool \<Rightarrow> ('w, 'g) main_window \<Rightarrow> ('w, 'g) main_window" where
  "PlayToggleSound started w =
     (if \<not> sound_checked w then w
      else
        (let kStartToneHz = 800; kStopToneHz = 400; kDurationMs = 150;
             frequency = (if started then kStartToneHz else kStopToneHz)
         in w\<lparr>tones := tones w @ [(frequency, kDurationMs, volume w)]\<rparr>))"

definition warn :: "string \<Rightarrow> ('w, 'g) main_window \<Rightarrow> ('w, 'g) main_window" where
  "warn msg w = w\<lparr>warnings := warnings w @ [msg]\<rparr>"

section \<open>The process list\<close>

definition RefreshProcessList :: "('w, 'g) main_window \<Rightarrow> ('w, 'g) main_window" where
  "RefreshProcessList w = (if refresh_in_flight w then w else w\<lparr>refresh_in_flight := True\<rparr>)"

definition OnProcessSelectionChanged :: "('w, 'g) main_window \<Rightarrow> ('w, 'g) main_window" where
  "OnProcessSelectionChanged w =
     (case selected w of
        None \<Rightarrow> w\<lparr>selected_process_identity := no_identity, target_pids := Clear (target_pids w)\<rparr>
      | Some item \<Rightarrow>
          (let w = w\<lparr>selected_process_identity := IdentityFromItem (Some item)\<rparr>
           in if identity_IsValid (selected_process_identity w) then
                w\<lparr>target_pids := SetSelectedPid (id_pid (selected_process_identity w)) (target_pids w)\<rparr>
              else w\<lparr>target_pids := Clear (target_pids w)\<rparr>))"

text \<open>A change of the selection emits its signal; setting the same selection again does not.\<close>

definition select_item :: "tree_item option \<Rightarrow> ('w, 'g) main_window \<Rightarrow> ('w, 'g) main_window" where
  "select_item item w =
     (if item = selected w then w else OnProcessSelectionChanged (w\<lparr>selected := item\<rparr>))"

text \<open>Clearing the tree deselects; the item with the selected number is selected in the new tree.\<close>

definition window_list_ready :: "('m, 'w, 'g) platform \<Rightarrow> process_info list \<Rightarrow> ('w, 'g) main_window \<Rightarrow> ('w, 'g) main_window" where
  "window_list_ready P processes w =
     (let w = w\<lparr>refresh_in_flight := False\<rparr>;
          (new_tree, selected_item) =
            OnProcessListReady (number_of P) (make_item P) (contains_text P) (filter_text w) processes (tree w) (selected w);
          w = select_item None w;
          w = select_item selected_item (w\<lparr>tree := new_tree\<rparr>)
      in w)"

definition window_filter_changed :: "('m, 'w, 'g) platform \<Rightarrow> string \<Rightarrow> ('w, 'g) main_window \<Rightarrow> ('w, 'g) main_window" where
  "window_filter_changed P txt w =
     w\<lparr>filter_text := txt, tree := OnProcessFilterChanged (contains_text P) txt (tree w)\<rparr>"

section \<open>Starting and stopping\<close>

text \<open>\<open>reset\<close> of the owning pointers: the objects' destructors stop them.\<close>

definition reset_interceptor :: "('w, 'g) outside \<Rightarrow> ('w, 'g) main_window \<Rightarrow> ('w, 'g) main_window option" where
  "reset_interceptor X w =
     (case interceptor_obj w of
        None \<Rightarrow> Some w
      | Some p \<Rightarrow>
          (case pi_Stop (driver X) p (outer w) of
             None \<Rightarrow> None
           | Some (_, v) \<Rightarrow> Some (w\<lparr>interceptor_obj := None, capture_loop := None, outer := v\<rparr>)))"

definition reset_tracker :: "('w, 'g) outside \<Rightarrow> ('w, 'g) main_window \<Rightarrow> ('w, 'g) main_window" where
  "reset_tracker X w =
     (case tracker_obj w of
        None \<Rightarrow> w
      | Some t \<Rightarrow>
          (case ft_Stop (driver X) t (outer w) of
             (_, v) \<Rightarrow> w\<lparr>tracker_obj := None, tracking_loop := None, outer := v\<rparr>))"

definition start_interceptor ::
  "('m, 'w, 'g) platform \<Rightarrow> 'g \<Rightarrow> 'g \<Rightarrow> flow_tracker \<Rightarrow> ('w, 'g) main_window \<Rightarrow> ('w, 'g) main_window option" where
  "start_interceptor P seed1 seed2 t w =
     (let p = pi_SetFatalCallback True (PacketInterceptor_new t (target_pids w) (panel_effects (panel w)) seed1 seed2)
      in case pi_Start (driver (out P)) (ring_alloc P) (ring_pad P) p (outer w) of
           None \<Rightarrow> None
         | Some (Inl e, p, v) \<Rightarrow>
             map_option (reset_tracker (out P))
               (reset_interceptor (out P)
                 (UpdatePipelineStatus (ToUserMessage e) [] True (w\<lparr>interceptor_obj := Some p, outer := v\<rparr>)))
         | Some (Inr _, p, v) \<Rightarrow>
             Some (PlayToggleSound True (UpdatePipelineStatus ''Running'' [] False
               (w\<lparr>interceptor_obj := Some p, capture_loop := Some 0, outer := v, is_running := True,
                  refresh_timer := False, target_monitor_timer := True, button := ''Stop''\<rparr>))))"

definition start_pipeline_for ::
  "('m, 'w, 'g) platform \<Rightarrow> 'g \<Rightarrow> 'g \<Rightarrow> process_identity \<Rightarrow> ('w, 'g) main_window \<Rightarrow> ('w, 'g) main_window option" where
  "start_pipeline_for P seed1 seed2 identity w =
     (let w = w\<lparr>selected_process_identity := identity, target_pids := SetSelectedPid (id_pid identity) (target_pids w)\<rparr>;
          w = reset_tracker (out P) w;
          t = SetFatalCallback True flow_tracker_init
      in case ft_Start (driver (out P)) (udp_table (out P)) t (outer w) of
           None \<Rightarrow> None
         | Some (Inl e, t, v) \<Rightarrow>
             Some (reset_tracker (out P)
               (UpdatePipelineStatus (ToUserMessage e) [] True (w\<lparr>tracker_obj := Some t, outer := v\<rparr>)))
         | Some (Inr _, t, v) \<Rightarrow>
             Option.bind (reset_interceptor (out P) (w\<lparr>tracker_obj := Some t, tracking_loop := Some 0, outer := v\<rparr>))
               (start_interceptor P seed1 seed2 t))"

definition StartPipeline ::
  "('m, 'w, 'g) platform \<Rightarrow> 'm \<Rightarrow> 'g \<Rightarrow> 'g \<Rightarrow> ('w, 'g) main_window \<Rightarrow> ('w, 'g) main_window option" where
  "StartPipeline P now seed1 seed2 w =
     (case selected w of
        None \<Rightarrow> Some (warn ''Select a process first.'' w)
      | Some item \<Rightarrow>
          (let identity = IdentityFromItem (Some item) in
           if \<not> IsProcessIdentityCurrent (sys P) now identity then
             Some (RefreshProcessList (warn ''The selected process is no longer running. Select it again.''
               (w\<lparr>target_pids := Clear (target_pids w), selected_process_identity := no_identity\<rparr>)))
           else start_pipeline_for P seed1 seed2 identity w))"

text \<open>The interceptor is stopped and then destroyed, which stops it once more; so is the tracker.\<close>

definition stop_objects :: "('w, 'g) outside \<Rightarrow> ('w, 'g) main_window \<Rightarrow> ('w, 'g) main_window option" where
  "stop_objects X w =
     (case (case interceptor_obj w of
              None \<Rightarrow> Some w
            | Some p \<Rightarrow>
                (case pi_Stop (driver X) p (outer w) of
                   None \<Rightarrow> None
                 | Some (p, v) \<Rightarrow> reset_interceptor X (w\<lparr>interceptor_obj := Some p, outer := v\<rparr>))) of
        None \<Rightarrow> None
      | Some w \<Rightarrow>
          Some (case tracker_obj w of
                  None \<Rightarrow> w
                | Some t \<Rightarrow>
                    (case ft_Stop (driver X) t (outer w) of
                       (t, v) \<Rightarrow> reset_tracker X (w\<lparr>tracker_obj := Some t, outer := v\<rparr>))))"

definition StopPipeline :: "('m, 'w, 'g) platform \<Rightarrow> ('w, 'g) main_window \<Rightarrow> ('w, 'g) main_window option" where
  "StopPipeline P w =
     (if \<not> is_running w then Some w
      else
        (case stop_objects (out P) w of
           None \<Rightarrow> None
         | Some w \<Rightarrow>
             (let w = w\<lparr>is_running := False, target_monitor_timer := False, refresh_timer := True\<rparr>;
                  w = (RefreshProcessList w)\<lparr>button := ''Start''\<rparr>
              in Some (PlayToggleSound False (UpdatePipelineStatus ''Stopped'' [] False w)))))"

definition OnStartStopClicked ::
  "('m, 'w, 'g) platform \<Rightarrow> 'm \<Rightarrow> 'g \<Rightarrow> 'g \<Rightarrow> ('w, 'g) main_window \<Rightarrow> ('w, 'g) main_window option" where
  "OnStartStopClicked P now seed1 seed2 w =
     (if is_running w then StopPipeline P w else StartPipeline P now seed1 seed2 w)"

definition OnPipelineFatal :: "('m, 'w, 'g) platform \<Rightarrow> u32 \<Rightarrow> ('w, 'g) main_window \<Rightarrow> ('w, 'g) main_window option" where
  "OnPipelineFatal P gle w =
     (if \<not> is_running w then Some w
      else map_option (UpdatePipelineStatus ''Pipeline stopped unexpectedly (GLE=%1)'' [unat gle] True) (StopPipeline P w))"

definition CheckSelectedProcessIdentity ::
  "('m, 'w, 'g) platform \<Rightarrow> 'm \<Rightarrow> ('w, 'g) main_window \<Rightarrow> ('w, 'g) main_window option" where
  "CheckSelectedProcessIdentity P now w =
     (if \<not> is_running w then Some w
      else if IsProcessIdentityCurrent (sys P) now (selected_process_identity w) then Some w
      else
        map_option (UpdatePipelineStatus ''Selected process exited or was replaced; stopped.'' [] True)
          (StopPipeline P (w\<lparr>target_pids := Clear (target_pids w), selected_process_identity := no_identity\<rparr>)))"

definition OnHotkeyTriggered ::
  "('m, 'w, 'g) platform \<Rightarrow> 'm \<Rightarrow> 'g \<Rightarrow> 'g \<Rightarrow> hotkey_action \<Rightarrow> ('w, 'g) main_window \<Rightarrow> ('w, 'g) main_window option" where
  "OnHotkeyTriggered P now seed1 seed2 action w =
     (case action of
        kToggleEffects \<Rightarrow> OnStartStopClicked P now seed1 seed2 w
      | _ \<Rightarrow> map_option (\<lambda>p. w\<lparr>panel := p\<rparr>) (hotkey_adjusts (qt P) action (panel w)))"

text \<open>The destructor; the owned objects are gone after it.\<close>

definition MainWindow_destroy :: "('m, 'w, 'g) platform \<Rightarrow> ('w, 'g) main_window \<Rightarrow> ('w, 'g) main_window option" where
  "MainWindow_destroy P w = StopPipeline P w"

section \<open>The threads of the pipeline\<close>

text \<open>
  A round of the tracking thread; a fatal error it reports is posted to the window's event queue. The
  thread's loop reads \<open>running_\<close> first.
\<close>

definition tracking_thread :: "('m, 'w, 'g) platform \<Rightarrow> ('w, 'g) main_window \<Rightarrow> ('w, 'g) main_window" where
  "tracking_thread P w =
     (case (tracking_loop w, tracker_obj w) of
        (Some n, Some t) \<Rightarrow>
          (if \<not> ft_running t then w\<lparr>tracking_loop := None\<rparr>
           else
             (case tracking_round (driver (out P)) n t (outer w) of
                (next, n', t', v) \<Rightarrow>
                  w\<lparr>tracker_obj := Some t', outer := v,
                    tracking_loop := (case next of LoopContinue \<Rightarrow> Some n' | LoopExit \<Rightarrow> None),
                    fatal_events := fatal_events w @ drop (length (ft_fatal_calls t)) (ft_fatal_calls t')\<rparr>))
      | _ \<Rightarrow> w)"

definition capture_thread ::
  "('m, 'w, 'g) platform \<Rightarrow> (nat \<Rightarrow> int) \<Rightarrow> ('w, 'g) main_window \<Rightarrow> ('w, 'g) main_window option" where
  "capture_thread P clock w =
     (case (capture_loop w, tracker_obj w, interceptor_obj w) of
        (Some n, Some t, Some p) \<Rightarrow>
          (if \<not> pi_running p then Some (w\<lparr>capture_loop := None\<rparr>)
           else
             (case capture_round (out P) clock n (referred w t p) (outer w) of
                None \<Rightarrow> None
              | Some (next, n', p', v) \<Rightarrow>
                  Some (w\<lparr>interceptor_obj := Some p', tracker_obj := Some (tracker p'), outer := v,
                    capture_loop := (case next of LoopContinue \<Rightarrow> Some n' | LoopExit \<Rightarrow> None),
                    fatal_events := fatal_events w @ drop (length (pi_fatal_calls p)) (pi_fatal_calls p')\<rparr>)))
      | _ \<Rightarrow> Some w)"

definition delay_thread :: "('m, 'w, 'g) platform \<Rightarrow> int \<Rightarrow> int \<Rightarrow> ('w, 'g) main_window \<Rightarrow> ('w, 'g) main_window option" where
  "delay_thread P now now2 w =
     (case interceptor_obj w of
        None \<Rightarrow> Some w
      | Some p \<Rightarrow>
          (case delay p of
             None \<Rightarrow> Some w
           | Some q \<Rightarrow>
               if \<not> running q then Some w else
               (case drain_round (driver (out P)) now now2 q (outer w) of
                  None \<Rightarrow> None
                | Some (_, q', v) \<Rightarrow> Some (w\<lparr>interceptor_obj := Some (p\<lparr>delay := Some q'\<rparr>), outer := v\<rparr>))))"

section \<open>Runs\<close>

text \<open>The events, each with what it reads from outside: the moment, the seeds, the clock.\<close>

datatype ('m, 'g) event =
    StartStopClicked 'm 'g 'g
  | HotkeyTriggered 'm 'g 'g hotkey_action
  | SelectionMade "tree_item option"
  | FilterEdited string
  | RefreshTick
  | ListReady "process_info list"
  | MonitorTick 'm
  | FatalDelivered
  | SoundToggled
  | VolumeMoved int
  | PanelUsed panel_action
  | TrackingRuns
  | CaptureRuns "nat \<Rightarrow> int"
  | DelayRuns int int

text \<open>Timers tick only while they are active; a list is delivered only for a refresh in flight.\<close>

fun window_step :: "('m, 'w, 'g) platform \<Rightarrow> ('m, 'g) event \<Rightarrow> ('w, 'g) main_window \<Rightarrow> ('w, 'g) main_window option" where
  "window_step P (StartStopClicked now s1 s2) w = OnStartStopClicked P now s1 s2 w"
| "window_step P (HotkeyTriggered now s1 s2 a) w = OnHotkeyTriggered P now s1 s2 a w"
| "window_step P (SelectionMade item) w = Some (select_item item w)"
| "window_step P (FilterEdited txt) w = Some (window_filter_changed P txt w)"
| "window_step P RefreshTick w = Some (if refresh_timer w then RefreshProcessList w else w)"
| "window_step P (ListReady procs) w = Some (if refresh_in_flight w then window_list_ready P procs w else w)"
| "window_step P (MonitorTick now) w = (if target_monitor_timer w then CheckSelectedProcessIdentity P now w else Some w)"
| "window_step P FatalDelivered w =
     (case fatal_events w of
        [] \<Rightarrow> Some w
      | gle # later \<Rightarrow> OnPipelineFatal P gle (w\<lparr>fatal_events := later\<rparr>))"
| "window_step P SoundToggled w = Some (w\<lparr>sound_checked := \<not> sound_checked w\<rparr>)"
| "window_step P (VolumeMoved v) w = Some (w\<lparr>volume := fst (qt P (0, 100) (volume w) v)\<rparr>)"
| "window_step P (PanelUsed a) w = map_option (\<lambda>p. w\<lparr>panel := p\<rparr>) (panel_step (qt P) a (panel w))"
| "window_step P TrackingRuns w = Some (tracking_thread P w)"
| "window_step P (CaptureRuns clock) w = capture_thread P clock w"
| "window_step P (DelayRuns now now2) w = delay_thread P now now2 w"

fun window_run :: "('m, 'w, 'g) platform \<Rightarrow> ('m, 'g) event list \<Rightarrow> ('w, 'g) main_window \<Rightarrow> ('w, 'g) main_window option" where
  "window_run P [] w = Some w"
| "window_run P (e # es) w = Option.bind (window_step P e w) (window_run P es)"

text \<open>The window after its constructor, with the loaded settings; the first refresh is in flight.\<close>

definition loading_item :: tree_item where
  "loading_item =
     Item \<lparr>text0 = [], text1 = ''Loading processes...'', kProcessPidRole = 0, kProcessCreationTimeRole = 0,
       kProcessExePathRole = []\<rparr> False False []"

definition window_init :: "effect_panel \<Rightarrow> bool \<Rightarrow> int \<Rightarrow> 'w env \<Rightarrow> ('w, 'g) main_window" where
  "window_init p sound vol v =
     UpdatePipelineStatus ''Stopped'' [] False (RefreshProcessList
       \<lparr>button = ''Start'', status = ('''', [], False), refresh_timer = True, target_monitor_timer = False,
        refresh_in_flight = False, tree = [loading_item], selected = None, filter_text = '''', selected_process_identity = no_identity,
        target_pids = pid_set_init, panel = p, tracker_obj = None, interceptor_obj = None, is_running = False,
        sound_checked = sound, volume = vol, tones = [], warnings = [], tracking_loop = None, capture_loop = None,
        fatal_events = [], outer = v\<rparr>)"

end
