(* ===== verification/Pipeline_Frame.thy ===== *)
theory Pipeline_Frame
  imports Interceptor
begin

text \<open>
  What the pipeline's rounds keep, and which operations open and close driver handles. \<open>H\<close> counts the handles that are open in
  a world; only opening and closing change it, which is what the hypothesis says of the driver and
  the system. Everything the threads do leaves it as it is; starting and stopping are a pair.
\<close>

definition handles_tracked :: "('w \<Rightarrow> divert_layer multiset) \<Rightarrow> 'w divert_ops \<Rightarrow> 'w udp_table \<Rightarrow> bool" where
  "handles_tracked H D T \<longleftrightarrow>
     (\<forall>l w gle w'. divert_open D l w = (gle, w') \<longrightarrow> H w' = (if gle = 0 then add_mset l (H w) else H w)) \<and>
     (\<forall>l w. H (divert_close D l w) = H w - {#l#}) \<and>
     (\<forall>prm x w gle w'. divert_set_param D prm x w = (gle, w') \<longrightarrow> H w' = H w) \<and>
     (\<forall>l how w. H (divert_shutdown D l how w) = H w) \<and>
     (\<forall>w r w'. divert_recv D w = (r, w') \<longrightarrow> H w' = H w) \<and>
     (\<forall>w r w'. divert_recv_ex D w = (r, w') \<longrightarrow> H w' = H w) \<and>
     (\<forall>bs addrs w gle w'. divert_send D bs addrs w = (gle, w') \<longrightarrow> H w' = H w) \<and>
     (\<forall>sz w ret n rows w'. T sz w = (ret, n, rows, w') \<longrightarrow> H w' = H w)"

lemma trackedD:
  assumes "handles_tracked H D T"
  shows "divert_open D l w = (gle, w') \<Longrightarrow> H w' = (if gle = 0 then add_mset l (H w) else H w)"
    and "H (divert_close D l w) = H w - {#l#}"
    and "divert_set_param D prm x w = (gle, w') \<Longrightarrow> H w' = H w"
    and "H (divert_shutdown D l how w) = H w"
    and "divert_recv D w = (rf, w') \<Longrightarrow> H w' = H w"
    and "divert_recv_ex D w = (rn, w') \<Longrightarrow> H w' = H w"
    and "divert_send D bs addrs w = (gle, w') \<Longrightarrow> H w' = H w"
    and "T sz w = (ret, n, rows, w') \<Longrightarrow> H w' = H w"
proof -
  note h = assms [unfolded handles_tracked_def]
  show "divert_open D l w = (gle, w') \<Longrightarrow> H w' = (if gle = 0 then add_mset l (H w) else H w)" by (rule h [THEN conjunct1, rule_format])
  show "H (divert_close D l w) = H w - {#l#}" by (rule h [THEN conjunct2, THEN conjunct1, rule_format])
  show "divert_set_param D prm x w = (gle, w') \<Longrightarrow> H w' = H w" by (rule h [THEN conjunct2, THEN conjunct2, THEN conjunct1, rule_format])
  show "H (divert_shutdown D l how w) = H w" by (rule h [THEN conjunct2, THEN conjunct2, THEN conjunct2, THEN conjunct1, rule_format])
  show "divert_recv D w = (rf, w') \<Longrightarrow> H w' = H w" by (rule h [THEN conjunct2, THEN conjunct2, THEN conjunct2, THEN conjunct2, THEN conjunct1, rule_format])
  show "divert_recv_ex D w = (rn, w') \<Longrightarrow> H w' = H w" by (rule h [THEN conjunct2, THEN conjunct2, THEN conjunct2, THEN conjunct2, THEN conjunct2, THEN conjunct1, rule_format])
  show "divert_send D bs addrs w = (gle, w') \<Longrightarrow> H w' = H w" by (rule h [THEN conjunct2, THEN conjunct2, THEN conjunct2, THEN conjunct2, THEN conjunct2, THEN conjunct2, THEN conjunct1, rule_format])
  show "T sz w = (ret, n, rows, w') \<Longrightarrow> H w' = H w" by (rule h [THEN conjunct2, THEN conjunct2, THEN conjunct2, THEN conjunct2, THEN conjunct2, THEN conjunct2, THEN conjunct2, rule_format])
qed

section \<open>Sending\<close>

lemma env_send_handles: "handles_tracked H D T \<Longrightarrow> env_send D bs addrs v = (gle, v') \<Longrightarrow> H (world v') = H (world v)"
  by (auto simp: env_send_def split: prod.splits dest: trackedD(7))

lemma Reinject_handles: "handles_tracked H D T \<Longrightarrow> H (world (Reinject D p v)) = H (world v)"
  by (auto simp: Reinject_def Let_def split: prod.splits dest: env_send_handles)

lemma send_batch_handles: "handles_tracked H D T \<Longrightarrow> H (world (send_batch D b v)) = H (world v)"
  by (auto simp: send_batch_def Let_def split: prod.splits dest: env_send_handles)

lemma send_outgoing_handles: "handles_tracked H D T \<Longrightarrow> H (world (send_outgoing D ob v)) = H (world v)"
  by (auto simp: send_outgoing_def Let_def split: prod.splits dest: env_send_handles)

section \<open>The delay queue\<close>

lemma dq_Push_world: "dq_Push p q v = Some (q', v') \<Longrightarrow> world v' = world v"
  by (auto simp: dq_Push_def Let_def split: prod.splits option.splits)

lemma push_scheduled_world: "push_scheduled ps q v = Some (q', v') \<Longrightarrow> world v' = world v"
proof (induction ps arbitrary: q v)
  case (Cons p ps)
  then show ?case by (auto split: option.splits dest: dq_Push_world)
qed simp

lemma drain_round_handles:
  assumes "handles_tracked H D T" and "drain_round D now now2 q v = Some (z, q', v')"
  shows "H (world v') = H (world v)"
  using assms by (auto simp: drain_round_def send_ready_def Let_def send_batch_handles split: prod.splits option.splits if_splits)

lemma flush_scheduled_handles:
  "handles_tracked H D T \<Longrightarrow> flush_scheduled D is q v = Some (q', v') \<Longrightarrow> H (world v') = H (world v)"
  by (induction D "is" q v rule: flush_scheduled.induct) (auto simp: Let_def Reinject_handles split: option.splits)

lemma flush_handoff_handles:
  "handles_tracked H D T \<Longrightarrow> flush_handoff D n q v = Some (q', v') \<Longrightarrow> H (world v') = H (world v)"
proof (induction n arbitrary: q v)
  case (Suc n)
  then show ?case
    by (auto simp: Let_def Reinject_handles split: prod.splits option.splits)
qed simp

lemma dq_Stop_handles:
  assumes tr: "handles_tracked H D T" and "dq_Stop D q v = Some (q', v')"
  shows "H (world v') = H (world v)"
proof -
  let ?q = "q\<lparr>running := False, thread_alive := False\<rparr>"
  obtain q1 v1 where f: "flush_handoff D (Suc (capacity (handoff_queue ?q))) ?q v = Some (q1, v1)"
    using assms(2) unfolding dq_Stop_def FlushPackets_def by (auto split: option.splits)
  obtain popped left where d: "DrainAll (slot_key (memory_pool q1)) (sched q1) = (popped, left)" by force
  have "flush_scheduled D popped (q1\<lparr>sched := left\<rparr>) v1 = Some (q', v')"
    using assms(2) unfolding dq_Stop_def FlushPackets_def f by (simp add: d)
  then show ?thesis using flush_scheduled_handles [OF tr] flush_handoff_handles [OF tr f] by force
qed

section \<open>The tracker\<close>

lemma udp_retry_handles:
  assumes tr: "handles_tracked H D T" and "udp_retry T ret n rows w = Some y"
  shows "H (snd (snd y)) = H w"
proof -
  have "T' = T \<longrightarrow> H (snd (snd y)) = H w" if "udp_retry T' ret n rows w = Some y" for T' ret n rows w y
  proof (rule udp_retry.raw_induct [OF _ that])
    fix f :: "'a udp_table \<Rightarrow> u32 \<Rightarrow> u32 \<Rightarrow> udp_row list \<Rightarrow> 'a \<Rightarrow> (u32 \<times> udp_row list \<times> 'a) option"
      and T' ret n rows w y
    assume IH: "\<And>T' ret n rows w y. f T' ret n rows w = Some y \<Longrightarrow> T' = T \<longrightarrow> H (snd (snd y)) = H w"
      and e: "(if ret = ERROR_INSUFFICIENT_BUFFER then case T' (Some n) w of (ret', n', rows', w') \<Rightarrow> f T' ret' n' rows' w'
        else Some (ret, rows, w)) = Some y"
    show "T' = T \<longrightarrow> H (snd (snd y)) = H w"
    proof
      assume t: "T' = T"
      obtain r' n' rows' w' where T: "T (Some n) w = (r', n', rows', w')" by (metis prod_cases4)
      have "H w' = H w" using trackedD(8) [OF tr T] .
      moreover have "H (snd (snd y)) = H w'" if "f T r' n' rows' w' = Some y" using IH [OF that] by simp
      ultimately show "H (snd (snd y)) = H w" using e t T by (auto split: if_splits)
    qed
  qed
  then show ?thesis using assms(2) by blast
qed

lemma ForEachUdpEntry_handles:
  assumes tr: "handles_tracked H D T" and "ForEachUdpEntry T v = Some (b, es, v')"
  shows "H (world v') = H (world v)"
proof -
  obtain ret n rows w where T: "T None (world v) = (ret, n, rows, w)" by (metis prod_cases4)
  then obtain y where y: "udp_retry T ret n rows w = Some y" "world v' = snd (snd y)"
    using assms(2) by (auto simp: ForEachUdpEntry_def Let_def split: option.splits prod.splits if_splits)
  show ?thesis using udp_retry_handles [OF tr y(1)] trackedD(8) [OF tr T] y(2) by simp
qed

lemma LookupPid_handles:
  "handles_tracked H D T \<Longrightarrow> LookupPid T tup d t v = Some (p, t', v') \<Longrightarrow> H (world v') = H (world v)"
  by (auto simp: LookupPid_def LookupPidFromSystem_def Let_def split: option.splits prod.splits
      dest: ForEachUdpEntry_handles)

lemma BootstrapFromSystem_handles:
  "handles_tracked H D T \<Longrightarrow> BootstrapFromSystem T t v = Some (t', v') \<Longrightarrow> H (world v') = H (world v)"
  by (auto simp: BootstrapFromSystem_def Let_def split: option.splits prod.splits dest: ForEachUdpEntry_handles)

lemma tracking_round_handles:
  assumes "handles_tracked H D T" and "tracking_round D n t v = (z, n', t', v')"
  shows "H (world v') = H (world v)"
  using assms by (auto simp: tracking_round_def Let_def dest: trackedD(5)
      split: prod.splits sum.splits recv_failure_action.splits if_splits)

section \<open>The capture thread\<close>

lemma append_immediate_world: "world (snd (append_immediate_packet d a (ob, v))) = world v"
  by (simp add: append_immediate_packet_def)

lemma append_fold_world: "world (snd (fold (\<lambda>ip. append_immediate_packet (Bytes ip) (pkt_addr ip)) ps obv)) = world (snd obv)"
  by (induction ps arbitrary: obv) (auto simp: append_immediate_packet_def)

lemma count_effects_world: "world (count_effects d em v) = world v"
  by (simp add: count_effects_def Let_def)

lemma apply_effects_world:
  assumes "apply_effects X now p s ob v = Some (s', ob', v')"
  shows "world v' = world v"
proof -
  obtain em eng where em: "Process (rand X) (effects s) p now (engine s) = (em, eng)" by force
  let ?v = "count_effects (is_outbound (metadata p)) em v"
  obtain ob1 v1 where f: "fold (\<lambda>ip. append_immediate_packet (Bytes ip) (pkt_addr ip)) (immediate_packets em) (ob, ?v) = (ob1, v1)"
    by force
  have "world v1 = world v" using append_fold_world [of "immediate_packets em" "(ob, ?v)"] f by (simp add: count_effects_world)
  with assms em f show ?thesis
    by (auto simp: apply_effects_def Let_def split: option.splits if_splits prod.splits dest: push_scheduled_world)
qed

lemma handle_packet_handles:
  assumes tr: "handles_tracked H (driver X) (udp_table X)" and "handle_packet X now data pr addr s ob v = Some (s', ob', v')"
  shows "H (world v') = H (world v)"
proof -
  have app: "world v2 = world v1" if "append_immediate_packet data addr (ob, v1) = (ob2, v2)" for v1 ob2 v2
    using append_immediate_world [of data addr ob v1] that by simp
  show ?thesis
  proof (cases "\<exists>ip udp. parsed_ip pr = Some ip \<and> parsed_udp pr = Some udp")
    case False
    then show ?thesis using assms(2)
      by (auto simp: handle_packet_def Let_def split: option.splits prod.splits dest: app)
  next
    case True
    then obtain ip udp where hd: "parsed_ip pr = Some ip" "parsed_udp pr = Some udp" by blast
    then obtain p t v1 where l: "LookupPid (udp_table X) (TupleFromPacket ip udp) (Outbound addr) (tracker s) v = Some (p, t, v1)"
      using assms(2) by (auto simp: handle_packet_def Let_def split: option.splits)
    have "world v' = world v1"
      using assms(2) hd l by (auto simp: handle_packet_def Let_def split: option.splits prod.splits if_splits
          dest: app apply_effects_world)
    then show ?thesis using LookupPid_handles [OF tr l] by simp
  qed
qed

lemma capture_packets_handles:
  assumes tr: "handles_tracked H (driver X) (udp_table X)"
  shows "capture_packets X clock num addrs i cur s ob v = Some (s', ob', v') \<Longrightarrow> H (world v') = H (world v)"
proof (induction addrs arbitrary: i cur s ob v)
  case (Cons a as)
  show ?case
  proof (cases "parse_packet (driver X) cur")
    case None
    with Cons.prems show ?thesis by auto
  next
    case (Some pr)
    then obtain s1 ob1 v1 where h: "handle_packet X (clock i) (take (length cur - next_len pr) cur) pr a s ob v = Some (s1, ob1, v1)"
      using Cons.prems by (auto simp: Let_def split: option.splits)
    have "H (world v1) = H (world v)" using handle_packet_handles [OF tr h] .
    moreover have "H (world v') = H (world v1)"
      using Cons.prems Some h Cons.IH by (auto simp: Let_def split: if_splits)
    ultimately show ?thesis by simp
  qed
qed simp

lemma capture_round_handles:
  assumes tr: "handles_tracked H (driver X) (udp_table X)" and "capture_round X clock n s v = Some (z, n', s', v')"
  shows "H (world v') = H (world v)"
proof -
  have batch: "H (world v2) = H (world v1)" if "process_batch X clock bytes addrs s v1 = Some (s2, v2)" for bytes addrs s2 v1 v2
    using that capture_packets_handles [OF tr]
    by (auto simp: process_batch_def Let_def send_outgoing_handles [OF tr] count_captured_def split: option.splits prod.splits)
  obtain r w where r: "divert_recv_ex (driver X) (world v) = (r, w)" by force
  show ?thesis using assms(2) trackedD(6) [OF tr r] r
    by (cases r) (auto simp: capture_round_def Let_def dest: batch split: option.splits prod.splits recv_failure_action.splits)
qed

section \<open>Starting and stopping\<close>

lemma ft_Start_handles:
  assumes tr: "handles_tracked H D T" and "\<not> ft_running t" and "ft_Start D T t v = Some (r, t', v')"
  shows "H (world v') = (if r = Inr () then add_mset LayerFlow (H (world v)) else H (world v)) \<and>
    ft_handle t' = (r = Inr ()) \<and> ft_running t' = (r = Inr ())"
proof -
  obtain gle w where o: "divert_open D LayerFlow (world v) = (gle, w)" by force
  note h = trackedD(1) [OF tr o]
  show ?thesis
  proof (cases "gle = 0")
    case True
    then obtain t1 v1 where b: "BootstrapFromSystem T (t\<lparr>ft_handle := True\<rparr>) (v\<lparr>world := w\<rparr>) = Some (t1, v1)"
      using assms(2,3) o by (auto simp: ft_Start_def Let_def split: option.splits)
    then have "ft_handle t1" by (auto simp: BootstrapFromSystem_def Let_def split: option.splits prod.splits)
    then show ?thesis
      using assms(2,3) o b True h BootstrapFromSystem_handles [OF tr b] by (auto simp: ft_Start_def)
  next
    case False
    then show ?thesis using assms(2,3) o h by (auto simp: ft_Start_def Let_def)
  qed
qed

lemma ft_Stop_handles:
  assumes "handles_tracked H D T"
  shows "H (world (snd (ft_Stop D t v))) = (if ft_handle t then H (world v) - {#LayerFlow#} else H (world v)) \<and>
    \<not> ft_handle (fst (ft_Stop D t v)) \<and> \<not> ft_running (fst (ft_Stop D t v))"
  using trackedD(2,4) [OF assms] by (simp add: ft_Stop_def Let_def)

lemma set_param_handles: "handles_tracked H D T \<Longrightarrow> H (world (set_param D prm x msg v)) = H (world v)"
  by (auto simp: set_param_def Let_def split: prod.splits dest: trackedD(3))

lemma pi_Start_handles:
  assumes tr: "handles_tracked H D T" and "\<not> pi_running s" and "pi_Start D al pad s v = Some (r, s', v')"
  shows "H (world v') = (if r = Inr () then add_mset LayerNetwork (H (world v)) else H (world v)) \<and>
    pi_handle s' = (r = Inr ()) \<and> pi_running s' = (r = Inr ())"
proof -
  obtain gle w where o: "divert_open D LayerNetwork (world v) = (gle, w)" by force
  show ?thesis
    using assms(2,3) o trackedD(1) [OF tr o]
    by (cases "gle = 0") (auto simp: pi_Start_def Let_def set_param_handles [OF tr] split: option.splits)
qed

lemma pi_Stop_handles:
  assumes tr: "handles_tracked H D T" and "pi_Stop D s v = Some (s', v')"
  shows "H (world v') = (if pi_handle s then H (world v) - {#LayerNetwork#} else H (world v)) \<and>
    \<not> pi_handle s' \<and> \<not> pi_running s' \<and> delay s' = None"
proof -
  let ?v = "if pi_handle s then v\<lparr>world := divert_shutdown D LayerNetwork ShutdownRecv (world v)\<rparr> else v"
  have h: "H (world ?v) = H (world v)" using trackedD(4) [OF tr] by simp
  obtain v1 where v1: "(case delay s of None \<Rightarrow> Some ?v | Some q \<Rightarrow> map_option snd (dq_Stop D q ?v)) = Some v1"
    using assms(2) by (auto simp: pi_Stop_def Let_def split: option.splits)
  then have "H (world v1) = H (world v)"
    using h dq_Stop_handles [OF tr] by (auto split: option.splits)
  moreover from v1 have "H (world v') = (if pi_handle s then H (divert_close D LayerNetwork (divert_shutdown D LayerNetwork ShutdownSend (world v1))) else H (world v1))
      \<and> \<not> pi_handle s' \<and> \<not> pi_running s' \<and> delay s' = None"
    using assms(2) v1 unfolding pi_Stop_def Let_def by (cases "delay s"; cases "pi_handle s") auto
  ultimately show ?thesis using trackedD(2,4) [OF tr] by simp
qed

section \<open>What a capture round keeps\<close>

definition same_switches :: "'g pipeline \<Rightarrow> 'g pipeline \<Rightarrow> bool" where
  "same_switches s s' \<longleftrightarrow> pi_running s' = pi_running s \<and> pi_thread s' = pi_thread s \<and> pi_handle s' = pi_handle s \<and>
     pi_has_callback s' = pi_has_callback s \<and> pi_fatal_calls s' = pi_fatal_calls s \<and>
     ft_running (tracker s') = ft_running (tracker s) \<and> ft_handle (tracker s') = ft_handle (tracker s) \<and>
     ft_has_callback (tracker s') = ft_has_callback (tracker s)"

lemma same_switches_refl [simp]: "same_switches s s"
  by (simp add: same_switches_def)

lemma same_switches_trans: "same_switches s s1 \<Longrightarrow> same_switches s1 s2 \<Longrightarrow> same_switches s s2"
  by (simp add: same_switches_def)

lemma apply_effects_switches: "apply_effects X now p s ob v = Some (s', ob', v') \<Longrightarrow> same_switches s s'"
  by (auto simp: apply_effects_def Let_def same_switches_def split: option.splits if_splits prod.splits)

lemma LookupPid_switches:
  "LookupPid T tup d t v = Some (p, t', v') \<Longrightarrow>
     ft_running t' = ft_running t \<and> ft_handle t' = ft_handle t \<and> ft_has_callback t' = ft_has_callback t"
  by (auto simp: LookupPid_def InsertFlow_def Let_def split: option.splits prod.splits if_splits)

lemma tracking_round_switches:
  "tracking_round D n t v = (z, n', t', v') \<Longrightarrow>
     ft_running t' = ft_running t \<and> ft_handle t' = ft_handle t \<and> ft_has_callback t' = ft_has_callback t"
  by (auto simp: tracking_round_def Let_def OnFlowEstablished_def OnFlowDeleted_def NotifyFatal_def
      split: prod.splits sum.splits recv_failure_action.splits if_splits)

lemma handle_packet_switches:
  assumes "handle_packet X now data pr addr s ob v = Some (s', ob', v')"
  shows "same_switches s s'"
proof -
  have upd: "same_switches s (s\<lparr>tracker := t\<rparr>)" if "LookupPid T tup d (tracker s) v0 = Some (p, t, v1)" for T tup d v0 p t v1
    using LookupPid_switches [OF that] by (simp add: same_switches_def)
  show ?thesis
    using assms by (auto simp: handle_packet_def Let_def upd split: option.splits prod.splits if_splits
        dest!: apply_effects_switches intro: same_switches_trans [OF upd])
qed

lemma capture_packets_switches:
  "capture_packets X clock num addrs i cur s ob v = Some (s', ob', v') \<Longrightarrow> same_switches s s'"
proof (induction addrs arbitrary: i cur s ob v)
  case (Cons a as)
  show ?case
  proof (cases "parse_packet (driver X) cur")
    case None
    with Cons.prems show ?thesis by auto
  next
    case (Some pr)
    then obtain s1 ob1 v1 where h: "handle_packet X (clock i) (take (length cur - next_len pr) cur) pr a s ob v = Some (s1, ob1, v1)"
      using Cons.prems by (auto simp: Let_def split: option.splits)
    have "same_switches s1 s'" using Cons.prems Some h Cons.IH by (auto simp: Let_def split: if_splits)
    with handle_packet_switches [OF h] show ?thesis by (rule same_switches_trans)
  qed
qed simp

lemma process_batch_total:
  assumes "outside_ok X" and "pl_inv s" and "delay s = Some q"
  shows "\<exists>s' q' v'. process_batch X clock bytes addrs s v = Some (s', v') \<and> pl_inv s' \<and> delay s' = Some q' \<and>
    targets s' = targets s \<and> effects s' = effects s \<and> same_switches s s'"
proof -
  obtain pks rb ra where b: "batch_packets (parse_packet (driver X)) addrs bytes = (pks, rb, ra)" by (metis prod_cases3)
  from capture_packets_step [OF assms b, of clock "length addrs" 0 "\<lparr>out_bytes = [], out_addrs = []\<rparr>" "count_captured addrs v"]
  obtain s' ob v' where c: "capture_packets X clock (length addrs) addrs 0 bytes s \<lparr>out_bytes = [], out_addrs = []\<rparr>
      (count_captured addrs v) = Some (s', ob, v')"
    "\<exists>ob1 v1. step_ok (stamped clock 0 pks) s \<lparr>out_bytes = [], out_addrs = []\<rparr> (count_captured addrs v) s' ob1 v1"
    by blast
  from c(2) have "pl_inv s'" "targets s' = targets s" "effects s' = effects s" "\<exists>q'. delay s' = Some q'"
    unfolding step_ok_def by auto
  with c(1) capture_packets_switches [OF c(1)] show ?thesis by (auto simp: process_batch_def Let_def)
qed

lemma capture_round_total:
  assumes "outside_ok X" and "pl_inv s" and "delay s = Some q"
  shows "\<exists>z n' s' q' v'. capture_round X clock n s v = Some (z, n', s', v') \<and> pl_inv s' \<and> delay s' = Some q' \<and>
    targets s' = targets s \<and> effects s' = effects s \<and> pi_running s' = pi_running s \<and> pi_handle s' = pi_handle s \<and>
    pi_has_callback s' = pi_has_callback s \<and>
    ft_running (tracker s') = ft_running (tracker s) \<and> ft_handle (tracker s') = ft_handle (tracker s) \<and>
    ft_has_callback (tracker s') = ft_has_callback (tracker s)"
proof -
  have pl: "pl_inv (pi_NotifyFatal gle s)" for gle using assms(2) by (simp add: pl_inv_def pi_NotifyFatal_def)
  have nf: "delay (pi_NotifyFatal gle s) = Some q" "targets (pi_NotifyFatal gle s) = targets s"
    "effects (pi_NotifyFatal gle s) = effects s" "pi_running (pi_NotifyFatal gle s) = pi_running s"
    "pi_handle (pi_NotifyFatal gle s) = pi_handle s" "pi_has_callback (pi_NotifyFatal gle s) = pi_has_callback s"
    "tracker (pi_NotifyFatal gle s) = tracker s" for gle
    using assms(3) by (simp_all add: pi_NotifyFatal_def)
  obtain r w where r: "divert_recv_ex (driver X) (world v) = (r, w)" by force
  show ?thesis
  proof (cases r)
    case (Inl gle)
    obtain act n' d where "ClassifyRecvFailure gle n ''PacketInterceptor'' (logs v) = (act, n', d)" by (metis prod_cases3)
    then show ?thesis using r Inl assms pl [of gle] nf [of gle]
      by (cases act) (simp_all add: capture_round_def Let_def)
  next
    case (Inr ba)
    obtain bytes addrs where "ba = (bytes, addrs)" by force
    with r Inr process_batch_total [OF assms, of clock bytes addrs "v\<lparr>world := w\<rparr>"] show ?thesis
      by (auto simp: capture_round_def same_switches_def)
  qed
qed

end
