(* ===== verification/Control_Laws.thy ===== *)
theory Control_Laws
  imports Effect_Controls Interfaces
begin

text \<open>
  What the effect controls guarantee: every cascade of signals ends, sliders and spin boxes agree, the
  configuration is what the directional sliders show, and what the check boxes and hotkeys do to it.
\<close>

section \<open>The range of a control\<close>

definition bounded :: "row \<Rightarrow> int \<Rightarrow> int" where
  "bounded r v = clamp_int v (fst (row_range r)) (snd (row_range r))"

definition in_range :: "row \<Rightarrow> int \<Rightarrow> bool" where
  "in_range r v \<longleftrightarrow> fst (row_range r) \<le> v \<and> v \<le> snd (row_range r)"

lemmas limit_defs = kMaxDelayJitterMs_def kMaxThrottleKBytesPerSec_def kMaxBurstDropLength_def
  kDefaultDuplicateCopies_def kMaxDuplicateCopies_def kDefaultBurstDropLength_def

lemma row_range_le: "fst (row_range r) \<le> snd (row_range r)"
  by (cases r) (simp_all add: limit_defs)

lemma bounded_in_range [simp]: "in_range r (bounded r v)"
  using clamp_int_bounds [OF row_range_le] by (simp add: in_range_def bounded_def)

lemma bounded_id: "in_range r v \<Longrightarrow> bounded r v = v"
  by (simp add: in_range_def bounded_def clamp_int_id)

lemma qt_row: "qt_lawful Q \<Longrightarrow> Q (row_range r) old v = (bounded r v, bounded r v \<noteq> old)"
  using row_range_le [of r] unfolding qt_lawful_def bounded_def by (metis prod.collapse)

lemma initial_in_range: "in_range r (initial_value r)"
  by (cases r) (simp_all add: in_range_def limit_defs)

section \<open>One control\<close>

definition put_control :: "row \<Rightarrow> side \<Rightarrow> int \<Rightarrow> effect_panel \<Rightarrow> effect_panel" where
  "put_control r s x p = put_spinbox r s x (put_slider r s x p)"

lemma put_sel [simp]:
  "slider (put_slider r s x p) = (slider p)(r := (slider p r)(s := x))"
  "spinbox (put_slider r s x p) = spinbox p"
  "slider (put_spinbox r s x p) = slider p"
  "spinbox (put_spinbox r s x p) = (spinbox p)(r := (spinbox p r)(s := x))"
  by (simp_all add: put_slider_def put_spinbox_def)

lemma put_same:
  "slider p r s = x \<Longrightarrow> put_slider r s x p = p" "spinbox p r s = x \<Longrightarrow> put_spinbox r s x p = p"
  by (auto simp: put_slider_def put_spinbox_def fun_upd_idem)

lemma put_live [simp]: "row_live q (put_slider r s x p) = row_live q p" "row_live q (put_spinbox r s x p) = row_live q p"
  by (simp_all add: row_live_def put_slider_def put_spinbox_def)

text \<open>The handler of a directional slider, and what setting one comes to.\<close>

definition dir_handler :: "row \<Rightarrow> side \<Rightarrow> int \<Rightarrow> effect_panel \<Rightarrow> effect_panel" where
  "dir_handler r s x p = (if row_live r p then set_effect (s = OutSide) (row_setting r x) p else p)"

definition dir_result :: "row \<Rightarrow> side \<Rightarrow> int \<Rightarrow> effect_panel \<Rightarrow> effect_panel" where
  "dir_result r s x p = (if slider p r s = x then p else dir_handler r s x (put_control r s x p))"

text \<open>
  Setting a slider whose spin box has the old value or already the new one moves both and runs the
  handler once.
\<close>

lemma run_slider:
  assumes "qt_lawful Q" and "spinbox p r s \<in> {slider p r s, bounded r v}"
  shows "widget_run Q (Suc (Suc (Suc n))) (SetSlider r s v) p =
    (if slider p r s = bounded r v then Some p
     else widget_run Q (Suc (Suc n)) (SliderChanged r s (bounded r v)) (put_control r s (bounded r v) p))"
proof (cases "slider p r s = bounded r v")
  case True
  then show ?thesis by (simp add: qt_row [OF assms(1)] put_same)
next
  case False
  let ?x = "bounded r v"
  have b: "bounded r ?x = ?x" by (simp add: bounded_id)
  have "widget_run Q (Suc (Suc n)) (SetSpinbox r s ?x) (put_slider r s ?x p) = Some (put_control r s ?x p)"
  proof (cases "spinbox p r s = ?x")
    case True
    then show ?thesis by (simp add: qt_row [OF assms(1)] b put_same put_control_def)
  next
    case False
    then show ?thesis by (simp add: qt_row [OF assms(1)] b put_same put_control_def)
  qed
  with False show ?thesis by (simp add: qt_row [OF assms(1)] del: widget_run.simps(2)) (simp add: qt_row [OF assms(1)])
qed

lemma run_dir:
  assumes "qt_lawful Q" and "spinbox p r s \<in> {slider p r s, bounded r v}" and "s \<noteq> Shared"
  shows "widget_run Q (Suc (Suc (Suc n))) (SetSlider r s v) p = Some (dir_result r s (bounded r v) p)"
proof -
  have "widget_run Q (Suc (Suc n)) (SliderChanged r s x) q = Some (dir_handler r s x q)" for x q
    using assms(3) by (cases s) (simp_all add: dir_handler_def)
  then show ?thesis by (simp add: run_slider [OF assms(1,2)] dir_result_def del: widget_run.simps(2))
qed

lemma run_sync:
  assumes "qt_lawful Q" and "spinbox p r s = slider p r s" and "s \<noteq> Shared" and "in_range r x"
  shows "widget_run Q (Suc (Suc (Suc (Suc n)))) (SyncSlider r s x) p = Some (dir_result r s x p)"
proof -
  have "widget_run Q (Suc (Suc (Suc (Suc n)))) (SyncSlider r s x) p =
      (if slider p r s \<noteq> x then widget_run Q (Suc (Suc (Suc n))) (SetSlider r s x) p else Some p)" by simp
  also have "\<dots> = Some (dir_result r s x p)"
    using run_dir [OF assms(1) _ assms(3), of p r x] assms(2,4) by (simp add: bounded_id dir_result_def del: widget_run.simps(2))
  finally show ?thesis .
qed

definition shared_handler :: "row \<Rightarrow> int \<Rightarrow> effect_panel \<Rightarrow> effect_panel" where
  "shared_handler r x p =
     (if row_live r p then dir_result r InSide x (dir_result r OutSide x (set_both (row_setting r x) p)) else p)"

definition shared_result :: "row \<Rightarrow> int \<Rightarrow> effect_panel \<Rightarrow> effect_panel" where
  "shared_result r x p = (if slider p r Shared = x then p else shared_handler r x (put_control r Shared x p))"

lemma set_effect_sel [simp]:
  "slider (set_effect d s p) = slider p" "spinbox (set_effect d s p) = spinbox p"
  "slider (set_both s p) = slider p" "spinbox (set_both s p) = spinbox p"
  by (simp_all add: set_effect_def set_both_def)

lemma dir_result_sel [simp]:
  "slider (dir_result r s x p) = (slider p)(r := (slider p r)(s := x))"
  "spinbox (dir_result r s x p) = (if slider p r s = x then spinbox p else (spinbox p)(r := (spinbox p r)(s := x)))"
  by (auto simp: dir_result_def dir_handler_def put_control_def fun_upd_idem)

lemma run_shared:
  assumes "qt_lawful Q" and "spinbox p r Shared \<in> {slider p r Shared, bounded r v}"
    and "spinbox p r OutSide = slider p r OutSide" and "spinbox p r InSide = slider p r InSide"
  shows "widget_run Q (Suc (Suc (Suc (Suc (Suc (Suc n)))))) (SetSlider r Shared v) p = Some (shared_result r (bounded r v) p)"
proof -
  let ?x = "bounded r v" and ?p = "put_control r Shared (bounded r v) p"
  have "widget_run Q (Suc (Suc (Suc (Suc (Suc n))))) (SliderChanged r Shared ?x) ?p = Some (shared_handler r ?x ?p)"
  proof (cases "row_live r ?p")
    case True
    have "widget_run Q (Suc (Suc (Suc (Suc n)))) (SyncSlider r OutSide ?x) (set_both (row_setting r ?x) ?p) =
        Some (dir_result r OutSide ?x (set_both (row_setting r ?x) ?p))"
      by (rule run_sync [OF assms(1)]) (simp_all add: put_control_def assms(3))
    moreover have "widget_run Q (Suc (Suc (Suc (Suc n)))) (SyncSlider r InSide ?x)
        (dir_result r OutSide ?x (set_both (row_setting r ?x) ?p)) =
      Some (dir_result r InSide ?x (dir_result r OutSide ?x (set_both (row_setting r ?x) ?p)))"
      by (rule run_sync [OF assms(1)]) (simp_all add: put_control_def assms(4))
    ultimately show ?thesis using True
      by (subst widget_run.simps(2)) (simp add: shared_handler_def del: widget_run.simps(2))
  next
    case False
    then show ?thesis by (simp add: shared_handler_def)
  qed
  then show ?thesis by (simp add: run_slider [OF assms(1,2)] shared_result_def del: widget_run.simps(2))
qed

declare widget_run.simps(2) [simp del]

text \<open>Setting any control of a panel whose spin boxes agree with their sliders.\<close>

definition synced :: "effect_panel \<Rightarrow> bool" where
  "synced p \<longleftrightarrow> (\<forall>r s. spinbox p r s = slider p r s \<and> in_range r (slider p r s))"

definition ctl_result :: "row \<Rightarrow> side \<Rightarrow> int \<Rightarrow> effect_panel \<Rightarrow> effect_panel" where
  "ctl_result r s x p = (if s = Shared then shared_result r x p else dir_result r s x p)"

lemma slide_eq:
  assumes "qt_lawful Q" and "synced p"
  shows "slide Q r s v p = Some (ctl_result r s (bounded r v) p)"
proof -
  have 7: "signal_depth = Suc (Suc (Suc (Suc (Suc (Suc (Suc 0))))))" by (simp add: signal_depth_def)
  have "spinbox p q t = slider p q t" for q t using assms(2) by (simp add: synced_def)
  then show ?thesis
    using run_dir [OF assms(1), of p r s v] run_shared [OF assms(1), of p r v]
    unfolding slide_def 7 ctl_result_def by (cases "s = Shared") simp_all
qed

lemma put_control_spinbox: "put_control r s x (put_spinbox r s x p) = put_control r s x p"
  by (simp add: put_control_def put_spinbox_def put_slider_def)

lemma spin_eq:
  assumes "qt_lawful Q" and "synced p"
  shows "spin Q r s v p = Some (ctl_result r s (bounded r v) p)"
proof -
  let ?x = "bounded r v" and ?q = "put_spinbox r s (bounded r v) p"
  have 7: "signal_depth = Suc (Suc (Suc (Suc (Suc (Suc (Suc 0))))))" by (simp add: signal_depth_def)
  have e: "spinbox p q t = slider p q t" for q t using assms(2) by (simp add: synced_def)
  have b: "bounded r ?x = ?x" by (simp add: bounded_id)
  have "spin Q r s v p = (if ?x = slider p r s then Some p
      else widget_run Q (Suc (Suc (Suc (Suc (Suc (Suc 0)))))) (SetSlider r s ?x) ?q)"
    unfolding spin_def 7 by (subst widget_run.simps(2)) (simp add: qt_row [OF assms(1)] e put_same)
  also have "\<dots> = Some (ctl_result r s ?x p)"
  proof (cases "?x = slider p r s")
    case True
    then show ?thesis by (auto simp: ctl_result_def shared_result_def dir_result_def)
  next
    case False
    have "widget_run Q (Suc (Suc (Suc (Suc (Suc (Suc 0)))))) (SetSlider r s ?x) ?q = Some (ctl_result r s ?x ?q)"
      using run_dir [OF assms(1), of ?q r s ?x] run_shared [OF assms(1), of ?q r ?x]
      unfolding ctl_result_def b by (cases "s = Shared") (simp_all add: e)
    with False show ?thesis by (auto simp: ctl_result_def shared_result_def dir_result_def put_control_spinbox)
  qed
  finally show ?thesis .
qed

section \<open>What a control leaves\<close>

definition cfg :: "bool \<Rightarrow> effect_panel \<Rightarrow> dir_config" where
  "cfg d p = ConfigForDirection d (panel_effects p)"

definition side_of :: "bool \<Rightarrow> side" where
  "side_of d = (if d then OutSide else InSide)"

lemma cfg_set_effect [simp]: "cfg d (set_effect d' s p) = (if d = d' then apply_setting s (cfg d p) else cfg d p)"
  by (simp add: cfg_def set_effect_def)

lemma cfg_set_both [simp]: "cfg d (set_both s p) = apply_setting s (cfg d p)"
  by (simp add: set_both_def)

lemma cfg_put [simp]: "cfg d (put_slider r s x p) = cfg d p" "cfg d (put_spinbox r s x p) = cfg d p"
  by (simp_all add: cfg_def put_slider_def put_spinbox_def)

text \<open>Everything but the values and the configuration stays.\<close>

definition rest_of :: "effect_panel \<Rightarrow> effect_panel" where
  "rest_of p = p\<lparr>slider := (\<lambda>_ _. 0), spinbox := (\<lambda>_ _. 0), panel_effects := effect_config_init\<rparr>"

lemma rest_simps [simp]:
  "rest_of (put_slider r s x p) = rest_of p" "rest_of (put_spinbox r s x p) = rest_of p"
  "rest_of (set_effect d t p) = rest_of p" "rest_of (set_both t p) = rest_of p"
  by (simp_all add: rest_of_def put_slider_def put_spinbox_def set_effect_def set_both_def)

lemma rest_live: "rest_of p = rest_of q \<Longrightarrow> row_live r p = row_live r q"
  unfolding row_live_def by (metis (no_types) rest_of_def effect_panel.select_convs(5) effect_panel.surjective
      effect_panel.update_convs(1,2,13))

lemma rest_dir_result [simp]: "rest_of (dir_result r s x p) = rest_of p"
  by (simp add: dir_result_def dir_handler_def put_control_def)

lemma rest_ctl_result [simp]: "rest_of (ctl_result r s x p) = rest_of p"
  by (simp add: ctl_result_def shared_result_def shared_handler_def put_control_def)

lemma rest_sel:
  assumes "rest_of p = rest_of q"
  shows "asymmetric p = asymmetric q" "burst_checked p = burst_checked q" "custom_copies p = custom_copies q"
    "shared_enabled p = shared_enabled q" "drop_asymmetric_enabled p = drop_asymmetric_enabled q"
    "directions_visible p = directions_visible q" "burst_controls_visible p = burst_controls_visible q"
    "copies_controls_visible p = copies_controls_visible q" "delay_step p = delay_step q" "drop_step p = drop_step q"
  using assms by (cases p; cases q; simp add: rest_of_def)+

lemmas ctl_frame [simp] = rest_sel [OF rest_ctl_result]
lemmas dir_frame [simp] = rest_sel [OF rest_dir_result]

lemma slider_ctl_result:
  "slider (ctl_result r s x p) =
     (if slider p r s = x then slider p
      else if s = Shared \<and> row_live r p then (slider p)(r := (\<lambda>_. x))
      else (slider p)(r := (slider p r)(s := x)))"
proof -
  have all: "(f(Shared := x, OutSide := x, InSide := x)) = (\<lambda>_. x)" for f :: "side \<Rightarrow> int"
  proof (rule ext)
    show "(f(Shared := x, OutSide := x, InSide := x)) t = x" for t by (cases t) simp_all
  qed
  have put: "slider (put_control r t x p) = (slider p)(r := (slider p r)(t := x))" for t
    by (simp add: put_control_def)
  show ?thesis
  proof (cases "s = Shared")
    case True
    have "row_live r (put_control r Shared x p) = row_live r p" by (simp add: put_control_def)
    with True show ?thesis
      by (simp add: ctl_result_def shared_result_def shared_handler_def put all)
  next
    case False
    then show ?thesis by (simp add: ctl_result_def fun_upd_idem)
  qed
qed

definition agree :: "effect_panel \<Rightarrow> bool" where
  "agree p \<longleftrightarrow> spinbox p = slider p"

lemma agree_intros: "agree p \<Longrightarrow> agree (dir_result r s x p)" "agree p \<Longrightarrow> agree (put_control r s x p)"
  "agree p \<Longrightarrow> agree (set_both t p)"
  by (auto simp: agree_def put_control_def fun_upd_idem)

lemma agree_ctl_result: "agree p \<Longrightarrow> agree (ctl_result r s x p)"
  by (simp add: ctl_result_def shared_result_def shared_handler_def agree_intros)

lemma synced_ctl_result:
  assumes "synced p" and "in_range r x"
  shows "synced (ctl_result r s x p)"
proof -
  have "agree p" unfolding agree_def using assms(1) by (auto simp: synced_def)
  then have "spinbox (ctl_result r s x p) = slider (ctl_result r s x p)"
    using agree_ctl_result by (simp add: agree_def)
  then have "spinbox (ctl_result r s x p) q t = slider (ctl_result r s x p) q t" for q t by simp
  moreover have "in_range q (slider (ctl_result r s x p) q t)" for q t
    using assms by (auto simp: slider_ctl_result synced_def)
  ultimately show ?thesis by (simp add: synced_def)
qed

section \<open>The configuration a panel shows\<close>

lemma percent_unit_all: "list_all (\<lambda>v. unit_rate (percent v)) [0..100]"
  by code_simp

lemma percent_unit: "0 \<le> v \<Longrightarrow> v \<le> 100 \<Longrightarrow> unit_rate (percent v)"
  using percent_unit_all unfolding list_all_iff set_upto by simp

text \<open>The field of a direction's configuration that a row is about has the value of the row's slider.\<close>

fun row_shows :: "row \<Rightarrow> int \<Rightarrow> dir_config \<Rightarrow> bool" where
  "row_shows DelayRow v c = (delay_ms c = v)"
| "row_shows JitterRow v c = (delay_jitter_ms c = v)"
| "row_shows ThrottleRow v c = (throttle_kbytes_per_sec c = v)"
| "row_shows DropRow v c = (drop_rate c = percent v)"
| "row_shows BurstChanceRow v c = (burst_drop_rate c = percent v)"
| "row_shows BurstLengthRow v c = (burst_drop_length c = v)"
| "row_shows DuplicateRow v c = (duplicate_rate c = percent v)"
| "row_shows CopiesRow v c = (duplicate_count c = v)"

lemma row_shows_set: "in_range r x \<Longrightarrow> row_shows r x (apply_setting (row_setting r x) c)"
  by (cases r) (auto simp: cfg_simps in_range_def limit_defs clamp_int_id percent_unit clamp_float_id Let_def)

lemma row_shows_other: "q \<noteq> r \<Longrightarrow> row_shows q v (apply_setting (row_setting r x) c) = row_shows q v c"
  by (cases q; cases r; simp add: cfg_simps Let_def)

lemma row_setting_idem:
  "in_range r x \<Longrightarrow> apply_setting (row_setting r x) (apply_setting (row_setting r x) c) = apply_setting (row_setting r x) c"
  by (cases r) (auto simp: cfg_simps in_range_def limit_defs clamp_int_id percent_unit clamp_float_id Let_def)

lemma burst_enabled_other: "burst_drop_enabled (apply_setting (row_setting r x) c) = burst_drop_enabled c"
  by (cases r) (simp_all add: cfg_simps Let_def)

lemma row_shows_burst [simp]: "row_shows r v (SetBurstDropEnabled b c) = row_shows r v c"
  by (cases r) (simp_all add: cfg_simps)

lemma cfg_ctl_result:
  assumes "in_range r x"
  shows "cfg d (ctl_result r s x p) =
    (if slider p r s \<noteq> x \<and> row_live r p \<and> (s = Shared \<or> s = side_of d)
     then apply_setting (row_setting r x) (cfg d p) else cfg d p)"
proof -
  have live: "row_live r (dir_result q t y p) = row_live r p" "row_live r (set_both u p) = row_live r p" for q t y u p
    by (simp_all add: rest_live [OF rest_dir_result] set_both_def set_effect_def row_live_def)
  have dir: "cfg d (dir_result r t x q) =
      (if slider q r t \<noteq> x \<and> row_live r q \<and> (t = OutSide \<longleftrightarrow> d) then apply_setting (row_setting r x) (cfg d q) else cfg d q)" for t q d
    by (auto simp: dir_result_def dir_handler_def put_control_def)
  show ?thesis
  proof (cases "s = Shared")
    case True
    then show ?thesis
      by (auto simp: ctl_result_def shared_result_def shared_handler_def put_control_def dir live row_setting_idem [OF assms])
  next
    case False
    then show ?thesis by (cases s) (auto simp: ctl_result_def dir side_of_def)
  qed
qed

text \<open>
  The invariant: for every direction the configuration has the values of the directional sliders; the
  number of copies is 1 unless custom copies are chosen, and then it is the shared or the
  direction's value, in asymmetric mode the direction's.
\<close>

definition rows_ok :: "effect_panel \<Rightarrow> bool" where
  "rows_ok p \<longleftrightarrow>
     (\<forall>d r. r \<noteq> CopiesRow \<longrightarrow> row_shows r (slider p r (side_of d)) (cfg d p)) \<and>
     (\<forall>d. burst_drop_enabled (cfg d p) = burst_checked p)"

definition copies_ok :: "effect_panel \<Rightarrow> bool" where
  "copies_ok p \<longleftrightarrow> (\<forall>d. duplicate_count (cfg d p) \<in>
     (if custom_copies p then {slider p CopiesRow Shared, slider p CopiesRow (side_of d)} else {kDefaultDuplicateCopies}))"

definition copies_split_ok :: "effect_panel \<Rightarrow> bool" where
  "copies_split_ok p \<longleftrightarrow> custom_copies p \<and> asymmetric p DuplicateRow \<longrightarrow>
     (\<forall>d. duplicate_count (cfg d p) = slider p CopiesRow (side_of d))"

lemma side_of_neq [simp]: "side_of d \<noteq> Shared" "Shared \<noteq> side_of d" "side_of d = side_of e \<longleftrightarrow> d = e"
  by (simp_all add: side_of_def)

lemma rows_ok_ctl_result:
  assumes "rows_ok p" and "in_range r x"
  shows "rows_ok (ctl_result r s x p)"
proof -
  have "row_shows q (slider (ctl_result r s x p) q (side_of d)) (cfg d (ctl_result r s x p))" if q: "q \<noteq> CopiesRow" for d q
  proof -
    have old: "row_shows q (slider p q (side_of d)) (cfg d p)" using assms(1) q by (simp add: rows_ok_def)
    show ?thesis
    proof (cases "q = r")
      case True
      then have "row_live r p" using q by (simp add: row_live_def)
      with True old row_shows_set [OF assms(2)] show ?thesis
        by (auto simp: cfg_ctl_result [OF assms(2)] slider_ctl_result)
    next
      case False
      with old show ?thesis by (simp add: cfg_ctl_result [OF assms(2)] slider_ctl_result row_shows_other)
    qed
  qed
  moreover have "burst_drop_enabled (cfg d (ctl_result r s x p)) = burst_checked p" for d
    using assms(1) by (simp add: cfg_ctl_result [OF assms(2)] burst_enabled_other rows_ok_def)
  ultimately show ?thesis by (simp add: rows_ok_def)
qed

lemma count_other: "r \<noteq> CopiesRow \<Longrightarrow> duplicate_count (apply_setting (row_setting r x) c) = duplicate_count c"
  by (cases r) (simp_all add: cfg_simps Let_def)

lemma count_set: "in_range CopiesRow x \<Longrightarrow> duplicate_count (apply_setting (row_setting CopiesRow x) c) = x"
  using row_shows_set [of CopiesRow x c] by simp

lemma copies_ok_ctl_result:
  assumes "in_range r x"
  shows "copies_ok p \<Longrightarrow> copies_ok (ctl_result r s x p)"
    and "copies_split_ok p \<Longrightarrow> copies_split_ok (ctl_result r s x p)"
proof -
  have other: "duplicate_count (cfg d (ctl_result r s x p)) = duplicate_count (cfg d p) \<and>
      slider (ctl_result r s x p) CopiesRow = slider p CopiesRow" if "r \<noteq> CopiesRow" for d
    using that by (simp add: cfg_ctl_result [OF assms] slider_ctl_result count_other)
  have same: "duplicate_count (cfg d (ctl_result r s x p)) =
      (if slider p r s \<noteq> x \<and> custom_copies p \<and> (s = Shared \<or> s = side_of d) then x else duplicate_count (cfg d p))"
    if "r = CopiesRow" for d
    using that assms by (auto simp: cfg_ctl_result row_live_def count_set simp del: row_setting.simps)
  show "copies_ok p \<Longrightarrow> copies_ok (ctl_result r s x p)"
    using other same by (cases "r = CopiesRow") (auto simp: copies_ok_def slider_ctl_result row_live_def)
  show "copies_split_ok p \<Longrightarrow> copies_split_ok (ctl_result r s x p)"
    using other same by (cases "r = CopiesRow") (auto simp: copies_split_ok_def slider_ctl_result row_live_def)
qed

section \<open>Operations on a consistent panel\<close>

definition configs_ok :: "effect_panel \<Rightarrow> bool" where
  "configs_ok p \<longleftrightarrow> (\<forall>d. config_ok (cfg d p))"

lemma row_setting_typed: "in_range r x \<Longrightarrow> setting_typed (row_setting r x)"
  by (cases r) (auto simp: in_range_def limit_defs in_int32_def)

lemma configs_ok_ctl_result: "configs_ok p \<Longrightarrow> in_range r x \<Longrightarrow> configs_ok (ctl_result r s x p)"
  by (simp add: configs_ok_def cfg_ctl_result apply_setting_ok row_setting_typed)

definition core_ok :: "effect_panel \<Rightarrow> bool" where
  "core_ok p \<longleftrightarrow> synced p \<and> rows_ok p \<and> copies_ok p \<and> configs_ok p"

lemma core_ctl_result: "core_ok p \<Longrightarrow> in_range r x \<Longrightarrow> core_ok (ctl_result r s x p)"
  by (simp add: core_ok_def synced_ctl_result rows_ok_ctl_result copies_ok_ctl_result configs_ok_ctl_result)

lemma in_range_slider: "synced p \<Longrightarrow> in_range r (slider p r s)"
  by (simp add: synced_def)

text \<open>What setting controls, in any order, keeps.\<close>

definition keeps :: "effect_panel \<Rightarrow> effect_panel option \<Rightarrow> bool" where
  "keeps p res \<longleftrightarrow> (\<exists>p'. res = Some p' \<and> core_ok p' \<and> rest_of p' = rest_of p \<and> (copies_split_ok p \<longrightarrow> copies_split_ok p'))"

lemma keeps_refl: "core_ok p \<Longrightarrow> keeps p (Some p)"
  by (simp add: keeps_def)

lemma keeps_slide:
  assumes "qt_lawful Q" and "core_ok p"
  shows "keeps p (slide Q r s v p)" "keeps p (spin Q r s v p)"
  using assms core_ctl_result [OF assms(2), of r "bounded r v" s] copies_ok_ctl_result(2) [of r "bounded r v" p s]
  by (auto simp: keeps_def core_ok_def slide_eq spin_eq)

lemma keeps_bind:
  assumes "keeps p m" and "\<And>q. core_ok q \<Longrightarrow> keeps q (f q)"
  shows "keeps p (Option.bind m f)"
  using assms unfolding keeps_def by fastforce

lemmas keeps_intros = keeps_slide keeps_bind keeps_refl

lemma keeps_copy:
  assumes "qt_lawful Q" and "core_ok p"
  shows "keeps p (copy_to_directions Q r p)" "keeps p (copy_from_outbound Q r p)" "keeps p (adjust_row Q r d p)"
  using assms by (auto simp: copy_to_directions_def copy_from_outbound_def adjust_row_def Let_def intro!: keeps_intros)

lemma copy_to_directions_slider:
  assumes "qt_lawful Q" and "core_ok p" and "copy_to_directions Q r p = Some p'"
  shows "slider p' = (slider p)(r := (\<lambda>_. slider p r Shared))"
proof -
  let ?v = "slider p r Shared"
  have v: "in_range r ?v" "bounded r ?v = ?v" using assms(2) by (simp_all add: core_ok_def in_range_slider bounded_id)
  have q: "core_ok (ctl_result r OutSide ?v p)" using core_ctl_result assms(2) v(1) by blast
  have "p' = ctl_result r InSide ?v (ctl_result r OutSide ?v p)"
    using assms q by (simp add: copy_to_directions_def Let_def core_ok_def slide_eq v(2))
  then have "slider p' t u = ((slider p)(r := (\<lambda>_. ?v))) t u" for t u
    by (cases u) (auto simp: slider_ctl_result)
  then show ?thesis by blast
qed

lemma split_when_equal:
  assumes "copies_ok p" and "\<And>s. slider p CopiesRow s = slider p CopiesRow Shared"
  shows "copies_split_ok p"
  using assms(1) assms(2) [of "side_of True"] assms(2) [of "side_of False"]
  unfolding copies_ok_def copies_split_ok_def by (metis (full_types) empty_iff insert_iff)

section \<open>The views\<close>

fun check_row :: "row \<Rightarrow> row" where
  "check_row BurstLengthRow = BurstChanceRow"
| "check_row CopiesRow = DuplicateRow"
| "check_row r = r"

fun row_on :: "row \<Rightarrow> effect_panel \<Rightarrow> bool" where
  "row_on DropRow p = (\<not> burst_checked p)"
| "row_on BurstChanceRow p = burst_checked p"
| "row_on BurstLengthRow p = burst_checked p"
| "row_on CopiesRow p = custom_copies p"
| "row_on _ p = True"

text \<open>A row takes input at its shared control or at its directional ones, never at both.\<close>

definition views_ok :: "effect_panel \<Rightarrow> bool" where
  "views_ok p \<longleftrightarrow>
     (\<forall>r. (shared_enabled p r \<longleftrightarrow> row_on r p \<and> \<not> asymmetric p (check_row r)) \<and>
          (directions_visible p r \<longleftrightarrow> row_on r p \<and> asymmetric p (check_row r))) \<and>
     (drop_asymmetric_enabled p \<longleftrightarrow> \<not> burst_checked p) \<and> (burst_controls_visible p \<longleftrightarrow> burst_checked p) \<and>
     (copies_controls_visible p \<longleftrightarrow> custom_copies p \<and> \<not> asymmetric p DuplicateRow)"

definition steps_ok :: "effect_panel \<Rightarrow> bool" where
  "steps_ok p \<longleftrightarrow> 1 \<le> delay_step p \<and> delay_step p \<le> 500 \<and> 1 \<le> drop_step p \<and> drop_step p \<le> 50"

definition panel_inv :: "effect_panel \<Rightarrow> bool" where
  "panel_inv p \<longleftrightarrow> core_ok p \<and> copies_split_ok p \<and> views_ok p \<and> steps_ok p"

lemma row_on_rest:
  assumes "rest_of p = rest_of q"
  shows "row_on r p = row_on r q"
  by (cases r) (simp_all add: rest_sel(2,3) [OF assms])

lemma views_rest:
  assumes "rest_of p = rest_of q"
  shows "views_ok p = views_ok q"
  by (simp only: views_ok_def rest_sel [OF assms] row_on_rest [OF assms])

lemma steps_rest:
  assumes "rest_of p = rest_of q"
  shows "steps_ok p = steps_ok q"
  by (simp only: steps_ok_def rest_sel [OF assms])

lemma keeps_inv:
  assumes "keeps p res" and "panel_inv p"
  shows "\<exists>p'. res = Some p' \<and> panel_inv p'"
proof -
  obtain p' where p': "res = Some p'" "core_ok p'" "rest_of p' = rest_of p" "copies_split_ok p \<longrightarrow> copies_split_ok p'"
    using assms(1) unfolding keeps_def by blast
  then show ?thesis using assms(2) views_rest [OF p'(3)] steps_rest [OF p'(3)] by (simp add: panel_inv_def)
qed

section \<open>Check boxes keep the panel consistent\<close>

text \<open>Fields that only switch the views.\<close>

lemma core_views [simp]:
  "core_ok (p\<lparr>asymmetric := a\<rparr>) = core_ok p"
  "core_ok (show_directions r c p) = core_ok p"
  "core_ok (update_duplicate_copy_controls_visibility p) = core_ok p"
  "core_ok (update_burst_drop_controls_visibility p) = core_ok p"
  by (simp_all add: core_ok_def synced_def rows_ok_def copies_ok_def configs_ok_def cfg_def show_directions_def
      update_duplicate_copy_controls_visibility_def update_burst_drop_controls_visibility_def Let_def)

lemma split_views [simp]:
  "copies_split_ok (show_directions r c p) = copies_split_ok p"
  "copies_split_ok (update_duplicate_copy_controls_visibility p) = copies_split_ok p"
  "copies_split_ok (update_burst_drop_controls_visibility p) = copies_split_ok p"
  by (simp_all add: copies_split_ok_def cfg_def show_directions_def
      update_duplicate_copy_controls_visibility_def update_burst_drop_controls_visibility_def Let_def)

lemma split_asymmetric:
  "a DuplicateRow = asymmetric p DuplicateRow \<Longrightarrow> copies_split_ok (p\<lparr>asymmetric := a\<rparr>) = copies_split_ok p"
  by (simp add: copies_split_ok_def cfg_def)

lemma steps_views [simp]:
  "steps_ok (p\<lparr>asymmetric := a\<rparr>) = steps_ok p"
  "steps_ok (show_directions r c p) = steps_ok p"
  "steps_ok (update_duplicate_copy_controls_visibility p) = steps_ok p"
  "steps_ok (update_burst_drop_controls_visibility p) = steps_ok p"
  by (simp_all add: steps_ok_def show_directions_def
      update_duplicate_copy_controls_visibility_def update_burst_drop_controls_visibility_def Let_def)

text \<open>The views after a switch, for a panel that is the old one but for values and the switched flag.\<close>

lemma views_show_directions:
  assumes "views_ok p" and "rest_of q = rest_of (p\<lparr>asymmetric := (asymmetric p)(r := c)\<rparr>)"
    and "r \<in> {DelayRow, JitterRow, ThrottleRow, DropRow}" and "r = DropRow \<longrightarrow> \<not> burst_checked p"
  shows "views_ok (show_directions r c q)"
proof -
  have on: "row_on t (show_directions r c q) = row_on t p" for t
    by (cases t) (simp_all add: show_directions_def rest_sel [OF assms(2)])
  have check: "check_row t = r \<longleftrightarrow> t = r" for t using assms(3) by (cases t) auto
  have r: "row_on r p" "check_row r = r" "r \<noteq> DuplicateRow" using assms(3,4) by auto
  show ?thesis
    using assms(1) r unfolding views_ok_def on
    by (auto simp: show_directions_def rest_sel [OF assms(2)] check)
qed

lemma views_burst:
  assumes "views_ok p" and "\<And>r. r \<noteq> BurstChanceRow \<Longrightarrow> asymmetric q r = asymmetric p r"
    and "shared_enabled q = shared_enabled p" and "directions_visible q = directions_visible p"
    and "custom_copies q = custom_copies p" and "copies_controls_visible q = copies_controls_visible p"
  shows "views_ok (update_burst_drop_controls_visibility q)"
proof -
  have "(shared_enabled (update_burst_drop_controls_visibility q) r \<longleftrightarrow> row_on r q \<and> \<not> asymmetric q (check_row r)) \<and>
      (directions_visible (update_burst_drop_controls_visibility q) r \<longleftrightarrow> row_on r q \<and> asymmetric q (check_row r))" for r
    using assms(1) by (cases r)
      (simp_all add: update_burst_drop_controls_visibility_def Let_def assms(2-) views_ok_def)
  moreover have "row_on r (update_burst_drop_controls_visibility q) = row_on r q" for r
    by (cases r) (simp_all add: update_burst_drop_controls_visibility_def Let_def)
  ultimately show ?thesis
    using assms(1) by (simp add: views_ok_def)
      (simp add: update_burst_drop_controls_visibility_def Let_def assms(2-) views_ok_def)
qed

lemma views_duplicate:
  assumes "views_ok p" and "\<And>r. r \<noteq> DuplicateRow \<Longrightarrow> asymmetric q r = asymmetric p r"
    and "\<And>r. r \<noteq> CopiesRow \<Longrightarrow> shared_enabled q r \<longleftrightarrow> (if r = DuplicateRow then \<not> asymmetric q r else shared_enabled p r)"
    and "\<And>r. r \<noteq> CopiesRow \<Longrightarrow> directions_visible q r \<longleftrightarrow> (if r = DuplicateRow then asymmetric q r else directions_visible p r)"
    and "burst_checked q = burst_checked p" and "burst_controls_visible q = burst_controls_visible p"
    and "drop_asymmetric_enabled q = drop_asymmetric_enabled p"
  shows "views_ok (update_duplicate_copy_controls_visibility q)"
proof -
  have "(shared_enabled (update_duplicate_copy_controls_visibility q) r \<longleftrightarrow> row_on r q \<and> \<not> asymmetric q (check_row r)) \<and>
      (directions_visible (update_duplicate_copy_controls_visibility q) r \<longleftrightarrow> row_on r q \<and> asymmetric q (check_row r))" for r
    using assms(1) by (cases r)
      (simp_all add: update_duplicate_copy_controls_visibility_def assms(2-) views_ok_def)
  moreover have "row_on r (update_duplicate_copy_controls_visibility q) = row_on r q" for r
    by (cases r) (simp_all add: update_duplicate_copy_controls_visibility_def)
  ultimately show ?thesis
    using assms(1) by (simp add: views_ok_def)
      (simp add: update_duplicate_copy_controls_visibility_def assms(2-) views_ok_def)
qed

lemma row_asymmetric_inv:
  assumes "qt_lawful Q" and "panel_inv p" and "r \<in> {DelayRow, JitterRow, ThrottleRow, DropRow}"
    and "r = DropRow \<longrightarrow> \<not> burst_checked p"
  shows "\<exists>p'. row_asymmetric_toggled Q r c p = Some p' \<and> panel_inv p'"
proof -
  let ?p = "p\<lparr>asymmetric := (asymmetric p)(r := c)\<rparr>"
  have inv: "core_ok p" "copies_split_ok p" "views_ok p" "steps_ok p" using assms(2) by (simp_all add: panel_inv_def)
  have "copies_split_ok ?p" by (subst split_asymmetric) (use assms(3) inv(2) in auto)
  moreover have "keeps ?p (if c then copy_to_directions Q r ?p else copy_from_outbound Q r ?p)"
    using keeps_copy(1,2) [OF assms(1), of ?p] inv(1) by (cases c) simp_all
  ultimately obtain q where q: "(if c then copy_to_directions Q r ?p else copy_from_outbound Q r ?p) = Some q"
      "core_ok q" "rest_of q = rest_of ?p" "copies_split_ok q"
    unfolding keeps_def by blast
  have "steps_ok q" using steps_rest [OF q(3)] inv(4) by simp
  then show ?thesis
    using q(1,2,4) views_show_directions [OF inv(3) q(3) assms(3,4)]
    by (simp add: row_asymmetric_toggled_def Let_def panel_inv_def)
qed

lemma burst_drop_inv:
  assumes "panel_inv p"
  shows "panel_inv (burst_drop_toggled c p)"
proof -
  let ?q = "set_both (BurstDropEnabled c) (p\<lparr>burst_checked := c\<rparr>)"
  have inv: "core_ok p" "copies_split_ok p" "views_ok p" "steps_ok p" using assms by (simp_all add: panel_inv_def)
  have q: "cfg d ?q = SetBurstDropEnabled c (cfg d p)" for d
    unfolding cfg_set_both by (simp add: cfg_def)
  have sel: "slider ?q = slider p" "spinbox ?q = spinbox p" "asymmetric ?q = asymmetric p" "custom_copies ?q = custom_copies p"
    "burst_checked ?q = c" "shared_enabled ?q = shared_enabled p" "directions_visible ?q = directions_visible p"
    "copies_controls_visible ?q = copies_controls_visible p" "delay_step ?q = delay_step p" "drop_step ?q = drop_step p"
    by (simp_all add: set_both_def set_effect_def)
  have count: "duplicate_count (SetBurstDropEnabled c e) = duplicate_count e" "burst_drop_enabled (SetBurstDropEnabled c e) = c" for e
    by (simp_all add: cfg_simps)
  have "config_ok (SetBurstDropEnabled c e)" if "config_ok e" for e
    using apply_setting_ok [of "BurstDropEnabled c" e] that by simp
  then have "core_ok ?q"
    using inv(1) by (auto simp: core_ok_def synced_def rows_ok_def copies_ok_def configs_ok_def q sel count simp del: cfg_set_both split: if_splits)
  moreover have "copies_split_ok ?q" using inv(2) by (simp add: copies_split_ok_def q sel count del: cfg_set_both)
  moreover have "steps_ok ?q" using inv(4) by (simp add: steps_ok_def sel)
  moreover have "views_ok (update_burst_drop_controls_visibility ?q)"
    by (rule views_burst [OF inv(3)]) (simp_all add: sel)
  ultimately show ?thesis by (simp add: burst_drop_toggled_def panel_inv_def)
qed

lemma custom_copies_inv:
  assumes "panel_inv p"
  shows "panel_inv (custom_copies_toggled c p)"
proof -
  have inv: "core_ok p" "copies_split_ok p" "views_ok p" "steps_ok p" using assms by (simp_all add: panel_inv_def)
  define n where "n d = (if \<not> c then kDefaultDuplicateCopies
      else slider p CopiesRow (if asymmetric p DuplicateRow then side_of d else Shared))" for d
  define q where "q = set_effect False (DuplicateCount (n False)) (set_effect True (DuplicateCount (n True)) (p\<lparr>custom_copies := c\<rparr>))"
  have toggled: "custom_copies_toggled c p = update_duplicate_copy_controls_visibility q"
    by (simp add: custom_copies_toggled_def q_def n_def set_both_def side_of_def)
  have n: "in_range CopiesRow (n d)" for d
    using inv(1) initial_in_range [of CopiesRow] by (simp add: n_def core_ok_def synced_def)
  have q: "cfg d q = apply_setting (row_setting CopiesRow (n d)) (cfg d p)" for d
    by (cases d) (simp_all add: q_def, simp_all add: cfg_def)
  have sel: "slider q = slider p" "spinbox q = spinbox p" "asymmetric q = asymmetric p" "custom_copies q = c"
    "burst_checked q = burst_checked p" "shared_enabled q = shared_enabled p" "directions_visible q = directions_visible p"
    "burst_controls_visible q = burst_controls_visible p" "drop_asymmetric_enabled q = drop_asymmetric_enabled p"
    "delay_step q = delay_step p" "drop_step q = drop_step p"
    by (simp_all add: q_def set_effect_def)
  have count: "duplicate_count (cfg d q) = n d" for d unfolding q by (rule count_set [OF n])
  have "rows_ok q"
    using inv(1) by (simp add: core_ok_def rows_ok_def q sel row_shows_other burst_enabled_other del: row_setting.simps)
  moreover have "configs_ok q"
    using inv(1) by (simp add: core_ok_def configs_ok_def q apply_setting_ok row_setting_typed [OF n] del: row_setting.simps)
  ultimately have "core_ok q"
    using inv(1) by (simp add: core_ok_def synced_def copies_ok_def count sel) (simp add: n_def)
  moreover have "copies_split_ok q"
    by (simp add: copies_split_ok_def count sel) (simp add: n_def)
  moreover have "steps_ok q" using inv(4) by (simp add: steps_ok_def sel)
  moreover have "views_ok (update_duplicate_copy_controls_visibility q)"
    by (rule views_duplicate [OF inv(3)]) (use inv(3) in \<open>auto simp: sel views_ok_def\<close>)
  ultimately show ?thesis by (simp add: toggled panel_inv_def)
qed

lemma burst_asymmetric_inv:
  assumes "qt_lawful Q" and "panel_inv p"
  shows "\<exists>p'. burst_asymmetric_toggled Q c p = Some p' \<and> panel_inv p'"
proof -
  let ?p = "p\<lparr>asymmetric := (asymmetric p)(BurstChanceRow := c)\<rparr>"
  let ?m = "if c then
      Option.bind (Option.bind (slide Q BurstChanceRow OutSide (slider p BurstChanceRow Shared) ?p)
          (slide Q BurstChanceRow InSide (slider p BurstChanceRow Shared)))
        (\<lambda>q. Option.bind (slide Q BurstLengthRow OutSide (slider p BurstLengthRow Shared) q)
          (slide Q BurstLengthRow InSide (slider p BurstLengthRow Shared)))
    else Option.bind (copy_from_outbound Q BurstChanceRow ?p) (copy_from_outbound Q BurstLengthRow)"
  have inv: "core_ok p" "copies_split_ok p" "views_ok p" "steps_ok p" using assms(2) by (simp_all add: panel_inv_def)
  have "keeps ?p ?m"
    using inv(1) by (cases c) (auto intro!: keeps_intros keeps_copy assms(1))
  moreover have "copies_split_ok ?p" using inv(2) by (simp add: split_asymmetric)
  ultimately obtain q where q: "?m = Some q" "core_ok q" "rest_of q = rest_of ?p" "copies_split_ok q"
    unfolding keeps_def by blast
  have "views_ok (update_burst_drop_controls_visibility q)"
    by (rule views_burst [OF inv(3)]) (simp_all add: rest_sel [OF q(3)])
  moreover have "steps_ok q" using steps_rest [OF q(3)] inv(4) by simp
  moreover have "burst_asymmetric_toggled Q c p = map_option update_burst_drop_controls_visibility ?m"
    by (simp add: burst_asymmetric_toggled_def Let_def)
  ultimately show ?thesis using q(1,2,4) by (simp add: panel_inv_def)
qed

text \<open>Both rows of the duplicates are copied; the copies only while custom copies are chosen.\<close>

lemma duplicate_asymmetric_inv:
  assumes "qt_lawful Q" and "panel_inv p"
  shows "\<exists>p'. duplicate_asymmetric_toggled Q c p = Some p' \<and> panel_inv p'"
proof -
  let ?p = "p\<lparr>asymmetric := (asymmetric p)(DuplicateRow := c)\<rparr>"
  let ?f = "if c then copy_to_directions else copy_from_outbound"
  let ?g = "\<lambda>q. if custom_copies q then ?f Q CopiesRow q else Some q"
  have inv: "core_ok p" "copies_split_ok p" "views_ok p" "steps_ok p" using assms(2) by (simp_all add: panel_inv_def)
  have f: "keeps q (?f Q r q)" if "core_ok q" for q r using keeps_copy [OF assms(1) that] by simp
  then have g: "keeps q (?g q)" if "core_ok q" for q using that by (simp add: keeps_refl)
  obtain p1 where p1: "?f Q DuplicateRow ?p = Some p1" "core_ok p1" "rest_of p1 = rest_of ?p"
    using f [of ?p DuplicateRow] inv(1) unfolding keeps_def by auto
  obtain q where q: "?g p1 = Some q" "core_ok q" "rest_of q = rest_of p1"
    using g [OF p1(2)] unfolding keeps_def by blast
  have rest: "rest_of q = rest_of ?p" using q(3) p1(3) by simp
  have split: "copies_split_ok q"
  proof (cases "c \<and> custom_copies q")
    case True
    then have "copy_to_directions Q CopiesRow p1 = Some q" using q(1) rest_sel(3) [OF q(3)] by simp
    from copy_to_directions_slider [OF assms(1) p1(2) this] show ?thesis
      using q(2) by (intro split_when_equal) (simp_all add: core_ok_def)
  next
    case False
    then show ?thesis using rest_sel(1) [OF rest] by (auto simp: copies_split_ok_def)
  qed
  have "views_ok (update_duplicate_copy_controls_visibility (show_directions DuplicateRow c q))"
    by (rule views_duplicate [OF inv(3)]) (auto simp: show_directions_def rest_sel [OF rest])
  moreover have "steps_ok q" using steps_rest [OF rest] inv(4) by simp
  moreover have "duplicate_asymmetric_toggled Q c p =
      map_option (\<lambda>p. update_duplicate_copy_controls_visibility (show_directions DuplicateRow c p)) (Some q)"
  proof (cases c)
    case True
    with p1(1) q(1) show ?thesis by (cases "custom_copies p1") (simp_all add: duplicate_asymmetric_toggled_def Let_def)
  next
    case False
    with p1(1) q(1) show ?thesis by (cases "custom_copies p1") (simp_all add: duplicate_asymmetric_toggled_def Let_def)
  qed
  ultimately show ?thesis using q(2) split by (simp add: panel_inv_def)
qed

section \<open>Every action keeps the panel consistent\<close>

lemma hotkey_adjusts_keeps: "qt_lawful Q \<Longrightarrow> core_ok p \<Longrightarrow> keeps p (hotkey_adjusts Q a p)"
  by (cases a) (simp_all add: keeps_copy keeps_refl)

lemma step_fields_inv:
  assumes "qt_lawful Q" and "panel_inv p"
  shows "panel_inv (p\<lparr>delay_step := fst (Q (1, 500) (delay_step p) v)\<rparr>)"
    and "panel_inv (p\<lparr>drop_step := fst (Q (1, 50) (drop_step p) v)\<rparr>)"
proof -
  have q: "Q (1, 500) x y = (clamp_int y 1 500, clamp_int y 1 500 \<noteq> x)" "Q (1, 50) x y = (clamp_int y 1 50, clamp_int y 1 50 \<noteq> x)" for x y
    using assms(1) by (simp_all add: qt_lawful_def)
  have row: "row_on r (p\<lparr>delay_step := x\<rparr>) = row_on r p" "row_on r (p\<lparr>drop_step := x\<rparr>) = row_on r p" for r x
    by (cases r; simp)+
  have core: "core_ok (p\<lparr>delay_step := x\<rparr>) = core_ok p" "core_ok (p\<lparr>drop_step := x\<rparr>) = core_ok p"
    "copies_split_ok (p\<lparr>delay_step := x\<rparr>) = copies_split_ok p" "copies_split_ok (p\<lparr>drop_step := x\<rparr>) = copies_split_ok p"
    "views_ok (p\<lparr>delay_step := x\<rparr>) = views_ok p" "views_ok (p\<lparr>drop_step := x\<rparr>) = views_ok p" for x
    by (simp_all add: core_ok_def synced_def rows_ok_def copies_ok_def configs_ok_def copies_split_ok_def cfg_def views_ok_def row)
  show "panel_inv (p\<lparr>delay_step := fst (Q (1, 500) (delay_step p) v)\<rparr>)"
    "panel_inv (p\<lparr>drop_step := fst (Q (1, 50) (drop_step p) v)\<rparr>)"
    using assms(2) by (simp_all add: panel_inv_def core q steps_ok_def clamp_int_bounds)
qed

lemma panel_step_inv:
  assumes "qt_lawful Q" and "panel_inv p"
  shows "\<exists>p'. panel_step Q a p = Some p' \<and> panel_inv p'"
proof -
  have core: "core_ok p" and views: "views_ok p" using assms(2) by (simp_all add: panel_inv_def)
  have kept: "\<exists>p'. m = Some p' \<and> panel_inv p'" if "keeps p m" for m using keeps_inv [OF that assms(2)] .
  show ?thesis
  proof (cases a)
    case (ToggleAsymmetric r)
    have drop: "drop_asymmetric_enabled p \<longleftrightarrow> \<not> burst_checked p" using views by (simp add: views_ok_def)
    show ?thesis
      using assms(2) row_asymmetric_inv [OF assms, of r] burst_asymmetric_inv [OF assms] duplicate_asymmetric_inv [OF assms]
      unfolding ToggleAsymmetric by (cases r) (simp_all add: drop)
  next
    case (Slide r s v)
    then show ?thesis using kept keeps_slide(1) [OF assms(1) core] keeps_refl [OF core] by simp
  next
    case (Spin r s v)
    then show ?thesis using kept keeps_slide(2) [OF assms(1) core] keeps_refl [OF core] by simp
  next
    case (PressHotkey h)
    then show ?thesis using kept hotkey_adjusts_keeps [OF assms(1) core] by simp
  qed (use assms in \<open>simp_all add: burst_drop_inv custom_copies_inv step_fields_inv\<close>)
qed

interpretation controls: event_machine "panel_step Q" "panel_run Q" "\<lambda>_. True" "\<lambda>p. qt_lawful Q \<and> panel_inv p" for Q
  by unfold_locales (auto dest: panel_step_inv)

lemma panel_run_inv: "qt_lawful Q \<Longrightarrow> panel_inv p \<Longrightarrow> \<exists>p'. panel_run Q as p = Some p' \<and> panel_inv p'"
  using controls.run_total [of Q p as] by simp

lemma panel_init_inv:
  assumes "1 \<le> a" "a \<le> 500" "1 \<le> b" "b \<le> 50"
  shows "panel_inv (panel_init a b)"
proof -
  let ?p = "panel_init a b"
  have sel: "slider ?p = (\<lambda>r _. initial_value r)" "spinbox ?p = (\<lambda>r _. initial_value r)" "asymmetric ?p = (\<lambda>_. False)"
    "burst_checked ?p = False" "custom_copies ?p = False" "panel_effects ?p = effect_config_init"
    "delay_step ?p = a" "drop_step ?p = b"
    by (simp_all add: panel_init_def update_duplicate_copy_controls_visibility_def update_burst_drop_controls_visibility_def Let_def)
  have cfg: "cfg d ?p = dir_config_init" for d
    by (simp add: cfg_def sel effect_config_init_def ConfigForDirection_def)
  have "row_shows r (initial_value r) dir_config_init" for r
    by (cases r) (simp_all add: dir_config_init_def percent_def limit_defs)
  moreover have "burst_drop_enabled dir_config_init = False" "duplicate_count dir_config_init = kDefaultDuplicateCopies"
    by (simp_all add: dir_config_init_def)
  ultimately have "core_ok ?p"
    by (simp add: core_ok_def synced_def rows_ok_def copies_ok_def configs_ok_def config_ok_init sel cfg initial_in_range)
  moreover have "(shared_enabled ?p r \<longleftrightarrow> row_on r ?p) \<and> \<not> directions_visible ?p r" for r
    by (cases r) (simp_all add: panel_init_def update_duplicate_copy_controls_visibility_def
        update_burst_drop_controls_visibility_def Let_def)
  then have "views_ok ?p"
    by (simp add: views_ok_def sel) (simp add: panel_init_def update_duplicate_copy_controls_visibility_def
        update_burst_drop_controls_visibility_def Let_def)
  ultimately show ?thesis using assms by (simp add: panel_inv_def copies_split_ok_def steps_ok_def sel)
qed

section \<open>Properties\<close>

lemma core_shows: "core_ok p \<Longrightarrow> r \<noteq> CopiesRow \<Longrightarrow> row_shows r (slider p r (side_of d)) (cfg d p)"
  by (simp add: core_ok_def rows_ok_def)

lemma run_from_init:
  assumes "qt_lawful Q" and "1 \<le> a" "a \<le> 500" "1 \<le> b" "b \<le> 50"
  obtains p where "panel_run Q as (panel_init a b) = Some p" and "panel_inv p"
  using panel_run_inv [OF assms(1) panel_init_inv [OF assms(2-5)]] by blast

text \<open>The answer of a widget as the documentation has it, for the concrete runs.\<close>

definition plain_qt :: qt_set where
  "plain_qt = (\<lambda>(lo, hi) old v. (clamp_int v lo hi, clamp_int v lo hi \<noteq> old))"

lemma plain_lawful: "qt_lawful plain_qt"
  by (simp add: qt_lawful_def plain_qt_def)

text \<open>
  C22: Whatever the user does with the sliders, spin boxes, check boxes and hotkeys, every cascade of
  signals ends; every spin box shows what its slider shows, within the range; and for each direction
  every field of the configuration has the value of that direction's slider (the number of copies has
  it while custom copies are chosen in asymmetric mode, and is 1 without custom copies).
\<close>

theorem panel_always_consistent:
  assumes "qt_lawful Q" and "1 \<le> a" "a \<le> 500" "1 \<le> b" "b \<le> 50"
  shows "\<exists>p. panel_run Q as (panel_init a b) = Some p \<and>
    (\<forall>r s. spinbox p r s = slider p r s \<and> in_range r (slider p r s)) \<and>
    (\<forall>d r. (r \<noteq> CopiesRow \<or> custom_copies p \<and> asymmetric p DuplicateRow) \<longrightarrow>
        row_shows r (slider p r (if d then OutSide else InSide)) (ConfigForDirection d (panel_effects p))) \<and>
    (\<forall>d. \<not> custom_copies p \<longrightarrow> duplicate_count (ConfigForDirection d (panel_effects p)) = kDefaultDuplicateCopies)"
proof -
  obtain p where p: "panel_run Q as (panel_init a b) = Some p" "panel_inv p" using run_from_init [OF assms] .
  have inv: "core_ok p" "copies_split_ok p" "synced p" "copies_ok p" using p(2) by (simp_all add: panel_inv_def core_ok_def)
  have "row_shows r (slider p r (side_of d)) (cfg d p)" if "r \<noteq> CopiesRow \<or> custom_copies p \<and> asymmetric p DuplicateRow" for d r
    using that core_shows [OF inv(1)] inv(2) by (cases "r = CopiesRow") (simp_all add: copies_split_ok_def)
  moreover have "\<forall>r s. spinbox p r s = slider p r s \<and> in_range r (slider p r s)" using inv(3) unfolding synced_def .
  moreover have "\<not> custom_copies p \<Longrightarrow> duplicate_count (cfg d p) = kDefaultDuplicateCopies" for d
    using inv(4) by (simp add: copies_ok_def)
  ultimately show ?thesis
    unfolding p(1) cfg_def side_of_def by blast
qed

theorem panel_always_consistent_witness:
  "\<exists>p. panel_run plain_qt [ToggleAsymmetric DropRow, Slide DropRow InSide 250, Spin DelayRow Shared 40, PressHotkey kIncrementDropRate]
      (panel_init 10 5) = Some p \<and>
    (\<forall>r s. spinbox p r s = slider p r s \<and> in_range r (slider p r s)) \<and>
    (\<forall>d r. (r \<noteq> CopiesRow \<or> custom_copies p \<and> asymmetric p DuplicateRow) \<longrightarrow>
        row_shows r (slider p r (if d then OutSide else InSide)) (ConfigForDirection d (panel_effects p))) \<and>
    (\<forall>d. \<not> custom_copies p \<longrightarrow> duplicate_count (ConfigForDirection d (panel_effects p)) = kDefaultDuplicateCopies)"
  by (rule panel_always_consistent [OF plain_lawful]) simp_all

text \<open>
  At every time a row of controls takes input either at its shared control or at its directional
  ones or, while its mode is off, at neither: asymmetric mode opens the directional ones; burst mode
  closes the drop row and opens the burst rows; and the copies open with custom copies.
\<close>

theorem one_kind_of_control_open:
  assumes "qt_lawful Q" and "1 \<le> a" "a \<le> 500" "1 \<le> b" "b \<le> 50"
  shows "\<exists>p. panel_run Q as (panel_init a b) = Some p \<and>
    (\<forall>r s. usable r s p \<longleftrightarrow> row_on r p \<and> (s = Shared \<longleftrightarrow> \<not> asymmetric p (check_row r)))"
proof -
  obtain p where p: "panel_run Q as (panel_init a b) = Some p" "panel_inv p" using run_from_init [OF assms] .
  then show ?thesis by (intro exI [of _ p]) (auto simp: panel_inv_def views_ok_def usable_def)
qed

theorem one_kind_of_control_open_witness:
  "\<exists>p. panel_run plain_qt [ToggleBurst, ToggleAsymmetric BurstChanceRow, ToggleAsymmetric DropRow] (panel_init 10 5) = Some p \<and>
    (\<forall>r s. usable r s p \<longleftrightarrow> row_on r p \<and> (s = Shared \<longleftrightarrow> \<not> asymmetric p (check_row r)))"
  by (rule one_kind_of_control_open [OF plain_lawful]) simp_all

text \<open>A hundred times the quotient, rounded, is the slider's value again.\<close>

fun hundredfold :: "float32 \<Rightarrow> int" where
  "hundredfold (Fin x) = \<lfloor>100 * x + 1 / 2\<rfloor>"
| "hundredfold _ = 0"

lemma hundredfold_percent_all: "list_all (\<lambda>v. hundredfold (percent v) = v) [0..100]"
  by code_simp

lemma percent_inj: "0 \<le> v \<Longrightarrow> v \<le> 100 \<Longrightarrow> 0 \<le> w \<Longrightarrow> w \<le> 100 \<Longrightarrow> percent v = percent w \<longleftrightarrow> v = w"
  using hundredfold_percent_all unfolding list_all_iff set_upto by (metis atLeastAtMost_iff)

lemma row_shows_unique:
  assumes "row_shows r v c" and "in_range r v" and "in_range r w"
  shows "row_shows r w c \<longleftrightarrow> v = w"
  using assms by (cases r) (auto simp: in_range_def percent_inj)

text \<open>What un-checking makes of one row.\<close>

definition shows_both :: "row \<Rightarrow> effect_panel \<Rightarrow> bool" where
  "shows_both r p \<longleftrightarrow> (\<forall>d. row_shows r (slider p r (side_of d)) (cfg d p))"

definition inbound_after :: "row \<Rightarrow> effect_panel \<Rightarrow> int" where
  "inbound_after r p = (if slider p r Shared = slider p r OutSide then slider p r InSide else slider p r OutSide)"

definition taken_over :: "row \<Rightarrow> effect_panel \<Rightarrow> effect_panel \<Rightarrow> bool" where
  "taken_over r p q \<longleftrightarrow> slider q r Shared = slider p r OutSide \<and> slider q r OutSide = slider p r OutSide \<and>
     slider q r InSide = inbound_after r p \<and> shows_both r q"

lemma copy_from_outbound_effect:
  assumes "qt_lawful Q" and "core_ok p" and "row_live r p" and "shows_both r p"
  shows "\<exists>q. copy_from_outbound Q r p = Some q \<and> core_ok q \<and> taken_over r p q \<and> custom_copies q = custom_copies p \<and>
    asymmetric q = asymmetric p \<and> (\<forall>t. t \<noteq> r \<longrightarrow> slider q t = slider p t \<and> shows_both t q = shows_both t p)"
proof -
  let ?v = "slider p r OutSide"
  let ?q = "ctl_result r Shared ?v p"
  have v: "in_range r ?v" "bounded r ?v = ?v" using assms(2) by (simp_all add: core_ok_def in_range_slider bounded_id)
  have eq: "copy_from_outbound Q r p = Some ?q"
    using assms(1,2) v(2) by (simp add: copy_from_outbound_def core_ok_def slide_eq)
  have sl: "slider ?q = (if slider p r Shared = ?v then slider p else (slider p)(r := (\<lambda>_. ?v)))"
    using assms(3) by (simp add: slider_ctl_result)
  have c: "cfg d ?q = (if slider p r Shared \<noteq> ?v then apply_setting (row_setting r ?v) (cfg d p) else cfg d p)" for d
    using assms(3) by (simp add: cfg_ctl_result [OF v(1)])
  have "taken_over r p ?q"
    using assms(4) row_shows_set [OF v(1)] by (simp add: taken_over_def inbound_after_def shows_both_def sl c)
  moreover have "slider ?q t = slider p t \<and> shows_both t ?q = shows_both t p" if "t \<noteq> r" for t
    using that by (simp add: sl c shows_both_def row_shows_other)
  ultimately show ?thesis using eq core_ctl_result [OF assms(2) v(1)] by auto
qed

lemma taken_over_cong:
  "slider p' = slider p \<Longrightarrow> slider q' = slider q \<Longrightarrow> panel_effects q' = panel_effects q \<Longrightarrow> taken_over r p' q' = taken_over r p q"
  by (simp add: taken_over_def inbound_after_def shows_both_def cfg_def)

text \<open>Two rows taken over one after the other.\<close>

lemma copy_two_rows_effect:
  assumes "qt_lawful Q" and "core_ok p" and "row_live r p" "row_live t p" and "shows_both r p" "shows_both t p" and "r \<noteq> t"
  shows "\<exists>q. Option.bind (copy_from_outbound Q r p) (copy_from_outbound Q t) = Some q \<and>
    taken_over r p q \<and> taken_over t p q \<and> custom_copies q = custom_copies p \<and> asymmetric q = asymmetric p"
proof -
  from copy_from_outbound_effect [OF assms(1-3,5)] obtain q1 where
    q1: "copy_from_outbound Q r p = Some q1" "core_ok q1" "taken_over r p q1" "custom_copies q1 = custom_copies p"
      "asymmetric q1 = asymmetric p" "slider q1 t = slider p t" "shows_both t q1"
    using assms(6,7) by auto
  have "row_live t q1" using assms(4) q1(4) by (simp add: row_live_def)
  from copy_from_outbound_effect [OF assms(1) q1(2) this q1(7)] obtain q where
    q: "copy_from_outbound Q t q1 = Some q" "taken_over t q1 q" "custom_copies q = custom_copies q1"
      "asymmetric q = asymmetric q1" "slider q r = slider q1 r" "shows_both r q = shows_both r q1"
    using assms(7) by auto
  have "taken_over t p q" using q(2) q1(6) by (simp add: taken_over_def inbound_after_def)
  moreover have "taken_over r p q" using q1(3) q(5,6) by (simp add: taken_over_def)
  ultimately show ?thesis using q1(1,4,5) q(1,3,4) by auto
qed

lemma uncheck_takes_over:
  assumes "qt_lawful Q" and "panel_inv p" and "asymmetric p r" "check_row r = r" and "row_on r p"
  shows "\<exists>p'. panel_step Q (ToggleAsymmetric r) p = Some p' \<and> asymmetric p' = (asymmetric p)(r := False) \<and>
    (\<forall>q. check_row q = r \<and> (q = CopiesRow \<longrightarrow> custom_copies p) \<longrightarrow> taken_over q p p')"
proof -
  let ?p = "p\<lparr>asymmetric := (asymmetric p)(r := False)\<rparr>"
  have inv: "core_ok p" "copies_split_ok p" "views_ok p" using assms(2) by (simp_all add: panel_inv_def)
  have core: "core_ok ?p" using inv(1) by simp
  have both: "shows_both q ?p" if "q \<noteq> CopiesRow \<or> custom_copies p \<and> r = DuplicateRow" for q
    using that core_shows [OF inv(1)] inv(2) assms(3)
    by (cases "q = CopiesRow") (auto simp: shows_both_def copies_split_ok_def cfg_def)
  have live: "row_live q ?p" if "q \<noteq> CopiesRow \<or> custom_copies p" for q using that by (auto simp: row_live_def)
  have cong: "taken_over q p p' = taken_over q ?p p''"
    if "slider p' = slider p''" "panel_effects p' = panel_effects p''" for q p' p''
    using that by (intro taken_over_cong) simp_all
  show ?thesis
  proof (cases "r = BurstChanceRow")
    case True
    from copy_two_rows_effect [OF assms(1) core live live both both, of BurstChanceRow BurstLengthRow] obtain q where
      q: "Option.bind (copy_from_outbound Q BurstChanceRow ?p) (copy_from_outbound Q BurstLengthRow) = Some q"
        "taken_over BurstChanceRow ?p q" "taken_over BurstLengthRow ?p q" "asymmetric q = asymmetric ?p" by auto
    let ?p' = "update_burst_drop_controls_visibility q"
    have "panel_step Q (ToggleAsymmetric r) p = Some ?p'"
      using True q(1) assms(3,5) inv(3) by (simp add: burst_asymmetric_toggled_def Let_def views_ok_def)
    moreover have "slider ?p' = slider q" "panel_effects ?p' = panel_effects q" "asymmetric ?p' = asymmetric q"
      by (simp_all add: update_burst_drop_controls_visibility_def Let_def)
    moreover have "q = BurstChanceRow \<or> q = BurstLengthRow" if "check_row q = BurstChanceRow" for q using that by (cases q) auto
    ultimately show ?thesis using q(2-4) True cong [of ?p' q] by auto
  next
    case burst: False
    show ?thesis
    proof (cases "r = DuplicateRow")
      case True
      have rows: "q = DuplicateRow \<or> q = CopiesRow" if "check_row q = DuplicateRow" for q using that by (cases q) auto
      obtain q where
        q: "Option.bind (copy_from_outbound Q DuplicateRow ?p)
            (\<lambda>p. if custom_copies p then copy_from_outbound Q CopiesRow p else Some p) = Some q"
          "taken_over DuplicateRow ?p q" "custom_copies p \<longrightarrow> taken_over CopiesRow ?p q" "asymmetric q = asymmetric ?p"
      proof (cases "custom_copies p")
        case custom: True
        from copy_two_rows_effect [OF assms(1) core live live both both, of DuplicateRow CopiesRow] custom True obtain q where
          q: "Option.bind (copy_from_outbound Q DuplicateRow ?p) (copy_from_outbound Q CopiesRow) = Some q"
            "taken_over DuplicateRow ?p q" "taken_over CopiesRow ?p q" "asymmetric q = asymmetric ?p" by auto
        from copy_from_outbound_effect [OF assms(1) core live both, of DuplicateRow] custom obtain q1 where
          "copy_from_outbound Q DuplicateRow ?p = Some q1" "custom_copies q1" by auto
        with q that show ?thesis by simp
      next
        case False
        from copy_from_outbound_effect [OF assms(1) core live both, of DuplicateRow] False obtain q1 where
          "copy_from_outbound Q DuplicateRow ?p = Some q1" "\<not> custom_copies q1" "taken_over DuplicateRow ?p q1"
          "asymmetric q1 = asymmetric ?p" by auto
        with False that show ?thesis by simp
      qed
      let ?p' = "update_duplicate_copy_controls_visibility (show_directions DuplicateRow False q)"
      have "panel_step Q (ToggleAsymmetric r) p = Some ?p'"
        using True q(1) assms(3) by (simp add: duplicate_asymmetric_toggled_def Let_def)
      moreover have "slider ?p' = slider q" "panel_effects ?p' = panel_effects q" "asymmetric ?p' = asymmetric q"
        by (simp_all add: update_duplicate_copy_controls_visibility_def show_directions_def)
      ultimately show ?thesis using q(2-4) True cong [of ?p' q] rows by auto
    next
      case False
      with burst assms(4) have r: "r \<in> {DelayRow, JitterRow, ThrottleRow, DropRow}" by (cases r) auto
      have rows: "q = r" if "check_row q = r" for q using that r by (cases q) auto
      have n: "r \<noteq> CopiesRow" using r by auto
      from copy_from_outbound_effect [OF assms(1) core live both, of r] n obtain q where
        q: "copy_from_outbound Q r ?p = Some q" "taken_over r ?p q" "asymmetric q = asymmetric ?p" by auto
      let ?p' = "show_directions r False q"
      have "row_asymmetric_toggled Q r False p = Some ?p'" using q(1) by (simp add: row_asymmetric_toggled_def Let_def)
      then have "panel_step Q (ToggleAsymmetric r) p = Some ?p'"
        using r assms(3,5) inv(3) by (auto simp: views_ok_def)
      moreover have a: "slider ?p' = slider q" "panel_effects ?p' = panel_effects q" "asymmetric ?p' = asymmetric ?p"
        using q(3) by (simp_all add: show_directions_def)
      moreover have "taken_over r p ?p'" using cong [OF a(1,2)] q(2) by simp
      then have "taken_over t p ?p'" if "check_row t = r" for t unfolding rows [OF that] .
      ultimately show ?thesis by (intro exI [of _ ?p']) (simp del: panel_step.simps)
    qed
  qed
qed

text \<open>
  C31: Un-checking Asymmetric takes the inbound value over only if the shared slider moves. Whatever was done
  before, un-checking any of the six boxes (delay, jitter, throttle, drop, burst with its two rows, duplicate
  with the rate and, while custom copies are chosen, the copies), of which the drop box can be used only
  without and the burst box only with burst mode, sets the row's shared slider to the outbound value. If it had
  another value, both directional sliders and both directions' configurations have the outbound value
  afterwards; but if it already had that value, the inbound slider and the inbound configuration keep the
  inbound slider's own value. So the directions agree afterwards exactly if the shared slider moved or they
  agreed before.
\<close>

theorem uncheck_asymmetric_effect:
  assumes "qt_lawful Q" and "1 \<le> a" "a \<le> 500" "1 \<le> b" "b \<le> 50"
    and "panel_run Q as (panel_init a b) = Some p" and "asymmetric p r" and "check_row r = r" and "row_on r p"
  shows "\<exists>p'. panel_step Q (ToggleAsymmetric r) p = Some p' \<and> asymmetric p' = (asymmetric p)(r := False) \<and>
    (\<forall>q. check_row q = r \<and> (q = CopiesRow \<longrightarrow> custom_copies p) \<longrightarrow>
      (let v = slider p q OutSide; x = (if slider p q Shared = v then slider p q InSide else v) in
       slider p' q Shared = v \<and> slider p' q OutSide = v \<and> slider p' q InSide = x \<and>
       row_shows q v (ConfigForDirection True (panel_effects p')) \<and>
       row_shows q x (ConfigForDirection False (panel_effects p')) \<and>
       (row_shows q v (ConfigForDirection False (panel_effects p')) \<longleftrightarrow>
         slider p q Shared \<noteq> slider p q OutSide \<or> slider p q InSide = slider p q OutSide)))"
proof -
  have inv: "panel_inv p" using run_from_init [OF assms(1-5), of as] assms(6) by force
  then have s: "synced p" by (simp add: panel_inv_def core_ok_def)
  from uncheck_takes_over [OF assms(1) inv assms(7-9)] obtain p' where
    p': "panel_step Q (ToggleAsymmetric r) p = Some p'" "asymmetric p' = (asymmetric p)(r := False)"
      "\<forall>q. check_row q = r \<and> (q = CopiesRow \<longrightarrow> custom_copies p) \<longrightarrow> taken_over q p p'" by blast
  have "let v = slider p q OutSide; x = (if slider p q Shared = v then slider p q InSide else v) in
       slider p' q Shared = v \<and> slider p' q OutSide = v \<and> slider p' q InSide = x \<and>
       row_shows q v (ConfigForDirection True (panel_effects p')) \<and>
       row_shows q x (ConfigForDirection False (panel_effects p')) \<and>
       (row_shows q v (ConfigForDirection False (panel_effects p')) \<longleftrightarrow>
         slider p q Shared \<noteq> slider p q OutSide \<or> slider p q InSide = slider p q OutSide)"
    if q: "check_row q = r \<and> (q = CopiesRow \<longrightarrow> custom_copies p)" for q
  proof -
    let ?v = "slider p q OutSide" and ?x = "inbound_after q p"
    from p'(3) q have t: "taken_over q p p'" by blast
    then have sl: "slider p' q Shared = ?v" "slider p' q OutSide = ?v" "slider p' q InSide = ?x" and b: "shows_both q p'"
      by (simp_all add: taken_over_def)
    have sh: "row_shows q ?v (ConfigForDirection True (panel_effects p'))"
      "row_shows q ?x (ConfigForDirection False (panel_effects p'))"
      using b [unfolded shows_both_def, THEN spec, of True] b [unfolded shows_both_def, THEN spec, of False] sl
      by (simp_all add: side_of_def cfg_def)
    have "in_range q ?x" using in_range_slider [OF s] by (simp add: inbound_after_def)
    from row_shows_unique [OF sh(2) this in_range_slider [OF s]]
    have "row_shows q ?v (ConfigForDirection False (panel_effects p')) \<longleftrightarrow> ?x = ?v" .
    with sl sh show ?thesis by (simp add: inbound_after_def Let_def)
  qed
  with p'(1,2) show ?thesis by blast
qed

theorem uncheck_asymmetric_effect_witness:
  "\<exists>p. panel_run plain_qt [ToggleBurst, Slide BurstLengthRow Shared 30, ToggleAsymmetric BurstChanceRow, Slide BurstLengthRow InSide 10]
      (panel_init 10 5) = Some p \<and>
    (\<exists>p'. panel_step plain_qt (ToggleAsymmetric BurstChanceRow) p = Some p' \<and> slider p' BurstLengthRow Shared = 30 \<and>
      slider p' BurstLengthRow InSide = 10 \<and> row_shows BurstLengthRow 10 (ConfigForDirection False (panel_effects p')))"
proof -
  let ?run = "panel_run plain_qt [ToggleBurst, Slide BurstLengthRow Shared 30, ToggleAsymmetric BurstChanceRow,
    Slide BurstLengthRow InSide 10] (panel_init 10 5)"
  have "map_option (\<lambda>p. (map (slider p BurstLengthRow) [Shared, OutSide, InSide], asymmetric p BurstChanceRow, burst_checked p)) ?run =
      Some ([30, 30, 10], True, True)" by code_simp
  then obtain p where p: "?run = Some p" "slider p BurstLengthRow Shared = 30" "slider p BurstLengthRow OutSide = 30"
    "slider p BurstLengthRow InSide = 10" "asymmetric p BurstChanceRow" "row_on BurstChanceRow p" by auto
  have n: "1 \<le> (10 :: int)" "10 \<le> (500 :: int)" "1 \<le> (5 :: int)" "5 \<le> (50 :: int)" "check_row BurstChanceRow = BurstChanceRow"
    by simp_all
  from uncheck_asymmetric_effect [OF plain_lawful n(1-4) p(1,5) n(5) p(6)] obtain p' where
    p': "panel_step plain_qt (ToggleAsymmetric BurstChanceRow) p = Some p'"
      "\<forall>q. check_row q = BurstChanceRow \<and> (q = CopiesRow \<longrightarrow> custom_copies p) \<longrightarrow>
        (let v = slider p q OutSide; x = (if slider p q Shared = v then slider p q InSide else v) in
         slider p' q Shared = v \<and> slider p' q OutSide = v \<and> slider p' q InSide = x \<and>
         row_shows q v (ConfigForDirection True (panel_effects p')) \<and>
         row_shows q x (ConfigForDirection False (panel_effects p')) \<and>
         (row_shows q v (ConfigForDirection False (panel_effects p')) \<longleftrightarrow>
           slider p q Shared \<noteq> slider p q OutSide \<or> slider p q InSide = slider p q OutSide))" by blast
  from p'(2) [THEN spec, of BurstLengthRow] p(2-4)
  have "slider p' BurstLengthRow Shared = 30" "slider p' BurstLengthRow InSide = 10"
    "row_shows BurstLengthRow 10 (ConfigForDirection False (panel_effects p'))" by (simp_all add: Let_def)
  with p(1) p'(1) show ?thesis by blast
qed

text \<open>The row a hotkey is about, and by how much it moves.\<close>

fun hotkey_move :: "hotkey_action \<Rightarrow> effect_panel \<Rightarrow> (row \<times> int) option" where
  "hotkey_move kIncrementDelay p = Some (DelayRow, delay_step p)"
| "hotkey_move kDecrementDelay p = Some (DelayRow, - delay_step p)"
| "hotkey_move kIncrementDropRate p = Some (DropRow, drop_step p)"
| "hotkey_move kDecrementDropRate p = Some (DropRow, - drop_step p)"
| "hotkey_move _ p = None"

lemma hotkey_adjusts_move: "hotkey_move h p = Some (r, k) \<Longrightarrow> hotkey_adjusts Q h p = adjust_row Q r k p \<and> r \<in> {DelayRow, DropRow}"
  by (cases h) auto

lemma adjust_row_eq:
  assumes "qt_lawful Q" and "core_ok p"
  shows "adjust_row Q r k p = Some
    (if asymmetric p r then ctl_result r InSide (bounded r (slider p r InSide + k)) (ctl_result r OutSide (bounded r (slider p r OutSide + k)) p)
     else ctl_result r Shared (bounded r (slider p r Shared + k)) p)"
proof -
  let ?q = "ctl_result r OutSide (bounded r (slider p r OutSide + k)) p"
  have "core_ok ?q" by (simp add: core_ctl_result assms(2))
  moreover have "slider ?q r InSide = slider p r InSide" by (simp add: slider_ctl_result)
  ultimately show ?thesis using assms by (simp add: adjust_row_def core_ok_def slide_eq)
qed

text \<open>
  A delay or drop hotkey moves what is configured by one step within the range: in asymmetric mode
  each direction from its own value, else both directions to the shared value moved, unless the shared
  value is already at the end of the range, when nothing changes.
\<close>

theorem hotkey_moves_configuration:
  assumes "qt_lawful Q" and "1 \<le> a" "a \<le> 500" "1 \<le> b" "b \<le> 50"
    and "panel_run Q as (panel_init a b) = Some p" and "hotkey_move h p = Some (r, k)"
  shows "\<exists>p'. hotkey_adjusts Q h p = Some p' \<and>
    (\<forall>d. let s = if d then OutSide else InSide; moved = bounded r (slider p r Shared + k) in
      row_shows r (if asymmetric p r then bounded r (slider p r s + k)
                   else if moved = slider p r Shared then slider p r s else moved)
        (ConfigForDirection d (panel_effects p')))"
proof -
  have "panel_inv p" using run_from_init [OF assms(1-5), of as] assms(6) by force
  then have core: "core_ok p" by (simp add: panel_inv_def)
  have r: "r \<noteq> CopiesRow" "row_live r p" and adj: "hotkey_adjusts Q h p = adjust_row Q r k p"
    using hotkey_adjusts_move [OF assms(7)] by (auto simp: row_live_def)
  let ?m = "\<lambda>s. bounded r (slider p r s + k)"
  show ?thesis
  proof (cases "asymmetric p r")
    case True
    let ?q = "ctl_result r InSide (?m InSide) (ctl_result r OutSide (?m OutSide) p)"
    have "core_ok ?q" by (simp add: core_ctl_result core)
    note shown = core_shows [OF this r(1)]
    have "slider ?q r (side_of d) = ?m (side_of d)" for d by (simp add: side_of_def slider_ctl_result)
    then have "row_shows r (?m (side_of d)) (cfg d ?q)" for d using shown [of d] by simp
    then show ?thesis using True
      by (simp only: adj adjust_row_eq [OF assms(1) core] Let_def if_True option.inject ex_simps simp_thms cfg_def side_of_def)
  next
    case False
    let ?q = "ctl_result r Shared (?m Shared) p"
    have "core_ok ?q" by (simp add: core_ctl_result core)
    note shown = core_shows [OF this r(1)]
    have "slider ?q r (side_of d) = (if ?m Shared = slider p r Shared then slider p r (side_of d) else ?m Shared)" for d
      using r(2) by (simp add: slider_ctl_result)
    then have "row_shows r (if ?m Shared = slider p r Shared then slider p r (side_of d) else ?m Shared) (cfg d ?q)" for d
      using shown [of d] by simp
    then show ?thesis using False
      by (simp only: adj adjust_row_eq [OF assms(1) core] Let_def if_False option.inject ex_simps simp_thms cfg_def side_of_def)
  qed
qed

theorem hotkey_moves_configuration_witness:
  "\<exists>p p'. panel_run plain_qt [Slide DropRow Shared 98] (panel_init 10 5) = Some p \<and>
    hotkey_adjusts plain_qt kIncrementDropRate p = Some p' \<and>
    row_shows DropRow 100 (ConfigForDirection False (panel_effects p'))"
proof -
  let ?run = "panel_run plain_qt [Slide DropRow Shared 98] (panel_init 10 5)"
  have "map_option (\<lambda>p. (slider p DropRow Shared, asymmetric p DropRow, drop_step p)) ?run = Some (98, False, 5)"
    by code_simp
  then obtain p where p: "?run = Some p" "slider p DropRow Shared = 98" "\<not> asymmetric p DropRow" "drop_step p = 5"
    by auto
  have b: "bounded DropRow 103 = 100" by code_simp
  obtain p' where p': "hotkey_adjusts plain_qt kIncrementDropRate p = Some p'"
    "\<forall>d. let s = if d then OutSide else InSide; moved = bounded DropRow (slider p DropRow Shared + 5) in
      row_shows DropRow (if asymmetric p DropRow then bounded DropRow (slider p DropRow s + 5)
                   else if moved = slider p DropRow Shared then slider p DropRow s else moved)
        (ConfigForDirection d (panel_effects p'))"
    using hotkey_moves_configuration [OF plain_lawful _ _ _ _ p(1), of kIncrementDropRate DropRow 5] p(4) by auto
  then show ?thesis using p(1-3) b by (auto simp: Let_def)
qed

end
