(* ===== verification/Window_Laws.thy ===== *)
theory Window_Laws
  imports Main_Window Pipeline_Frame Control_Laws
begin

text \<open>
  What the main window guarantees: every event is handled to its end, the buttons, timers and owned
  objects agree, what is targeted is what is selected, and driver handles are open exactly while the
  pipeline runs; and two races the events allow.
\<close>

section \<open>Starting and stopping comes to an end\<close>

definition platform_ok :: "('m, 'w, 'g) platform \<Rightarrow> bool" where
  "platform_ok P \<longleftrightarrow> outside_ok (out P) \<and> alloc_ok (ring_alloc P) (ring_pad P) \<and> qt_lawful (qt P)"

lemma pi_Stop_total:
  assumes "\<And>q. delay p = Some q \<Longrightarrow> dq_inv q"
  shows "\<exists>p' v'. pi_Stop D p v = Some (p', v')"
proof (cases "delay p")
  case None
  then show ?thesis by (simp add: pi_Stop_def Let_def)
next
  case (Some q)
  have "dq_inv (q\<lparr>running := False, thread_alive := False\<rparr>)"
    using assms [OF Some] by (simp add: dq_inv_def held_slots_def)
  from FlushPackets_spec [OF this] obtain q' v' where
    "FlushPackets D (q\<lparr>running := False, thread_alive := False\<rparr>)
      (if pi_handle p then v\<lparr>world := divert_shutdown D LayerNetwork ShutdownRecv (world v)\<rparr> else v) = Some (q', v')" by blast
  with Some show ?thesis by (simp add: pi_Stop_def dq_Stop_def Let_def)
qed

lemma pi_Start_total:
  assumes "alloc_ok al pad" and "\<not> pi_running p"
  shows "\<exists>r p' v'. pi_Start D al pad p v = Some (r, p', v') \<and>
    (if r = Inr () then pi_running p' \<and> pi_handle p' \<and> pi_has_callback p' = pi_has_callback p \<and> (\<exists>q. delay p' = Some q \<and> dq_inv q) else delay p' = delay p)"
proof -
  obtain q where q: "DelayQueue_new al pad = Some q" "dq_inv q" using DelayQueue_new_ok [OF assms(1)] by blast
  have "dq_inv (dq_Start q)" using q(2) by (simp add: dq_Start_def dq_inv_def held_slots_def)
  then show ?thesis using assms(2) q(1) by (auto simp: pi_Start_def Let_def split: prod.splits)
qed

lemma ft_Start_total:
  assumes "table_answers T" and "ft_inv t" and "\<not> ft_running t"
  shows "\<exists>r t' v'. ft_Start D T t v = Some (r, t', v') \<and> ft_inv t' \<and> (r = Inr () \<longrightarrow> ft_running t' \<and> ft_handle t' \<and> ft_has_callback t' = ft_has_callback t)"
proof -
  obtain gle w where o: "divert_open D LayerFlow (world v) = (gle, w)" by force
  obtain b es v1 where e: "ForEachUdpEntry T (v\<lparr>world := w\<rparr>) = Some (b, es, v1)"
    using ForEachUdpEntry_total [OF assms(1) table_rows_True] by blast
  have "\<exists>r t' v'. ft_Start D T t v = Some (r, t', v') \<and> (r = Inr () \<longrightarrow> ft_running t' \<and> ft_handle t' \<and> ft_has_callback t' = ft_has_callback t)"
    using o e assms(3) by (cases "gle = 0") (simp_all add: ft_Start_def BootstrapFromSystem_def Let_def)
  then show ?thesis using ft_Start_inv [OF assms(2)] by blast
qed

section \<open>The invariant\<close>

definition targets_ok :: "pid_set \<Rightarrow> process_identity \<Rightarrow> bool" where
  "targets_ok s i \<longleftrightarrow> pid_set_inv s \<and> pids s = (if identity_IsValid i then [id_pid i] else [])"

definition visible_ok :: "('w, 'g) main_window \<Rightarrow> bool" where
  "visible_ok w \<longleftrightarrow>
     (tracker_obj w \<noteq> None \<longleftrightarrow> is_running w) \<and> (interceptor_obj w \<noteq> None \<longleftrightarrow> is_running w) \<and>
     (tracking_loop w \<noteq> None \<longrightarrow> is_running w) \<and> (capture_loop w \<noteq> None \<longrightarrow> is_running w) \<and>
     (target_monitor_timer w \<longleftrightarrow> is_running w) \<and> (refresh_timer w \<longleftrightarrow> \<not> is_running w) \<and>
     button w = (if is_running w then ''Stop'' else ''Start'')"

definition objects_ok :: "flow_tracker option \<Rightarrow> 'g pipeline option \<Rightarrow> bool" where
  "objects_ok tr ic \<longleftrightarrow>
     (\<forall>t. tr = Some t \<longrightarrow> ft_inv t \<and> ft_running t \<and> ft_handle t \<and> ft_has_callback t) \<and>
     (\<forall>p. ic = Some p \<longrightarrow> pi_running p \<and> pi_handle p \<and> pi_has_callback p \<and> (\<exists>q. delay p = Some q \<and> dq_inv q))"

text \<open>The handles that are open beside those that were open in the first world.\<close>

definition handles_ok :: "('m, 'w, 'g) platform \<Rightarrow> 'w \<Rightarrow> bool \<Rightarrow> 'w env \<Rightarrow> bool" where
  "handles_ok P w0 runs v \<longleftrightarrow>
     (\<forall>H. handles_tracked H (driver (out P)) (udp_table (out P)) \<longrightarrow>
        H (world v) = H w0 + (if runs then {#LayerFlow, LayerNetwork#} else {#}))"

definition win_inv :: "('m, 'w, 'g) platform \<Rightarrow> 'w \<Rightarrow> ('w, 'g) main_window \<Rightarrow> bool" where
  "win_inv P w0 w \<longleftrightarrow> panel_inv (panel w) \<and> targets_ok (target_pids w) (selected_process_identity w) \<and> visible_ok w \<and>
     objects_ok (tracker_obj w) (interceptor_obj w) \<and> handles_ok P w0 (is_running w) (outer w)"

lemma targets_ok_select: "identity_IsValid i \<Longrightarrow> targets_ok s j \<Longrightarrow> targets_ok (SetSelectedPid (id_pid i) s) i"
  using apply_pid_op_inv [of s "OpSelect (id_pid i)"] by (simp add: targets_ok_def SetSelectedPid_def set_insert_def)

lemma targets_ok_clear: "\<not> identity_IsValid i \<Longrightarrow> targets_ok s j \<Longrightarrow> targets_ok (Clear s) i"
  using apply_pid_op_inv [of s OpClear] by (simp add: targets_ok_def Clear_def)

lemma no_identity_invalid [simp]: "\<not> identity_IsValid no_identity"
  by (simp add: identity_IsValid_def no_identity_def)

text \<open>Events that leave the pipeline alone.\<close>

lemma win_inv_cong:
  assumes "win_inv P w0 w" and "panel w' = panel w" and "targets_ok (target_pids w') (selected_process_identity w')"
    and "tracker_obj w' = tracker_obj w" "interceptor_obj w' = interceptor_obj w" "is_running w' = is_running w"
    "tracking_loop w' = tracking_loop w" "capture_loop w' = capture_loop w"
    "target_monitor_timer w' = target_monitor_timer w" "refresh_timer w' = refresh_timer w" "button w' = button w" "outer w' = outer w"
  shows "win_inv P w0 w'"
  using assms by (simp add: win_inv_def visible_ok_def)

lemma win_inv_plain [simp]:
  "win_inv P w0 (UpdatePipelineStatus m a e w) = win_inv P w0 w" "win_inv P w0 (PlayToggleSound b w) = win_inv P w0 w"
  "win_inv P w0 (warn m w) = win_inv P w0 w" "win_inv P w0 (RefreshProcessList w) = win_inv P w0 w"
  by (simp_all add: win_inv_def visible_ok_def UpdatePipelineStatus_def PlayToggleSound_def warn_def RefreshProcessList_def Let_def)

lemma selection_inv: "win_inv P w0 w \<Longrightarrow> win_inv P w0 (OnProcessSelectionChanged w)"
  by (rule win_inv_cong [of P w0 w]) (auto simp: OnProcessSelectionChanged_def Let_def win_inv_def targets_ok_select targets_ok_clear split: option.splits)

lemma select_item_inv: "win_inv P w0 w \<Longrightarrow> win_inv P w0 (select_item item w)"
  unfolding select_item_def
  by (auto intro!: selection_inv) (rule win_inv_cong [of P w0 w], simp_all add: win_inv_def)

lemma list_ready_inv: "win_inv P w0 w \<Longrightarrow> win_inv P w0 (window_list_ready Q procs w)"
proof -
  have flag: "win_inv P w0 (w\<lparr>refresh_in_flight := False\<rparr>)" if "win_inv P w0 w" for w :: "('b, 'c) main_window"
    using that by (simp add: win_inv_def visible_ok_def)
  have tree: "win_inv P w0 (w\<lparr>tree := ts\<rparr>)" if "win_inv P w0 w" for w :: "('b, 'c) main_window" and ts
    using that by (simp add: win_inv_def visible_ok_def)
  show "win_inv P w0 w \<Longrightarrow> win_inv P w0 (window_list_ready Q procs w)"
    by (simp add: window_list_ready_def Let_def split: prod.split) (intro allI impI select_item_inv tree flag)
qed

section \<open>Stopping\<close>

lemma pi_Stop_result: "pi_Stop D s v = Some (s', v') \<Longrightarrow> \<not> pi_handle s' \<and> \<not> pi_running s' \<and> delay s' = None"
  by (auto simp: pi_Stop_def Let_def split: option.splits)

lemma stop_objects_spec:
  assumes "win_inv P w0 w" and "is_running w"
  shows "\<exists>v. stop_objects (out P) w =
      Some (w\<lparr>interceptor_obj := None, capture_loop := None, tracker_obj := None, tracking_loop := None, outer := v\<rparr>) \<and>
    handles_ok P w0 False v"
proof -
  let ?D = "driver (out P)"
  have inv: "visible_ok w" "objects_ok (tracker_obj w) (interceptor_obj w)" "handles_ok P w0 True (outer w)"
    using assms by (simp_all add: win_inv_def)
  obtain t p where tp: "tracker_obj w = Some t" "interceptor_obj w = Some p" using inv(1) assms(2) by (auto simp: visible_ok_def)
  have p: "pi_handle p" "\<And>q. delay p = Some q \<Longrightarrow> dq_inv q" and t: "ft_handle t" using inv(2) tp by (auto simp: objects_ok_def)
  obtain p1 v1 where s1: "pi_Stop ?D p (outer w) = Some (p1, v1)" using pi_Stop_total [OF p(2)] by blast
  note r1 = pi_Stop_result [OF s1]
  obtain p2 v2 where s2: "pi_Stop ?D p1 v1 = Some (p2, v2)"
    using pi_Stop_total [of p1 ?D v1] r1 by auto
  obtain t1 v3 where s3: "ft_Stop ?D t v2 = (t1, v3)" by force
  obtain t2 v4 where s4: "ft_Stop ?D t1 v3 = (t2, v4)" by force
  have "handles_ok P w0 False v4"
    unfolding handles_ok_def
  proof (intro allI impI)
    fix H assume tr: "handles_tracked H ?D (udp_table (out P))"
    have "H (world v2) = H (world (outer w)) - {#LayerNetwork#}"
      using pi_Stop_handles [OF tr s1] pi_Stop_handles [OF tr s2] p(1) r1 by simp
    moreover have "H (world v4) = H (world v2) - {#LayerFlow#}"
      using ft_Stop_handles [OF tr, of t v2] ft_Stop_handles [OF tr, of t1 v3] s3 s4 t by simp
    ultimately show "H (world v4) = H w0 + (if False then {#LayerFlow, LayerNetwork#} else {#})"
      using inv(3) [unfolded handles_ok_def, rule_format, OF tr] by simp
  qed
  moreover have "stop_objects (out P) w =
      Some (w\<lparr>interceptor_obj := None, capture_loop := None, tracker_obj := None, tracking_loop := None, outer := v4\<rparr>)"
    using tp s1 s2 s3 s4 by (simp add: stop_objects_def reset_interceptor_def reset_tracker_def)
  ultimately show ?thesis by blast
qed

text \<open>After a stop the window is as it was before the start, but for the log of the outside.\<close>

definition stopped :: "('w, 'g) main_window \<Rightarrow> 'w env \<Rightarrow> ('w, 'g) main_window" where
  "stopped w v = w\<lparr>interceptor_obj := None, capture_loop := None, tracker_obj := None, tracking_loop := None, outer := v,
     is_running := False, target_monitor_timer := False, refresh_timer := True\<rparr>"

lemma StopPipeline_spec:
  assumes "win_inv P w0 w" and "is_running w"
  shows "\<exists>v. StopPipeline P w = Some (PlayToggleSound False (UpdatePipelineStatus ''Stopped'' [] False
      ((RefreshProcessList (stopped w v))\<lparr>button := ''Start''\<rparr>))) \<and> handles_ok P w0 False v"
  using stop_objects_spec [OF assms] assms(2) by (auto simp: StopPipeline_def stopped_def Let_def)

lemma stopped_inv:
  assumes "win_inv P w0 w" and "handles_ok P w0 False v"
  shows "win_inv P w0 ((RefreshProcessList (stopped w v))\<lparr>button := ''Start''\<rparr>)"
  using assms by (simp add: win_inv_def visible_ok_def objects_ok_def stopped_def RefreshProcessList_def)

lemma StopPipeline_inv: "win_inv P w0 w \<Longrightarrow> \<exists>w'. StopPipeline P w = Some w' \<and> win_inv P w0 w'"
proof (cases "is_running w")
  case True
  assume inv: "win_inv P w0 w"
  from StopPipeline_spec [OF this True] obtain v where "StopPipeline P w = Some (PlayToggleSound False
      (UpdatePipelineStatus ''Stopped'' [] False ((RefreshProcessList (stopped w v))\<lparr>button := ''Start''\<rparr>)))"
    "handles_ok P w0 False v" by blast
  with stopped_inv [OF inv] show ?thesis by simp
qed (simp add: StopPipeline_def)

section \<open>Starting\<close>

lemma start_interceptor_inv:
  assumes "platform_ok P" and "panel_inv (panel w)" and "targets_ok (target_pids w) (selected_process_identity w)"
    and "tracker_obj w = Some t" "ft_inv t" "ft_running t" "ft_handle t" "ft_has_callback t" "interceptor_obj w = None" "capture_loop w = None"
    and "\<not> is_running w" "\<not> target_monitor_timer w" "refresh_timer w" "button w = ''Start''"
    and handles: "\<And>H. handles_tracked H (driver (out P)) (udp_table (out P)) \<Longrightarrow> H (world (outer w)) = add_mset LayerFlow (H w0)"
  shows "\<exists>w'. start_interceptor P s1 s2 t w = Some w' \<and> win_inv P w0 w'"
proof -
  let ?D = "driver (out P)"
  let ?p = "pi_SetFatalCallback True (PacketInterceptor_new t (target_pids w) (panel_effects (panel w)) s1 s2)"
  have new: "\<not> pi_running ?p" "delay ?p = None" "pi_has_callback ?p" by (simp_all add: pi_SetFatalCallback_def PacketInterceptor_new_def)
  obtain r p1 v1 where st: "pi_Start ?D (ring_alloc P) (ring_pad P) ?p (outer w) = Some (r, p1, v1)"
    "if r = Inr () then pi_running p1 \<and> pi_handle p1 \<and> pi_has_callback p1 = pi_has_callback ?p \<and> (\<exists>q. delay p1 = Some q \<and> dq_inv q) else delay p1 = delay ?p"
    using pi_Start_total [OF _ new(1)] assms(1) unfolding platform_ok_def by blast
  note ph = pi_Start_handles [OF _ new(1) st(1)]
  show ?thesis
  proof (cases r)
    case (Inr u)
    have "handles_ok P w0 True v1"
      unfolding handles_ok_def
    proof (intro allI impI)
      fix H assume tr: "handles_tracked H ?D (udp_table (out P))"
      show "H (world v1) = H w0 + (if True then {#LayerFlow, LayerNetwork#} else {#})"
        using ph [OF tr] handles [OF tr] Inr by simp
    qed
    moreover have "objects_ok (Some t) (Some p1)" using st(2) new(3) Inr assms(5-8) by (simp add: objects_ok_def)
    ultimately have "win_inv P w0 (w\<lparr>interceptor_obj := Some p1, capture_loop := Some 0, outer := v1, is_running := True,
        refresh_timer := False, target_monitor_timer := True, button := ''Stop''\<rparr>)"
      using assms(2-4) by (simp add: win_inv_def visible_ok_def)
    then show ?thesis using st(1) Inr by (simp add: start_interceptor_def Let_def)
  next
    case (Inl e)
    obtain p2 v2 where s2: "pi_Stop ?D p1 v1 = Some (p2, v2)" using pi_Stop_total [of p1 ?D v1] st(2) Inl new(2) by auto
    obtain t2 v3 where s3: "ft_Stop ?D t v2 = (t2, v3)" by force
    have "handles_ok P w0 False v3"
      unfolding handles_ok_def
    proof (intro allI impI)
      fix H assume tr: "handles_tracked H ?D (udp_table (out P))"
      have "H (world v2) = add_mset LayerFlow (H w0)"
        using pi_Stop_handles [OF tr s2] ph [OF tr] handles [OF tr] Inl by simp
      then show "H (world v3) = H w0 + (if False then {#LayerFlow, LayerNetwork#} else {#})"
        using ft_Stop_handles [OF tr, of t v2] s3 assms(7) by simp
    qed
    then show ?thesis using st(1) Inl s2 s3 assms
      by (simp add: start_interceptor_def Let_def reset_interceptor_def reset_tracker_def UpdatePipelineStatus_def
          win_inv_def visible_ok_def objects_ok_def)
  qed
qed

lemma start_pipeline_for_inv:
  assumes "platform_ok P" and "win_inv P w0 w" and "\<not> is_running w" and "identity_IsValid i"
  shows "\<exists>w'. start_pipeline_for P s1 s2 i w = Some w' \<and> win_inv P w0 w'"
proof -
  let ?D = "driver (out P)" and ?T = "udp_table (out P)" and ?t = "SetFatalCallback True flow_tracker_init"
  let ?w = "w\<lparr>selected_process_identity := i, target_pids := SetSelectedPid (id_pid i) (target_pids w)\<rparr>"
  have inv: "panel_inv (panel w)" "targets_ok (target_pids ?w) i" "visible_ok w" "handles_ok P w0 False (outer w)"
    using assms(2,3) targets_ok_select [OF assms(4)] by (auto simp: win_inv_def)
  have none: "tracker_obj w = None" "interceptor_obj w = None" "tracking_loop w = None" "capture_loop w = None"
    using inv(3) assms(3) by (auto simp: visible_ok_def)
  have t: "ft_inv ?t" "\<not> ft_running ?t" and cb: "ft_has_callback ?t" using ft_inv_init by (simp_all add: SetFatalCallback_def flow_tracker_init_def ft_inv_def)
  obtain r t1 v1 where st: "ft_Start ?D ?T ?t (outer w) = Some (r, t1, v1)" "ft_inv t1" "r = Inr () \<longrightarrow> ft_running t1 \<and> ft_handle t1 \<and> ft_has_callback t1 = ft_has_callback ?t"
    using ft_Start_total [OF _ t] assms(1) unfolding platform_ok_def outside_ok_def by blast
  note fh = ft_Start_handles [OF _ t(2) st(1)]
  have rt: "reset_tracker (out P) ?w = ?w" using none by (simp add: reset_tracker_def)
  show ?thesis
  proof (cases r)
    case (Inl e)
    obtain t2 v2 where s2: "ft_Stop ?D t1 v1 = (t2, v2)" by force
    have "handles_ok P w0 False v2"
      unfolding handles_ok_def
    proof (intro allI impI)
      fix H assume tr: "handles_tracked H ?D ?T"
      show "H (world v2) = H w0 + (if False then {#LayerFlow, LayerNetwork#} else {#})"
        using fh [OF tr] ft_Stop_handles [OF tr, of t1 v1] s2 Inl inv(4) tr by (simp add: handles_ok_def)
    qed
    then show ?thesis using st(1) Inl s2 none inv assms(3)
      by (simp add: start_pipeline_for_def Let_def rt reset_tracker_def UpdatePipelineStatus_def win_inv_def visible_ok_def objects_ok_def)
  next
    case (Inr u)
    let ?w1 = "?w\<lparr>tracker_obj := Some t1, tracking_loop := Some 0, outer := v1\<rparr>"
    have "reset_interceptor (out P) ?w1 = Some ?w1" using none by (simp add: reset_interceptor_def)
    then have "start_pipeline_for P s1 s2 i w = start_interceptor P s1 s2 t1 ?w1"
      using st(1) Inr by (simp add: start_pipeline_for_def Let_def rt)
    moreover have "\<exists>w'. start_interceptor P s1 s2 t1 ?w1 = Some w' \<and> win_inv P w0 w'"
    proof (rule start_interceptor_inv [OF assms(1)])
      show "H (world (outer ?w1)) = add_mset LayerFlow (H w0)" if tr: "handles_tracked H ?D ?T" for H
        using fh [OF tr] Inr inv(4) tr by (simp add: handles_ok_def)
    qed (use inv none assms(3) st(2,3) cb Inr in \<open>simp_all add: visible_ok_def\<close>)
    ultimately show ?thesis by simp
  qed
qed

lemma current_valid: "IsProcessIdentityCurrent Y now i \<Longrightarrow> identity_IsValid i"
  by (simp add: IsProcessIdentityCurrent_def split: if_splits)

lemma StartPipeline_inv:
  assumes "platform_ok P" and "win_inv P w0 w" and "\<not> is_running w"
  shows "\<exists>w'. StartPipeline P now s1 s2 w = Some w' \<and> win_inv P w0 w'"
proof (cases "selected w")
  case None
  then show ?thesis using assms(2) by (simp add: StartPipeline_def)
next
  case (Some item)
  let ?i = "IdentityFromItem (Some item)"
  show ?thesis
  proof (cases "IsProcessIdentityCurrent (sys P) now ?i")
    case True
    from start_pipeline_for_inv [OF assms current_valid [OF True]] True Some show ?thesis by (simp add: StartPipeline_def)
  next
    case False
    have "win_inv P w0 (w\<lparr>target_pids := Clear (target_pids w), selected_process_identity := no_identity\<rparr>)"
      by (rule win_inv_cong [OF assms(2)]) (use assms(2) targets_ok_clear [OF no_identity_invalid] in \<open>auto simp: win_inv_def\<close>)
    with False Some show ?thesis by (simp add: StartPipeline_def)
  qed
qed

section \<open>Every event is handled to its end\<close>

lemma check_identity_inv:
  assumes "win_inv P w0 w"
  shows "\<exists>w'. CheckSelectedProcessIdentity P now w = Some w' \<and> win_inv P w0 w'"
proof -
  have "win_inv P w0 (w\<lparr>target_pids := Clear (target_pids w), selected_process_identity := no_identity\<rparr>)"
    by (rule win_inv_cong [OF assms]) (use assms targets_ok_clear [OF no_identity_invalid] in \<open>auto simp: win_inv_def\<close>)
  from StopPipeline_inv [OF this] assms show ?thesis by (auto simp: CheckSelectedProcessIdentity_def)
qed

lemma start_stop_inv:
  "platform_ok P \<Longrightarrow> win_inv P w0 w \<Longrightarrow> \<exists>w'. OnStartStopClicked P now s1 s2 w = Some w' \<and> win_inv P w0 w'"
  by (simp add: OnStartStopClicked_def StopPipeline_inv StartPipeline_inv)

lemma panel_update_inv: "win_inv P w0 w \<Longrightarrow> panel_inv p \<Longrightarrow> win_inv P w0 (w\<lparr>panel := p\<rparr>)"
  by (simp add: win_inv_def visible_ok_def)

lemma hotkey_inv:
  assumes "platform_ok P" and "win_inv P w0 w"
  shows "\<exists>w'. OnHotkeyTriggered P now s1 s2 a w = Some w' \<and> win_inv P w0 w'"
proof -
  have panel: "panel_inv (panel w)" using assms(2) by (simp add: win_inv_def)
  then have "keeps (panel w) (hotkey_adjusts (qt P) a (panel w))"
    using assms(1) by (intro hotkey_adjusts_keeps) (simp_all add: platform_ok_def panel_inv_def)
  from keeps_inv [OF this panel] obtain p where p: "hotkey_adjusts (qt P) a (panel w) = Some p" "panel_inv p" by blast
  then have "win_inv P w0 (w\<lparr>panel := p\<rparr>)" by (rule_tac panel_update_inv [OF assms(2)])
  with p(1) start_stop_inv [OF assms] show ?thesis by (cases a) (auto simp: OnHotkeyTriggered_def)
qed

lemma fatal_inv:
  assumes "win_inv P w0 w"
  shows "\<exists>w'. OnPipelineFatal P gle w = Some w' \<and> win_inv P w0 w'"
  using StopPipeline_inv [OF assms] assms by (auto simp: OnPipelineFatal_def)

lemma tracking_thread_inv:
  assumes "win_inv P w0 w"
  shows "win_inv P w0 (tracking_thread P w)"
proof (cases "\<exists>n t. tracking_loop w = Some n \<and> tracker_obj w = Some t")
  case True
  then obtain n t where nt: "tracking_loop w = Some n" "tracker_obj w = Some t" by blast
  have inv: "panel_inv (panel w)" "targets_ok (target_pids w) (selected_process_identity w)" "visible_ok w"
    "objects_ok (tracker_obj w) (interceptor_obj w)" "handles_ok P w0 (is_running w) (outer w)" using assms by (simp_all add: win_inv_def)
  have t: "ft_inv t" "ft_running t" "ft_handle t" "ft_has_callback t" using inv(4) nt by (simp_all add: objects_ok_def)
  obtain z n' t' v where r: "tracking_round (driver (out P)) n t (outer w) = (z, n', t', v)" by (metis prod_cases4)
  have "ft_inv t'" using tracking_round_inv [OF t(1)] r by blast
  then have "objects_ok (Some t') (interceptor_obj w)"
    using inv(4) t tracking_round_switches [OF r] by (simp add: objects_ok_def)
  moreover have "handles_ok P w0 (is_running w) v"
    using inv(5) tracking_round_handles [OF _ r] by (simp add: handles_ok_def)
  moreover have "is_running w" using inv(3) nt by (simp add: visible_ok_def)
  ultimately show ?thesis using nt t(2) r inv(1-3) by (simp add: tracking_thread_def win_inv_def visible_ok_def)
next
  case False
  then show ?thesis using assms by (auto simp: tracking_thread_def split: option.splits)
qed

lemma capture_thread_inv:
  assumes "platform_ok P" and "win_inv P w0 w"
  shows "\<exists>w'. capture_thread P clock w = Some w' \<and> win_inv P w0 w'"
proof (cases "\<exists>n t p. capture_loop w = Some n \<and> tracker_obj w = Some t \<and> interceptor_obj w = Some p")
  case True
  then obtain n t p where ntp: "capture_loop w = Some n" "tracker_obj w = Some t" "interceptor_obj w = Some p" by blast
  have inv: "panel_inv (panel w)" "targets_ok (target_pids w) (selected_process_identity w)" "visible_ok w"
    "objects_ok (Some t) (Some p)" "handles_ok P w0 (is_running w) (outer w)" using assms(2) ntp by (simp_all add: win_inv_def)
  obtain q where p: "pi_running p" "pi_handle p" "delay p = Some q" "dq_inv q" "pi_has_callback p"
    and t: "ft_inv t" "ft_running t" "ft_handle t" "ft_has_callback t"
    using inv(4) by (auto simp: objects_ok_def)
  have "configs_ok (panel w)" using inv(1) by (simp add: panel_inv_def core_ok_def)
  then have "config_ok (cfg True (panel w))" "config_ok (cfg False (panel w))" by (simp_all add: configs_ok_def)
  then have "pl_inv (referred w t p)"
    using p t(1) inv(2) by (simp add: pl_inv_def referred_def targets_ok_def cfg_def ConfigForDirection_def)
  moreover have "outside_ok (out P)" using assms(1) by (simp add: platform_ok_def)
  moreover have "delay (referred w t p) = Some q" using p(3) by (simp add: referred_def)
  ultimately obtain z n' p' q' v where r: "capture_round (out P) clock n (referred w t p) (outer w) = Some (z, n', p', v)"
    "pl_inv p'" "delay p' = Some q'" "pi_running p' = pi_running p" "pi_handle p' = pi_handle p"
    "pi_has_callback p' = pi_has_callback p"
    "ft_running (tracker p') = ft_running t" "ft_handle (tracker p') = ft_handle t" "ft_has_callback (tracker p') = ft_has_callback t"
    using capture_round_total [of "out P" "referred w t p" q clock n "outer w"] by (auto simp: referred_def)
  have "objects_ok (Some (tracker p')) (Some p')" using r(2-9) p t by (simp add: objects_ok_def pl_inv_def)
  moreover have "handles_ok P w0 (is_running w) v"
    using inv(5) capture_round_handles [OF _ r(1)] by (simp add: handles_ok_def)
  moreover have "is_running w" using inv(3) ntp by (simp add: visible_ok_def)
  ultimately show ?thesis using ntp p(1) r(1) inv(1-3) by (simp add: capture_thread_def win_inv_def visible_ok_def)
next
  case False
  then have "capture_thread P clock w = Some w" by (auto simp: capture_thread_def split: option.splits)
  then show ?thesis using assms(2) by simp
qed

lemma delay_thread_inv:
  assumes "win_inv P w0 w"
  shows "\<exists>w'. delay_thread P now now2 w = Some w' \<and> win_inv P w0 w'"
proof (cases "\<exists>p q. interceptor_obj w = Some p \<and> delay p = Some q \<and> running q")
  case True
  then obtain p q where pq: "interceptor_obj w = Some p" "delay p = Some q" "running q" by blast
  have inv: "panel_inv (panel w)" "targets_ok (target_pids w) (selected_process_identity w)" "visible_ok w"
    "objects_ok (tracker_obj w) (interceptor_obj w)" "handles_ok P w0 (is_running w) (outer w)" using assms by (simp_all add: win_inv_def)
  have p: "pi_running p" "pi_handle p" "dq_inv q" "pi_has_callback p" using inv(4) pq by (auto simp: objects_ok_def)
  obtain z q' v where r: "drain_round (driver (out P)) now now2 q (outer w) = Some (z, q', v)" "dq_inv q'"
    using drain_round_spec [OF p(3)] by blast
  have "objects_ok (tracker_obj w) (Some (p\<lparr>delay := Some q'\<rparr>))" using inv(4) p r(2) by (simp add: objects_ok_def)
  moreover have "handles_ok P w0 (is_running w) v" using inv(5) drain_round_handles [OF _ r(1)] by (simp add: handles_ok_def)
  moreover have "is_running w" using inv(3) pq(1) by (simp add: visible_ok_def)
  ultimately show ?thesis using pq r(1) inv(1-3) by (simp add: delay_thread_def win_inv_def visible_ok_def)
next
  case False
  then have "delay_thread P now now2 w = Some w" by (auto simp: delay_thread_def split: option.splits)
  then show ?thesis using assms by simp
qed

lemma win_inv_fields:
  assumes "win_inv P w0 w"
  shows "win_inv P w0 (w\<lparr>fatal_events := fs\<rparr>)" "win_inv P w0 (w\<lparr>sound_checked := b\<rparr>)" "win_inv P w0 (w\<lparr>volume := x\<rparr>)"
    "win_inv P w0 (w\<lparr>filter_text := txt, tree := ts\<rparr>)"
  using assms by (simp_all add: win_inv_def visible_ok_def)

lemma window_step_inv:
  assumes "platform_ok P" and "win_inv P w0 w"
  shows "\<exists>w'. window_step P e w = Some w' \<and> win_inv P w0 w'"
proof (cases e)
  case (PanelUsed a)
  have "panel_inv (panel w)" "qt_lawful (qt P)" using assms by (simp_all add: win_inv_def platform_ok_def)
  from panel_step_inv [OF this(2,1)] obtain p where "panel_step (qt P) a (panel w) = Some p" "panel_inv p" by blast
  then show ?thesis using PanelUsed panel_update_inv [OF assms(2)] by simp
next
  case FatalDelivered
  then show ?thesis using assms(2) fatal_inv [OF win_inv_fields(1) [OF assms(2)]] by (auto split: list.splits)
next
  case (MonitorTick now)
  then show ?thesis using assms(2) check_identity_inv [OF assms(2)] by simp
qed (use assms win_inv_fields [OF assms(2)] in \<open>simp_all add: start_stop_inv hotkey_inv select_item_inv list_ready_inv
    tracking_thread_inv capture_thread_inv delay_thread_inv window_filter_changed_def\<close>)

interpretation window: event_machine "window_step P" "window_run P" "\<lambda>_. True" "\<lambda>w. platform_ok P \<and> win_inv P w0 w" for P w0
  by unfold_locales (auto dest: window_step_inv)

lemma window_run_inv:
  "platform_ok P \<Longrightarrow> win_inv P w0 w \<Longrightarrow> \<exists>w'. window_run P es w = Some w' \<and> win_inv P w0 w'"
  using window.run_total [of P w0 w es] by simp

lemma window_init_inv:
  assumes "1 \<le> a" "a \<le> 500" "1 \<le> b" "b \<le> 50"
  shows "win_inv P (world v) (window_init (panel_init a b) snd_on vol v)"
  using panel_init_inv [OF assms] pid_set_inv_init
  by (simp add: window_init_def) (simp add: win_inv_def visible_ok_def objects_ok_def handles_ok_def targets_ok_def pid_set_init_def)

lemma run_from_start:
  assumes "platform_ok P" and "1 \<le> a" "a \<le> 500" "1 \<le> b" "b \<le> 50"
  obtains w where "window_run P es (window_init (panel_init a b) snd_on vol v) = Some w" "win_inv P (world v) w"
  using window_run_inv [OF assms(1) window_init_inv [OF assms(2-5)]] by blast

section \<open>What a start comes to\<close>

lemma plain_sel [simp]:
  "is_running (PlayToggleSound b w) = is_running w" "fatal_events (PlayToggleSound b w) = fatal_events w"
  "status (PlayToggleSound b w) = status w" "button (PlayToggleSound b w) = button w"
  "target_pids (PlayToggleSound b w) = target_pids w" "tracking_loop (PlayToggleSound b w) = tracking_loop w"
  "tracker_obj (PlayToggleSound b w) = tracker_obj w" "interceptor_obj (PlayToggleSound b w) = interceptor_obj w"
  "selected_process_identity (PlayToggleSound b w) = selected_process_identity w"
  "refresh_in_flight (PlayToggleSound b w) = refresh_in_flight w" "selected (PlayToggleSound b w) = selected w"
  by (simp_all add: PlayToggleSound_def Let_def)

lemma status_sel [simp]:
  "is_running (UpdatePipelineStatus m a e w) = is_running w" "fatal_events (UpdatePipelineStatus m a e w) = fatal_events w"
  "status (UpdatePipelineStatus m a e w) = (m, a, e)" "button (UpdatePipelineStatus m a e w) = button w"
  "target_pids (UpdatePipelineStatus m a e w) = target_pids w" "tracking_loop (UpdatePipelineStatus m a e w) = tracking_loop w"
  "tracker_obj (UpdatePipelineStatus m a e w) = tracker_obj w" "interceptor_obj (UpdatePipelineStatus m a e w) = interceptor_obj w"
  "selected_process_identity (UpdatePipelineStatus m a e w) = selected_process_identity w"
  "refresh_in_flight (UpdatePipelineStatus m a e w) = refresh_in_flight w" "selected (UpdatePipelineStatus m a e w) = selected w"
  by (simp_all add: UpdatePipelineStatus_def)

lemma refresh_sel [simp]:
  "is_running (RefreshProcessList w) = is_running w" "fatal_events (RefreshProcessList w) = fatal_events w"
  "target_pids (RefreshProcessList w) = target_pids w" "tracker_obj (RefreshProcessList w) = tracker_obj w"
  "interceptor_obj (RefreshProcessList w) = interceptor_obj w" "refresh_in_flight (RefreshProcessList w)"
  "selected (RefreshProcessList w) = selected w" "selected_process_identity (RefreshProcessList w) = selected_process_identity w"
  by (simp_all add: RefreshProcessList_def)

lemma reset_tracker_sel [simp]:
  "is_running (reset_tracker X w) = is_running w" "fatal_events (reset_tracker X w) = fatal_events w"
  "status (reset_tracker X w) = status w" "selected_process_identity (reset_tracker X w) = selected_process_identity w"
  "refresh_in_flight (reset_tracker X w) = refresh_in_flight w" "selected (reset_tracker X w) = selected w" "target_pids (reset_tracker X w) = target_pids w"
  by (simp_all add: reset_tracker_def split: option.splits prod.splits)

lemma ft_Start_code:
  assumes "ft_Start D T t v = Some (r, t', v')" and "\<not> ft_running t" and "fst (divert_open D LayerFlow (world v)) = e"
  shows "r = (if e = 0 then Inr () else Inl (MapWinDivertOpenError e))"
  using assms by (auto simp: ft_Start_def Let_def split: prod.splits option.splits if_splits)

lemma pi_Start_code:
  assumes "pi_Start D al pad p v = Some (r, p', v')" and "\<not> pi_running p" and "fst (divert_open D LayerNetwork (world v)) = e"
  shows "r = (if e = 0 then Inr () else Inl (MapWinDivertOpenError e))"
  using assms by (auto simp: pi_Start_def Let_def split: prod.splits option.splits if_splits)

text \<open>The result of \<open>start_interceptor\<close>, for a window whose interceptor is not there yet.\<close>

lemma start_interceptor_outcome:
  assumes "start_interceptor P s1 s2 t w = Some w'" and "\<not> is_running w"
    and "\<forall>x. fst (divert_open (driver (out P)) LayerNetwork x) = e"
  shows "(is_running w' \<longleftrightarrow> e = 0) \<and> fatal_events w' = fatal_events w \<and> selected w' = selected w \<and>
    selected_process_identity w' = selected_process_identity w \<and> refresh_in_flight w' = refresh_in_flight w \<and>
    status w' = (if e = 0 then (''Running'', [], False) else (ToUserMessage (MapWinDivertOpenError e), [], True)) \<and>
    (e = 0 \<longrightarrow> tracking_loop w' = tracking_loop w)"
proof -
  let ?p = "pi_SetFatalCallback True (PacketInterceptor_new t (target_pids w) (panel_effects (panel w)) s1 s2)"
  have nr: "\<not> pi_running ?p" by (simp add: pi_SetFatalCallback_def PacketInterceptor_new_def)
  obtain r p1 v1 where st: "pi_Start (driver (out P)) (ring_alloc P) (ring_pad P) ?p (outer w) = Some (r, p1, v1)"
    using assms(1) by (auto simp: start_interceptor_def Let_def split: option.splits)
  have r: "r = (if e = 0 then Inr () else Inl (MapWinDivertOpenError e))" using pi_Start_code [OF st nr] assms(3) by simp
  show ?thesis
  proof (cases "e = 0")
    case True
    then have "w' = PlayToggleSound True (UpdatePipelineStatus ''Running'' [] False
        (w\<lparr>interceptor_obj := Some p1, capture_loop := Some 0, outer := v1, is_running := True,
           refresh_timer := False, target_monitor_timer := True, button := ''Stop''\<rparr>))"
      using assms(1) st r by (simp add: start_interceptor_def Let_def)
    then show ?thesis using True by simp
  next
    case False
    let ?w = "UpdatePipelineStatus (ToUserMessage (MapWinDivertOpenError e)) [] True (w\<lparr>interceptor_obj := Some p1, outer := v1\<rparr>)"
    obtain w2 where w2: "reset_interceptor (out P) ?w = Some w2" "w' = reset_tracker (out P) w2"
      using assms(1) st r False by (auto simp: start_interceptor_def Let_def)
    then have "is_running w2 = is_running w \<and> fatal_events w2 = fatal_events w \<and> selected w2 = selected w \<and>
        selected_process_identity w2 = selected_process_identity w \<and> refresh_in_flight w2 = refresh_in_flight w \<and> status w2 = status ?w"
      by (auto simp: reset_interceptor_def split: option.splits prod.splits)
    then show ?thesis using w2(2) False assms(2) by simp
  qed
qed

lemma start_outcome:
  assumes "StartPipeline P now s1 s2 w = Some w'" and "win_inv P w0 w" and "\<not> is_running w" and "selected w = Some item"
    and "IsProcessIdentityCurrent (sys P) now (IdentityFromItem (Some item))"
    and "\<forall>x. fst (divert_open (driver (out P)) LayerFlow x) = e1" and "\<forall>x. fst (divert_open (driver (out P)) LayerNetwork x) = e2"
  shows "(is_running w' \<longleftrightarrow> e1 = 0 \<and> e2 = 0) \<and> fatal_events w' = fatal_events w \<and> selected w' = selected w \<and>
    selected_process_identity w' = IdentityFromItem (Some item) \<and> refresh_in_flight w' = refresh_in_flight w \<and>
    status w' = (if e1 \<noteq> 0 then (ToUserMessage (MapWinDivertOpenError e1), [], True)
                 else if e2 \<noteq> 0 then (ToUserMessage (MapWinDivertOpenError e2), [], True) else (''Running'', [], False)) \<and>
    (e1 = 0 \<and> e2 = 0 \<longrightarrow> tracking_loop w' = Some 0)"
proof -
  let ?i = "IdentityFromItem (Some item)" and ?t = "SetFatalCallback True flow_tracker_init"
  let ?w = "w\<lparr>selected_process_identity := ?i, target_pids := SetSelectedPid (id_pid ?i) (target_pids w)\<rparr>"
  have none: "tracker_obj w = None" "interceptor_obj w = None"
    using assms(2,3) by (auto simp: win_inv_def visible_ok_def)
  then have rt: "reset_tracker (out P) ?w = ?w" by (simp add: reset_tracker_def)
  have st: "start_pipeline_for P s1 s2 ?i w = Some w'" using assms(1,4,5) by (simp add: StartPipeline_def Let_def)
  have nr: "\<not> ft_running ?t" by (simp add: SetFatalCallback_def flow_tracker_init_def)
  obtain r t v where f: "ft_Start (driver (out P)) (udp_table (out P)) ?t (outer w) = Some (r, t, v)"
    using st by (auto simp: start_pipeline_for_def Let_def rt split: option.splits)
  have r: "r = (if e1 = 0 then Inr () else Inl (MapWinDivertOpenError e1))" using ft_Start_code [OF f nr] assms(6) by simp
  show ?thesis
  proof (cases "e1 = 0")
    case True
    let ?w1 = "?w\<lparr>tracker_obj := Some t, tracking_loop := Some 0, outer := v\<rparr>"
    have "reset_interceptor (out P) ?w1 = Some ?w1" using none by (simp add: reset_interceptor_def)
    then have "start_interceptor P s1 s2 t ?w1 = Some w'" using st f r True by (simp add: start_pipeline_for_def Let_def rt)
    from start_interceptor_outcome [OF this _ assms(7)] assms(3) True show ?thesis by auto
  next
    case False
    then have "w' = reset_tracker (out P) (UpdatePipelineStatus (ToUserMessage (MapWinDivertOpenError e1)) [] True
        (?w\<lparr>tracker_obj := Some t, outer := v\<rparr>))"
      using st f r by (simp add: start_pipeline_for_def Let_def rt)
    then show ?thesis using False assms(3) by simp
  qed
qed

text \<open>A start never touches the queued fatal events.\<close>

lemma start_keeps_events:
  assumes "StartPipeline P now s1 s2 w = Some w'"
  shows "fatal_events w' = fatal_events w"
proof -
  have ri: "fatal_events x' = fatal_events x" if "reset_interceptor X x = Some x'" for X x x'
    using that by (auto simp: reset_interceptor_def split: option.splits prod.splits)
  have si: "fatal_events x' = fatal_events x" if "start_interceptor P s1 s2 t x = Some x'" for t x x'
    using that by (auto simp: start_interceptor_def Let_def split: option.splits prod.splits sum.splits dest!: ri)
  have "fatal_events x' = fatal_events x" if "start_pipeline_for P s1 s2 i x = Some x'" for i x x'
    using that by (auto simp: start_pipeline_for_def Let_def split: option.splits prod.splits sum.splits bind_splits dest!: si ri)
  then show ?thesis using assms
    by (auto simp: StartPipeline_def Let_def warn_def split: option.splits if_splits)
qed

section \<open>A platform for the instances\<close>

text \<open>A driver whose world is the multiset of its open handles and whose receive calls are aborted.\<close>

definition counting_driver :: "divert_layer multiset divert_ops" where
  "counting_driver =
     \<lparr>divert_open = (\<lambda>l w. (0, add_mset l w)), divert_set_param = (\<lambda>_ _ w. (0, w)), divert_shutdown = (\<lambda>_ _ w. w),
      divert_close = (\<lambda>l w. w - {#l#}), divert_recv = (\<lambda>w. (Inl 995, w)), divert_recv_ex = (\<lambda>w. (Inl 995, w)),
      divert_send = (\<lambda>_ _ w. (0, w)), parse_packet = (\<lambda>_. None)\<rparr>"

text \<open>Process 8 is replaced by another one between the two moments.\<close>

definition replaced_process :: "bool system_ops" where
  "replaced_process = \<lparr>OpenProcess = (\<lambda>p _. p = 8), QueryFullProcessImageName = (\<lambda>_ _. Some [0x43, 0x3A, 0x78]),
     GetProcessTimes = (\<lambda>_ later. Some (1, if later then 3 else 2)), ProcessIdToSessionId = (\<lambda>_ _. Some 1),
     Toolhelp32Snapshot = (\<lambda>_. Some []), GetCurrentProcessId = 12, WindowsDirectory = wide ''W'', fold_case = (\<lambda>c. c),
     utf8_length = (\<lambda>s. int (length s)), utf8_write = (\<lambda>s n. (n, map ucast s))\<rparr>"

definition sample_platform :: "(bool, divert_layer multiset, unit) platform" where
  "sample_platform =
     \<lparr>sys = replaced_process, out = \<lparr>driver = counting_driver, udp_table = fixed_table [], rand = least_rng\<rparr>, qt = plain_qt,
      ring_alloc = (\<lambda>n. n), ring_pad = 8, number_of = (\<lambda>s. of_nat (length s)),
      make_item = item_of (\<lambda>n. replicate (unat n) CHR ''1'') (\<lambda>_. []), contains_text = (\<lambda>_ _. False)\<rparr>"

definition sample_process :: "u32 \<Rightarrow> process_info" where
  "sample_process lo = \<lparr>info_pid = 8, info_parent_pid = 4, info_name = [], info_exe_path = [0x43, 0x3A, 0x78],
     info_creation_time = FileTimeToUint64 (1, lo)\<rparr>"

definition sample_choice :: "u32 \<Rightarrow> tree_item" where
  "sample_choice lo = Item (make_item sample_platform (sample_process lo)) False False []"

definition sample_window :: "(divert_layer multiset, unit) main_window" where
  "sample_window = window_init (panel_init 10 1) False 25 (env_init {#})"

lemma sample_platform_ok: "platform_ok sample_platform"
  by (simp add: platform_ok_def sample_platform_def outside_ok_def fixed_table_answers plain_lawful sample_alloc_ok)

lemma sample_opens: "\<forall>x. fst (divert_open (driver (out sample_platform)) l x) = 0"
  by (simp add: sample_platform_def counting_driver_def)

lemma sample_tracked: "handles_tracked (\<lambda>w. w) (driver (out sample_platform)) (udp_table (out sample_platform))"
  by (auto simp: handles_tracked_def sample_platform_def counting_driver_def fixed_table_def split: option.splits)

lemma sample_current: "IsProcessIdentityCurrent (sys sample_platform) False (IdentityFromItem (Some (sample_choice 2)))"
  by code_simp

lemma sample_init_inv: "win_inv sample_platform {#} sample_window"
  using window_init_inv [of 10 1 sample_platform "env_init {#}" False 25] by (simp add: sample_window_def env_init_def)

text \<open>Selecting the sample process and starting it works.\<close>

lemma sample_started:
  obtains w where "window_run sample_platform [SelectionMade (Some (sample_choice 2)), StartStopClicked False () ()] sample_window = Some w"
    "win_inv sample_platform {#} w" "is_running w" "tracking_loop w = Some 0" "fatal_events w = []"
    "selected w = Some (sample_choice 2)" "selected_process_identity w = IdentityFromItem (Some (sample_choice 2))"
    "refresh_in_flight w"
proof -
  let ?w = "select_item (Some (sample_choice 2)) sample_window"
  have inv: "win_inv sample_platform {#} ?w" by (rule select_item_inv [OF sample_init_inv])
  have sel: "selected ?w = Some (sample_choice 2)" "\<not> is_running ?w" "fatal_events ?w = []" "refresh_in_flight ?w"
    by (simp_all add: select_item_def OnProcessSelectionChanged_def sample_window_def window_init_def Let_def)
  obtain w where w: "StartPipeline sample_platform False () () ?w = Some w" "win_inv sample_platform {#} w"
    using StartPipeline_inv [OF sample_platform_ok inv sel(2)] by blast
  from start_outcome [OF w(1) inv sel(2,1) sample_current sample_opens sample_opens] w sel that
  show ?thesis by (simp add: OnStartStopClicked_def)
qed

section \<open>Properties\<close>

text \<open>
  C7: Every event is handled to its end, and the window stays consistent. After any events, in any
  order, the tracker and the interceptor exist exactly while the pipeline is running, each is then
  started, with its driver handle, its error callback and, for the interceptor, its delay queue; the
  monitor timer and the refresh timer alternate; and the button says what it will do.
\<close>

theorem window_always_consistent:
  assumes "platform_ok P" and "1 \<le> a" "a \<le> 500" "1 \<le> b" "b \<le> 50"
  shows "\<exists>w. window_run P es (window_init (panel_init a b) snd_on vol v) = Some w \<and>
    (tracker_obj w \<noteq> None \<longleftrightarrow> is_running w) \<and> (interceptor_obj w \<noteq> None \<longleftrightarrow> is_running w) \<and>
    (target_monitor_timer w \<longleftrightarrow> is_running w) \<and> (refresh_timer w \<longleftrightarrow> \<not> is_running w) \<and>
    button w = (if is_running w then ''Stop'' else ''Start'') \<and>
    (\<forall>t. tracker_obj w = Some t \<longrightarrow> ft_running t \<and> ft_handle t \<and> ft_has_callback t) \<and>
    (\<forall>p. interceptor_obj w = Some p \<longrightarrow> pi_running p \<and> pi_handle p \<and> pi_has_callback p \<and> delay p \<noteq> None)"
proof -
  obtain w where w: "window_run P es (window_init (panel_init a b) snd_on vol v) = Some w" "win_inv P (world v) w"
    using run_from_start [OF assms] .
  then show ?thesis by (intro exI [of _ w]) (auto simp: win_inv_def visible_ok_def objects_ok_def)
qed

theorem window_always_consistent_witness:
  "\<exists>w. window_run sample_platform
      [SelectionMade (Some (sample_choice 2)), StartStopClicked False () (), CaptureRuns (\<lambda>_. 0), FatalDelivered] sample_window = Some w \<and>
    (target_monitor_timer w \<longleftrightarrow> is_running w)"
proof -
  have "1 \<le> (10 :: int)" "10 \<le> (500 :: int)" "1 \<le> (1 :: int)" "1 \<le> (50 :: int)" by simp_all
  from window_always_consistent [OF sample_platform_ok this,
      of "[SelectionMade (Some (sample_choice 2)), StartStopClicked False () (), CaptureRuns (\<lambda>_. 0), FatalDelivered]" False 25 "env_init {#}"]
  show ?thesis unfolding sample_window_def by blast
qed

text \<open>
  C8: No driver handle leaks. After any events exactly the handles of the flow layer and of the network
  layer are open while the pipeline runs, and none when it does not: also after a start that failed
  half way, a stop, a fatal error, or the end of the watched process.
\<close>

theorem no_driver_handle_leaks:
  assumes "platform_ok P" and "1 \<le> a" "a \<le> 500" "1 \<le> b" "b \<le> 50"
    and "handles_tracked H (driver (out P)) (udp_table (out P))"
  shows "\<exists>w. window_run P es (window_init (panel_init a b) snd_on vol v) = Some w \<and>
    H (world (outer w)) = H (world v) + (if is_running w then {#LayerFlow, LayerNetwork#} else {#})"
proof -
  obtain w where w: "window_run P es (window_init (panel_init a b) snd_on vol v) = Some w" "win_inv P (world v) w"
    using run_from_start [OF assms(1-5)] .
  then have "handles_ok P (world v) (is_running w) (outer w)" by (simp add: win_inv_def)
  with w(1) assms(6) show ?thesis unfolding handles_ok_def by blast
qed

theorem no_driver_handle_leaks_witness:
  "\<exists>w. window_run sample_platform [SelectionMade (Some (sample_choice 2)), StartStopClicked False () ()] sample_window = Some w \<and>
    world (outer w) = {#LayerFlow, LayerNetwork#}"
proof -
  obtain w where w: "window_run sample_platform [SelectionMade (Some (sample_choice 2)), StartStopClicked False () ()] sample_window = Some w"
    "is_running w" using sample_started by blast
  have "1 \<le> (10 :: int)" "10 \<le> (500 :: int)" "1 \<le> (1 :: int)" "1 \<le> (50 :: int)" by simp_all
  from no_driver_handle_leaks [OF sample_platform_ok this sample_tracked,
      of "[SelectionMade (Some (sample_choice 2)), StartStopClicked False () ()]" False 25 "env_init {#}"] w
  show ?thesis unfolding sample_window_def by (auto simp: env_init_def)
qed

text \<open>
  C23: Only the selected process is targeted. After any events the target set has the process id of the
  selected identity if that is valid, and is empty otherwise.
\<close>

theorem only_selected_process_targeted:
  assumes "platform_ok P" and "1 \<le> a" "a \<le> 500" "1 \<le> b" "b \<le> 50"
  shows "\<exists>w. window_run P es (window_init (panel_init a b) snd_on vol v) = Some w \<and>
    (\<forall>p. Contains p (target_pids w) \<longleftrightarrow> identity_IsValid (selected_process_identity w) \<and> p = id_pid (selected_process_identity w))"
proof -
  obtain w where w: "window_run P es (window_init (panel_init a b) snd_on vol v) = Some w" "win_inv P (world v) w"
    using run_from_start [OF assms] .
  then show ?thesis by (intro exI [of _ w]) (auto simp: win_inv_def targets_ok_def Contains_iff split: if_splits)
qed

theorem only_selected_process_targeted_witness:
  "\<exists>w. window_run sample_platform [SelectionMade (Some (sample_choice 2)), StartStopClicked False () ()] sample_window = Some w \<and>
    Contains 8 (target_pids w) \<and> \<not> Contains 9 (target_pids w)"
proof -
  obtain w where w: "window_run sample_platform [SelectionMade (Some (sample_choice 2)), StartStopClicked False () ()] sample_window = Some w"
    "selected_process_identity w = IdentityFromItem (Some (sample_choice 2))" using sample_started by blast
  have i: "identity_IsValid (IdentityFromItem (Some (sample_choice 2)))" "id_pid (IdentityFromItem (Some (sample_choice 2))) = 8" by code_simp+
  have "1 \<le> (10 :: int)" "10 \<le> (500 :: int)" "1 \<le> (1 :: int)" "1 \<le> (50 :: int)" by simp_all
  from only_selected_process_targeted [OF sample_platform_ok this,
      of "[SelectionMade (Some (sample_choice 2)), StartStopClicked False () ()]" False 25 "env_init {#}"] w i
  show ?thesis unfolding sample_window_def by auto
qed

text \<open>
  C24: When the watched process has exited or was replaced, the next tick of the monitor ends it: the
  pipeline is stopped and destroyed, nothing is targeted any more, and the status says why.
\<close>

theorem monitor_stops_lost_target:
  assumes "platform_ok P" and "1 \<le> a" "a \<le> 500" "1 \<le> b" "b \<le> 50"
    and "window_run P es (window_init (panel_init a b) snd_on vol v) = Some w" and "is_running w"
    and "\<not> IsProcessIdentityCurrent (sys P) now (selected_process_identity w)"
  shows "\<exists>w'. window_step P (MonitorTick now) w = Some w' \<and> \<not> is_running w' \<and> tracker_obj w' = None \<and>
    interceptor_obj w' = None \<and> (\<forall>p. \<not> Contains p (target_pids w')) \<and> refresh_in_flight w' \<and>
    status w' = (''Selected process exited or was replaced; stopped.'', [], True)"
proof -
  have inv: "win_inv P (world v) w" using run_from_start [OF assms(1-5), of es snd_on vol v] assms(6) by force
  let ?w = "w\<lparr>target_pids := Clear (target_pids w), selected_process_identity := no_identity\<rparr>"
  have "win_inv P (world v) ?w"
    by (rule win_inv_cong [OF inv]) (use inv targets_ok_clear [OF no_identity_invalid] in \<open>auto simp: win_inv_def\<close>)
  from StopPipeline_spec [OF this] assms(7) obtain u where u: "StopPipeline P ?w = Some (PlayToggleSound False
      (UpdatePipelineStatus ''Stopped'' [] False ((RefreshProcessList (stopped ?w u))\<lparr>button := ''Start''\<rparr>)))" by auto
  have timer: "target_monitor_timer w" using inv assms(7) by (simp add: win_inv_def visible_ok_def)
  have "\<not> Contains p (Clear s)" for p s by (simp add: Contains_def Clear_def)
  then show ?thesis using u timer assms(7,8)
    by (simp add: CheckSelectedProcessIdentity_def) (simp add: stopped_def)
qed

theorem monitor_stops_lost_target_witness:
  "\<exists>w w'. window_run sample_platform [SelectionMade (Some (sample_choice 2)), StartStopClicked False () ()] sample_window = Some w \<and>
    is_running w \<and> window_step sample_platform (MonitorTick True) w = Some w' \<and> \<not> is_running w'"
proof -
  obtain w where w: "window_run sample_platform [SelectionMade (Some (sample_choice 2)), StartStopClicked False () ()] sample_window = Some w"
    "is_running w" "selected_process_identity w = IdentityFromItem (Some (sample_choice 2))"
    using sample_started by blast
  have "\<not> IsProcessIdentityCurrent (sys sample_platform) True (IdentityFromItem (Some (sample_choice 2)))" by code_simp
  then have cur: "\<not> IsProcessIdentityCurrent (sys sample_platform) True (selected_process_identity w)" using w(3) by simp
  have n: "1 \<le> (10 :: int)" "10 \<le> (500 :: int)" "1 \<le> (1 :: int)" "1 \<le> (50 :: int)" by simp_all
  from monitor_stops_lost_target [OF sample_platform_ok n w(1) [unfolded sample_window_def] w(2) cur] obtain w' where
    "window_step sample_platform (MonitorTick True) w = Some w'" "\<not> is_running w'" by blast
  with w(1,2) show ?thesis by blast
qed

text \<open>
  C27: What a start comes to. From a stopped window with a process selected that is still the one that was
  listed, the pipeline runs exactly if the driver opens both layers; otherwise the status shows the
  message for the error of the layer that failed first. The selected process is recorded in any case.
\<close>

theorem start_result:
  assumes "platform_ok P" and "1 \<le> a" "a \<le> 500" "1 \<le> b" "b \<le> 50"
    and "window_run P es (window_init (panel_init a b) snd_on vol v) = Some w" and "\<not> is_running w"
    and "selected w = Some item" and "IsProcessIdentityCurrent (sys P) now (IdentityFromItem (Some item))"
    and "\<forall>x. fst (divert_open (driver (out P)) LayerFlow x) = e1" and "\<forall>x. fst (divert_open (driver (out P)) LayerNetwork x) = e2"
  shows "\<exists>w'. window_step P (StartStopClicked now s1 s2) w = Some w' \<and> (is_running w' \<longleftrightarrow> e1 = 0 \<and> e2 = 0) \<and>
    selected_process_identity w' = IdentityFromItem (Some item) \<and>
    status w' = (if e1 \<noteq> 0 then (ToUserMessage (MapWinDivertOpenError e1), [], True)
                 else if e2 \<noteq> 0 then (ToUserMessage (MapWinDivertOpenError e2), [], True) else (''Running'', [], False))"
proof -
  have inv: "win_inv P (world v) w" using run_from_start [OF assms(1-5), of es snd_on vol v] assms(6) by force
  obtain w' where w': "StartPipeline P now s1 s2 w = Some w'" using StartPipeline_inv [OF assms(1) inv assms(7)] by blast
  from start_outcome [OF w' inv assms(7-11)] w' assms(7) show ?thesis by (simp add: OnStartStopClicked_def)
qed

theorem start_result_witness:
  "\<exists>w'. window_step sample_platform (StartStopClicked False () ()) (select_item (Some (sample_choice 2)) sample_window) = Some w' \<and> is_running w'"
proof -
  let ?w = "select_item (Some (sample_choice 2)) sample_window"
  have r: "window_run sample_platform [SelectionMade (Some (sample_choice 2))] sample_window = Some ?w" by simp
  have s: "\<not> is_running ?w" "selected ?w = Some (sample_choice 2)"
    by (simp_all add: select_item_def OnProcessSelectionChanged_def sample_window_def window_init_def Let_def)
  have n: "1 \<le> (10 :: int)" "10 \<le> (500 :: int)" "1 \<le> (1 :: int)" "1 \<le> (50 :: int)" by simp_all
  from start_result [OF sample_platform_ok n r [unfolded sample_window_def] s [unfolded sample_window_def] sample_current sample_opens sample_opens,
      of "()" "()"]
  show ?thesis unfolding sample_window_def by auto
qed

text \<open>
  C25: A fatal error of a pipeline that was stopped stops the next one. The queued event carries only the
  error code, so if the user stops and starts again before it is delivered, the new pipeline, whose
  own threads reported nothing, is stopped and the old error is shown.
\<close>

theorem stale_fatal_stops_new_pipeline:
  assumes "platform_ok P" and "1 \<le> a" "a \<le> 500" "1 \<le> b" "b \<le> 50"
    and "window_run P es (window_init (panel_init a b) snd_on vol v) = Some w" and "\<not> is_running w"
    and "fatal_events w = gle # later" and "window_step P (StartStopClicked now s1 s2) w = Some w1" and "is_running w1"
  shows "\<exists>w2. window_step P FatalDelivered w1 = Some w2 \<and> \<not> is_running w2 \<and>
    status w2 = (''Pipeline stopped unexpectedly (GLE=%1)'', [unat gle], True)"
proof -
  have inv: "win_inv P (world v) w" using run_from_start [OF assms(1-5), of es snd_on vol v] assms(6) by force
  have "win_inv P (world v) w1" using window_step_inv [OF assms(1) inv, of "StartStopClicked now s1 s2"] assms(9) by auto
  from win_inv_fields(1) [OF this] have inv1: "win_inv P (world v) (w1\<lparr>fatal_events := later\<rparr>)" .
  have "fatal_events w1 = gle # later"
    using start_keeps_events [of P now s1 s2 w w1] assms(7-9) by (simp add: OnStartStopClicked_def)
  moreover from StopPipeline_spec [OF inv1] assms(10) obtain u where
    "StopPipeline P (w1\<lparr>fatal_events := later\<rparr>) = Some (PlayToggleSound False (UpdatePipelineStatus ''Stopped'' [] False
      ((RefreshProcessList (stopped (w1\<lparr>fatal_events := later\<rparr>) u))\<lparr>button := ''Start''\<rparr>)))" by auto
  ultimately show ?thesis using assms(10) by (simp add: OnPipelineFatal_def) (simp add: stopped_def)
qed

theorem stale_fatal_stops_new_pipeline_witness:
  "\<exists>w w1 w2. window_run sample_platform [SelectionMade (Some (sample_choice 2)), StartStopClicked False () (), TrackingRuns,
      StartStopClicked False () ()] sample_window = Some w \<and> \<not> is_running w \<and>
    window_step sample_platform (StartStopClicked False () ()) w = Some w1 \<and> is_running w1 \<and>
    window_step sample_platform FatalDelivered w1 = Some w2 \<and> \<not> is_running w2"
proof -
  let ?es = "[SelectionMade (Some (sample_choice 2)), StartStopClicked False () ()]"
  let ?P = sample_platform
  obtain w where w: "window_run ?P ?es sample_window = Some w" "win_inv ?P {#} w" "is_running w" "tracking_loop w = Some 0"
    "fatal_events w = []" "selected w = Some (sample_choice 2)" using sample_started by blast
  let ?t = "tracking_thread ?P w"
  obtain t where t: "tracker_obj w = Some t" "ft_running t" "ft_has_callback t"
    using w(2,3) by (auto simp: win_inv_def visible_ok_def objects_ok_def)
  have drv: "divert_recv (driver (out ?P)) = (\<lambda>x. (Inl 995, x))" by (simp add: sample_platform_def counting_driver_def)
  obtain n' d where "ClassifyRecvFailure 995 0 ''FlowTracker'' (logs (outer w)) = (kExitFatal, n', d)"
    by (auto simp: ClassifyRecvFailure_def ERROR_NO_DATA_def ERROR_INVALID_HANDLE_def ERROR_OPERATION_ABORTED_def Let_def)
  then have tr: "fatal_events ?t = [995]" "is_running ?t" "selected ?t = Some (sample_choice 2)"
    using w t by (simp_all add: tracking_thread_def tracking_round_def drv Let_def NotifyFatal_def)
  have inv: "win_inv ?P {#} ?t" by (rule tracking_thread_inv [OF w(2)])
  from StopPipeline_spec [OF inv tr(2)] obtain u where st: "StopPipeline ?P ?t = Some (PlayToggleSound False
      (UpdatePipelineStatus ''Stopped'' [] False ((RefreshProcessList (stopped ?t u))\<lparr>button := ''Start''\<rparr>)))" by blast
  let ?w = "PlayToggleSound False (UpdatePipelineStatus ''Stopped'' [] False ((RefreshProcessList (stopped ?t u))\<lparr>button := ''Start''\<rparr>))"
  have s: "\<not> is_running ?w" "fatal_events ?w = [995]" "selected ?w = Some (sample_choice 2)"
    using tr by (simp_all add: stopped_def RefreshProcessList_def)
  have r: "window_run ?P (?es @ [TrackingRuns, StartStopClicked False () ()]) sample_window = Some ?w"
    using w(1) st tr(2) by (auto simp: bind_eq_Some_conv OnStartStopClicked_def)
  have inv2: "win_inv ?P {#} ?w" using StopPipeline_inv [OF inv] st by auto
  obtain w1 where w1: "StartPipeline ?P False () () ?w = Some w1" using StartPipeline_inv [OF sample_platform_ok inv2 s(1)] by blast
  from start_outcome [OF w1 inv2 s(1,3) sample_current sample_opens sample_opens] have run: "is_running w1" by simp
  have st1: "window_step ?P (StartStopClicked False () ()) ?w = Some w1" using w1 s(1) by (simp add: OnStartStopClicked_def)
  have n: "1 \<le> (10 :: int)" "10 \<le> (500 :: int)" "1 \<le> (1 :: int)" "1 \<le> (50 :: int)" by simp_all
  from stale_fatal_stops_new_pipeline [OF sample_platform_ok n r [unfolded sample_window_def] s(1,2) st1 run]
  obtain w2 where "window_step ?P FatalDelivered w1 = Some w2" "\<not> is_running w2" by blast
  with r s(1) st1 run show ?thesis by auto
qed

text \<open>
  C26: A list that arrives while the pipeline runs can move the target to another process. The list was asked for before the start and may hold any
  processes, in any order, with different ids and none its own ancestor. The selection is restored by the
  number alone: the process of the list that has the id of the selected one, if there is one, becomes the selected identity and
  the target, whatever its creation time and executable and wherever it is in the tree; and if that process
  runs at the monitor's next tick, the monitor lets the pipeline run on.
\<close>

theorem refresh_retargets_reused_pid:
  assumes "platform_ok P" and "1 \<le> a" "a \<le> 500" "1 \<le> b" "b \<le> 50"
    and "window_run P es (window_init (panel_init a b) snd_on vol v) = Some w" and "is_running w" and "refresh_in_flight w"
    and "selected w = Some item" and "number_of P (text0 (item_data item)) = info_pid q"
    and "make_item P = item_of shown_number name_text"
    and "distinct (map info_pid procs)" and "q \<in> set procs"
    and "\<forall>c \<in> set procs. \<forall>d \<in> set procs. info_parent_pid d = info_pid c \<and> info_pid c \<noteq> info_pid d \<longrightarrow>
      rank (info_pid c) < (rank (info_pid d) :: nat)"
    and "IsProcessIdentityCurrent (sys P) now \<lparr>id_pid = info_pid q, creation_time = info_creation_time q, exe_path = info_exe_path q\<rparr>"
  shows "\<exists>w'. window_run P [ListReady procs, MonitorTick now] w = Some w' \<and> is_running w' \<and> Contains (info_pid q) (target_pids w') \<and>
    selected_process_identity w' = \<lparr>id_pid = info_pid q, creation_time = info_creation_time q, exe_path = info_exe_path q\<rparr>"
proof -
  let ?i = "\<lparr>id_pid = info_pid q, creation_time = info_creation_time q, exe_path = info_exe_path q\<rparr>"
  have inv: "win_inv P (world v) w" using run_from_start [OF assms(1-5), of es snd_on vol v] assms(6) by force
  let ?w = "window_list_ready P procs w"
  have mk: "kProcessPidRole (make_item P c) = info_pid c" for c unfolding assms(11) by (simp add: item_of_def)
  from OnProcessListReady_selects [where to_uint = "number_of P" and has = "contains_text P" and mk = "make_item P" and sel = item,
      OF assms(12) assms(14) [folded ranked_def] mk assms(13,10)]
  obtain new_tree t where or: "OnProcessListReady (number_of P) (make_item P) (contains_text P) (filter_text w) procs (tree w) (selected w) =
      (new_tree, Some t)" "item_data t = make_item P q"
    unfolding assms(9) by blast
  have ident: "IdentityFromItem (Some t) = ?i" unfolding IdentityFromItem_def option.case or(2) assms(11) by (simp add: item_of_def)
  have valid: "identity_IsValid ?i" by (rule current_valid [OF assms(15)])
  have sel: "selected (select_item None x) = None" for x :: "('b, 'c) main_window"
    by (simp add: select_item_def OnProcessSelectionChanged_def)
  have w': "selected_process_identity ?w = ?i" "target_pids ?w = SetSelectedPid (info_pid q) (target_pids (select_item None (w\<lparr>refresh_in_flight := False\<rparr>)))"
    "is_running ?w = is_running w"
    using or sel [of "w\<lparr>refresh_in_flight := False\<rparr>"] ident valid
    by (simp_all add: window_list_ready_def Let_def select_item_def [of "Some x" for x] OnProcessSelectionChanged_def)
      (simp add: select_item_def OnProcessSelectionChanged_def)
  have "win_inv P (world v) ?w" by (rule list_ready_inv [OF inv])
  then have timer: "target_monitor_timer ?w" using w'(3) assms(7) by (simp add: win_inv_def visible_ok_def)
  have "Contains (info_pid q) (SetSelectedPid (info_pid q) s)" for s by (simp add: Contains_def SetSelectedPid_def set_insert_def)
  then show ?thesis using w' timer assms(7,8,15) by (simp add: CheckSelectedProcessIdentity_def)
qed

text \<open>A list in which the process with the reused id is the child of one that comes first.\<close>

definition sample_list :: "process_info list" where
  "sample_list = [\<lparr>info_pid = 4, info_parent_pid = 0, info_name = [], info_exe_path = [0x43], info_creation_time = 1\<rparr>, sample_process 3]"

theorem refresh_retargets_reused_pid_witness:
  "\<exists>w w'. window_run sample_platform [SelectionMade (Some (sample_choice 2)), StartStopClicked False () ()] sample_window = Some w \<and>
    creation_time (selected_process_identity w) = FileTimeToUint64 (1, 2) \<and>
    window_run sample_platform [ListReady sample_list, MonitorTick True] w = Some w' \<and> is_running w' \<and>
    creation_time (selected_process_identity w') = FileTimeToUint64 (1, 3)"
proof -
  obtain w where w: "window_run sample_platform [SelectionMade (Some (sample_choice 2)), StartStopClicked False () ()] sample_window = Some w"
    "is_running w" "refresh_in_flight w" "selected w = Some (sample_choice 2)"
    "selected_process_identity w = IdentityFromItem (Some (sample_choice 2))"
    using sample_started by blast
  have n: "1 \<le> (10 :: int)" "10 \<le> (500 :: int)" "1 \<le> (1 :: int)" "1 \<le> (50 :: int)" by simp_all
  have num: "number_of sample_platform (text0 (item_data (sample_choice 2))) = info_pid (sample_process 3)" by code_simp
  have item: "make_item sample_platform = item_of (\<lambda>n. replicate (unat n) CHR ''1'') (\<lambda>_. [])"
    by (simp add: sample_platform_def)
  have l: "distinct (map info_pid sample_list)" "sample_process 3 \<in> set sample_list"
    "\<forall>c \<in> set sample_list. \<forall>d \<in> set sample_list. info_parent_pid d = info_pid c \<and> info_pid c \<noteq> info_pid d \<longrightarrow>
      unat (info_pid c) < unat (info_pid d)"
    by (simp_all add: sample_list_def sample_process_def)
  have cur: "IsProcessIdentityCurrent (sys sample_platform) True
      \<lparr>id_pid = info_pid (sample_process 3), creation_time = info_creation_time (sample_process 3), exe_path = info_exe_path (sample_process 3)\<rparr>"
    by code_simp
  have old: "creation_time (IdentityFromItem (Some (sample_choice 2))) = FileTimeToUint64 (1, 2)" by code_simp
  have new: "info_creation_time (sample_process 3) = FileTimeToUint64 (1, 3)" by (simp add: sample_process_def)
  from refresh_retargets_reused_pid [OF sample_platform_ok n w(1) [unfolded sample_window_def] w(2-4) num item l cur]
  obtain w' where "window_run sample_platform [ListReady sample_list, MonitorTick True] w = Some w'" "is_running w'"
    "selected_process_identity w' = \<lparr>id_pid = info_pid (sample_process 3), creation_time = info_creation_time (sample_process 3),
      exe_path = info_exe_path (sample_process 3)\<rparr>" by blast
  with w(1,5) old new show ?thesis by (intro exI [of _ w] exI [of _ w']) simp
qed

end
