(* ===== verification/Sound_Player.thy ===== *)
theory Sound_Player
  imports Interfaces "HOL-Library.Signed_Division"
begin

text \<open>
  The sound player (include/ui/SoundPlayer.h, src/ui/SoundPlayer.cpp): it computes the samples of a
  sine tone, gives them to an audio sink of the system, and cleans up when the tone is over, when the
  next tone starts, or when it is destroyed. Sinks and buffers are the system's objects, numbered as
  they are made.
\<close>

section \<open>Samples\<close>

definition kSampleRate :: int where "kSampleRate = 44100"
definition kInt16Max :: rat where "kInt16Max = 32767"

text \<open>
  What double arithmetic and the C library give: \<open>rnd\<close> rounds a result to the nearest double and
  \<open>std_sin\<close> is \<open>std::sin\<close>. Rounding is monotone and exact on integers up to 2 to the 53; a sine lies
  between -1 and 1.
\<close>

record double_ops =
  rnd :: "rat \<Rightarrow> rat"
  std_sin :: "rat \<Rightarrow> rat"

definition double_lawful :: "double_ops \<Rightarrow> bool" where
  "double_lawful F \<longleftrightarrow> (\<forall>x y. x \<le> y \<longrightarrow> rnd F x \<le> rnd F y) \<and>
     (\<forall>n. \<bar>n\<bar> \<le> 2 ^ 53 \<longrightarrow> rnd F (of_int n) = of_int n) \<and> (\<forall>x. - 1 \<le> std_sin F x \<and> std_sin F x \<le> 1)"

text \<open>\<open>std::numbers::pi\<close> is this double.\<close>

definition numbers_pi :: rat where
  "numbers_pi = 884279719003555 / 281474976710656"

text \<open>\<open>static_cast<int16_t>\<close> truncates; outside the range it is undefined.\<close>

definition trunc_double :: "rat \<Rightarrow> int" where
  "trunc_double x = (if 0 \<le> x then \<lfloor>x\<rfloor> else \<lceil>x\<rceil>)"

definition to_int16 :: "rat \<Rightarrow> int option" where
  "to_int16 x = (let n = trunc_double x in if - 32768 \<le> n \<and> n \<le> 32767 then Some n else None)"

definition amplitude_of :: "double_ops \<Rightarrow> int \<Rightarrow> rat" where
  "amplitude_of F volume_percent = rnd F (of_int (clamp_int volume_percent 0 100) / 100)"

definition sample_at :: "double_ops \<Rightarrow> rat \<Rightarrow> rat \<Rightarrow> int \<Rightarrow> int option" where
  "sample_at F frequency_hz amplitude i =
     (let t = rnd F (of_int i / of_int kSampleRate);
          phase = rnd F (rnd F (rnd F (2 * numbers_pi) * frequency_hz) * t);
          sample = rnd F (std_sin F phase * amplitude)
      in to_int16 (rnd F (sample * kInt16Max)))"

text \<open>The product is an \<open>int\<close>: beyond its range it is undefined.\<close>

definition num_samples :: "int \<Rightarrow> int option" where
  "num_samples duration_ms =
     (if in_int32 (kSampleRate * duration_ms) then Some ((kSampleRate * duration_ms) sdiv 1000) else None)"

definition tone_samples :: "double_ops \<Rightarrow> rat \<Rightarrow> int \<Rightarrow> int \<Rightarrow> int list option" where
  "tone_samples F frequency_hz duration_ms volume_percent =
     (case num_samples duration_ms of
        None \<Rightarrow> None
      | Some n \<Rightarrow> those (map (\<lambda>i. sample_at F frequency_hz (amplitude_of F volume_percent) (int i)) [0..<nat n]))"

section \<open>The player and the audio system\<close>

record sound_player =
  sink :: "nat option"
  buffer :: "nat option"
  samples :: "int list"

text \<open>
  The audio system: the sinks that play, those whose state change is connected to the player, the open
  buffers, and the objects given to \<open>deleteLater\<close>.
\<close>

record audio =
  next_id :: nat
  playing :: "nat list"
  wired :: "nat list"
  open_buffers :: "nat list"
  deleted :: "nat list"

definition sound_player_new :: sound_player where
  "sound_player_new = \<lparr>sink = None, buffer = None, samples = []\<rparr>"

definition audio_init :: audio where
  "audio_init = \<lparr>next_id = 0, playing = [], wired = [], open_buffers = [], deleted = []\<rparr>"

definition Cleanup :: "sound_player \<times> audio \<Rightarrow> sound_player \<times> audio" where
  "Cleanup = (\<lambda>(p, a).
     let a = (case sink p of
                None \<Rightarrow> a
              | Some i \<Rightarrow> a\<lparr>wired := remove1 i (wired a), playing := remove1 i (playing a), deleted := deleted a @ [i]\<rparr>);
         p = p\<lparr>sink := None\<rparr>;
         a = (case buffer p of
                None \<Rightarrow> a
              | Some i \<Rightarrow> a\<lparr>open_buffers := remove1 i (open_buffers a), deleted := deleted a @ [i]\<rparr>)
     in (p\<lparr>buffer := None\<rparr>, a))"

text \<open>\<open>supported\<close> is the default device's answer about the format; \<open>None\<close> is undefined behaviour.\<close>

definition PlayTone ::
  "double_ops \<Rightarrow> bool \<Rightarrow> rat \<Rightarrow> int \<Rightarrow> int \<Rightarrow> sound_player \<times> audio \<Rightarrow> (sound_player \<times> audio) option" where
  "PlayTone F supported frequency_hz duration_ms volume_percent pa =
     (case Cleanup pa of
        (p, a) \<Rightarrow>
          (if \<not> supported then Some (p, a)
           else
             (case tone_samples F frequency_hz duration_ms volume_percent of
                None \<Rightarrow> None
              | Some xs \<Rightarrow>
                  (let b = next_id a; s = b + 1;
                       p = p\<lparr>samples := xs, buffer := Some b, sink := Some s\<rparr>
                   in Some (p, a\<lparr>next_id := s + 1, open_buffers := b # open_buffers a,
                                 wired := s # wired a, playing := s # playing a\<rparr>)))))"

text \<open>The signal of a sink reaches the player while it is connected.\<close>

definition sink_state_changed :: "nat \<Rightarrow> bool \<Rightarrow> sound_player \<times> audio \<Rightarrow> sound_player \<times> audio" where
  "sink_state_changed i idle pa = (if i \<in> set (wired (snd pa)) \<and> idle then Cleanup pa else pa)"

definition SoundPlayer_destroy :: "sound_player \<times> audio \<Rightarrow> sound_player \<times> audio" where
  "SoundPlayer_destroy = Cleanup"

text \<open>What happens to a player: tones with the device's answer, and state changes of any sink.\<close>

datatype sound_event = Tone bool rat int int | StateChanged nat bool

fun sound_step :: "double_ops \<Rightarrow> sound_event \<Rightarrow> sound_player \<times> audio \<Rightarrow> (sound_player \<times> audio) option" where
  "sound_step F (Tone ok f d v) pa = PlayTone F ok f d v pa"
| "sound_step F (StateChanged i idle) pa = Some (sink_state_changed i idle pa)"

fun sound_run :: "double_ops \<Rightarrow> sound_event list \<Rightarrow> sound_player \<times> audio \<Rightarrow> (sound_player \<times> audio) option" where
  "sound_run F [] pa = Some pa"
| "sound_run F (e # es) pa = Option.bind (sound_step F e pa) (sound_run F es)"

section \<open>Samples stay in range\<close>

lemma rnd_unit:
  assumes "double_lawful F" and "\<bar>x\<bar> \<le> of_int n" and "0 \<le> n" "n \<le> 2 ^ 53"
  shows "\<bar>rnd F x\<bar> \<le> of_int n"
proof -
  have m: "\<And>x y. x \<le> y \<Longrightarrow> rnd F x \<le> rnd F y" and e: "\<And>k. \<bar>k\<bar> \<le> 2 ^ 53 \<Longrightarrow> rnd F (of_int k) = of_int k"
    using assms(1) unfolding double_lawful_def by blast+
  have b: "of_int (- n) \<le> x" "x \<le> of_int n" using assms(2) by auto
  have "\<bar>- n\<bar> \<le> 2 ^ 53" "\<bar>n\<bar> \<le> 2 ^ 53" using assms(3,4) by simp_all
  then have "of_int (- n) \<le> rnd F x" "rnd F x \<le> of_int n" using m [OF b(1)] m [OF b(2)] e by metis+
  then show ?thesis by auto
qed

lemma to_int16_in_range: "\<bar>x\<bar> \<le> 32767 \<Longrightarrow> \<exists>n. to_int16 x = Some n \<and> \<bar>n\<bar> \<le> 32767"
proof -
  assume x: "\<bar>x\<bar> \<le> 32767"
  have "\<bar>trunc_double x\<bar> \<le> 32767"
  proof (cases "0 \<le> x")
    case True
    then have "0 \<le> \<lfloor>x\<rfloor>" "\<lfloor>x\<rfloor> \<le> 32767" using x by (simp_all add: floor_le_iff)
    then show ?thesis using True by (simp add: trunc_double_def)
  next
    case False
    have "of_int (- 32767) \<le> x" "x \<le> of_int 0" using False x by simp_all
    then have "\<lceil>of_int (- 32767) :: rat\<rceil> \<le> \<lceil>x\<rceil>" "\<lceil>x\<rceil> \<le> \<lceil>of_int 0 :: rat\<rceil>" by (simp_all only: ceiling_mono)
    then have "- 32767 \<le> \<lceil>x\<rceil>" "\<lceil>x\<rceil> \<le> 0" by (simp_all only: ceiling_of_int)
    then have "\<bar>\<lceil>x\<rceil>\<bar> \<le> 32767" by linarith
    then show ?thesis unfolding trunc_double_def using False by (simp only: if_False)
  qed
  then show ?thesis by (auto simp: to_int16_def Let_def)
qed

lemma amplitude_unit: "double_lawful F \<Longrightarrow> \<bar>amplitude_of F v\<bar> \<le> 1"
proof -
  assume F: "double_lawful F"
  have "0 \<le> clamp_int v 0 100" "clamp_int v 0 100 \<le> 100" using clamp_int_bounds [of 0 100 v] by simp_all
  then have "\<bar>of_int (clamp_int v 0 100) / 100 :: rat\<bar> \<le> of_int 1" by simp
  from rnd_unit [OF F this] show ?thesis by (simp add: amplitude_of_def)
qed

lemma sample_fits:
  assumes "double_lawful F"
  shows "\<exists>n. sample_at F f (amplitude_of F v) i = Some n \<and> \<bar>n\<bar> \<le> 32767"
proof -
  let ?a = "amplitude_of F v"
  let ?p = "rnd F (rnd F (rnd F (2 * numbers_pi) * f) * rnd F (of_int i / of_int kSampleRate))"
  have "\<bar>std_sin F ?p\<bar> \<le> 1" using assms unfolding double_lawful_def by (metis abs_le_iff minus_le_iff)
  then have "\<bar>std_sin F ?p * ?a\<bar> \<le> of_int 1" using amplitude_unit [OF assms, of v] by (simp add: abs_mult mult_le_one)
  from rnd_unit [OF assms this] have "\<bar>rnd F (std_sin F ?p * ?a)\<bar> \<le> 1" by simp
  then have "\<bar>rnd F (std_sin F ?p * ?a) * kInt16Max\<bar> \<le> of_int 32767" by (simp add: kInt16Max_def abs_mult)
  from rnd_unit [OF assms this] have "\<bar>rnd F (rnd F (std_sin F ?p * ?a) * kInt16Max)\<bar> \<le> 32767" by simp
  from to_int16_in_range [OF this] show ?thesis by (simp add: sample_at_def Let_def)
qed

lemma those_Some: "\<forall>x \<in> set xs. \<exists>y. f x = Some y \<and> P y \<Longrightarrow> \<exists>ys. those (map f xs) = Some ys \<and> length ys = length xs \<and> (\<forall>y \<in> set ys. P y)"
  by (induction xs) auto

lemma tone_samples_total:
  assumes "double_lawful F" and "0 \<le> d" "d \<le> 48695"
  shows "\<exists>xs. tone_samples F f d v = Some xs \<and> length xs = nat (44100 * d div 1000) \<and> (\<forall>x \<in> set xs. \<bar>x\<bar> \<le> 32767)"
proof -
  have n: "num_samples d = Some (44100 * d div 1000)"
    using assms(2,3) by (simp add: num_samples_def kSampleRate_def in_int32_def signed_divide_int_def sgn_if)
  have "\<forall>i \<in> set [0..<nat (44100 * d div 1000)]. \<exists>y. sample_at F f (amplitude_of F v) (int i) = Some y \<and> \<bar>y\<bar> \<le> 32767"
    using sample_fits [OF assms(1)] by blast
  from those_Some [OF this] show ?thesis by (simp add: tone_samples_def n)
qed

section \<open>One tone at a time\<close>

text \<open>
  The player's sink is the only one that plays or is connected, its buffer the only open one, and every
  object made before is in the hands of \<open>deleteLater\<close>, once.
\<close>

definition sound_inv :: "sound_player \<times> audio \<Rightarrow> bool" where
  "sound_inv pa \<longleftrightarrow> (case pa of (p, a) \<Rightarrow>
     (sink p = None \<longleftrightarrow> buffer p = None) \<and>
     (case (sink p, buffer p) of
        (Some s, Some b) \<Rightarrow> playing a = [s] \<and> wired a = [s] \<and> open_buffers a = [b] \<and>
          distinct (s # b # deleted a) \<and> set (s # b # deleted a) = {0..<next_id a}
      | _ \<Rightarrow> playing a = [] \<and> wired a = [] \<and> open_buffers a = [] \<and> distinct (deleted a) \<and> set (deleted a) = {0..<next_id a}))"

lemma sound_inv_init: "sound_inv (sound_player_new, audio_init)"
  by (simp add: sound_inv_def sound_player_new_def audio_init_def)

lemma Cleanup_inv:
  assumes "sound_inv pa"
  shows "sound_inv (Cleanup pa) \<and> sink (fst (Cleanup pa)) = None"
  using assms by (cases pa; cases "sink (fst pa)"; cases "buffer (fst pa)") (auto simp: sound_inv_def Cleanup_def Let_def)

lemma PlayTone_inv:
  assumes "sound_inv pa" and "PlayTone F ok f d v pa = Some pa'"
  shows "sound_inv pa'"
proof -
  obtain p a where c: "Cleanup pa = (p, a)" by force
  have i: "sound_inv (p, a)" "sink p = None" using Cleanup_inv [OF assms(1)] c by simp_all
  then have a: "playing a = []" "wired a = []" "open_buffers a = []" "distinct (deleted a)" "set (deleted a) = {0..<next_id a}"
    by (simp_all add: sound_inv_def)
  show ?thesis
  proof (cases ok)
    case False
    then show ?thesis using assms(2) c i by (simp add: PlayTone_def)
  next
    case True
    then obtain xs where "tone_samples F f d v = Some xs" using assms(2) c by (auto simp: PlayTone_def split: option.splits)
    then have "pa' = (p\<lparr>samples := xs, buffer := Some (next_id a), sink := Some (next_id a + 1)\<rparr>,
        a\<lparr>next_id := next_id a + 2, open_buffers := [next_id a], wired := [next_id a + 1], playing := [next_id a + 1]\<rparr>)"
      using assms(2) c True a by (simp add: PlayTone_def Let_def)
    then show ?thesis using a by (auto simp: sound_inv_def)
  qed
qed

definition tone_event_ok :: "sound_event \<Rightarrow> bool" where
  "tone_event_ok e \<longleftrightarrow> (case e of Tone _ _ d _ \<Rightarrow> 0 \<le> d \<and> d \<le> 48695 | _ \<Rightarrow> True)"

lemma sound_step_inv:
  assumes "double_lawful F" and "sound_inv pa" and "tone_event_ok e"
  shows "\<exists>pa'. sound_step F e pa = Some pa' \<and> sound_inv pa'"
proof (cases e)
  case (Tone ok f d v)
  then have "0 \<le> d" "d \<le> 48695" using assms(3) by (simp_all add: tone_event_ok_def)
  from tone_samples_total [OF assms(1) this] obtain xs where "tone_samples F f d v = Some xs" by blast
  then have "\<exists>pa'. PlayTone F ok f d v pa = Some pa'" by (cases "Cleanup pa") (simp add: PlayTone_def Let_def)
  then show ?thesis using Tone PlayTone_inv [OF assms(2)] by auto
qed (use Cleanup_inv [OF assms(2)] assms(2) in \<open>simp add: sink_state_changed_def\<close>)

interpretation player: event_machine "sound_step F" "sound_run F" tone_event_ok "\<lambda>pa. double_lawful F \<and> sound_inv pa" for F
  by unfold_locales (auto dest: sound_step_inv)

section \<open>Any tones, any state changes\<close>

text \<open>
  At most one sink is playing, it is the player's and still connected; every sink and buffer made before is
  deleted exactly once, and the destructor deletes the rest.
\<close>

lemma any_tones_one_at_a_time:
  assumes "double_lawful F" and "\<forall>e \<in> set es. tone_event_ok e"
  shows "\<exists>p a p' a'. sound_run F es (sound_player_new, audio_init) = Some (p, a) \<and> SoundPlayer_destroy (p, a) = (p', a') \<and>
    playing a = (case sink p of None \<Rightarrow> [] | Some s \<Rightarrow> [s]) \<and> wired a = playing a \<and>
    length (open_buffers a) = length (playing a) \<and> distinct (deleted a) \<and>
    playing a' = [] \<and> open_buffers a' = [] \<and> distinct (deleted a') \<and> set (deleted a') = {0..<next_id a}"
proof -
  obtain p a where r: "sound_run F es (sound_player_new, audio_init) = Some (p, a)" and i: "sound_inv (p, a)"
    using player.run_total [of F "(sound_player_new, audio_init)" es] assms sound_inv_init by force
  obtain p' a' where c: "Cleanup (p, a) = (p', a')" by force
  then have i': "sound_inv (p', a')" "sink p' = None" using Cleanup_inv [OF i] c by simp_all
  have "next_id a' = next_id a" using c by (auto simp: Cleanup_def Let_def split: option.splits)
  with i i' r c show ?thesis
    by (intro exI [of _ p] exI [of _ a] exI [of _ p'] exI [of _ a'])
      (auto simp: SoundPlayer_destroy_def sound_inv_def split: option.splits)
qed

definition plain_doubles :: double_ops where
  "plain_doubles = \<lparr>rnd = (\<lambda>x. x), std_sin = (\<lambda>_. 1)\<rparr>"

lemma plain_doubles_lawful: "double_lawful plain_doubles"
  by (simp add: double_lawful_def plain_doubles_def)

text \<open>
  Every sample fits 16 bits, whatever the frequency and the volume; with volume zero every sample is zero.
\<close>

lemma tone_samples_fit:
  assumes "double_lawful F" and "0 \<le> d" "d \<le> 48695"
  shows "\<exists>xs. tone_samples F f d v = Some xs \<and> length xs = nat (44100 * d div 1000) \<and> (\<forall>x \<in> set xs. \<bar>x\<bar> \<le> 32767) \<and>
    (v \<le> 0 \<longrightarrow> set xs \<subseteq> {0})"
proof -
  obtain xs where xs: "tone_samples F f d v = Some xs" "length xs = nat (44100 * d div 1000)" "\<forall>x \<in> set xs. \<bar>x\<bar> \<le> 32767"
    using tone_samples_total [OF assms] by blast
  have z: "rnd F 0 = 0" using assms(1) unfolding double_lawful_def by (metis abs_zero of_int_0 zero_le_numeral zero_le_power)
  have "set xs \<subseteq> {0}" if "v \<le> 0"
  proof -
    have "amplitude_of F v = 0" using that z by (simp add: amplitude_of_def clamp_int_def)
    then have "sample_at F f (amplitude_of F v) i = Some 0" for i
      using z by (simp add: sample_at_def Let_def to_int16_def trunc_double_def)
    then have "those (map (\<lambda>i. sample_at F f (amplitude_of F v) (int i)) [0..<n]) = Some ys \<Longrightarrow> set ys \<subseteq> {0}" for n ys
      using those_Some [of "[0..<n]" "\<lambda>i. sample_at F f (amplitude_of F v) (int i)" "\<lambda>y. y = 0"] by auto
    then show ?thesis using xs(1) by (auto simp: tone_samples_def split: option.splits)
  qed
  with xs show ?thesis by blast
qed

end
