(* ===== verification/App_Session.thy ===== *)
theory App_Session
  imports Window_Laws Sound_Player
begin

text \<open>
  One session of the program: \<open>main\<close> (src/main.cpp) makes the window, which loads the preferences of the
  Settings tab (src/ui/MainWindow.cpp), runs its events, destroys it, and asks the service manager to stop the
  driver's service on exit. The controls of the Settings tab store every change at once. The sound player
  gets the window's tones.
\<close>

section \<open>What events do to the preferences\<close>

definition preferences :: "('w, 'g) main_window \<Rightarrow> int \<times> int \<times> bool \<times> int" where
  "preferences w = (delay_step (panel w), drop_step (panel w), sound_checked w, volume w)"

text \<open>The preferences stay as they are, and every new tone is one of the two with the current volume.\<close>

definition toggle_tone :: "int \<Rightarrow> tone \<Rightarrow> bool" where
  "toggle_tone vol tn \<longleftrightarrow> tn = (800, 150, vol) \<or> tn = (400, 150, vol)"

definition prefs_frame :: "('w, 'g) main_window \<Rightarrow> ('w, 'g) main_window \<Rightarrow> bool" where
  "prefs_frame w w' \<longleftrightarrow> preferences w' = preferences w \<and>
     (\<exists>ts. tones w' = tones w @ ts \<and> (\<forall>tn \<in> set ts. toggle_tone (volume w) tn))"

lemma prefs_frame_refl [simp]: "prefs_frame w w"
  by (simp add: prefs_frame_def)

lemma prefs_frame_trans [trans]: "prefs_frame w w' \<Longrightarrow> prefs_frame w' w'' \<Longrightarrow> prefs_frame w w''"
  unfolding prefs_frame_def by (auto simp: preferences_def)

text \<open>What the preferences and the tones depend on; most operations leave it alone.\<close>

definition sound_part :: "('w, 'g) main_window \<Rightarrow> effect_panel \<times> bool \<times> int \<times> tone list" where
  "sound_part w = (panel w, sound_checked w, volume w, tones w)"

lemma prefs_frame_same: "sound_part w' = sound_part w \<Longrightarrow> prefs_frame w w'"
  by (simp add: prefs_frame_def preferences_def sound_part_def)

lemma sound_part_updates [simp]:
  "sound_part (w\<lparr>interceptor_obj := a\<rparr>) = sound_part w" "sound_part (w\<lparr>tracker_obj := b\<rparr>) = sound_part w"
  "sound_part (w\<lparr>outer := v\<rparr>) = sound_part w" "sound_part (w\<lparr>capture_loop := l\<rparr>) = sound_part w"
  "sound_part (w\<lparr>tracking_loop := l\<rparr>) = sound_part w" "sound_part (w\<lparr>is_running := r\<rparr>) = sound_part w"
  "sound_part (w\<lparr>refresh_timer := r\<rparr>) = sound_part w" "sound_part (w\<lparr>target_monitor_timer := r\<rparr>) = sound_part w"
  "sound_part (w\<lparr>button := s\<rparr>) = sound_part w" "sound_part (w\<lparr>tree := t\<rparr>) = sound_part w" "sound_part (w\<lparr>filter_text := s\<rparr>) = sound_part w"
  "sound_part (w\<lparr>refresh_in_flight := r\<rparr>) = sound_part w" "sound_part (w\<lparr>target_pids := ts\<rparr>) = sound_part w"
  "sound_part (w\<lparr>selected_process_identity := i\<rparr>) = sound_part w" "sound_part (w\<lparr>fatal_events := gs\<rparr>) = sound_part w"
  "sound_part (UpdatePipelineStatus m as e w) = sound_part w" "sound_part (RefreshProcessList w) = sound_part w"
  "sound_part (warn m w) = sound_part w" "sound_part (select_item item w) = sound_part w" "sound_part (reset_tracker X w) = sound_part w"
  by (simp_all add: sound_part_def UpdatePipelineStatus_def RefreshProcessList_def warn_def select_item_def OnProcessSelectionChanged_def
      reset_tracker_def Let_def split: option.split prod.split)

lemma reset_interceptor_part: "reset_interceptor X w = Some w' \<Longrightarrow> sound_part w' = sound_part w"
  by (auto simp: reset_interceptor_def split: option.splits)

lemma list_ready_part [simp]: "sound_part (window_list_ready P procs w) = sound_part w"
  by (simp add: window_list_ready_def Let_def split: prod.split)

lemma stop_objects_part: "stop_objects X w = Some w' \<Longrightarrow> sound_part w' = sound_part w"
  by (auto simp: stop_objects_def split: option.splits prod.splits dest!: reset_interceptor_part)

lemma sound_frame: "sound_part w' = sound_part w \<Longrightarrow> prefs_frame w (PlayToggleSound b w')"
  by (simp add: PlayToggleSound_def prefs_frame_def preferences_def toggle_tone_def sound_part_def Let_def)

lemma status_frame [simp]: "prefs_frame w (UpdatePipelineStatus m as b z) = prefs_frame w z"
  by (simp add: prefs_frame_def preferences_def UpdatePipelineStatus_def)

lemma stop_frame: "StopPipeline P w = Some w' \<Longrightarrow> prefs_frame w w'"
  by (auto simp: StopPipeline_def Let_def split: if_splits option.splits dest!: stop_objects_part intro!: sound_frame)

lemma start_interceptor_frame: "start_interceptor P s1 s2 t w = Some w' \<Longrightarrow> prefs_frame w w'"
  by (auto simp: start_interceptor_def Let_def split: option.splits prod.splits sum.splits dest!: reset_interceptor_part
      intro: sound_frame prefs_frame_same)

lemma prefs_frame_part: "prefs_frame w1 w' \<Longrightarrow> sound_part w1 = sound_part w \<Longrightarrow> prefs_frame w w'"
  by (simp add: prefs_frame_def preferences_def sound_part_def)

lemma start_frame: "StartPipeline P now s1 s2 w = Some w' \<Longrightarrow> prefs_frame w w'"
proof -
  have s: "prefs_frame w w'" if "start_pipeline_for P s1 s2 i w = Some w'" for i
    using that
    by (auto simp: start_pipeline_for_def Let_def bind_eq_Some_conv split: option.splits prod.splits sum.splits
        dest!: reset_interceptor_part start_interceptor_frame intro: prefs_frame_same prefs_frame_part)
  assume "StartPipeline P now s1 s2 w = Some w'"
  then show ?thesis
    by (auto simp: StartPipeline_def Let_def split: option.splits if_splits dest!: s intro: prefs_frame_same)
qed

text \<open>The panel's handlers leave the steps alone.\<close>

definition same_steps :: "effect_panel \<Rightarrow> effect_panel \<Rightarrow> bool" where
  "same_steps p p' \<longleftrightarrow> delay_step p' = delay_step p \<and> drop_step p' = drop_step p"

lemma same_steps_simps [simp]:
  "same_steps p p" "same_steps p (put_slider r s v q) = same_steps p q" "same_steps p (put_spinbox r s v q) = same_steps p q"
  "same_steps p (set_effect b x q) = same_steps p q" "same_steps p (set_both x q) = same_steps p q"
  by (simp_all add: same_steps_def put_slider_def put_spinbox_def set_effect_def set_both_def)

lemma widget_run_steps: "widget_run Q n c p = Some p' \<Longrightarrow> same_steps q p \<Longrightarrow> same_steps q p'"
proof (induction n arbitrary: c p p')
  case (Suc n)
  show ?case
  proof (cases c)
    case (SetSlider r s v)
    with Suc show ?thesis by (auto simp: bind_eq_Some_conv Let_def split: prod.splits if_splits)
  next
    case (SetSpinbox r s v)
    with Suc show ?thesis by (auto simp: Let_def split: prod.splits if_splits)
  next
    case (SliderChanged r s v)
    with Suc show ?thesis by (cases s) (auto simp: bind_eq_Some_conv split: if_splits)
  next
    case (SyncSlider r s v)
    with Suc show ?thesis by (auto split: if_splits)
  qed
qed simp

lemma slide_steps: "slide Q r s v p = Some p' \<Longrightarrow> same_steps q p \<Longrightarrow> same_steps q p'"
  unfolding slide_def by (rule widget_run_steps)

lemma spin_steps: "spin Q r s v p = Some p' \<Longrightarrow> same_steps q p \<Longrightarrow> same_steps q p'"
  unfolding spin_def by (rule widget_run_steps)

lemma same_steps_fields [simp]:
  "same_steps p (q\<lparr>asymmetric := x\<rparr>) = same_steps p q" "same_steps p (show_directions r b q) = same_steps p q"
  "same_steps p (q\<lparr>custom_copies := b\<rparr>) = same_steps p q" "same_steps p (q\<lparr>burst_checked := b\<rparr>) = same_steps p q"
  "same_steps p (update_duplicate_copy_controls_visibility q) = same_steps p q"
  "same_steps p (update_burst_drop_controls_visibility q) = same_steps p q"
  by (simp_all add: same_steps_def show_directions_def update_duplicate_copy_controls_visibility_def
      update_burst_drop_controls_visibility_def Let_def)

lemma copy_steps:
  "copy_to_directions Q r p = Some p' \<Longrightarrow> same_steps q p \<Longrightarrow> same_steps q p'"
  "copy_from_outbound Q r p = Some p' \<Longrightarrow> same_steps q p \<Longrightarrow> same_steps q p'"
  by (auto simp: copy_to_directions_def copy_from_outbound_def bind_eq_Some_conv Let_def dest!: slide_steps)

lemma toggle_steps:
  "row_asymmetric_toggled Q r b p = Some p' \<Longrightarrow> same_steps p p'"
  "burst_asymmetric_toggled Q b p = Some p' \<Longrightarrow> same_steps p p'"
  "duplicate_asymmetric_toggled Q b p = Some p' \<Longrightarrow> same_steps p p'"
  by (auto simp: row_asymmetric_toggled_def burst_asymmetric_toggled_def duplicate_asymmetric_toggled_def bind_eq_Some_conv
      Let_def split: if_splits dest!: slide_steps [where q = p] copy_steps [where q = p])

lemma hotkey_steps: "hotkey_adjusts Q a p = Some p' \<Longrightarrow> same_steps p p'"
  by (cases a) (auto simp: adjust_row_def bind_eq_Some_conv split: if_splits dest!: slide_steps [where q = p])

lemma panel_step_steps:
  assumes "panel_step Q a p = Some p'" and "\<forall>v. a \<noteq> StepDelay v \<and> a \<noteq> StepDrop v"
  shows "same_steps p p'"
  using assms
  by (cases a) (auto split: if_splits row.splits dest: slide_steps [where q = p] spin_steps [where q = p] toggle_steps hotkey_steps
      simp: burst_drop_toggled_def custom_copies_toggled_def Let_def)

text \<open>The events of the controls that have a preference, and the others.\<close>

fun changes_preference :: "('m, 'g) event \<Rightarrow> bool" where
  "changes_preference (PanelUsed (StepDelay v)) = True"
| "changes_preference (PanelUsed (StepDrop v)) = True"
| "changes_preference SoundToggled = True"
| "changes_preference (VolumeMoved v) = True"
| "changes_preference _ = False"

lemma hotkey_frame: "OnHotkeyTriggered P now s1 s2 a w = Some w' \<Longrightarrow> prefs_frame w w'"
proof -
  assume h: "OnHotkeyTriggered P now s1 s2 a w = Some w'"
  show ?thesis
  proof (cases "a = kToggleEffects")
    case True
    with h show ?thesis by (auto simp: OnHotkeyTriggered_def OnStartStopClicked_def stop_frame start_frame split: if_splits)
  next
    case False
    then obtain p where "hotkey_adjusts (qt P) a (panel w) = Some p" "w' = w\<lparr>panel := p\<rparr>"
      using h by (cases a) (auto simp: OnHotkeyTriggered_def)
    then show ?thesis using hotkey_steps by (auto simp: prefs_frame_def preferences_def same_steps_def)
  qed
qed

lemma fatal_frame: "OnPipelineFatal P gle w = Some w' \<Longrightarrow> prefs_frame w w'"
  by (auto simp: OnPipelineFatal_def split: if_splits dest!: stop_frame)

lemma monitor_frame: "CheckSelectedProcessIdentity P now w = Some w' \<Longrightarrow> prefs_frame w w'"
proof -
  let ?w = "w\<lparr>target_pids := Clear (target_pids w), selected_process_identity := no_identity\<rparr>"
  have "sound_part ?w = sound_part w" by simp
  from prefs_frame_part [OF _ this] have "StopPipeline P ?w = Some z \<Longrightarrow> prefs_frame w z" for z using stop_frame by blast
  then show "CheckSelectedProcessIdentity P now w = Some w' \<Longrightarrow> prefs_frame w w'"
    by (auto simp: CheckSelectedProcessIdentity_def split: if_splits)
qed

lemma thread_parts:
  "sound_part (tracking_thread P w) = sound_part w"
  "capture_thread P clock w = Some w' \<Longrightarrow> sound_part w' = sound_part w"
  "delay_thread P now now2 w = Some w' \<Longrightarrow> sound_part w' = sound_part w"
  by (auto simp: tracking_thread_def capture_thread_def delay_thread_def split: option.splits prod.splits if_splits)

lemma window_step_frame:
  assumes "window_step P e w = Some w'" and "\<not> changes_preference e"
  shows "prefs_frame w w'"
proof (cases e)
  case (PanelUsed a)
  then have a: "\<forall>v. a \<noteq> StepDelay v \<and> a \<noteq> StepDrop v" using assms(2) by auto
  obtain p where p: "panel_step (qt P) a (panel w) = Some p" "w' = w\<lparr>panel := p\<rparr>" using assms(1) PanelUsed by auto
  from panel_step_steps [OF p(1) a] p(2) show ?thesis by (auto simp: prefs_frame_def preferences_def same_steps_def)
next
  case FatalDelivered
  with assms(1) show ?thesis
    by (auto split: list.splits dest!: fatal_frame intro: prefs_frame_part)
qed (use assms in \<open>auto simp: OnStartStopClicked_def window_filter_changed_def thread_parts split: if_splits
    intro: prefs_frame_same stop_frame start_frame hotkey_frame monitor_frame thread_parts\<close>)

section \<open>The stored preferences\<close>

text \<open>The settings store: integers and truth values under string keys, as \<open>QSettings\<close> documents them.\<close>

record 's preference_ops =
  read_int :: "string \<Rightarrow> int \<Rightarrow> 's \<Rightarrow> int"
  write_int :: "string \<Rightarrow> int \<Rightarrow> 's \<Rightarrow> 's"
  read_bool :: "string \<Rightarrow> bool \<Rightarrow> 's \<Rightarrow> bool"
  write_bool :: "string \<Rightarrow> bool \<Rightarrow> 's \<Rightarrow> 's"

definition preference_lawful :: "'s preference_ops \<Rightarrow> bool" where
  "preference_lawful S \<longleftrightarrow>
     (\<forall>k d k' x s. read_int S k d (write_int S k' x s) = (if k = k' then x else read_int S k d s)) \<and>
     (\<forall>k d k' x s. read_bool S k d (write_bool S k' x s) = (if k = k' then x else read_bool S k d s)) \<and>
     (\<forall>k d k' x s. k \<noteq> k' \<longrightarrow> read_int S k d (write_bool S k' x s) = read_int S k d s) \<and>
     (\<forall>k d k' x s. k \<noteq> k' \<longrightarrow> read_bool S k d (write_int S k' x s) = read_bool S k d s)"

definition delay_step_range :: "int \<times> int" where "delay_step_range = (1, 500)"
definition drop_step_range :: "int \<times> int" where "drop_step_range = (1, 50)"
definition volume_range :: "int \<times> int" where "volume_range = (0, 100)"

text \<open>
  Loading: \<open>setValue\<close> on fresh controls, a spin box being at the least value of its range, and before
  their signals are connected. The label beside the volume gets the saved number.
\<close>

definition load_preferences :: "qt_set \<Rightarrow> 's preference_ops \<Rightarrow> 's \<Rightarrow> (int \<times> int \<times> bool \<times> int) \<times> int" where
  "load_preferences Q S s =
     (let step1 = fst (Q delay_step_range 1 (read_int S ''UI/DelayStep'' 10 s));
          step2 = fst (Q drop_step_range 1 (read_int S ''UI/DropStep'' 1 s));
          sound = read_bool S ''UI/SoundEnabled'' False s;
          saved_volume = read_int S ''UI/Volume'' 25 s
      in ((step1, step2, sound, fst (Q volume_range 0 saved_volume)), saved_volume))"

record ('w, 'g, 's) session =
  win :: "('w, 'g) main_window"
  store :: 's
  volume_text :: int

definition session_start :: "('m, 'w, 'g) platform \<Rightarrow> 's preference_ops \<Rightarrow> 's \<Rightarrow> 'w env \<Rightarrow> ('w, 'g, 's) session" where
  "session_start P S s v =
     (case load_preferences (qt P) S s of
        ((step1, step2, sound, vol), txt) \<Rightarrow>
          \<lparr>win = window_init (panel_init step1 step2) sound vol v, store = s, volume_text = txt\<rparr>)"

text \<open>The connected signals: \<open>valueChanged\<close> when the value changes, \<open>toggled\<close> at every toggle.\<close>

fun store_signal :: "('m, 'w, 'g) platform \<Rightarrow> 's preference_ops \<Rightarrow> ('m, 'g) event \<Rightarrow> ('w, 'g) main_window \<Rightarrow> 's \<Rightarrow> 's" where
  "store_signal P S (PanelUsed (StepDelay v)) w s =
     (case qt P delay_step_range (delay_step (panel w)) v of
        (x, changed) \<Rightarrow> if changed then write_int S ''UI/DelayStep'' x s else s)"
| "store_signal P S (PanelUsed (StepDrop v)) w s =
     (case qt P drop_step_range (drop_step (panel w)) v of
        (x, changed) \<Rightarrow> if changed then write_int S ''UI/DropStep'' x s else s)"
| "store_signal P S SoundToggled w s = write_bool S ''UI/SoundEnabled'' (\<not> sound_checked w) s"
| "store_signal P S (VolumeMoved v) w s =
     (case qt P volume_range (volume w) v of (x, changed) \<Rightarrow> if changed then write_int S ''UI/Volume'' x s else s)"
| "store_signal P S _ w s = s"

fun label_signal :: "('m, 'w, 'g) platform \<Rightarrow> ('m, 'g) event \<Rightarrow> ('w, 'g) main_window \<Rightarrow> int \<Rightarrow> int" where
  "label_signal P (VolumeMoved v) w txt =
     (case qt P volume_range (volume w) v of (x, changed) \<Rightarrow> if changed then x else txt)"
| "label_signal P _ w txt = txt"

definition session_step :: "('m, 'w, 'g) platform \<Rightarrow> 's preference_ops \<Rightarrow> ('m, 'g) event \<Rightarrow> ('w, 'g, 's) session \<Rightarrow> ('w, 'g, 's) session option" where
  "session_step P S e x =
     map_option (\<lambda>w. x\<lparr>win := w, store := store_signal P S e (win x) (store x), volume_text := label_signal P e (win x) (volume_text x)\<rparr>)
       (window_step P e (win x))"

fun session_run :: "('m, 'w, 'g) platform \<Rightarrow> 's preference_ops \<Rightarrow> ('m, 'g) event list \<Rightarrow> ('w, 'g, 's) session \<Rightarrow> ('w, 'g, 's) session option" where
  "session_run P S [] x = Some x"
| "session_run P S (e # es) x = Option.bind (session_step P S e x) (session_run P S es)"

lemma session_run_window: "map_option win (session_run P S es x) = window_run P es (win x)"
  by (induction es arbitrary: x) (auto simp: session_step_def split: Option.bind_split dest: sym)

lemma load_lawful:
  assumes "qt_lawful Q"
  shows "load_preferences Q S s =
    ((clamp_int (read_int S ''UI/DelayStep'' 10 s) 1 500, clamp_int (read_int S ''UI/DropStep'' 1 s) 1 50,
      read_bool S ''UI/SoundEnabled'' False s, clamp_int (read_int S ''UI/Volume'' 25 s) 0 100), read_int S ''UI/Volume'' 25 s)"
  using assms by (simp add: load_preferences_def qt_lawful_def delay_step_range_def drop_step_range_def volume_range_def Let_def)

definition saved :: "('m, 'w, 'g) platform \<Rightarrow> 's preference_ops \<Rightarrow> ('w, 'g, 's) session \<Rightarrow> bool" where
  "saved P S x \<longleftrightarrow> load_preferences (qt P) S (store x) = (preferences (win x), volume_text x)"

lemma saved_start: "saved P S (session_start P S s v)"
  by (simp add: saved_def session_start_def preferences_def window_init_def panel_init_def update_duplicate_copy_controls_visibility_def
      update_burst_drop_controls_visibility_def UpdatePipelineStatus_def RefreshProcessList_def Let_def split: prod.split)

text \<open>Every event keeps the store and the controls together.\<close>

lemma saved_step:
  assumes "qt_lawful (qt P)" and "preference_lawful S" and "saved P S x" and "session_step P S e x = Some x'"
  shows "saved P S x'"
proof -
  obtain w where w: "window_step P e (win x) = Some w"
    "x' = x\<lparr>win := w, store := store_signal P S e (win x) (store x), volume_text := label_signal P e (win x) (volume_text x)\<rparr>"
    using assms(4) by (auto simp: session_step_def)
  note q = assms(1) [unfolded qt_lawful_def, rule_format]
  note l = load_lawful [OF assms(1), of S]
  have r: "read_int S k d (write_int S k' n s) = (if k = k' then n else read_int S k d s)"
    "read_bool S k e (write_bool S k' b s) = (if k = k' then b else read_bool S k e s)"
    "k \<noteq> k' \<Longrightarrow> read_int S k d (write_bool S k' b s) = read_int S k d s"
    "k \<noteq> k' \<Longrightarrow> read_bool S k e (write_int S k' n s) = read_bool S k e s" for k k' d n s b e
    using assms(2) by (simp_all add: preference_lawful_def)
  have c: "clamp_int (clamp_int v lo hi) lo hi = clamp_int v lo hi" if "lo \<le> hi" for v lo hi
    using clamp_int_idem [OF that] .
  show ?thesis
  proof (cases "changes_preference e")
    case False
    then have same: "store_signal P S e (win x) (store x) = store x" "label_signal P e (win x) (volume_text x) = volume_text x"
      by (cases e; simp; metis changes_preference.simps label_signal.simps store_signal.simps panel_action.exhaust)+
    from window_step_frame [OF w(1) False] assms(3) w(2) same show ?thesis by (simp add: saved_def prefs_frame_def)
  next
    case True
    then show ?thesis using assms(3) w
      by (cases e rule: changes_preference.cases)
        (auto simp: saved_def l preferences_def delay_step_range_def drop_step_range_def volume_range_def q r c split: if_splits)
  qed
qed

section \<open>The tones of a session\<close>

definition tones_in_range :: "('w, 'g) main_window \<Rightarrow> bool" where
  "tones_in_range w \<longleftrightarrow> 0 \<le> volume w \<and> volume w \<le> 100 \<and> (\<forall>(f, d, vol) \<in> set (tones w). d = 150 \<and> 0 \<le> vol \<and> vol \<le> 100)"

lemma tones_step:
  assumes "qt_lawful (qt P)" and "tones_in_range w" and "window_step P e w = Some w'"
  shows "tones_in_range w'"
proof (cases "changes_preference e")
  case False
  from window_step_frame [OF assms(3) False] obtain ts where
    "volume w' = volume w" "tones w' = tones w @ ts" "\<forall>tn \<in> set ts. toggle_tone (volume w) tn"
    by (auto simp: prefs_frame_def preferences_def)
  with assms(2) show ?thesis by (fastforce simp: tones_in_range_def toggle_tone_def)
next
  case True
  have "fst (qt P (0, 100) x v) = clamp_int v 0 100" for x v using assms(1) by (simp add: qt_lawful_def)
  with True assms(2,3) clamp_int_bounds [of 0 100] show ?thesis
    by (cases e rule: changes_preference.cases) (auto simp: tones_in_range_def)
qed

section \<open>What every session keeps\<close>

definition session_inv :: "('m, 'w, 'g) platform \<Rightarrow> 's preference_ops \<Rightarrow> 'w \<Rightarrow> ('w, 'g, 's) session \<Rightarrow> bool" where
  "session_inv P S w0 x \<longleftrightarrow> platform_ok P \<and> win_inv P w0 (win x) \<and> tones_in_range (win x) \<and> (preference_lawful S \<longrightarrow> saved P S x)"

lemma platform_qt: "platform_ok P \<Longrightarrow> qt_lawful (qt P)"
  by (simp add: platform_ok_def)

lemma session_step_inv:
  assumes "session_inv P S w0 x"
  shows "\<exists>x'. session_step P S e x = Some x' \<and> session_inv P S w0 x'"
proof -
  have P: "platform_ok P" and inv: "win_inv P w0 (win x)" and t: "tones_in_range (win x)"
    using assms by (simp_all add: session_inv_def)
  obtain w where w: "window_step P e (win x) = Some w" "win_inv P w0 w" using window_step_inv [OF P inv] by blast
  then obtain x' where x': "session_step P S e x = Some x'" "win x' = w" by (simp add: session_step_def)
  with w P tones_step [OF platform_qt [OF P] t w(1)] saved_step [OF platform_qt [OF P] _ _ x'(1)] assms
  show ?thesis by (auto simp: session_inv_def)
qed

interpretation session: event_machine "session_step P S" "session_run P S" "\<lambda>_. True" "session_inv P S w0" for P S w0
  by unfold_locales (simp_all add: session_step_inv)

text \<open>Whatever the store holds, a session starts in the ranges of the controls and runs to its end.\<close>

lemma session_start_inv:
  assumes "platform_ok P"
  shows "session_inv P S (world v) (session_start P S s v)"
proof -
  note Q = platform_qt [OF assms]
  have b: "1 \<le> clamp_int n 1 500" "clamp_int n 1 500 \<le> 500" "1 \<le> clamp_int n 1 50" "clamp_int n 1 50 \<le> 50" for n
    using clamp_int_bounds [of 1 500 n] clamp_int_bounds [of 1 50 n] by simp_all
  have "win_inv P (world v) (win (session_start P S s v))"
    unfolding session_start_def load_lawful [OF Q] by (simp add: window_init_inv b)
  moreover have "tones_in_range (win (session_start P S s v))"
    unfolding session_start_def load_lawful [OF Q]
    by (simp add: tones_in_range_def window_init_def UpdatePipelineStatus_def RefreshProcessList_def clamp_int_bounds)
  ultimately show ?thesis using assms saved_start [of P S s v] by (simp add: session_inv_def)
qed

lemma session_total:
  assumes "platform_ok P"
  obtains x where "session_run P S es (session_start P S s v) = Some x" "session_inv P S (world v) x"
  using session.run_total [OF session_start_inv [OF assms, where S = S and s = s and v = v], of es] by auto

section \<open>The end of the program\<close>

text \<open>The service manager, its handles being numbers.\<close>

record 'w service_ops =
  OpenSCManager :: "'w \<Rightarrow> nat option \<times> 'w"
  OpenService :: "nat \<Rightarrow> 'w \<Rightarrow> nat option \<times> 'w"
  ControlService :: "nat \<Rightarrow> 'w \<Rightarrow> 'w"
  CloseServiceHandle :: "nat \<Rightarrow> 'w \<Rightarrow> 'w"

text \<open>\<open>L\<close> reads the open service handles off the world; none of the calls touches the driver's handles \<open>H\<close>.\<close>

definition service_lawful :: "'w service_ops \<Rightarrow> ('w \<Rightarrow> 'h) \<Rightarrow> ('w \<Rightarrow> nat set) \<Rightarrow> bool" where
  "service_lawful T H L \<longleftrightarrow>
     (\<forall>w r w'. OpenSCManager T w = (r, w') \<longrightarrow> H w' = H w \<and> set_option r \<inter> L w = {} \<and> L w' = L w \<union> set_option r) \<and>
     (\<forall>h w r w'. OpenService T h w = (r, w') \<longrightarrow> H w' = H w \<and> set_option r \<inter> L w = {} \<and> L w' = L w \<union> set_option r) \<and>
     (\<forall>h w. H (ControlService T h w) = H w \<and> L (ControlService T h w) = L w) \<and>
     (\<forall>h w. H (CloseServiceHandle T h w) = H w \<and> L (CloseServiceHandle T h w) = L w - {h})"

text \<open>The result is the world in which the request to stop was made, if it was, and the last world.\<close>

definition StopWinDivertService :: "'w service_ops \<Rightarrow> 'w \<Rightarrow> 'w option \<times> 'w" where
  "StopWinDivertService T w =
     (case OpenSCManager T w of
        (None, w) \<Rightarrow> (None, w)
      | (Some scm, w) \<Rightarrow>
          (case OpenService T scm w of
             (None, w) \<Rightarrow> (None, CloseServiceHandle T scm w)
           | (Some svc, w) \<Rightarrow>
               (Some w, CloseServiceHandle T scm (CloseServiceHandle T svc (ControlService T svc w)))))"

lemma StopWinDivertService_spec:
  assumes "service_lawful T H L" and "StopWinDivertService T w = (req, w')"
  shows "H w' = H w \<and> L w' = L w \<and> (\<forall>wr. req = Some wr \<longrightarrow> H wr = H w)"
proof -
  obtain r w1 where 1: "OpenSCManager T w = (r, w1)" by force
  note laws = assms(1) [unfolded service_lawful_def]
  from laws [THEN conjunct1, rule_format, OF 1]
  have l1: "H w1 = H w" "set_option r \<inter> L w = {}" "L w1 = L w \<union> set_option r" by simp_all
  show ?thesis
  proof (cases r)
    case None
    with 1 l1 assms(2) show ?thesis by (simp add: StopWinDivertService_def)
  next
    case (Some scm)
    obtain r2 w2 where 2: "OpenService T scm w1 = (r2, w2)" by force
    from laws [THEN conjunct2, THEN conjunct1, rule_format, OF 2]
    have l2: "H w2 = H w1" "set_option r2 \<inter> L w1 = {}" "L w2 = L w1 \<union> set_option r2" by simp_all
    have k: "H (ControlService T h x) = H x" "L (ControlService T h x) = L x"
      "H (CloseServiceHandle T h x) = H x" "L (CloseServiceHandle T h x) = L x - {h}" for h x
      using laws by simp_all
    have w': "w' = (case r2 of None \<Rightarrow> CloseServiceHandle T scm w2
        | Some svc \<Rightarrow> CloseServiceHandle T scm (CloseServiceHandle T svc (ControlService T svc w2)))"
      and req: "req = map_option (\<lambda>_. w2) r2"
      using assms(2) 1 2 Some by (simp_all add: StopWinDivertService_def split: option.splits)
    have "H w' = H w" using l1(1) l2(1) k unfolding w' by (simp split: option.split)
    moreover have "L w' = L w" using l1(2,3) l2(2,3) k Some unfolding w' by (cases r2) auto
    moreover have "req = Some wr \<Longrightarrow> H wr = H w" for wr using l1(1) l2(1) req by (cases r2) auto
    ultimately show ?thesis by blast
  qed
qed

text \<open>\<open>main\<close>: a session, the window's destructor, and the function registered with \<open>atexit\<close>.\<close>

definition program_main ::
  "('m, 'w, 'g) platform \<Rightarrow> 's preference_ops \<Rightarrow> 'w service_ops \<Rightarrow> ('m, 'g) event list \<Rightarrow> 's \<Rightarrow> 'w env \<Rightarrow>
   (('w, 'g, 's) session \<times> ('w, 'g) main_window \<times> 'w option \<times> 'w) option" where
  "program_main P S T es s v =
     (case session_run P S es (session_start P S s v) of
        None \<Rightarrow> None
      | Some x \<Rightarrow> map_option (\<lambda>w. (x, w, StopWinDivertService T (world (outer w)))) (MainWindow_destroy P (win x)))"

text \<open>The tones among the player's events, as the window counts them.\<close>

fun tones_of :: "sound_event list \<Rightarrow> (rat \<times> int \<times> int) list" where
  "tones_of [] = []"
| "tones_of (Tone _ f d vol # es) = (f, d, vol) # tones_of es"
| "tones_of (StateChanged _ _ # es) = tones_of es"

lemma tones_of_ok: "\<forall>(f, d, vol) \<in> set (tones_of es). 0 \<le> d \<and> d \<le> 48695 \<Longrightarrow> \<forall>e \<in> set es. tone_event_ok e"
  by (induction es rule: tones_of.induct) (auto simp: tone_event_ok_def)

section \<open>Properties\<close>

text \<open>
  C34: The preferences survive a restart. After any events of a session, whatever the store held before,
  the next session starts with the delay step, the drop step, the sound switch, the volume and the volume's
  label as they were, all in the ranges of their controls.
\<close>

theorem preferences_survive_restart:
  assumes "platform_ok P" and "preference_lawful S"
  shows "\<exists>x. session_run P S es (session_start P S s v) = Some x \<and>
    preferences (win (session_start P S (store x) v')) = preferences (win x) \<and>
    volume_text (session_start P S (store x) v') = volume_text x \<and>
    (case preferences (win x) of (d, r, _, vol) \<Rightarrow> 1 \<le> d \<and> d \<le> 500 \<and> 1 \<le> r \<and> r \<le> 50 \<and> 0 \<le> vol \<and> vol \<le> 100)"
proof -
  note Q = platform_qt [OF assms(1)]
  obtain x where x: "session_run P S es (session_start P S s v) = Some x" and i: "session_inv P S (world v) x"
    using session_total [OF assms(1)] .
  from i assms(2) have s: "load_preferences (qt P) S (store x) = (preferences (win x), volume_text x)"
    by (simp add: session_inv_def saved_def)
  have "saved P S (session_start P S (store x) v')" by (rule saved_start)
  then have "load_preferences (qt P) S (store x) =
      (preferences (win (session_start P S (store x) v')), volume_text (session_start P S (store x) v'))"
    by (simp add: saved_def session_start_def split: prod.splits)
  with s have "preferences (win (session_start P S (store x) v')) = preferences (win x)"
    "volume_text (session_start P S (store x) v') = volume_text x" by simp_all
  moreover have "case preferences (win x) of (d, r, _, vol) \<Rightarrow> 1 \<le> d \<and> d \<le> 500 \<and> 1 \<le> r \<and> r \<le> 50 \<and> 0 \<le> vol \<and> vol \<le> 100"
  proof -
    have "preferences (win x) = (clamp_int (read_int S ''UI/DelayStep'' 10 (store x)) 1 500,
        clamp_int (read_int S ''UI/DropStep'' 1 (store x)) 1 50, read_bool S ''UI/SoundEnabled'' False (store x),
        clamp_int (read_int S ''UI/Volume'' 25 (store x)) 0 100)"
      using s [unfolded load_lawful [OF Q] prod.inject, THEN conjunct1] by (rule sym)
    then show ?thesis by (simp add: clamp_int_bounds)
  qed
  ultimately show ?thesis using x by (intro exI [of _ x] conjI)
qed

text \<open>
  C9: The program leaves the driver as it found it. Whatever the user and the threads did, and whatever the
  store held, the program comes to its end with no pipeline and no driver handle of its own open; the request
  to stop the driver's service is made only then; and no handle of the service manager stays open, also when
  the manager or the service cannot be opened.
\<close>

theorem exit_releases_driver:
  assumes "platform_ok P" and "handles_tracked H (driver (out P)) (udp_table (out P))" and "service_lawful T H L"
  shows "\<exists>x w req w'. program_main P S T es s v = Some (x, w, req, w') \<and> \<not> is_running w \<and>
    tracker_obj w = None \<and> interceptor_obj w = None \<and> H w' = H (world v) \<and> L w' = L (world (outer w)) \<and>
    (\<forall>wr. req = Some wr \<longrightarrow> H wr = H (world v))"
proof -
  obtain x where r: "session_run P S es (session_start P S s v) = Some x" and i: "session_inv P S (world v) x"
    using session_total [OF assms(1)] .
  then have x: "session_run P S es (session_start P S s v) = Some x" "win_inv P (world v) (win x)"
    by (simp_all add: session_inv_def)
  from StopPipeline_inv [OF x(2)] obtain w where w: "StopPipeline P (win x) = Some w" "win_inv P (world v) w" by blast
  have "\<not> is_running w"
  proof (cases "is_running (win x)")
    case True
    from StopPipeline_spec [OF x(2) True] w(1) show ?thesis by (auto simp: stopped_def)
  qed (use w(1) in \<open>simp add: StopPipeline_def\<close>)
  with w(2) have n: "\<not> is_running w" "tracker_obj w = None" "interceptor_obj w = None" "handles_ok P (world v) False (outer w)"
    by (simp_all add: win_inv_def visible_ok_def)
  then have h: "H (world (outer w)) = H (world v)" using assms(2) by (simp add: handles_ok_def)
  obtain req w' where t: "StopWinDivertService T (world (outer w)) = (req, w')" by force
  from StopWinDivertService_spec [OF assms(3) t] h
  have "H w' = H (world v)" "L w' = L (world (outer w))" "\<forall>wr. req = Some wr \<longrightarrow> H wr = H (world v)" by auto
  moreover have "program_main P S T es s v = Some (x, w, req, w')"
    using x(1) w(1) t by (simp add: program_main_def MainWindow_destroy_def)
  ultimately show ?thesis using n by blast
qed

text \<open>
  C35: The player plays one tone of the program at a time and leaks nothing. Take the tones of any session, with
  any answers of the audio device and any state changes of the sinks in between: no conversion is undefined,
  at most one sink is playing, it is the player's and still connected; every sink and buffer made before is
  deleted exactly once; and the destructor deletes the rest.
\<close>

theorem one_tone_at_a_time:
  assumes "platform_ok P" and "double_lawful F" and "session_run P S es (session_start P S s v) = Some x"
    and "tones_of ses = map (\<lambda>(f, d, vol). (of_int f, d, vol)) (tones (win x))"
  shows "\<exists>p a p' a'. sound_run F ses (sound_player_new, audio_init) = Some (p, a) \<and> SoundPlayer_destroy (p, a) = (p', a') \<and>
    playing a = (case sink p of None \<Rightarrow> [] | Some s \<Rightarrow> [s]) \<and> wired a = playing a \<and>
    length (open_buffers a) = length (playing a) \<and> distinct (deleted a) \<and>
    playing a' = [] \<and> open_buffers a' = [] \<and> distinct (deleted a') \<and> set (deleted a') = {0..<next_id a}"
proof -
  have "session_inv P S (world v) x"
    using session.run_inv [OF session_start_inv [OF assms(1)] _ assms(3)] by simp
  then have "\<forall>(f, d, vol) \<in> set (tones_of ses). 0 \<le> d \<and> d \<le> 48695"
    unfolding assms(4) by (auto simp: session_inv_def tones_in_range_def)
  from any_tones_one_at_a_time [OF assms(2) tones_of_ok [OF this]] show ?thesis .
qed

section \<open>Instances\<close>

definition map_store :: "((string \<Rightarrow> int option) \<times> (string \<Rightarrow> bool option)) preference_ops" where
  "map_store =
     \<lparr>read_int = (\<lambda>k d s. case fst s k of None \<Rightarrow> d | Some x \<Rightarrow> x), write_int = (\<lambda>k x s. ((fst s)(k := Some x), snd s)),
      read_bool = (\<lambda>k d s. case snd s k of None \<Rightarrow> d | Some x \<Rightarrow> x), write_bool = (\<lambda>k x s. (fst s, (snd s)(k := Some x)))\<rparr>"

lemma map_store_lawful: "preference_lawful map_store"
  by (simp add: preference_lawful_def map_store_def)

theorem preferences_survive_restart_witness:
  "\<exists>x. session_run sample_platform map_store [PanelUsed (StepDelay 900), SoundToggled, VolumeMoved 40]
      (session_start sample_platform map_store (\<lambda>_. None, \<lambda>_. None) (env_init {#})) = Some x \<and>
    preferences (win (session_start sample_platform map_store (store x) (env_init {#}))) = preferences (win x)"
  using preferences_survive_restart [OF sample_platform_ok map_store_lawful,
      of "[PanelUsed (StepDelay 900), SoundToggled, VolumeMoved 40]" "(\<lambda>_. None, \<lambda>_. None)" "env_init {#}" "env_init {#}"]
  by blast

text \<open>A world with the driver's handles and those of the service manager.\<close>

type_synonym handles_world = "divert_layer multiset \<times> nat list"

definition handles_driver :: "handles_world divert_ops" where
  "handles_driver =
     \<lparr>divert_open = (\<lambda>l w. (0, (add_mset l (fst w), snd w))), divert_set_param = (\<lambda>_ _ w. (0, w)),
      divert_shutdown = (\<lambda>_ _ w. w), divert_close = (\<lambda>l w. (fst w - {#l#}, snd w)),
      divert_recv = (\<lambda>w. (Inl 995, w)), divert_recv_ex = (\<lambda>w. (Inl 995, w)), divert_send = (\<lambda>_ _ w. (0, w)), parse_packet = (\<lambda>_. None)\<rparr>"

definition handles_platform :: "(bool, handles_world, unit) platform" where
  "handles_platform =
     \<lparr>sys = replaced_process, out = \<lparr>driver = handles_driver, udp_table = fixed_table [], rand = least_rng\<rparr>, qt = plain_qt,
      ring_alloc = (\<lambda>n. n), ring_pad = 8, number_of = (\<lambda>s. of_nat (length s)),
      make_item = item_of (\<lambda>n. replicate (unat n) CHR ''1'') (\<lambda>_. []), contains_text = (\<lambda>_ _. False)\<rparr>"

definition service_new :: "handles_world \<Rightarrow> nat option \<times> handles_world" where
  "service_new w = (Some (Suc (sum_list (snd w))), (fst w, Suc (sum_list (snd w)) # snd w))"

definition handles_services :: "handles_world service_ops" where
  "handles_services = \<lparr>OpenSCManager = service_new, OpenService = (\<lambda>_. service_new), ControlService = (\<lambda>_ w. w),
     CloseServiceHandle = (\<lambda>h w. (fst w, removeAll h (snd w)))\<rparr>"

lemma handles_services_lawful: "service_lawful handles_services fst (\<lambda>w. set (snd w))"
proof -
  have "Suc (sum_list xs) \<notin> set xs" for xs :: "nat list" using member_le_sum_list [of "Suc (sum_list xs)" xs] by auto
  then show ?thesis by (auto simp: service_lawful_def handles_services_def service_new_def)
qed

lemma handles_platform_ok: "platform_ok handles_platform"
  by (simp add: platform_ok_def handles_platform_def outside_ok_def fixed_table_answers plain_lawful sample_alloc_ok)

lemma handles_platform_tracked: "handles_tracked fst (driver (out handles_platform)) (udp_table (out handles_platform))"
  by (auto simp: handles_tracked_def handles_platform_def handles_driver_def fixed_table_def split: option.splits)

theorem exit_releases_driver_witness:
  "\<exists>x w req w'. program_main handles_platform map_store handles_services [SelectionMade (Some (sample_choice 2)), StartStopClicked False () ()]
      (\<lambda>_. Some 700, \<lambda>_. None) (env_init ({#}, [])) = Some (x, w, req, w') \<and> fst w' = {#}"
  using exit_releases_driver [OF handles_platform_ok handles_platform_tracked handles_services_lawful,
      of map_store "[SelectionMade (Some (sample_choice 2)), StartStopClicked False () ()]" "(\<lambda>_. Some 700, \<lambda>_. None)" "env_init ({#}, [])"]
  by (auto simp: env_init_def)

text \<open>A start that leads to a running pipeline plays the high tone.\<close>

lemma reset_interceptor_running: "reset_interceptor X w = Some w' \<Longrightarrow> is_running w' = is_running w"
  by (auto simp: reset_interceptor_def split: option.splits)

lemma start_tone:
  assumes "StartPipeline P now s1 s2 w = Some w'" and "\<not> is_running w" "is_running w'" "sound_checked w"
  shows "(800, 150, volume w) \<in> set (tones w')"
proof -
  have si: "(800, 150, volume x) \<in> set (tones x')"
    if "start_interceptor P s1 s2 t x = Some x'" "\<not> is_running x" "is_running x'" "sound_checked x" for t x x'
    using that
    by (auto simp: start_interceptor_def PlayToggleSound_def UpdatePipelineStatus_def Let_def split: option.splits prod.splits sum.splits
        dest!: reset_interceptor_running)
  have "(800, 150, volume w) \<in> set (tones w')" if st: "start_pipeline_for P s1 s2 i w = Some w'" for i
  proof -
    let ?w = "reset_tracker (out P) (w\<lparr>selected_process_identity := i, target_pids := SetSelectedPid (id_pid i) (target_pids w)\<rparr>)"
    obtain t v y where y: "reset_interceptor (out P) (?w\<lparr>tracker_obj := Some t, tracking_loop := Some 0, outer := v\<rparr>) = Some y"
      "start_interceptor P s1 s2 t y = Some w'"
      using st assms(2,3) by (auto simp: start_pipeline_for_def Let_def bind_eq_Some_conv split: option.splits prod.splits sum.splits)
    have "sound_part y = sound_part w" using reset_interceptor_part [OF y(1)] by simp
    then have "sound_checked y" "volume y = volume w" using assms(4) by (simp_all add: sound_part_def)
    moreover have "\<not> is_running y" using reset_interceptor_running [OF y(1)] assms(2) by simp
    ultimately show ?thesis using si [OF y(2)] assms(3) by simp
  qed
  then show ?thesis using assms
    by (auto simp: StartPipeline_def Let_def warn_def RefreshProcessList_def split: option.splits if_splits)
qed

abbreviation sounding_store :: "(string \<Rightarrow> int option) \<times> (string \<Rightarrow> bool option)" where
  "sounding_store \<equiv> (\<lambda>_. None, [''UI/SoundEnabled'' \<mapsto> True])"

abbreviation start_events :: "(bool, unit) event list" where
  "start_events \<equiv> [SelectionMade (Some (sample_choice 2)), StartStopClicked False () ()]"

lemma sounding_session:
  "\<exists>x. session_run sample_platform map_store start_events (session_start sample_platform map_store sounding_store (env_init {#})) = Some x \<and>
    (800, 150, 25) \<in> set (tones (win x))"
proof -
  let ?s = "session_start sample_platform map_store sounding_store (env_init {#})"
  let ?w0 = "window_init (panel_init 10 1) True 25 (env_init {#}) :: (divert_layer multiset, unit) main_window"
  have Q: "qt_lawful (qt sample_platform)" using sample_platform_ok by (simp add: platform_ok_def)
  have s: "win ?s = ?w0" unfolding session_start_def load_lawful [OF Q] by (simp add: map_store_def clamp_int_def)
  let ?w = "select_item (Some (sample_choice 2)) ?w0"
  have inv: "win_inv sample_platform {#} ?w"
    using select_item_inv [OF window_init_inv [of 10 1 sample_platform "env_init {#}" True 25]] by (simp add: env_init_def)
  have sel: "selected ?w = Some (sample_choice 2)" "\<not> is_running ?w" "sound_checked ?w" "volume ?w = 25"
    by (simp_all add: select_item_def OnProcessSelectionChanged_def window_init_def UpdatePipelineStatus_def RefreshProcessList_def Let_def)
  obtain w where w: "StartPipeline sample_platform False () () ?w = Some w" "win_inv sample_platform {#} w"
    using StartPipeline_inv [OF sample_platform_ok inv sel(2)] by blast
  from start_outcome [OF w(1) inv sel(2,1) sample_current sample_opens sample_opens] have "is_running w" by simp
  from start_tone [OF w(1) sel(2) this sel(3)] sel(4) have "(800, 150, 25) \<in> set (tones w)" by simp
  moreover have "window_run sample_platform start_events (win ?s) = Some w" using w(1) sel(2) s by (simp add: OnStartStopClicked_def)
  ultimately show ?thesis using session_run_window [of sample_platform map_store start_events ?s] by auto
qed

text \<open>The device goes idle after every tone.\<close>

fun heard :: "tone list \<Rightarrow> sound_event list" where
  "heard [] = []"
| "heard ((f, d, vol) # ts) = Tone True (of_int f) d vol # StateChanged 1 True # heard ts"

lemma tones_of_heard: "tones_of (heard ts) = map (\<lambda>(f, d, vol). (of_int f, d, vol)) ts"
  by (induction ts rule: heard.induct) simp_all

theorem one_tone_at_a_time_witness:
  "\<exists>x p a. session_run sample_platform map_store start_events (session_start sample_platform map_store sounding_store (env_init {#})) = Some x \<and>
    tones (win x) \<noteq> [] \<and> sound_run plain_doubles (heard (tones (win x))) (sound_player_new, audio_init) = Some (p, a) \<and> wired a = playing a"
proof -
  obtain x where x: "session_run sample_platform map_store start_events (session_start sample_platform map_store sounding_store (env_init {#})) = Some x"
    "(800, 150, 25) \<in> set (tones (win x))" using sounding_session by blast
  from one_tone_at_a_time [OF sample_platform_ok plain_doubles_lawful x(1) tones_of_heard] obtain p a where
    "sound_run plain_doubles (heard (tones (win x))) (sound_player_new, audio_init) = Some (p, a)" "wired a = playing a" by metis
  moreover have "tones (win x) \<noteq> []" using x(2) by auto
  ultimately show ?thesis using x(1) by metis
qed

end
