(* ===== verification/Batch_Limit.thy ===== *)
theory Batch_Limit
  imports Interceptor
begin

text \<open>
  The driver's limit on a batch. The interceptor receives at most 128 packets at a time, but sends all
  copies of a batch in one call, so duplication makes calls with more packets than WinDivert takes.
\<close>

definition WINDIVERT_BATCH_MAX :: nat where
  "WINDIVERT_BATCH_MAX = 255"

text \<open>What the driver documents: a call with more addresses fails, and sends nothing.\<close>

definition refuses_large :: "'w divert_ops \<Rightarrow> bool" where
  "refuses_large D \<longleftrightarrow> (\<forall>bs addrs w. WINDIVERT_BATCH_MAX < length addrs \<longrightarrow> fst (divert_send D bs addrs w) \<noteq> 0)"

section \<open>Sure duplication\<close>

definition duplicating :: "nat \<Rightarrow> dir_config \<Rightarrow> bool" where
  "duplicating n c \<longleftrightarrow> 0 < n \<and> duplicate_rate c = Fin 1 \<and> duplicate_count c = int n \<and> drop_rate c = Fin 0 \<and>
     \<not> burst_drop_enabled c \<and> delay_ms c = 0 \<and> delay_jitter_ms c = 0 \<and> throttle_kbytes_per_sec c = 0"

definition copies_of :: "nat \<Rightarrow> 'a list \<Rightarrow> 'a list" where
  "copies_of n xs = concat (map (replicate (n + 1)) xs)"

lemma copies_of_simps [simp]:
  "copies_of n [] = []" "copies_of n (x # xs) = replicate (n + 1) x @ copies_of n xs"
  "length (copies_of n xs) = (n + 1) * length xs"
  by (simp_all add: copies_of_def, induction xs) simp_all

lemma dir_Process_duplicating:
  assumes "duplicating n c" and p: "dir_Process R (Snapshot c) p now e = (em, e')"
  shows "immediate_packets em = replicate (n + 1) p" "scheduled_packets em = []"
proof -
  let ?e = "(ResetThrottleStateIfNeeded (Snapshot c) e)\<lparr>burst_packets_remaining := 0\<rparr>"
  have c: "snap_duplicate_rate (Snapshot c) = Fin 1" "snap_duplicate_count (Snapshot c) = int n" "0 < n"
    "snap_drop_rate (Snapshot c) = Fin 0" "\<not> snap_burst_drop_enabled (Snapshot c)" "snap_delay (Snapshot c) = 0"
    "snap_delay_jitter_ms (Snapshot c) = 0" "snap_throttle_bytes_per_second (Snapshot c) = 0"
    using assms(1) by (simp_all add: duplicating_def Snapshot_def ThrottleBytesPerSecond_def)
  have "EmitPacketCopies p (n + 1) now 0 0 (add_effect kDuplicate emission_init) ?e = (em, e')"
    using p c by (simp add: dir_Process_def ShouldDropPacket_def ResolveScheduledDelay_def draw_rate_def Let_def)
  from EmitPacketCopies_spec [OF this, unfolded Let_def]
  show "immediate_packets em = replicate (n + 1) p" "scheduled_packets em = []"
    by (simp_all add: emission_init_def add_effect_def)
qed

lemma Process_duplicating:
  assumes "duplicating n (outbound cfg)" "duplicating n (inbound cfg)" and "Process R cfg p now e = (em, e')"
  shows "immediate_packets em = replicate (n + 1) p" "scheduled_packets em = []"
  using assms dir_Process_duplicating [of n] by (auto simp: Process_def split: if_splits prod.splits)

section \<open>A batch of targeted packets\<close>

text \<open>The tracker knows the owner of a tuple, and the owner is targeted.\<close>

definition targeted :: "'g pipeline \<Rightarrow> five_tuple \<Rightarrow> bool \<Rightarrow> bool" where
  "targeted s tup d \<longleftrightarrow> (case cached_pid_of tup d (tracker s) of None \<Rightarrow> False | Some p \<Rightarrow> p \<noteq> 0 \<and> Contains p (targets s))"

fun all_targeted ::
  "(u8 list \<Rightarrow> parsed option) \<Rightarrow> (five_tuple \<Rightarrow> bool \<Rightarrow> bool) \<Rightarrow> wd_address list \<Rightarrow> u8 list \<Rightarrow> bool" where
  "all_targeted P T [] cur = (cur = [])"
| "all_targeted P T (a # as) cur =
     (case P cur of
        None \<Rightarrow> False
      | Some pr \<Rightarrow>
          (case (parsed_ip pr, parsed_udp pr) of
             (Some ip, Some udp) \<Rightarrow> T (TupleFromPacket ip udp) (Outbound a)
           | _ \<Rightarrow> False) \<and>
          length cur - next_len pr \<le> kStandardMtuSize \<and>
          (if next_len pr = 0 then as = [] else all_targeted P T as (drop (length cur - next_len pr) cur)))"

definition same_rules :: "'g pipeline \<Rightarrow> 'g pipeline \<Rightarrow> bool" where
  "same_rules s s' \<longleftrightarrow> tracker s' = tracker s \<and> targets s' = targets s \<and> effects s' = effects s \<and> delay s' = delay s"

lemma handle_packet_duplicated:
  assumes "duplicating n (outbound (effects s))" "duplicating n (inbound (effects s))"
    and "parsed_ip pr = Some ip" "parsed_udp pr = Some udp" "targeted s (TupleFromPacket ip udp) (Outbound addr)"
    and "length data \<le> kStandardMtuSize"
  shows "\<exists>s' v' more. handle_packet X now data pr addr s ob v = Some (s',
      ob\<lparr>out_bytes := out_bytes ob @ more, out_addrs := out_addrs ob @ replicate (n + 1) addr\<rparr>, v') \<and>
    same_rules s s' \<and> calls v' = calls v \<and> Get kReinjectFailures (logs v') = Get kReinjectFailures (logs v)"
proof -
  let ?tup = "TupleFromPacket ip udp"
  obtain p where p: "cached_pid_of ?tup (Outbound addr) (tracker s) = Some p" "p \<noteq> 0" "Contains p (targets s)"
    using assms(5) by (auto simp: targeted_def split: option.splits)
  obtain op where op: "CopyFrom data addr \<lparr>tuple = ?tup, pid = p, is_outbound = Outbound addr\<rparr> = Some op"
    using assms(6) by (simp add: CopyFrom_def)
  note c = CopyFrom_Some [OF op]
  obtain em eng where em: "Process (rand X) (effects s) op now (engine s) = (em, eng)" by force
  note d = Process_duplicating [OF assms(1,2) em]
  let ?v = "count_effects (Outbound addr) em (env_count kFlowCacheHits 1 v)"
  let ?ob = "ob\<lparr>out_bytes := out_bytes ob @ concat (replicate (n + 1) data), out_addrs := out_addrs ob @ replicate (n + 1) addr\<rparr>"
  have "fold (\<lambda>ip. append_immediate_packet (Bytes ip) (pkt_addr ip)) (immediate_packets em) (ob, ?v) = (?ob, ?v)"
    unfolding d(1) using c assms(6) by (subst append_immediate_fold) simp_all
  then have "apply_effects X now op s ob (env_count kFlowCacheHits 1 v) = Some (s\<lparr>engine := eng\<rparr>, ?ob, ?v)"
    using em d(2) c(4) by (auto simp: apply_effects_def Let_def split: option.splits)
  then have "handle_packet X now data pr addr s ob v = Some (s\<lparr>engine := eng\<rparr>, ?ob, ?v)"
    using assms(3,4) p op by (simp add: handle_packet_def Let_def LookupPid_cached)
  moreover have "Get kReinjectFailures (logs ?v) = Get kReinjectFailures (logs v)"
    by (simp add: count_effects_def Let_def)
  ultimately show ?thesis by (intro exI conjI) (assumption | simp add: same_rules_def)+
qed

lemma same_rules_duplicating:
  "same_rules s s' \<Longrightarrow> targeted s' = targeted s \<and> effects s' = effects s"
  by (auto simp: same_rules_def targeted_def fun_eq_iff split: option.splits)

lemma capture_packets_duplicated:
  assumes "duplicating n (outbound (effects s))" "duplicating n (inbound (effects s))"
    and "all_targeted (parse_packet (driver X)) (targeted s) addrs cur"
  shows "\<exists>s' v' more. capture_packets X clock num addrs i cur s ob v = Some (s',
      ob\<lparr>out_bytes := out_bytes ob @ more, out_addrs := out_addrs ob @ copies_of n addrs\<rparr>, v') \<and>
    same_rules s s' \<and> calls v' = calls v \<and> Get kReinjectFailures (logs v') = Get kReinjectFailures (logs v)"
  using assms
proof (induction addrs arbitrary: i cur s ob v)
  case Nil
  then show ?case by (intro exI [of _ s] exI [of _ v] exI [of _ "[]"]) (simp add: same_rules_def)
next
  case (Cons a as)
  from Cons.prems(3) obtain pr ip udp where pr: "parse_packet (driver X) cur = Some pr"
    "parsed_ip pr = Some ip" "parsed_udp pr = Some udp" "targeted s (TupleFromPacket ip udp) (Outbound a)"
    by (auto split: option.splits)
  let ?n = "length cur - next_len pr"
  have wf: "length (take ?n cur) \<le> kStandardMtuSize"
    "if next_len pr = 0 then as = [] else all_targeted (parse_packet (driver X)) (targeted s) as (drop ?n cur)"
    using Cons.prems(3) pr by simp_all
  from handle_packet_duplicated [OF Cons.prems(1,2) pr(2-4) wf(1), of X "clock i" ob v] obtain s1 v1 m1 where
    h: "handle_packet X (clock i) (take ?n cur) pr a s ob v = Some (s1,
        ob\<lparr>out_bytes := out_bytes ob @ m1, out_addrs := out_addrs ob @ replicate (n + 1) a\<rparr>, v1)"
      "same_rules s s1" "calls v1 = calls v" "Get kReinjectFailures (logs v1) = Get kReinjectFailures (logs v)"
    by blast
  show ?case
  proof (cases "next_len pr = 0")
    case True
    then show ?thesis using pr h wf(2) by (intro exI [of _ s1] exI [of _ v1] exI [of _ m1]) (simp add: Let_def)
  next
    case False
    let ?ob = "ob\<lparr>out_bytes := out_bytes ob @ m1, out_addrs := out_addrs ob @ replicate (n + 1) a\<rparr>"
    note sr = same_rules_duplicating [OF h(2)]
    from Cons.IH [of s1 "drop ?n cur" "i + 1" ?ob v1] Cons.prems(1,2) wf(2) False sr obtain s2 v2 m2 where
      r: "capture_packets X clock num as (i + 1) (drop ?n cur) s1 ?ob v1 = Some (s2,
          ?ob\<lparr>out_bytes := out_bytes ?ob @ m2, out_addrs := out_addrs ?ob @ copies_of n as\<rparr>, v2)"
        "same_rules s1 s2" "calls v2 = calls v1" "Get kReinjectFailures (logs v2) = Get kReinjectFailures (logs v1)"
      by auto
    have "same_rules s s2" using h(2) r(2) by (simp add: same_rules_def)
    with pr h(1,3,4) r(1,3,4) False show ?thesis
      by (intro exI [of _ s2] exI [of _ v2] exI [of _ "m1 @ m2"]) (simp add: Let_def)
  qed
qed

section \<open>Properties\<close>

text \<open>
  C14: A batch whose copies exceed the driver's limit is lost as a whole. Let both directions duplicate surely,
  \<open>n\<close> times, with no other effect on: no delay, jitter, throttle, drop or burst drop (\<open>duplicating\<close>). Let every
  packet of a batch the driver delivers whole be parsed as UDP, be within the MTU, and have its owner in the
  tracker's caches, and let that owner be targeted (\<open>all_targeted\<close>). If the copies are more than 255, which four packets with 64
  duplicates or a full batch with one duplicate each are, then all of them go to the driver in one call,
  which it refuses; nothing is sent again, nothing is held, only the failure counter shows it.
\<close>

theorem duplicated_batch_refused:
  assumes "refuses_large (driver X)" and "duplicating n (outbound (effects s))" "duplicating n (inbound (effects s))"
    and "all_targeted (parse_packet (driver X)) (targeted s) addrs bytes"
    and "WINDIVERT_BATCH_MAX < (n + 1) * length addrs"
  shows "\<exists>s' v' bs gle. process_batch X clock bytes addrs s v = Some (s', v') \<and> gle \<noteq> 0 \<and> delay s' = delay s \<and>
    calls v' = calls v @ [\<lparr>call_bytes = bs, call_addrs = copies_of n addrs, call_error = gle\<rparr>] \<and>
    Get kReinjectFailures (logs v') = Get kReinjectFailures (logs v) + of_nat ((n + 1) * length addrs)"
proof -
  let ?v = "count_captured addrs v" and ?as = "copies_of n addrs"
  have r: "Get kReinjectFailures (logs ?v) = Get kReinjectFailures (logs v)" by (simp add: count_captured_def Let_def)
  from capture_packets_duplicated [OF assms(2-4), of clock "length addrs" 0 "\<lparr>out_bytes = [], out_addrs = []\<rparr>" ?v]
  obtain s' v1 bs where c: "capture_packets X clock (length addrs) addrs 0 bytes s \<lparr>out_bytes = [], out_addrs = []\<rparr> ?v =
      Some (s', \<lparr>out_bytes = bs, out_addrs = ?as\<rparr>, v1)"
    "same_rules s s'" "calls v1 = calls v" "Get kReinjectFailures (logs v1) = Get kReinjectFailures (logs v)"
    using r by auto
  have len: "length ?as = (n + 1) * length addrs" by (rule copies_of_simps)
  then have ne: "?as \<noteq> []" using assms(5) by (metis list.size(3) not_less_zero)
  obtain gle v2 where s: "env_send (driver X) bs ?as v1 = (gle, v2)" by force
  have "WINDIVERT_BATCH_MAX < length ?as" using len assms(5) by simp
  then have "fst (divert_send (driver X) bs ?as (world v1)) \<noteq> 0" using assms(1) unfolding refuses_large_def by blast
  then have gle: "gle \<noteq> 0" using s by (auto simp: env_send_def split: prod.splits)
  note e = env_send_calls [OF s]
  let ?v' = "send_outgoing (driver X) \<lparr>out_bytes = bs, out_addrs = ?as\<rparr> v1"
  have "process_batch X clock bytes addrs s v = Some (s', ?v')" using c(1) by (simp add: process_batch_def Let_def)
  moreover have "calls ?v' = calls v @ [\<lparr>call_bytes = bs, call_addrs = ?as, call_error = gle\<rparr>]"
    "Get kReinjectFailures (logs ?v') = Get kReinjectFailures (logs v) + of_nat ((n + 1) * length addrs)"
    using ne s e gle c(3,4) len by (simp_all add: send_outgoing_def Let_def del: of_nat_mult)
  ultimately show ?thesis using gle c(2) unfolding same_rules_def by blast
qed

text \<open>A driver with the limit, and a tracker that knows the sample flow.\<close>

definition limited_driver :: "script divert_ops" where
  "limited_driver = (scripted_driver sample_parse 0)
     \<lparr>divert_send := (\<lambda>_ addrs w. (if WINDIVERT_BATCH_MAX < length addrs then 87 else 0, w))\<rparr>"

definition limited_outside :: "(script, unit) outside" where
  "limited_outside = (sample_outside [])\<lparr>driver := limited_driver\<rparr>"

definition duplicating_config :: effect_config where
  "duplicating_config =
     fold (\<lambda>d. SetForDirection d (DuplicateCount 64) \<circ> SetForDirection d (DuplicateRate (Fin 1))) [True, False] effect_config_init"

definition duplicating_pipeline :: "unit pipeline" where
  "duplicating_pipeline = (sample_pipeline 9 duplicating_config None)\<lparr>tracker := InsertFlow
     (TupleFromPacket \<lparr>SrcAddr = 16777216, DstAddr = 33554432, IpProtocol = 17\<rparr> \<lparr>SrcPort = 768, DstPort = 1024\<rparr>) 9
     flow_tracker_init\<rparr>"

lemma duplicated_batch_refused_witness:
  "\<exists>s' v'. process_batch limited_outside (\<lambda>_. 0) [2, 7, 2, 7, 2, 7, 2, 7] (replicate 4 sample_addr)
      duplicating_pipeline (env_init []) = Some (s', v') \<and>
    length (call_addrs (hd (calls v'))) = 260 \<and> call_error (hd (calls v')) \<noteq> 0 \<and> length (calls v') = 1"
proof -
  have r: "refuses_large (driver limited_outside)"
    by (simp add: refuses_large_def limited_outside_def limited_driver_def)
  have d: "duplicating 64 (outbound (effects duplicating_pipeline))" "duplicating 64 (inbound (effects duplicating_pipeline))"
    by code_simp+
  have t: "all_targeted (parse_packet (driver limited_outside)) (targeted duplicating_pipeline)
      (replicate 4 sample_addr) [2, 7, 2, 7, 2, 7, 2, 7]"
    by code_simp
  have "WINDIVERT_BATCH_MAX < (64 + 1) * length (replicate 4 sample_addr)" by (simp add: WINDIVERT_BATCH_MAX_def)
  from duplicated_batch_refused [OF r d t this, of "\<lambda>_. 0" "env_init []"] show ?thesis
    by (auto simp: env_init_def)
qed

end
