(* ===== verification/Throttle_Race.thy ===== *)
theory Throttle_Race
  imports Effect_Laws
begin

text \<open>
  The throttle setting between two threads (include/core/EffectConfig.h): the UI thread stores the rate and
  then counts the revision up, the capture thread loads the rate and then the revision. Each of these is
  one access to one atomic. No other thread writes the remaining settings in these runs, so the rest of
  \<open>Snapshot\<close> and the processing of the packet belong to the second load.
\<close>

section \<open>Steps\<close>

text \<open>\<open>mid_set\<close>: the setter has stored the rate and not yet the revision. \<open>half_read\<close>: what the first loads gave.\<close>

record 'g race =
  race_config :: dir_config
  mid_set :: bool
  half_read :: "dir_snapshot option"
  race_engine :: "'g dir_engine"
  emitted :: "(int \<times> emission) list"

datatype race_action = StoreRate int | BumpRevision | LoadRate | LoadRevision owned_packet int

text \<open>An action that its thread cannot take is \<open>None\<close>; a setter with the stored rate ends at once.\<close>

fun race_act :: "'g rng_ops \<Rightarrow> race_action \<Rightarrow> 'g race \<Rightarrow> 'g race option" where
  "race_act R (StoreRate v) s =
     (if mid_set s then None
      else
        (let clamped = clamp_int v 0 kMaxThrottleKBytesPerSec; c = race_config s
         in Some (if throttle_kbytes_per_sec c \<noteq> clamped
                  then s\<lparr>race_config := c\<lparr>throttle_kbytes_per_sec := clamped\<rparr>, mid_set := True\<rparr> else s)))"
| "race_act R BumpRevision s =
     (if \<not> mid_set s then None
      else let c = race_config s in
        Some (s\<lparr>race_config := c\<lparr>throttle_revision := throttle_revision c + 1\<rparr>, mid_set := False\<rparr>))"
| "race_act R LoadRate s =
     (if half_read s \<noteq> None then None else Some (s\<lparr>half_read := Some (Snapshot (race_config s))\<rparr>))"
| "race_act R (LoadRevision p now) s =
     (case half_read s of
        None \<Rightarrow> None
      | Some h \<Rightarrow>
          (let snap = (Snapshot (race_config s))\<lparr>snap_delay := snap_delay h, snap_delay_jitter_ms := snap_delay_jitter_ms h,
                        snap_throttle_bytes_per_second := snap_throttle_bytes_per_second h\<rparr>;
               (em, e) = dir_Process R snap p now (race_engine s)
           in Some (s\<lparr>half_read := None, race_engine := e, emitted := emitted s @ [(now, em)]\<rparr>)))"

fun race_run :: "'g rng_ops \<Rightarrow> race_action list \<Rightarrow> 'g race \<Rightarrow> 'g race option" where
  "race_run R [] s = Some s"
| "race_run R (a # as) s = Option.bind (race_act R a s) (race_run R as)"

definition race_start :: "dir_config \<Rightarrow> 'g dir_engine \<Rightarrow> 'g race" where
  "race_start c e = \<lparr>race_config = c, mid_set = False, half_read = None, race_engine = e, emitted = []\<rparr>"

text \<open>Without a step of the other thread in between, these are the setter and the engine of the other theories.\<close>

lemma setter_alone:
  assumes "\<not> mid_set s" and "clamp_int v 0 kMaxThrottleKBytesPerSec \<noteq> throttle_kbytes_per_sec (race_config s)"
  shows "race_run R [StoreRate v, BumpRevision] s = Some (s\<lparr>race_config := SetThrottleKBytesPerSec v (race_config s)\<rparr>)"
  using assms by (simp add: SetThrottleKBytesPerSec_def Let_def)

lemma reader_alone:
  assumes "half_read s = None" and "dir_Process R (Snapshot (race_config s)) p now (race_engine s) = (em, e)"
  shows "race_run R [LoadRate, LoadRevision p now] s = Some (s\<lparr>race_engine := e, emitted := emitted s @ [(now, em)]\<rparr>)"
proof -
  let ?c = "Snapshot (race_config s)"
  have "?c\<lparr>snap_delay := snap_delay ?c, snap_delay_jitter_ms := snap_delay_jitter_ms ?c,
      snap_throttle_bytes_per_second := snap_throttle_bytes_per_second ?c\<rparr> = ?c" by simp
  with assms show ?thesis by (simp add: Let_def)
qed

section \<open>One packet under the throttle alone\<close>

definition only_throttle :: "dir_config \<Rightarrow> bool" where
  "only_throttle c \<longleftrightarrow> delay_ms c = 0 \<and> delay_jitter_ms c = 0 \<and> \<not> burst_drop_enabled c \<and> drop_rate c = Fin 0 \<and>
     duplicate_rate c = Fin 0"

definition tx_at :: "int \<Rightarrow> owned_packet \<Rightarrow> int" where
  "tx_at kbytes p = TransmissionTimeForPacket (unat (pkt_length p)) (of_int kbytes * 1024)"

lemma of_int_bytes_pos: "0 < k \<Longrightarrow> k \<le> 10240 \<Longrightarrow> (0 :: u64) < of_int k * 1024"
proof -
  assume k: "0 < k" "k \<le> 10240"
  let ?c = "dir_config_init\<lparr>throttle_kbytes_per_sec := k\<rparr>"
  have "config_ok ?c" using config_ok_init k by (simp add: config_ok_def limit_defs)
  from ThrottleBytes_exact [OF this] have "uint (of_int k * 1024 :: u64) = k * 1024"
    by (simp add: ThrottleBytesPerSecond_def)
  then show ?thesis using k by (simp add: word_less_def)
qed

lemma throttle_only_process:
  assumes "only_throttle c" and "0 < k" "k \<le> 10240"
    and "snap = (Snapshot c)\<lparr>snap_throttle_bytes_per_second := of_int k * 1024\<rparr>"
    and "dir_Process R snap p now e = (em, e')"
  shows "emission_times now em = [max now (reset_next snap e)] \<and>
    next_throttle_release_at e' = max now (reset_next snap e) + tx_at k p \<and> last_throttle_revision e' = throttle_revision c"
proof -
  let ?e = "(ResetThrottleStateIfNeeded snap e)\<lparr>burst_packets_remaining := 0\<rparr>"
  have s: "snap_drop_rate snap = Fin 0" "\<not> snap_burst_drop_enabled snap" "snap_delay snap = 0" "snap_delay_jitter_ms snap = 0"
    "snap_duplicate_rate snap = Fin 0" "snap_throttle_bytes_per_second snap = of_int k * 1024" "snap_throttle_revision snap = throttle_revision c"
    using assms(1,4) by (simp_all add: only_throttle_def Snapshot_def)
  have "EmitPacketCopies p 1 now 0 (of_int k * 1024) emission_init ?e = (em, e')"
    using assms(5) s
    by (cases "0 < snap_duplicate_count snap")
      (simp_all add: dir_Process_def ShouldDropPacket_def ResolveScheduledDelay_def draw_rate_def Let_def)
  note r = EmitPacketCopies_spec [OF this, unfolded Let_def]
  have "last_throttle_revision ?e = throttle_revision c" using s(7) by simp
  with r show ?thesis using of_int_bytes_pos [OF assms(2,3)]
    by (auto simp: emission_init_def emission_times_def tx_at_def)
qed

section \<open>A change of the rate between two packets\<close>

definition release_times :: "'g race \<Rightarrow> int list list" where
  "release_times s = map (\<lambda>(t, em). emission_times t em) (emitted s)"

abbreviation take_packet :: "owned_packet \<Rightarrow> int \<Rightarrow> race_action list" where
  "take_packet p now \<equiv> [LoadRate, LoadRevision p now]"

abbreviation change_rate :: "int \<Rightarrow> race_action list" where
  "change_rate b \<equiv> [StoreRate b, BumpRevision]"

definition race_next :: "dir_config \<Rightarrow> 'g dir_engine \<Rightarrow> int" where
  "race_next c e = (if throttle_revision c = last_throttle_revision e then next_throttle_release_at e else 0)"

lemma race_run_append: "race_run R (as @ bs) s = Option.bind (race_run R as s) (race_run R bs)"
  by (induction as arbitrary: s) (simp_all split: Option.bind_split)

text \<open>The state after one packet was taken that leaves at \<open>t\<close> with the rate \<open>k\<close>.\<close>

definition took :: "'g race \<Rightarrow> owned_packet \<Rightarrow> int \<Rightarrow> int \<Rightarrow> int \<Rightarrow> 'g race \<Rightarrow> bool" where
  "took s p now t k s' \<longleftrightarrow>
     (\<exists>em e. s' = s\<lparr>half_read := None, race_engine := e, emitted := emitted s @ [(now, em)]\<rparr> \<and> emission_times now em = [t] \<and>
       last_throttle_revision e = throttle_revision (race_config s) \<and> next_throttle_release_at e = t + tx_at k p)"

lemma took_fields:
  assumes "took s p now t k s'"
  shows "race_config s' = race_config s" "mid_set s' = mid_set s" "half_read s' = None"
    "release_times s' = release_times s @ [[t]]" "last_throttle_revision (race_engine s') = throttle_revision (race_config s)"
    "next_throttle_release_at (race_engine s') = t + tx_at k p"
  using assms by (auto simp: took_def release_times_def)

definition throttled_by :: "int \<Rightarrow> dir_config \<Rightarrow> bool" where
  "throttled_by k c \<longleftrightarrow> only_throttle c \<and> throttle_kbytes_per_sec c = k \<and> 0 < k \<and> k \<le> 10240"

text \<open>The second load, whatever rate the first load saw.\<close>

lemma load_revision_step:
  assumes "only_throttle (race_config s)" and "half_read s = Some (Snapshot c0)" and "throttled_by k c0"
  shows "\<exists>s'. race_act R (LoadRevision p now) s = Some s' \<and> took s p now (max now (race_next (race_config s) (race_engine s))) k s'"
proof -
  let ?c = "race_config s"
  let ?snap = "(Snapshot ?c)\<lparr>snap_throttle_bytes_per_second := of_int k * 1024\<rparr>"
  have same: "(Snapshot ?c)\<lparr>snap_delay := snap_delay (Snapshot c0), snap_delay_jitter_ms := snap_delay_jitter_ms (Snapshot c0),
      snap_throttle_bytes_per_second := snap_throttle_bytes_per_second (Snapshot c0)\<rparr> = ?snap"
    using assms(1,3) by (simp add: Snapshot_def throttled_by_def only_throttle_def ThrottleBytesPerSecond_def)
  obtain em e where p: "dir_Process R ?snap p now (race_engine s) = (em, e)" by force
  have "0 < k" "k \<le> 10240" using assms(3) by (simp_all add: throttled_by_def)
  note r = throttle_only_process [OF assms(1) this refl p]
  have n: "reset_next ?snap (race_engine s) = race_next ?c (race_engine s)"
    by (simp add: ResetThrottleStateIfNeeded_def race_next_def Snapshot_def)
  have "race_act R (LoadRevision p now) s = Some (s\<lparr>half_read := None, race_engine := e, emitted := emitted s @ [(now, em)]\<rparr>)"
    using assms(2) by (simp only: race_act.simps option.case same Let_def prod.case p)
  with r show ?thesis unfolding took_def n by blast
qed

lemma take_packet_step:
  assumes "half_read s = None" and "throttled_by k (race_config s)"
  shows "\<exists>s'. race_run R (take_packet p now) s = Some s' \<and> took s p now (max now (race_next (race_config s) (race_engine s))) k s'"
proof -
  let ?s = "s\<lparr>half_read := Some (Snapshot (race_config s))\<rparr>"
  have "only_throttle (race_config ?s)" using assms(2) by (simp add: throttled_by_def)
  from load_revision_step [OF this _ assms(2), of R p now] obtain s' where
    s': "race_act R (LoadRevision p now) ?s = Some s'" "took ?s p now (max now (race_next (race_config s) (race_engine s))) k s'" by auto
  have "race_run R (take_packet p now) s = Some s'" using s'(1) assms(1) by (simp del: race_act.simps(4))
  with s'(2) show ?thesis by (auto simp: took_def)
qed

lemma change_rate_step:
  assumes "\<not> mid_set s" and "throttled_by a (race_config s)" and "0 < b" "b \<le> 10240" "a \<noteq> b"
  shows "\<exists>c. race_run R (change_rate b) s = Some (s\<lparr>race_config := c\<rparr>) \<and> throttled_by b c \<and>
    throttle_revision c = throttle_revision (race_config s) + 1 \<and> c = SetThrottleKBytesPerSec b (race_config s)"
proof -
  have v: "clamp_int b 0 kMaxThrottleKBytesPerSec = b" using assms(3,4) by (simp add: clamp_int_def limit_defs)
  have n: "throttle_kbytes_per_sec (race_config s) \<noteq> b" using assms(2,5) by (simp add: throttled_by_def)
  with setter_alone [OF assms(1), of b R] v assms(2-4) show ?thesis
    by (auto simp: SetThrottleKBytesPerSec_def throttled_by_def only_throttle_def Let_def)
qed

section \<open>The three orders of a change and a packet\<close>

text \<open>The revision of the engine tells whether the backlog counts.\<close>

lemma race_next_simps:
  "last_throttle_revision e = throttle_revision c \<Longrightarrow> race_next c e = next_throttle_release_at e"
  "last_throttle_revision e = r \<Longrightarrow> throttle_revision c = r + 1 \<Longrightarrow> race_next c e = 0"
  by (simp_all add: race_next_def)

text \<open>Two packets after another, with nothing in between.\<close>

lemma second_packet:
  assumes "took s p now t k s1" and "throttled_by k' (race_config s)"
  shows "\<exists>s2. race_run R (take_packet q later) s1 = Some s2 \<and> release_times s2 = release_times s @ [[t], [max later (t + tx_at k p)]]"
proof -
  note f = took_fields [OF assms(1)]
  have "throttled_by k' (race_config s1)" using assms(2) f(1) by simp
  from take_packet_step [OF f(3) this, of R q later] obtain s2 where
    s2: "race_run R (take_packet q later) s1 = Some s2" "took s1 q later (max later (race_next (race_config s1) (race_engine s1))) k' s2"
    by blast
  have "race_next (race_config s1) (race_engine s1) = t + tx_at k p" using f race_next_simps(1) by metis
  with s2 took_fields(4) [OF s2(2)] f(4) show ?thesis by auto
qed

lemma change_then_packets:
  assumes "throttled_by a c" and "0 < b" "b \<le> 10240" "a \<noteq> b" and "last_throttle_revision e = throttle_revision c" and "0 \<le> now"
  shows "\<exists>s. race_run R (change_rate b @ take_packet p now @ take_packet q later) (race_start c e) = Some s \<and>
    release_times s = [[now], [max later (now + tx_at b p)]]"
proof -
  let ?s = "race_start c e"
  have i: "\<not> mid_set ?s" "race_config ?s = c" "half_read ?s = None" "race_engine ?s = e" "release_times ?s = []"
    by (simp_all add: race_start_def release_times_def)
  from change_rate_step [OF i(1), of a b R] assms(1-4) i(2) obtain c' where
    c': "race_run R (change_rate b) ?s = Some (?s\<lparr>race_config := c'\<rparr>)" "throttled_by b c'" "throttle_revision c' = throttle_revision c + 1"
    by auto
  let ?s1 = "?s\<lparr>race_config := c'\<rparr>"
  have "max now (race_next c' e) = now" using race_next_simps(2) [OF assms(5) c'(3)] assms(6) by simp
  with take_packet_step [of ?s1 b R p now] c'(2) i obtain s2 where
    s2: "race_run R (take_packet p now) ?s1 = Some s2" "took ?s1 p now now b s2" by auto
  have "throttled_by b (race_config ?s1)" using c'(2) by simp
  from second_packet [OF s2(2) this, of R q later] i(5) obtain s3 where
    "race_run R (take_packet q later) s2 = Some s3" "release_times s3 = [[now], [max later (now + tx_at b p)]]"
    by (auto simp: release_times_def)
  then show ?thesis unfolding race_run_append c'(1) by (simp only: Option.bind.bind_lunit s2(1)) simp
qed

lemma packet_then_change:
  assumes "throttled_by a c" and "0 < b" "b \<le> 10240" "a \<noteq> b" and "last_throttle_revision e = throttle_revision c"
    and "next_throttle_release_at e \<le> now" and "0 \<le> later"
  shows "\<exists>s. race_run R (take_packet p now @ change_rate b @ take_packet q later) (race_start c e) = Some s \<and>
    release_times s = [[now], [later]]"
proof -
  let ?s = "race_start c e"
  have i: "\<not> mid_set ?s" "race_config ?s = c" "half_read ?s = None" "race_engine ?s = e" "release_times ?s = []"
    by (simp_all add: race_start_def release_times_def)
  have "max now (race_next c e) = now" using race_next_simps(1) [OF assms(5)] assms(6) by simp
  with take_packet_step [OF i(3), of a R p now] assms(1) i obtain s1 where
    s1: "race_run R (take_packet p now) ?s = Some s1" "took ?s p now now a s1" by auto
  note f = took_fields [OF s1(2), unfolded i]
  have m: "\<not> mid_set s1" "throttled_by a (race_config s1)" using f i assms(1) by simp_all
  from change_rate_step [OF m assms(2-4), of R] obtain c' where
    c': "race_run R (change_rate b) s1 = Some (s1\<lparr>race_config := c'\<rparr>)" "throttled_by b c'" "throttle_revision c' = throttle_revision c + 1"
    using f(1) by auto
  have "max later (race_next c' (race_engine s1)) = later" using race_next_simps(2) [OF f(5) c'(3)] assms(7) by simp
  with take_packet_step [of "s1\<lparr>race_config := c'\<rparr>" b R q later] c'(2) f(3) obtain s3 where
    s3: "race_run R (take_packet q later) (s1\<lparr>race_config := c'\<rparr>) = Some s3" "took (s1\<lparr>race_config := c'\<rparr>) q later later b s3" by auto
  have "release_times s3 = [[now], [later]]" using took_fields(4) [OF s3(2)] f(4) by (simp add: release_times_def)
  with s1(1) c'(1) s3(1) show ?thesis unfolding race_run_append by (simp only: Option.bind.bind_lunit) simp
qed

lemma change_inside_packet:
  assumes "throttled_by a c" and "0 < b" "b \<le> 10240" "a \<noteq> b" and "last_throttle_revision e = throttle_revision c" and "0 \<le> now"
  shows "\<exists>s. race_run R ([LoadRate] @ change_rate b @ [LoadRevision p now] @ take_packet q later) (race_start c e) = Some s \<and>
    release_times s = [[now], [max later (now + tx_at a p)]]"
proof -
  let ?s = "(race_start c e)\<lparr>half_read := Some (Snapshot c)\<rparr>"
  have l: "race_run R [LoadRate] (race_start c e) = Some ?s" by (simp add: race_start_def)
  have i: "\<not> mid_set ?s" "race_config ?s = c" "race_engine ?s = e" by (simp_all add: race_start_def)
  from change_rate_step [OF i(1), of a b R] assms(1-4) i(2) obtain c' where
    c': "race_run R (change_rate b) ?s = Some (?s\<lparr>race_config := c'\<rparr>)" "throttled_by b c'" "throttle_revision c' = throttle_revision c + 1"
    by auto
  let ?s1 = "?s\<lparr>race_config := c'\<rparr>"
  have o: "only_throttle (race_config ?s1)" using c'(2) by (simp add: throttled_by_def)
  have "max now (race_next c' e) = now" using race_next_simps(2) [OF assms(5) c'(3)] assms(6) by simp
  with load_revision_step [OF o _ assms(1), of R p now] i(3) obtain s2 where
    s2: "race_act R (LoadRevision p now) ?s1 = Some s2" "took ?s1 p now now a s2" by auto
  have s2': "race_run R [LoadRevision p now] ?s1 = Some s2" using s2(1) by (simp del: race_act.simps)
  have "throttled_by b (race_config ?s1)" using c'(2) by simp
  from second_packet [OF s2(2) this, of R q later] obtain s3 where
    "race_run R (take_packet q later) s2 = Some s3" "release_times s3 = [[now], [max later (now + tx_at a p)]]"
    by (auto simp: release_times_def race_start_def)
  then show ?thesis unfolding race_run_append l by (simp only: Option.bind.bind_lunit c'(1) s2') simp
qed

section \<open>Property\<close>

text \<open>
  C20: Changing the throttle is not atomic for the engine. If the change happens before a packet or after it,
  the next packet waits for the first at the new rate or not at all. If it happens between the two loads of
  the first packet, that packet is sent at the old rate under the new revision, and the next one waits as
  long as the old rate asks, although the revision is there to forget that backlog.
\<close>

theorem torn_throttle_change:
  assumes "throttled_by a c" and "0 < b" "b \<le> 10240" "a \<noteq> b"
    and "last_throttle_revision e = throttle_revision c" and "next_throttle_release_at e \<le> now" and "0 \<le> now" "now \<le> later"
  shows "map_option release_times (race_run R (change_rate b @ take_packet p now @ take_packet q later) (race_start c e)) =
      Some [[now], [max later (now + tx_at b p)]] \<and>
    map_option release_times (race_run R (take_packet p now @ change_rate b @ take_packet q later) (race_start c e)) =
      Some [[now], [later]] \<and>
    map_option release_times (race_run R ([LoadRate] @ change_rate b @ [LoadRevision p now] @ take_packet q later) (race_start c e)) =
      Some [[now], [max later (now + tx_at a p)]]"
proof (intro conjI)
  have "0 \<le> later" using assms(7,8) by simp
  from packet_then_change [OF assms(1-6) this, of R p q]
  show "map_option release_times (race_run R (take_packet p now @ change_rate b @ take_packet q later) (race_start c e)) =
      Some [[now], [later]]" by fastforce
  show "map_option release_times (race_run R (change_rate b @ take_packet p now @ take_packet q later) (race_start c e)) =
      Some [[now], [max later (now + tx_at b p)]]"
    using change_then_packets [OF assms(1-5,7), of R p q later] by fastforce
  show "map_option release_times (race_run R ([LoadRate] @ change_rate b @ [LoadRevision p now] @ take_packet q later) (race_start c e)) =
      Some [[now], [max later (now + tx_at a p)]]"
    using change_inside_packet [OF assms(1-5,7), of R p q later] by fastforce
qed

text \<open>A packet of 1024 bytes at 1 KB/s: a second, although the new rate is 10 MB/s.\<close>

theorem torn_throttle_change_witness:
  "map_option release_times (race_run least_rng ([LoadRate] @ change_rate 10240 @ [LoadRevision (sample_packet 1024) 5] @
      take_packet (sample_packet 1) 6) (race_start throttled_config throttled_engine)) = Some [[5], [1000000005]]"
proof -
  have c: "throttled_by 1 throttled_config" "last_throttle_revision throttled_engine = throttle_revision throttled_config"
    "next_throttle_release_at throttled_engine \<le> 5" "tx_at 1 (sample_packet 1024) = 1000000000" by code_simp+
  have "0 < (10240 :: int)" "10240 \<le> (10240 :: int)" "1 \<noteq> (10240 :: int)" "0 \<le> (5 :: int)" "5 \<le> (6 :: int)" by simp_all
  from torn_throttle_change [OF c(1) this(1-3) c(2,3) this(4,5), of least_rng "sample_packet 1024" "sample_packet 1"] c(4)
  show ?thesis by simp
qed

end
