(* ===== verification/Icon_Cache.thy ===== *)
theory Icon_Cache
  imports Process_Tree
begin

text \<open>
  The icons of the process list (\<open>IconForExePath\<close> in src/ui/MainWindow.cpp and its call in
  \<open>OnProcessListReady\<close>). The icon provider of the system is a parameter: what it answers for a path may
  depend on the moment, so the cache decides what the list shows.
\<close>

section \<open>The cache\<close>

text \<open>\<open>asked\<close> lists the paths the provider was asked for; \<open>None\<close> is the empty icon.\<close>

record 'i icons =
  icon_cache :: "u16 list \<Rightarrow> 'i option"
  asked :: "u16 list list"

definition IconForExePath :: "(u16 list list \<Rightarrow> u16 list \<Rightarrow> 'i) \<Rightarrow> u16 list \<Rightarrow> 'i icons \<Rightarrow> 'i option \<times> 'i icons" where
  "IconForExePath provider path c =
     (if path = [] then (None, c)
      else
        (case icon_cache c path of
           Some icon \<Rightarrow> (Some icon, c)
         | None \<Rightarrow>
             (let icon = provider (asked c) path
              in (Some icon, c\<lparr>icon_cache := (icon_cache c)(path \<mapsto> icon), asked := asked c @ [path]\<rparr>))))"

text \<open>The icons of one list, in its order.\<close>

fun list_icons :: "(u16 list list \<Rightarrow> u16 list \<Rightarrow> 'i) \<Rightarrow> process_info list \<Rightarrow> 'i icons \<Rightarrow> 'i option list \<times> 'i icons" where
  "list_icons provider [] c = ([], c)"
| "list_icons provider (p # ps) c =
     (case IconForExePath provider (info_exe_path p) c of
        (i, c1) \<Rightarrow> (case list_icons provider ps c1 of (is, c2) \<Rightarrow> (i # is, c2)))"

definition no_icons :: "'i icons" where
  "no_icons = \<lparr>icon_cache = Map.empty, asked = []\<rparr>"

section \<open>Asked once, answered alike\<close>

definition icons_ok :: "'i icons \<Rightarrow> bool" where
  "icons_ok c \<longleftrightarrow> distinct (asked c) \<and> set (asked c) = dom (icon_cache c) \<and> [] \<notin> set (asked c)"

lemma icons_ok_new: "icons_ok no_icons"
  by (simp add: icons_ok_def no_icons_def)

lemma IconForExePath_spec:
  assumes "icons_ok c" and "IconForExePath provider path c = (i, c')"
  shows "icons_ok c' \<and> icon_cache c \<subseteq>\<^sub>m icon_cache c' \<and> i = (if path = [] then None else icon_cache c' path) \<and>
    set (asked c') = set (asked c) \<union> ({path} - {[]})"
  using assms by (auto simp: IconForExePath_def icons_ok_def map_le_def Let_def split: if_splits option.splits)

text \<open>
  Over any lists the provider is asked at most once for a path and never for the empty one, and every row
  shows the answer its path got the first time.
\<close>

lemma list_icons_spec:
  assumes "icons_ok c" and "list_icons provider ps c = (is, c')"
  shows "icons_ok c' \<and> icon_cache c \<subseteq>\<^sub>m icon_cache c' \<and>
    is = map (\<lambda>p. if info_exe_path p = [] then None else icon_cache c' (info_exe_path p)) ps \<and>
    set (asked c') = set (asked c) \<union> (info_exe_path ` set ps - {[]})"
  using assms
proof (induction ps arbitrary: c "is")
  case (Cons p ps)
  obtain i c1 is1 where s: "IconForExePath provider (info_exe_path p) c = (i, c1)" "list_icons provider ps c1 = (is1, c')" "is = i # is1"
    using Cons.prems(2) by (auto split: prod.splits)
  note 1 = IconForExePath_spec [OF Cons.prems(1) s(1)]
  note 2 = Cons.IH [OF conjunct1 [OF 1] s(2)]
  note le = 2 [THEN conjunct2, THEN conjunct1]
  have "i = (if info_exe_path p = [] then None else icon_cache c' (info_exe_path p))"
  proof (cases "info_exe_path p = []")
    case False
    have "info_exe_path p \<in> set (asked c1)" using 1 False by simp
    moreover have "set (asked c1) = dom (icon_cache c1)" using 1 by (simp only: icons_ok_def)
    ultimately have "info_exe_path p \<in> dom (icon_cache c1)" by simp
    then show ?thesis using le 1 False by (simp add: map_le_def)
  qed (use 1 in simp)
  moreover have "icon_cache c \<subseteq>\<^sub>m icon_cache c'" by (rule map_le_trans [OF 1 [THEN conjunct2, THEN conjunct1] le])
  moreover have "set (asked c') = set (asked c) \<union> (info_exe_path ` set (p # ps) - {[]})"
    unfolding 2 [THEN conjunct2, THEN conjunct2, THEN conjunct2] 1 [THEN conjunct2, THEN conjunct2, THEN conjunct2] by auto
  moreover have "is1 = map (\<lambda>p. if info_exe_path p = [] then None else icon_cache c' (info_exe_path p)) ps"
    by (rule 2 [THEN conjunct2, THEN conjunct2, THEN conjunct1])
  ultimately show ?case using conjunct1 [OF 2] unfolding s(3) by (simp only: list.map simp_thms)
qed simp

end
