(* ===== verification/Pipeline_Run.thy ===== *)
theory Pipeline_Run
  imports Interceptor
begin

text \<open>
  The pipeline while it runs: the capture thread's batches and the delay thread's rounds come in any
  order, and between two batches the user interface may have changed the effects and the targets. The
  abstract specification is a ledger: a bag of delayed packets, what went into it, what left it, and
  the calls to the driver. The pipeline refines it; from that follow the promises of the program as a
  whole: a delayed packet leaves exactly once, never early, and not late.
\<close>

section \<open>Runs\<close>

text \<open>
  A batch with the effects and targets it is handled with, or a round of the delay thread with its two
  readings of the clock.
\<close>

datatype pipe_event =
    Captured effect_config pid_set "nat \<Rightarrow> int" "u8 list" "wd_address list"
  | Drained int int

fun pipe_step :: "('w, 'g) outside \<Rightarrow> pipe_event \<Rightarrow> 'g pipeline \<times> 'w env \<Rightarrow> ('g pipeline \<times> 'w env) option" where
  "pipe_step X (Captured cfg ts clock bytes addrs) (s, v) =
     process_batch X clock bytes addrs (s\<lparr>effects := cfg, targets := ts\<rparr>) v"
| "pipe_step X (Drained now now2) (s, v) =
     (case delay s of
        None \<Rightarrow> Some (s, v)
      | Some q \<Rightarrow>
          (case drain_round (driver X) now now2 q v of
             None \<Rightarrow> None
           | Some (_, q, v) \<Rightarrow> Some (s\<lparr>delay := Some q\<rparr>, v)))"

fun pipe_run :: "('w, 'g) outside \<Rightarrow> pipe_event list \<Rightarrow> 'g pipeline \<times> 'w env \<Rightarrow> ('g pipeline \<times> 'w env) option" where
  "pipe_run X [] sv = Some sv"
| "pipe_run X (e # es) sv = Option.bind (pipe_step X e sv) (pipe_run X es)"

lemma pipe_run_append: "pipe_run X (es @ fs) sv = Option.bind (pipe_run X es sv) (pipe_run X fs)"
  by (induction es arbitrary: sv) (simp_all split: Option.bind_split)

fun event_ok :: "pipe_event \<Rightarrow> bool" where
  "event_ok (Captured cfg ts _ _ _) \<longleftrightarrow> config_ok (outbound cfg) \<and> config_ok (inbound cfg) \<and> pid_set_inv ts"
| "event_ok (Drained _ _) \<longleftrightarrow> True"

section \<open>The ledger\<close>

record ledger =
  bag :: "scheduled_packet multiset"
  accepted :: "scheduled_packet multiset"
  released :: "scheduled_packet multiset"
  sent :: "(u8 list \<times> wd_address list) list"

definition ledger_start :: "scheduled_packet multiset \<Rightarrow> (u8 list \<times> wd_address list) list \<Rightarrow> ledger" where
  "ledger_start b cs = \<lparr>bag = b, accepted = {#}, released = {#}, sent = cs\<rparr>"

text \<open>
  A batch puts delayed copies of its packets into the bag and sends others in one call; a round takes
  up to 128 due packets, the earliest, and sends them in one call.
\<close>

inductive ledger_step :: "(u8 list \<Rightarrow> parsed option) \<Rightarrow> pipe_event \<Rightarrow> ledger \<Rightarrow> ledger \<Rightarrow> bool" for P where
  take_in: "batch_packets P addrs bytes = (pks, rest_bytes, rest_addrs) \<Longrightarrow>
     \<forall>x \<in># new. \<exists>m \<in> set (stamped clock 0 pks). held_for cfg m x \<Longrightarrow>
     set xs \<subseteq> set pks \<Longrightarrow> length xs \<le> 65 * length pks \<Longrightarrow> size (bag l + new) \<le> 4096 \<Longrightarrow>
     ledger_step P (Captured cfg ts clock bytes addrs) l
       (l\<lparr>bag := bag l + new, accepted := accepted l + new,
          sent := sent l @ (if xs = [] \<and> rest_addrs = [] then []
                            else [(concat (map fst xs) @ rest_bytes, map snd xs @ rest_addrs)])\<rparr>)"
| give_out: "bag l = mset ps + left \<Longrightarrow> sorted (map release_at ps) \<Longrightarrow> \<forall>p \<in> set ps. release_at p \<le> now \<Longrightarrow>
     length ps \<le> 128 \<Longrightarrow> (length ps < 128 \<longrightarrow> (\<forall>p \<in># left. now < release_at p)) \<Longrightarrow>
     \<forall>p \<in> set ps. \<forall>r \<in># left. release_at p \<le> release_at r \<Longrightarrow>
     ledger_step P (Drained now now2) l
       (l\<lparr>bag := left, released := released l + mset ps, sent := sent l @ (if ps = [] then [] else [batch_send ps])\<rparr>)"

inductive_cases take_inE: "ledger_step P (Captured cfg ts clock bytes addrs) l l'"
inductive_cases give_outE: "ledger_step P (Drained now now2) l l'"

inductive ledger_run :: "(u8 list \<Rightarrow> parsed option) \<Rightarrow> pipe_event list \<Rightarrow> ledger \<Rightarrow> ledger \<Rightarrow> bool" for P where
  over: "ledger_run P [] l l"
| more: "ledger_step P e l m \<Longrightarrow> ledger_run P es m n \<Longrightarrow> ledger_run P (e # es) l n"

inductive_simps ledger_run_Nil [simp]: "ledger_run P [] l n"
inductive_simps ledger_run_Cons: "ledger_run P (e # es) l n"

lemma ledger_run_append: "ledger_run P (es @ fs) l n \<longleftrightarrow> (\<exists>m. ledger_run P es l m \<and> ledger_run P fs m n)"
  by (induction es arbitrary: l) (auto simp: ledger_run_Cons)

section \<open>The pipeline refines the ledger\<close>

lemma size_held_le: "dq_inv q \<Longrightarrow> size (held q) \<le> 4096"
  using slot_count [of q] by (simp add: size_held kDelayQueueCapacity_def)

lemma pipe_step_refines:
  assumes "outside_ok X" and inv: "pl_inv s" and q: "delay s = Some q" and e: "event_ok e"
    and l: "bag l = held q" "sent l = sends_of (calls v)"
  shows "\<exists>s' v' q' l'. pipe_step X e (s, v) = Some (s', v') \<and> pl_inv s' \<and> delay s' = Some q' \<and>
    ledger_step (parse_packet (driver X)) e l l' \<and> bag l' = held q' \<and> sent l' = sends_of (calls v')"
proof (cases e)
  case (Captured cfg ts clock bytes addrs)
  let ?s = "s\<lparr>effects := cfg, targets := ts\<rparr>"
  have s: "pl_inv ?s" "delay ?s = Some q" using inv e q Captured by (simp_all add: pl_inv_def)
  obtain pks rb ra where b: "batch_packets (parse_packet (driver X)) addrs bytes = (pks, rb, ra)" by (metis prod_cases3)
  from process_batch_spec [OF assms(1) s b, of clock v] obtain s' q' v' xs new where
    r: "process_batch X clock bytes addrs ?s v = Some (s', v')" "pl_inv s'" "delay s' = Some q'" "held q' = held q + new"
    "\<forall>x \<in># new. \<exists>m \<in> set (stamped clock 0 pks). held_for cfg m x" "set xs \<subseteq> set pks" "length xs \<le> 65 * length pks"
    "sends_of (calls v') = sends_of (calls v) @ (if xs = [] \<and> ra = [] then []
       else [(concat (map fst xs) @ rb, map snd xs @ ra)])"
    by auto
  have "dq_inv q'" using r(2,3) by (simp add: pl_inv_def)
  then have "size (bag l + new) \<le> 4096" using size_held_le r(4) l by metis
  from take_in [OF b r(5-7) this, of ts] r l Captured show ?thesis by fastforce
next
  case (Drained now now2)
  have "dq_inv q" using inv q by (simp add: pl_inv_def)
  from drain_round_spec [OF this, of "driver X" now now2 v] obtain pz q' v' ps where
    d: "drain_round (driver X) now now2 q v = Some (pz, q', v')" "dq_inv q'" "held q = mset ps + held q'"
      "sorted (map release_at ps)" "\<forall>p \<in> set ps. release_at p \<le> now" "length ps \<le> 128"
      "length ps < 128 \<longrightarrow> (\<forall>p \<in># held q'. now < release_at p)"
      "\<forall>p \<in> set ps. \<forall>r \<in># held q'. release_at p \<le> release_at r"
      "sends_of (calls v') = sends_of (calls v) @ (if ps = [] then [] else [batch_send ps])"
    unfolding kBatchSize_def by blast
  have b: "bag l = mset ps + held q'" using d(3) l by simp
  let ?l = "l\<lparr>bag := held q', released := released l + mset ps, sent := sent l @ (if ps = [] then [] else [batch_send ps])\<rparr>"
  note step = give_out [OF b d(4-8), of "parse_packet (driver X)" now2]
  have "pipe_step X e (s, v) = Some (s\<lparr>delay := Some q'\<rparr>, v')" using d(1) q Drained by simp
  moreover have "pl_inv (s\<lparr>delay := Some q'\<rparr>)" using inv d(2) by (simp add: pl_inv_def)
  moreover have "sent ?l = sends_of (calls v')" using d(9) l by simp
  ultimately show ?thesis using step Drained
    by (intro exI [of _ "s\<lparr>delay := Some q'\<rparr>"] exI [of _ v'] exI [of _ q'] exI [of _ ?l]) simp
qed

lemma pipe_run_refines:
  assumes "outside_ok X" and "pl_inv s" and "delay s = Some q" and "\<forall>e \<in> set es. event_ok e"
    and "bag l = held q" "sent l = sends_of (calls v)"
  shows "\<exists>s' v' q' l'. pipe_run X es (s, v) = Some (s', v') \<and> pl_inv s' \<and> delay s' = Some q' \<and>
    ledger_run (parse_packet (driver X)) es l l' \<and> bag l' = held q' \<and> sent l' = sends_of (calls v')"
  using assms(2-6)
proof (induction es arbitrary: s v q l)
  case Nil
  then show ?case by simp
next
  case (Cons e es)
  from pipe_step_refines [OF assms(1) Cons.prems(1,2) _ Cons.prems(4,5), of e] Cons.prems(3)
  obtain s1 v1 q1 l1 where 1: "pipe_step X e (s, v) = Some (s1, v1)" "pl_inv s1" "delay s1 = Some q1"
    "ledger_step (parse_packet (driver X)) e l l1" "bag l1 = held q1" "sent l1 = sends_of (calls v1)" by auto
  from Cons.IH [OF 1(2,3) _ 1(5,6)] Cons.prems(3) 1(1,4) show ?case by (fastforce simp: ledger_run_Cons)
qed

section \<open>What the ledger promises\<close>

lemma ledger_step_balance: "ledger_step P e l l' \<Longrightarrow> bag l' + released l' + accepted l = bag l + released l + accepted l'"
  by (induction rule: ledger_step.induct) (auto simp: ac_simps)

lemma ledger_balance: "ledger_run P es l l' \<Longrightarrow> bag l' + released l' + accepted l = bag l + released l + accepted l'"
proof (induction rule: ledger_run.induct)
  case (more e l m es n)
  then have "bag n + released n + accepted m + accepted l = bag m + released m + accepted l + accepted n"
    by (simp add: ac_simps)
  also have "\<dots> = bag l + released l + accepted m + accepted n"
    using ledger_step_balance [OF more.hyps(1)] by simp
  finally show ?case by (simp add: ac_simps)
qed simp

text \<open>Where a delayed packet comes from: a packet of a batch among the events.\<close>

definition comes_from :: "(u8 list \<Rightarrow> parsed option) \<Rightarrow> pipe_event list \<Rightarrow> scheduled_packet \<Rightarrow> bool" where
  "comes_from P es x \<longleftrightarrow> (\<exists>cfg ts clock bytes addrs m. Captured cfg ts clock bytes addrs \<in> set es \<and>
     m \<in> set (stamped clock 0 (fst (batch_packets P addrs bytes))) \<and> held_for cfg m x)"

lemma comes_from_mono: "comes_from P es x \<Longrightarrow> set es \<subseteq> set fs \<Longrightarrow> comes_from P fs x"
  unfolding comes_from_def by blast

lemma ledger_accepted:
  assumes "ledger_run P es l l'"
  shows "\<exists>new. accepted l' = accepted l + new \<and> (\<forall>x \<in># new. comes_from P es x)"
  using assms
proof (induction rule: ledger_run.induct)
  case (more e l m es n)
  then obtain new2 where n2: "accepted n = accepted m + new2" "\<forall>x \<in># new2. comes_from P es x" by blast
  have "\<exists>new. accepted m = accepted l + new \<and> (\<forall>x \<in># new. comes_from P [e] x)"
    using more.hyps(1)
  proof (cases rule: ledger_step.cases)
    case (take_in addrs bytes pks rb ra new clock cfg xs ts)
    then show ?thesis by (intro exI [of _ new]) (fastforce simp: comes_from_def)
  next
    case give_out
    then show ?thesis by simp
  qed
  then obtain new1 where n1: "accepted m = accepted l + new1" "\<forall>x \<in># new1. comes_from P [e] x" by blast
  have "\<forall>x \<in># new1 + new2. comes_from P (e # es) x"
    using n1(2) n2(2) comes_from_mono [of P _ _ "e # es"] by auto
  then show ?case using n1(1) n2(1) by (intro exI [of _ "new1 + new2"]) (simp add: ac_simps)
qed simp

text \<open>From an empty bag, what is in it comes from a batch.\<close>

lemma ledger_bag_from:
  assumes "ledger_run P es (ledger_start {#} cs) l'" and "x \<in># bag l'"
  shows "comes_from P es x"
proof -
  have "bag l' + released l' = accepted l'" using ledger_balance [OF assms(1)] by (simp add: ledger_start_def)
  moreover obtain new where "accepted l' = new" "\<forall>x \<in># new. comes_from P es x"
    using ledger_accepted [OF assms(1)] by (auto simp: ledger_start_def)
  ultimately show ?thesis using assms(2) by (metis union_iff)
qed

text \<open>How many packets are due by a moment, and how a run works them off.\<close>

definition due :: "int \<Rightarrow> scheduled_packet multiset \<Rightarrow> nat" where
  "due t b = size (filter_mset (\<lambda>p. release_at p \<le> t) b)"

fun event_after :: "int \<Rightarrow> pipe_event \<Rightarrow> bool" where
  "event_after t (Captured _ _ clock _ _) \<longleftrightarrow> (\<forall>i. t \<le> clock i)"
| "event_after t (Drained now _) \<longleftrightarrow> t \<le> now"

fun is_drain :: "pipe_event \<Rightarrow> bool" where
  "is_drain (Drained _ _) \<longleftrightarrow> True"
| "is_drain _ \<longleftrightarrow> False"

lemma stamped_after: "(d, a, t') \<in> set (stamped clock i ps) \<Longrightarrow> \<forall>i. t \<le> clock i \<Longrightarrow> t \<le> t'"
  by (induction clock i ps rule: stamped.induct) auto

lemma due_step:
  assumes "ledger_step P e l l'" and "event_after t e"
  shows "due t (bag l') \<le> due t (bag l) - (if is_drain e then 128 else 0)"
  using assms(1)
proof (cases rule: ledger_step.cases)
  case (take_in addrs bytes pks rb ra new clock cfg xs ts)
  have "\<not> release_at x \<le> t" if x: "x \<in># new" for x
  proof -
    obtain m where m: "m \<in> set (stamped clock 0 pks)" "held_for cfg m x"
      using bspec [OF take_in(4) x] by (rule bexE)
    obtain d a t' where "m = (d, a, t')" by (metis prod_cases3)
    then have "(d, a, t') \<in> set (stamped clock 0 pks)" "t' < release_at x" using m by (simp_all add: held_for_def)
    then show ?thesis using stamped_after [of d a t' clock 0 pks t] assms(2) take_in(1) by auto
  qed
  then have "filter_mset (\<lambda>p. release_at p \<le> t) new = {#}" by (simp add: filter_mset_eq_mempty_iff)
  then show ?thesis using take_in by (simp add: due_def)
next
  case (give_out ps left now now2)
  have t: "t \<le> now" using assms(2) give_out(1) by simp
  show ?thesis
  proof (cases "length ps < 128 \<or> (\<forall>r \<in># left. \<not> release_at r \<le> t)")
    case True
    then have "\<forall>r \<in># left. \<not> release_at r \<le> t" using give_out(7) t by fastforce
    then have "filter_mset (\<lambda>p. release_at p \<le> t) left = {#}" by simp
    then have "due t left = 0" unfolding due_def by (metis size_empty)
    then show ?thesis using give_out(2) by simp
  next
    case False
    then obtain r where r: "r \<in># left" "release_at r \<le> t" and n: "length ps = 128" using give_out(6) by auto
    have "\<forall>p \<in># mset ps. release_at p \<le> t" using give_out(8) r by fastforce
    then have "filter_mset (\<lambda>p. release_at p \<le> t) (mset ps) = mset ps" by (simp add: filter_mset_eq_conv)
    then have "due t (bag l) = 128 + due t left" using give_out(3) n by (simp add: due_def)
    then show ?thesis using give_out by simp
  qed
qed

lemma due_run:
  assumes "ledger_run P es l l'" and "\<forall>e \<in> set es. event_after t e"
  shows "due t (bag l') \<le> due t (bag l) - 128 * length (filter is_drain es)"
  using assms
proof (induction rule: ledger_run.induct)
  case (more e l m es n)
  then have "due t (bag n) \<le> due t (bag m) - 128 * length (filter is_drain es)" by simp
  moreover have "due t (bag m) \<le> due t (bag l) - (if is_drain e then 128 else 0)"
    using due_step [OF more.hyps(1)] more.prems by simp
  ultimately show ?case by auto
qed simp

section \<open>Properties\<close>

text \<open>
  C2: The pipeline refines a ledger of delayed packets, however its two threads take turns and however
  the user changes effects and targets in between. Every run comes to an end and keeps the pipeline's
  invariant; a batch puts copies of its own packets into the bag, each due after its capture and not
  before its delay, at most 4096 at a time, and sends copies in at most one call; a round of the delay
  thread takes the earliest due packets out, at most 128, and sends them in one call; nothing else goes
  to the driver.
\<close>

theorem pipeline_refines_ledger:
  assumes "outside_ok X" and "pl_inv s" and "delay s = Some q" and "\<forall>e \<in> set es. event_ok e"
  shows "\<exists>s' v' q' l. pipe_run X es (s, v) = Some (s', v') \<and> pl_inv s' \<and> delay s' = Some q' \<and>
    ledger_run (parse_packet (driver X)) es (ledger_start (held q) (sends_of (calls v))) l \<and>
    bag l = held q' \<and> sent l = sends_of (calls v')"
  using pipe_run_refines [OF assms, of "ledger_start (held q) (sends_of (calls v))" v] by (simp add: ledger_start_def)

text \<open>A run: one targeted packet with a delay of 20 ms, then a round of the delay thread 30 ms later.\<close>

definition sample_delay_config :: effect_config where
  "sample_delay_config = SetForDirection True (DelayMs 20) (SetForDirection False (DelayMs 20) effect_config_init)"

definition sample_events :: "pipe_event list" where
  "sample_events =
     [Captured sample_delay_config (SetSelectedPid 9 pid_set_init) (\<lambda>_. 0) [2, 7] [sample_addr],
      Drained 30000000 30000000]"

lemma sample_events_ok: "\<forall>e \<in> set sample_events. event_ok e"
proof -
  have "config_ok (outbound sample_delay_config)" "config_ok (inbound sample_delay_config)" by code_simp+
  moreover have "pid_set_inv (SetSelectedPid 9 pid_set_init)"
    using apply_pid_op_inv [OF pid_set_inv_init, of "OpSelect 9"] by simp
  ultimately show ?thesis by (simp add: sample_events_def)
qed

abbreviation sample_world :: "(script, unit) outside" where
  "sample_world \<equiv> sample_outside [\<lparr>dwLocalAddr = 16777216, dwLocalPort = 768, dwOwningPid = 9\<rparr>]"

lemma sample_start:
  obtains q where "pl_inv (sample_pipeline 9 effect_config_init (Some q))" "dq_inv q" "held q = {#}"
    "delay (sample_pipeline 9 effect_config_init (Some q)) = Some q" "DelayQueue_new (\<lambda>n. n) 8 = Some q"
proof -
  from DelayQueue_new_ok [OF sample_alloc_ok] obtain q where
    q: "DelayQueue_new (\<lambda>n. n) 8 = Some q" "dq_inv q" "held q = {#}" by blast
  have "pid_set_inv (SetSelectedPid 9 pid_set_init)"
    using apply_pid_op_inv [OF pid_set_inv_init, of "OpSelect 9"] by simp
  then have "pl_inv (sample_pipeline 9 effect_config_init (Some q))"
    using q(2) ft_inv_init config_ok_init by (simp add: pl_inv_def sample_pipeline_def effect_config_init_def)
  with q that show ?thesis by (simp add: sample_pipeline_def)
qed

theorem pipeline_refines_ledger_witness:
  "\<exists>q s' v' l. DelayQueue_new (\<lambda>n. n) 8 = Some q \<and>
    pipe_run sample_world sample_events (sample_pipeline 9 effect_config_init (Some q), env_init []) = Some (s', v') \<and>
    ledger_run (parse_packet (driver sample_world)) sample_events (ledger_start {#} []) l \<and> sent l = sends_of (calls v')"
proof -
  obtain q where q: "pl_inv (sample_pipeline 9 effect_config_init (Some q))" "held q = {#}"
    "delay (sample_pipeline 9 effect_config_init (Some q)) = Some q" "DelayQueue_new (\<lambda>n. n) 8 = Some q"
    using sample_start by metis
  from pipeline_refines_ledger [OF sample_outside_ok q(1,3) sample_events_ok, of _ "env_init []"] q(2,4)
  show ?thesis by (fastforce simp: env_init_def sends_of_def)
qed

text \<open>
  Every delayed packet leaves exactly once. After any run of the pipeline that is then stopped, what
  was held at first and what the batches added is exactly what the delay thread sent in its rounds and
  what the stop flushed, one call for each packet; none is lost and none is sent twice.
\<close>

theorem delayed_packets_leave_once:
  assumes "outside_ok X" and "pl_inv s" and "delay s = Some q" and "\<forall>e \<in> set es. event_ok e"
  shows "\<exists>s1 v1 s2 v2 l flushed. pipe_run X es (s, v) = Some (s1, v1) \<and> pi_Stop (driver X) s1 v1 = Some (s2, v2) \<and>
    delay s2 = None \<and> ledger_run (parse_packet (driver X)) es (ledger_start (held q) (sends_of (calls v))) l \<and>
    held q + accepted l = released l + mset flushed \<and> (\<forall>x \<in># accepted l. comes_from (parse_packet (driver X)) es x) \<and>
    sends_of (calls v2) = sent l @ map single_send flushed"
proof -
  let ?l = "ledger_start (held q) (sends_of (calls v))"
  from pipe_run_refines [OF assms, of ?l v] obtain s1 v1 q1 l where
    r: "pipe_run X es (s, v) = Some (s1, v1)" "pl_inv s1" "delay s1 = Some q1"
    "ledger_run (parse_packet (driver X)) es ?l l" "bag l = held q1" "sent l = sends_of (calls v1)"
    by (auto simp: ledger_start_def)
  from pi_Stop_flushes [OF r(2,3), of "driver X" v1] obtain s2 v2 ps where
    f: "pi_Stop (driver X) s1 v1 = Some (s2, v2)" "mset ps = held q1" "delay s2 = None"
    "sends_of (calls v2) = sends_of (calls v1) @ map single_send ps" by blast
  have "held q + accepted l = released l + mset ps"
    using ledger_balance [OF r(4)] r(5) f(2) by (simp add: ledger_start_def ac_simps)
  moreover have "\<forall>x \<in># accepted l. comes_from (parse_packet (driver X)) es x"
    using ledger_accepted [OF r(4)] by (auto simp: ledger_start_def)
  ultimately show ?thesis using r f by metis
qed

theorem delayed_packets_leave_once_witness:
  "\<exists>q s1 v1 s2 v2. DelayQueue_new (\<lambda>n. n) 8 = Some q \<and>
    pipe_run sample_world sample_events (sample_pipeline 9 effect_config_init (Some q), env_init []) = Some (s1, v1) \<and>
    pi_Stop (driver sample_world) s1 v1 = Some (s2, v2) \<and> delay s2 = None"
proof -
  obtain q where q: "pl_inv (sample_pipeline 9 effect_config_init (Some q))" "held q = {#}"
    "delay (sample_pipeline 9 effect_config_init (Some q)) = Some q" "DelayQueue_new (\<lambda>n. n) 8 = Some q"
    using sample_start by metis
  from delayed_packets_leave_once [OF sample_outside_ok q(1,3) sample_events_ok, of _ "env_init []"] q(4)
  show ?thesis by blast
qed

text \<open>
  No packet leaves early. When the delay thread sends a packet at some moment, then the packet was
  captured in one of the batches before, at a moment that lies at least the delay back that was
  configured for its direction when it was captured.
\<close>

theorem no_packet_leaves_early:
  assumes "outside_ok X" and "pl_inv s" and "delay s = Some q" and "held q = {#}" and "\<forall>e \<in> set es. event_ok e"
  shows "\<exists>s1 v1 s2 v2 ps. pipe_run X es (s, v) = Some (s1, v1) \<and> pipe_step X (Drained now now2) (s1, v1) = Some (s2, v2) \<and>
    sends_of (calls v2) = sends_of (calls v1) @ (if ps = [] then [] else [batch_send ps]) \<and>
    (\<forall>p \<in> set ps. \<exists>cfg ts clock bytes addrs t. Captured cfg ts clock bytes addrs \<in> set es \<and>
       (Bytes (packet p), pkt_addr (packet p), t) \<in> set (stamped clock 0 (fst (batch_packets (parse_packet (driver X)) addrs bytes))) \<and>
       t + delay_ms (ConfigForDirection (Outbound (pkt_addr (packet p))) cfg) * ns_per_ms \<le> now)"
proof -
  let ?P = "parse_packet (driver X)"
  from pipe_run_refines [OF assms(1-3,5), of "ledger_start {#} (sends_of (calls v))" v] assms(4)
  obtain s1 v1 q1 l where r: "pipe_run X es (s, v) = Some (s1, v1)" "pl_inv s1" "delay s1 = Some q1"
    "ledger_run ?P es (ledger_start {#} (sends_of (calls v))) l" "bag l = held q1" "sent l = sends_of (calls v1)"
    by (auto simp: ledger_start_def)
  from pipe_step_refines [OF assms(1) r(2,3) _ r(5,6), of "Drained now now2"] obtain s2 v2 l2 where
    d: "pipe_step X (Drained now now2) (s1, v1) = Some (s2, v2)" "ledger_step ?P (Drained now now2) l l2"
    "sent l2 = sends_of (calls v2)" by auto
  from d(2) obtain ps left where ps: "bag l = mset ps + left" "\<forall>p \<in> set ps. release_at p \<le> now"
    "sent l2 = sent l @ (if ps = [] then [] else [batch_send ps])" by (auto elim!: give_outE)
  have "\<exists>cfg ts clock bytes addrs t. Captured cfg ts clock bytes addrs \<in> set es \<and>
       (Bytes (packet p), pkt_addr (packet p), t) \<in> set (stamped clock 0 (fst (batch_packets ?P addrs bytes))) \<and>
       t + delay_ms (ConfigForDirection (Outbound (pkt_addr (packet p))) cfg) * ns_per_ms \<le> now" if p: "p \<in> set ps" for p
  proof -
    have "p \<in># bag l" using ps(1) p by simp
    from ledger_bag_from [OF r(4) this] obtain cfg ts clock bytes addrs m where
      m: "Captured cfg ts clock bytes addrs \<in> set es" "m \<in> set (stamped clock 0 (fst (batch_packets ?P addrs bytes)))"
      "held_for cfg m p" unfolding comes_from_def by blast
    obtain d a t where "m = (d, a, t)" by (metis prod_cases3)
    with m(2,3) have "(Bytes (packet p), pkt_addr (packet p), t) \<in> set (stamped clock 0 (fst (batch_packets ?P addrs bytes)))"
      "t + delay_ms (ConfigForDirection (Outbound (pkt_addr (packet p))) cfg) * ns_per_ms \<le> release_at p"
      by (auto simp: held_for_def)
    moreover have "release_at p \<le> now" using ps(2) p by blast
    ultimately show ?thesis using m(1) by (meson order_trans)
  qed
  then show ?thesis using r(1,6) d(1,3) ps(3) by metis
qed

theorem no_packet_leaves_early_witness:
  "\<exists>q s1 v1 s2 v2 ps. DelayQueue_new (\<lambda>n. n) 8 = Some q \<and>
    pipe_run sample_world sample_events (sample_pipeline 9 effect_config_init (Some q), env_init []) = Some (s1, v1) \<and>
    pipe_step sample_world (Drained 40000000 40000000) (s1, v1) = Some (s2, v2) \<and>
    sends_of (calls v2) = sends_of (calls v1) @ (if ps = [] then [] else [batch_send ps])"
proof -
  obtain q where q: "pl_inv (sample_pipeline 9 effect_config_init (Some q))" "held q = {#}"
    "delay (sample_pipeline 9 effect_config_init (Some q)) = Some q" "DelayQueue_new (\<lambda>n. n) 8 = Some q"
    using sample_start by metis
  from no_packet_leaves_early [OF sample_outside_ok q(1,3,2) sample_events_ok, of "[\<lparr>dwLocalAddr = 16777216, dwLocalPort = 768, dwOwningPid = 9\<rparr>]" "env_init []" 40000000 40000000] q(4)
  show ?thesis by blast
qed

text \<open>
  C3: A backlog leaves in time. Whatever is held at a moment, and whatever is captured after it, once the
  delay thread has made 32 rounds after that moment nothing is held any more that was due by then.
\<close>

theorem due_backlog_leaves:
  assumes "outside_ok X" and "pl_inv s" and "delay s = Some q" and "\<forall>e \<in> set es. event_ok e"
    and "\<forall>e \<in> set es. event_after t e" and "32 \<le> length (filter is_drain es)"
  shows "\<exists>s' v' q'. pipe_run X es (s, v) = Some (s', v') \<and> delay s' = Some q' \<and> (\<forall>p \<in># held q'. t < release_at p)"
proof -
  let ?l = "ledger_start (held q) (sends_of (calls v))"
  from pipe_run_refines [OF assms(1-4), of ?l v] obtain s' v' q' l where
    r: "pipe_run X es (s, v) = Some (s', v')" "delay s' = Some q'"
    "ledger_run (parse_packet (driver X)) es ?l l" "bag l = held q'" by (auto simp: ledger_start_def)
  have "dq_inv q" using assms(2,3) by (simp add: pl_inv_def)
  then have "due t (held q) \<le> 4096"
    unfolding due_def by (meson multiset_filter_subset order_trans size_held_le size_mset_mono)
  then have "due t (held q') = 0" using due_run [OF r(3) assms(5)] assms(6) r(4) by (simp add: ledger_start_def)
  then have "\<forall>p \<in># held q'. t < release_at p" by (auto simp: due_def filter_mset_eq_mempty_iff)
  with r(1,2) show ?thesis by blast
qed

theorem due_backlog_leaves_witness:
  "\<exists>q s' v' q'. DelayQueue_new (\<lambda>n. n) 8 = Some q \<and>
    pipe_run sample_world (replicate 32 (Drained 5 5)) (sample_pipeline 9 effect_config_init (Some q), env_init []) = Some (s', v') \<and>
    delay s' = Some q' \<and> (\<forall>p \<in># held q'. 5 < release_at p)"
proof -
  obtain q where q: "pl_inv (sample_pipeline 9 effect_config_init (Some q))" "held q = {#}"
    "delay (sample_pipeline 9 effect_config_init (Some q)) = Some q" "DelayQueue_new (\<lambda>n. n) 8 = Some q"
    using sample_start by metis
  from due_backlog_leaves [OF sample_outside_ok q(1,3), of "replicate 32 (Drained 5 5)" 5 _ "env_init []"] q(4)
  show ?thesis by auto
qed

end
