(* ===== verification/Window_Packets.thy ===== *)
theory Window_Packets
  imports App_Session Pipeline_Run
begin

text \<open>
  The delayed packets of the whole program, across every start and stop of the pipeline: what the capture
  rounds take in, what the delay thread and the stops send, and what is left when the program ends. A new
  pipeline starts with an empty delay queue, a stop flushes the old one, and no other event touches it.
\<close>

section \<open>What is held, and what leaves\<close>

definition pipe_held :: "'g pipeline \<Rightarrow> scheduled_packet multiset" where
  "pipe_held p = (case delay p of None \<Rightarrow> {#} | Some q \<Rightarrow> held q)"

definition window_held :: "('w, 'g) main_window \<Rightarrow> scheduled_packet multiset" where
  "window_held w = (case interceptor_obj w of None \<Rightarrow> {#} | Some p \<Rightarrow> pipe_held p)"

text \<open>A call to the driver: the rest of a batch, the due packets of a round, or a packet flushed by a stop.\<close>

datatype departure =
    AtOnce "u8 list" "wd_address list"
  | InRound "scheduled_packet list"
  | OnStop scheduled_packet

fun call_of :: "departure \<Rightarrow> u8 list \<times> wd_address list" where
  "call_of (AtOnce bytes addrs) = (bytes, addrs)"
| "call_of (InRound ps) = batch_send ps"
| "call_of (OnStop p) = single_send p"

fun delayed_in :: "departure \<Rightarrow> scheduled_packet list" where
  "delayed_in (AtOnce bytes addrs) = []"
| "delayed_in (InRound ps) = ps"
| "delayed_in (OnStop p) = [p]"

text \<open>Which calls an event may make.\<close>

fun departs_on :: "('m, 'g) event \<Rightarrow> departure list \<Rightarrow> bool" where
  "departs_on (CaptureRuns clock) ds \<longleftrightarrow> length ds \<le> 1 \<and> (\<forall>d \<in> set ds. delayed_in d = [])"
| "departs_on (DelayRuns now now2) ds \<longleftrightarrow> length ds \<le> 1 \<and>
     (\<forall>d \<in> set ds. \<exists>ps. d = InRound ps \<and> sorted (map release_at ps) \<and> length ps \<le> 128 \<and> (\<forall>p \<in> set ps. release_at p \<le> now))"
| "departs_on (StartStopClicked now s1 s2) ds \<longleftrightarrow> set ds \<subseteq> range OnStop"
| "departs_on (HotkeyTriggered now s1 s2 a) ds \<longleftrightarrow> set ds \<subseteq> range OnStop"
| "departs_on (MonitorTick now) ds \<longleftrightarrow> set ds \<subseteq> range OnStop"
| "departs_on FatalDelivered ds \<longleftrightarrow> set ds \<subseteq> range OnStop"
| "departs_on _ ds \<longleftrightarrow> ds = []"

text \<open>A capture round takes in what is held after it and was not before.\<close>

fun taken_by :: "('m, 'g) event \<Rightarrow> ('w, 'g) main_window \<Rightarrow> ('w, 'g) main_window \<Rightarrow> scheduled_packet multiset" where
  "taken_by (CaptureRuns clock) w w' = window_held w' - window_held w"
| "taken_by _ w w' = {#}"

fun taken_in :: "('m, 'w, 'g) platform \<Rightarrow> ('m, 'g) event list \<Rightarrow> ('w, 'g) main_window \<Rightarrow> scheduled_packet multiset" where
  "taken_in P [] w = {#}"
| "taken_in P (e # es) w =
     (case window_step P e w of None \<Rightarrow> {#} | Some w' \<Rightarrow> taken_by e w w' + taken_in P es w')"

text \<open>A delayed copy of a packet that the driver gave to a capture round, with the effects of that moment.\<close>

fun copied_by :: "('m, 'w, 'g) platform \<Rightarrow> ('m, 'g) event \<Rightarrow> ('w, 'g) main_window \<Rightarrow> scheduled_packet \<Rightarrow> bool" where
  "copied_by P (CaptureRuns clock) w x \<longleftrightarrow>
     (case fst (divert_recv_ex (driver (out P)) (world (outer w))) of
        Inl gle \<Rightarrow> False
      | Inr (bytes, addrs) \<Rightarrow>
          (\<exists>m \<in> set (stamped clock 0 (fst (batch_packets (parse_packet (driver (out P))) addrs bytes))).
             held_for (panel_effects (panel w)) m x))"
| "copied_by P _ w x \<longleftrightarrow> False"

fun copied_in :: "('m, 'w, 'g) platform \<Rightarrow> ('m, 'g) event list \<Rightarrow> ('w, 'g) main_window \<Rightarrow> scheduled_packet \<Rightarrow> bool" where
  "copied_in P [] w x \<longleftrightarrow> False"
| "copied_in P (e # es) w x \<longleftrightarrow>
     copied_by P e w x \<or> (case window_step P e w of None \<Rightarrow> False | Some w' \<Rightarrow> copied_in P es w' x)"

section \<open>The balance of a step\<close>

definition moves :: "departure list \<Rightarrow> scheduled_packet multiset \<Rightarrow> ('w, 'g) main_window \<Rightarrow> ('w, 'g) main_window \<Rightarrow> bool" where
  "moves ds new w w' \<longleftrightarrow>
     sends_of (calls (outer w')) = sends_of (calls (outer w)) @ map call_of ds \<and>
     window_held w + new = window_held w' + mset (concat (map delayed_in ds))"

lemma moves_trans: "moves ds a w w1 \<Longrightarrow> moves es b w1 w2 \<Longrightarrow> moves (ds @ es) (a + b) w w2"
  unfolding moves_def by (simp add: ac_simps) (metis add.assoc add.commute)

text \<open>What most events leave alone.\<close>

definition still :: "('w, 'g) main_window \<Rightarrow> ('w, 'g) main_window \<Rightarrow> bool" where
  "still w w' \<longleftrightarrow> interceptor_obj w' = interceptor_obj w \<and> calls (outer w') = calls (outer w)"

lemma still_moves: "still w w' \<Longrightarrow> moves [] {#} w w'"
  by (simp add: still_def moves_def window_held_def)

lemma moves_still: "moves ds a w w1 \<Longrightarrow> still w1 w2 \<Longrightarrow> moves ds a w w2"
  by (simp add: still_def moves_def window_held_def)

lemma still_before: "still w w1 \<Longrightarrow> moves ds a w1 w2 \<Longrightarrow> moves ds a w w2"
  by (simp add: still_def moves_def window_held_def)

lemma still_ops [simp]:
  "still w w"   "still w (UpdatePipelineStatus m as e z) = still w z" "still w (PlayToggleSound b z) = still w z"
  "still w (RefreshProcessList z) = still w z" "still w (warn m z) = still w z"
  "still w (select_item item z) = still w z" "still w (window_list_ready P procs z) = still w z"
  "still w (window_filter_changed P txt z) = still w z"
  by (simp_all add: still_def UpdatePipelineStatus_def PlayToggleSound_def RefreshProcessList_def warn_def select_item_def
      OnProcessSelectionChanged_def window_list_ready_def window_filter_changed_def Let_def split: option.split prod.split)

lemma ft_Stop_calls: "ft_Stop D t v = (t', v') \<Longrightarrow> calls v' = calls v"
  by (auto simp: ft_Stop_def Let_def split: if_splits)

lemma reset_tracker_still: "still w (reset_tracker X w)"
  by (auto simp: still_def reset_tracker_def ft_Stop_calls split: option.split prod.split)

lemma ft_Start_calls:
  assumes "table_answers T" and "ft_Start D T t v = Some (r, t', v')"
  shows "calls v' = calls v"
proof -
  have "calls u' = calls u" if "ForEachUdpEntry T u = Some (b, es, u')" for b es u u'
    using ForEachUdpEntry_total [OF assms(1) table_rows_True, of u] that by auto
  with assms(2) show ?thesis
    by (auto simp: ft_Start_def BootstrapFromSystem_def Let_def split: if_splits prod.splits option.splits)
qed

lemma tracking_round_calls: "tracking_round D n t v = (z, n', t', v') \<Longrightarrow> calls v' = calls v"
  by (auto simp: tracking_round_def Let_def split: sum.splits prod.splits recv_failure_action.splits if_splits)

lemma tracking_thread_still: "still w (tracking_thread P w)"
  by (auto simp: still_def tracking_thread_def dest: tracking_round_calls split: option.split prod.split)

section \<open>Stopping\<close>

lemma pi_Stop_sends:
  assumes "\<And>q. delay p = Some q \<Longrightarrow> dq_inv q" and "pi_Stop D p v = Some (p', v')"
  shows "\<exists>ps. mset ps = pipe_held p \<and> sends_of (calls v') = sends_of (calls v) @ map single_send ps \<and> delay p' = None"
proof (cases "delay p")
  case None
  then show ?thesis using assms(2) by (auto simp: pi_Stop_def pipe_held_def Let_def)
next
  case (Some q)
  let ?q = "q\<lparr>running := False, thread_alive := False\<rparr>"
  let ?v = "if pi_handle p then v\<lparr>world := divert_shutdown D LayerNetwork ShutdownRecv (world v)\<rparr> else v"
  have "dq_inv ?q" "held ?q = held q" using assms(1) [OF Some] by (simp_all add: dq_inv_def held_slots_def held_def)
  from FlushPackets_spec [OF this(1), of D ?v] this(2) obtain q' v1 ps where
    "FlushPackets D ?q ?v = Some (q', v1)" "mset ps = held q" "sends_of (calls v1) = sends_of (calls v) @ map single_send ps"
    by auto
  then show ?thesis using Some assms(2) by (auto simp: pi_Stop_def dq_Stop_def pipe_held_def Let_def)
qed

definition stops :: "('w, 'g) main_window \<Rightarrow> ('w, 'g) main_window \<Rightarrow> bool" where
  "stops w w' \<longleftrightarrow> (\<exists>ps. moves (map OnStop ps) {#} w w')"

lemma stops_trans: "stops w w1 \<Longrightarrow> stops w1 w2 \<Longrightarrow> stops w w2"
  unfolding stops_def by (metis add_0 map_append moves_trans)

lemma still_stops: "still w w' \<Longrightarrow> stops w w'"
  using still_moves [of w w'] by (auto simp: stops_def intro: exI [of _ "[]"])

lemma stops_still: "stops w w1 \<Longrightarrow> still w1 w2 \<Longrightarrow> stops w w2"
  unfolding stops_def by (metis moves_still)

lemma still_then_stops: "still w w1 \<Longrightarrow> stops w1 w2 \<Longrightarrow> stops w w2"
  unfolding stops_def by (metis still_before)

lemma delayed_on_stop [simp]: "concat (map (delayed_in \<circ> OnStop) ps) = ps" "map (call_of \<circ> OnStop) ps = map single_send ps"
  by (induction ps) simp_all

lemma interceptor_stops:
  assumes "interceptor_obj w = Some p" and "\<And>q. delay p = Some q \<Longrightarrow> dq_inv q" and "pi_Stop D p (outer w) = Some (p', v)"
    and "interceptor_obj w' = None \<or> interceptor_obj w' = Some p'" and "outer w' = v"
  shows "stops w w'"
proof -
  from pi_Stop_sends [OF assms(2,3)] obtain ps where
    "mset ps = pipe_held p" "sends_of (calls v) = sends_of (calls (outer w)) @ map single_send ps" "delay p' = None" by blast
  then have "moves (map OnStop ps) {#} w w'"
    using assms(1,4,5) by (auto simp: moves_def window_held_def pipe_held_def)
  then show ?thesis by (auto simp: stops_def)
qed

lemma reset_interceptor_stops:
  assumes "\<And>p q. interceptor_obj w = Some p \<Longrightarrow> delay p = Some q \<Longrightarrow> dq_inv q" and "reset_interceptor X w = Some w'"
  shows "stops w w'"
proof (cases "interceptor_obj w")
  case None
  then show ?thesis using assms(2) by (simp add: reset_interceptor_def still_stops still_def)
next
  case (Some p)
  then show ?thesis using assms(2) interceptor_stops [OF Some assms(1) [OF Some], of "driver X"]
    by (auto simp: reset_interceptor_def split: option.splits)
qed

lemma stop_objects_stops:
  assumes "objects_ok (tracker_obj w) (interceptor_obj w)" and "stop_objects X w = Some w'"
  shows "stops w w'"
proof -
  define stop_first where "stop_first = (case interceptor_obj w of None \<Rightarrow> Some w
    | Some p \<Rightarrow> (case pi_Stop (driver X) p (outer w) of None \<Rightarrow> None
        | Some (p, v) \<Rightarrow> reset_interceptor X (w\<lparr>interceptor_obj := Some p, outer := v\<rparr>)))"
  obtain w1 where w1: "stop_first = Some w1" and w': "w' = (case tracker_obj w1 of None \<Rightarrow> w1
      | Some t \<Rightarrow> (case ft_Stop (driver X) t (outer w1) of (t, v) \<Rightarrow> reset_tracker X (w1\<lparr>tracker_obj := Some t, outer := v\<rparr>)))"
    using assms(2) unfolding stop_objects_def stop_first_def by (auto split: option.splits)
  have "stops w w1"
  proof (cases "interceptor_obj w")
    case None
    then show ?thesis using w1 by (simp add: stop_first_def still_stops still_def)
  next
    case (Some p)
    have q: "\<And>q. delay p = Some q \<Longrightarrow> dq_inv q" using assms(1) Some by (auto simp: objects_ok_def)
    obtain p1 v1 where s1: "pi_Stop (driver X) p (outer w) = Some (p1, v1)"
      and r: "reset_interceptor X (w\<lparr>interceptor_obj := Some p1, outer := v1\<rparr>) = Some w1"
      using w1 Some by (auto simp: stop_first_def split: option.splits)
    have "stops w (w\<lparr>interceptor_obj := Some p1, outer := v1\<rparr>)" by (rule interceptor_stops [OF Some q s1]) simp_all
    moreover have "stops (w\<lparr>interceptor_obj := Some p1, outer := v1\<rparr>) w1"
      by (rule reset_interceptor_stops [OF _ r]) (use pi_Stop_result [OF s1] in simp)
    ultimately show ?thesis by (rule stops_trans)
  qed
  moreover have "still w1 w'"
    unfolding w' by (auto simp: still_def ft_Stop_calls reset_tracker_def split: option.split prod.split)
  ultimately show ?thesis by (rule stops_still)
qed

lemma StopPipeline_stops:
  assumes "objects_ok (tracker_obj w) (interceptor_obj w)" and "StopPipeline P w = Some w'"
  shows "stops w w'"
proof (cases "is_running w")
  case True
  then obtain w1 where w1: "stop_objects (out P) w = Some w1" "still w1 w'"
    using assms(2) by (auto simp: StopPipeline_def Let_def still_def split: option.splits)
      (simp_all add: PlayToggleSound_def UpdatePipelineStatus_def RefreshProcessList_def Let_def)
  from stop_objects_stops [OF assms(1) w1(1)] w1(2) show ?thesis by (rule stops_still)
next
  case False
  then show ?thesis using assms(2) by (simp add: StopPipeline_def still_stops still_def)
qed

section \<open>Starting\<close>

lemma set_param_calls [simp]: "calls (set_param D prm x msg v) = calls v"
  by (simp add: set_param_def Let_def split: prod.split)

lemma pi_Start_calls:
  assumes "alloc_ok al pad" and "\<not> pi_running p" and "delay p = None" and "pi_Start D al pad p v = Some (r, p', v')"
  shows "calls v' = calls v \<and> pipe_held p' = {#} \<and> (r \<noteq> Inr () \<longrightarrow> delay p' = None)"
proof -
  obtain q where q: "DelayQueue_new al pad = Some q" "held q = {#}" using DelayQueue_new_ok [OF assms(1)] by blast
  have "held (dq_Start q) = {#}" using q(2) by (simp add: dq_Start_def held_def held_slots_def)
  then show ?thesis using assms(2-4) q(1)
    by (auto simp: pi_Start_def pipe_held_def Let_def split: prod.splits if_splits)
qed

lemma start_interceptor_still:
  assumes "platform_ok P" and "interceptor_obj w = None" and "start_interceptor P s1 s2 t w = Some w'"
  shows "moves [] {#} w w'"
proof -
  let ?p = "pi_SetFatalCallback True (PacketInterceptor_new t (target_pids w) (panel_effects (panel w)) s1 s2)"
  obtain r p1 v1 where st: "pi_Start (driver (out P)) (ring_alloc P) (ring_pad P) ?p (outer w) = Some (r, p1, v1)"
    using assms(3) by (auto simp: start_interceptor_def Let_def split: option.splits)
  have al: "alloc_ok (ring_alloc P) (ring_pad P)" and new: "\<not> pi_running ?p" "delay ?p = None"
    using assms(1) by (simp_all add: platform_ok_def pi_SetFatalCallback_def PacketInterceptor_new_def)
  note c = pi_Start_calls [OF al new st]
  show ?thesis
  proof (cases r)
    case (Inr u)
    then show ?thesis using st assms(2,3) c
      by (auto simp: start_interceptor_def moves_def window_held_def PlayToggleSound_def UpdatePipelineStatus_def Let_def)
  next
    case (Inl e)
    let ?w = "w\<lparr>interceptor_obj := Some p1, outer := v1\<rparr>"
    obtain w1 where w1: "reset_interceptor (out P) (UpdatePipelineStatus (ToUserMessage e) [] True ?w) = Some w1"
      and w': "w' = reset_tracker (out P) w1"
      using assms(3) st Inl by (auto simp: start_interceptor_def Let_def)
    have "still w w1"
      using w1 c Inl assms(2) pi_Stop_sends [of p1]
      by (auto simp: reset_interceptor_def UpdatePipelineStatus_def still_def pi_Stop_def Let_def split: option.splits if_splits)
    then have "moves [] {#} w w1" by (rule still_moves)
    then show ?thesis unfolding w' using reset_tracker_still by (rule moves_still)
  qed
qed

lemma start_pipeline_for_still:
  assumes "platform_ok P" and "interceptor_obj w = None" and "start_pipeline_for P s1 s2 i w = Some w'"
  shows "moves [] {#} w w'"
proof -
  let ?w = "w\<lparr>selected_process_identity := i, target_pids := SetSelectedPid (id_pid i) (target_pids w)\<rparr>"
  let ?u = "reset_tracker (out P) ?w" and ?t = "SetFatalCallback True flow_tracker_init"
  have s0: "still w ?u"
    using reset_tracker_still [where w = ?w and X = "out P"] by (simp add: still_def)
  obtain r t1 v1 where st: "ft_Start (driver (out P)) (udp_table (out P)) ?t (outer ?u) = Some (r, t1, v1)"
    using assms(3) by (auto simp: start_pipeline_for_def Let_def split: option.splits)
  have c: "calls v1 = calls (outer ?u)"
    using ft_Start_calls [OF _ st] assms(1) by (simp add: platform_ok_def outside_ok_def)
  show ?thesis
  proof (cases r)
    case (Inl e)
    let ?w1 = "UpdatePipelineStatus (ToUserMessage e) [] True (?u\<lparr>tracker_obj := Some t1, outer := v1\<rparr>)"
    have w': "w' = reset_tracker (out P) ?w1" using assms(3) st Inl by (simp add: start_pipeline_for_def Let_def)
    have "still w ?w1" using s0 c by (simp add: still_def) (simp add: UpdatePipelineStatus_def)
    then have "moves [] {#} w ?w1" by (rule still_moves)
    then show ?thesis unfolding w' using reset_tracker_still by (rule moves_still)
  next
    case (Inr u)
    let ?w1 = "?u\<lparr>tracker_obj := Some t1, tracking_loop := Some 0, outer := v1\<rparr>"
    have s1: "still w ?w1" using s0 c by (simp add: still_def)
    then have n: "interceptor_obj ?w1 = None" using assms(2) by (simp add: still_def)
    then have "reset_interceptor (out P) ?w1 = Some ?w1" by (simp add: reset_interceptor_def)
    then have "start_interceptor P s1 s2 t1 ?w1 = Some w'"
      using assms(3) st Inr by (simp add: start_pipeline_for_def Let_def)
    from still_before [OF s1 start_interceptor_still [OF assms(1) n this]] show ?thesis .
  qed
qed

lemma StartPipeline_still:
  assumes "platform_ok P" and "interceptor_obj w = None" and "StartPipeline P now s1 s2 w = Some w'"
  shows "moves [] {#} w w'"
proof -
  have "moves [] {#} w w'" if "still w w'" using that by (rule still_moves)
  with assms(3) start_pipeline_for_still [OF assms(1,2)] show ?thesis
    by (auto simp: StartPipeline_def Let_def still_def split: option.splits if_splits)
      (simp_all add: warn_def RefreshProcessList_def)
qed

section \<open>Every event keeps the balance\<close>

lemma referred_ok:
  assumes "platform_ok P" and "win_inv P w0 w" and "tracker_obj w = Some t" and "interceptor_obj w = Some p"
  shows "outside_ok (out P) \<and> pl_inv (referred w t p) \<and> (\<exists>q. delay p = Some q \<and> delay (referred w t p) = Some q)"
proof -
  have inv: "panel_inv (panel w)" "targets_ok (target_pids w) (selected_process_identity w)" "objects_ok (Some t) (Some p)"
    using assms(2-4) by (simp_all add: win_inv_def)
  then have "configs_ok (panel w)" by (simp add: panel_inv_def core_ok_def)
  then have "config_ok (cfg True (panel w))" "config_ok (cfg False (panel w))" by (simp_all add: configs_ok_def)
  moreover obtain q where "delay p = Some q" "dq_inv q" "ft_inv t" using inv(3) by (auto simp: objects_ok_def)
  ultimately show ?thesis using assms(1) inv(2)
    by (simp add: platform_ok_def pl_inv_def referred_def targets_ok_def cfg_def ConfigForDirection_def)
qed

lemma captures_move:
  assumes "platform_ok P" and "win_inv P w0 w" and "capture_thread P clock w = Some w'"
  shows "\<exists>ds new. departs_on (CaptureRuns clock :: ('m, 'g) event) ds \<and> moves ds new w w' \<and>
    (\<forall>x \<in># new. copied_by P (CaptureRuns clock) w x)"
proof (cases "\<exists>n t p. capture_loop w = Some n \<and> tracker_obj w = Some t \<and> interceptor_obj w = Some p \<and> pi_running p")
  case True
  then obtain n t p where ntp: "capture_loop w = Some n" "tracker_obj w = Some t" "interceptor_obj w = Some p" "pi_running p" by blast
  let ?X = "out P" and ?s = "referred w t p"
  obtain q where q: "delay p = Some q" "delay ?s = Some q" "pl_inv ?s" and X: "outside_ok ?X"
    using referred_ok [OF assms(1,2) ntp(2,3)] by blast
  obtain z n' p' v where r: "capture_round ?X clock n ?s (outer w) = Some (z, n', p', v)"
    and w': "interceptor_obj w' = Some p'" "outer w' = v"
    using assms(3) ntp by (auto simp: capture_thread_def split: option.splits)
  obtain a wd where rv: "divert_recv_ex (driver ?X) (world (outer w)) = (a, wd)" by force
  show ?thesis
  proof (cases a)
    case (Inl gle)
    obtain act n2 d where "ClassifyRecvFailure gle n ''PacketInterceptor'' (logs (outer w)) = (act, n2, d)" by (metis prod_cases3)
    then have "delay p' = Some q" "calls v = calls (outer w)"
      using r rv Inl q(2) by (cases act; auto simp: capture_round_def pi_NotifyFatal_def Let_def)+
    then have "moves [] {#} w w'" using w' ntp(3) q(1) by (simp add: moves_def window_held_def pipe_held_def)
    then show ?thesis by (intro exI [of _ "[]"] exI [of _ "{#}"]) simp
  next
    case (Inr ba)
    obtain bytes addrs where ba: "ba = (bytes, addrs)" by force
    obtain pks rb ra where b: "batch_packets (parse_packet (driver ?X)) addrs bytes = (pks, rb, ra)" by (metis prod_cases3)
    from process_batch_spec [OF X q(3,2) b, of clock "(outer w)\<lparr>world := wd\<rparr>"] obtain s1 q1 v1 xs new where
      pb: "process_batch ?X clock bytes addrs ?s ((outer w)\<lparr>world := wd\<rparr>) = Some (s1, v1)" "delay s1 = Some q1" "held q1 = held q + new"
      "\<forall>x \<in># new. \<exists>m \<in> set (stamped clock 0 pks). held_for (effects ?s) m x"
      "sends_of (calls v1) = sends_of (calls (outer w)) @ (if xs = [] \<and> ra = [] then []
         else [(concat (map fst xs) @ rb, map snd xs @ ra)])"
      by auto
    let ?ds = "if xs = [] \<and> ra = [] then [] else [AtOnce (concat (map fst xs) @ rb) (map snd xs @ ra)]"
    have "p' = s1" "v = v1" using r rv Inr ba pb(1) by (simp_all add: capture_round_def)
    then have "moves ?ds new w w'"
      using w' ntp(3) q(1) pb(2,3,5) by (simp add: moves_def window_held_def pipe_held_def)
    moreover have "\<forall>x \<in># new. copied_by P (CaptureRuns clock) w x"
      using pb(4) rv Inr ba b by (simp add: referred_def)
    ultimately show ?thesis by (intro exI [of _ ?ds] exI [of _ new]) simp
  qed
next
  case False
  then have "still w w'" using assms(3) by (auto simp: capture_thread_def still_def split: option.splits if_splits)
  then show ?thesis using still_moves by (intro exI [of _ "[]"] exI [of _ "{#}"]) simp
qed

lemma delay_thread_moves:
  assumes "win_inv P w0 w" and "delay_thread P now now2 w = Some w'"
  shows "\<exists>ds. departs_on (DelayRuns now now2 :: ('m, 'g) event) ds \<and> moves ds {#} w w'"
proof (cases "\<exists>p q. interceptor_obj w = Some p \<and> delay p = Some q \<and> running q")
  case True
  then obtain p q where pq: "interceptor_obj w = Some p" "delay p = Some q" "running q" by blast
  have "dq_inv q" using assms(1) pq by (auto simp: win_inv_def objects_ok_def)
  from drain_round_spec [OF this, of "driver (out P)" now now2 "outer w"] obtain pz q' v' ps where
    d: "drain_round (driver (out P)) now now2 q (outer w) = Some (pz, q', v')" "held q = mset ps + held q'"
      "sorted (map release_at ps)" "\<forall>p \<in> set ps. release_at p \<le> now" "length ps \<le> 128"
      "sends_of (calls v') = sends_of (calls (outer w)) @ (if ps = [] then [] else [batch_send ps])"
    unfolding kBatchSize_def by blast
  let ?ds = "if ps = [] then [] else [InRound ps]"
  have "w' = w\<lparr>interceptor_obj := Some (p\<lparr>delay := Some q'\<rparr>), outer := v'\<rparr>" using assms(2) pq d(1) by (simp add: delay_thread_def)
  then have "moves ?ds {#} w w'" using pq d(2,6) by (simp add: moves_def window_held_def pipe_held_def)
  then show ?thesis using d(3-5) by (intro exI [of _ ?ds]) simp
next
  case False
  then have "still w w'" using assms(2) by (auto simp: delay_thread_def still_def split: option.splits if_splits)
  then show ?thesis using still_moves by (intro exI [of _ "[]"]) simp
qed

lemma stops_moves: "stops w w' \<Longrightarrow> \<exists>ds. set ds \<subseteq> range OnStop \<and> moves ds {#} w w'"
  unfolding stops_def by (elim exE, rule_tac exI [of _ "map OnStop ps" for ps]) auto

lemma click_moves:
  assumes "platform_ok P" and "win_inv P w0 w" and "OnStartStopClicked P now s1 s2 w = Some w'"
  shows "\<exists>ds. set ds \<subseteq> range OnStop \<and> moves ds {#} w w'"
proof (cases "is_running w")
  case True
  have "stops w w'" by (rule StopPipeline_stops) (use assms True in \<open>simp_all add: win_inv_def OnStartStopClicked_def\<close>)
  then show ?thesis by (rule stops_moves)
next
  case False
  then have "interceptor_obj w = None" using assms(2) by (auto simp: win_inv_def visible_ok_def)
  from StartPipeline_still [OF assms(1) this] assms(3) False have "moves [] {#} w w'" by (simp add: OnStartStopClicked_def)
  then show ?thesis by (intro exI [of _ "[]"]) simp
qed

lemma field_still [simp]:
  "still w (w\<lparr>panel := p\<rparr>)" "still w (w\<lparr>sound_checked := b\<rparr>)" "still w (w\<lparr>volume := x\<rparr>)"
  by (simp_all add: still_def)

lemma hotkey_moves:
  assumes "platform_ok P" and "win_inv P w0 w" and "OnHotkeyTriggered P now s1 s2 a w = Some w'"
  shows "\<exists>ds. set ds \<subseteq> range OnStop \<and> moves ds {#} w w'"
proof (cases "a = kToggleEffects")
  case True
  with assms(3) click_moves [OF assms(1,2)] show ?thesis by (simp add: OnHotkeyTriggered_def)
next
  case False
  then have "still w w'" using assms(3) by (cases a) (auto simp: OnHotkeyTriggered_def)
  then show ?thesis by (intro stops_moves still_stops)
qed

lemma stop_after_moves:
  assumes "win_inv P w0 w" and "still w w1" and "objects_ok (tracker_obj w1) (interceptor_obj w1)" and "StopPipeline P w1 = Some w2" and "still w2 w'"
  shows "\<exists>ds. set ds \<subseteq> range OnStop \<and> moves ds {#} w w'"
  using stops_moves [OF still_then_stops [OF assms(2) stops_still [OF StopPipeline_stops [OF assms(3,4)] assms(5)]]] .

lemma fatal_moves:
  assumes "win_inv P w0 w" and "window_step P FatalDelivered w = Some w'"
  shows "\<exists>ds. set ds \<subseteq> range OnStop \<and> moves ds {#} w w'"
proof (cases "fatal_events w = [] \<or> \<not> is_running w")
  case True
  then have "still w w'" using assms(2) by (auto simp: OnPipelineFatal_def still_def split: list.splits)
  then show ?thesis by (intro stops_moves still_stops)
next
  case False
  then obtain gle later where "fatal_events w = gle # later" "is_running w" by (auto simp: neq_Nil_conv)
  with assms(2) obtain w2 where "StopPipeline P (w\<lparr>fatal_events := later\<rparr>) = Some w2"
    "w' = UpdatePipelineStatus ''Pipeline stopped unexpectedly (GLE=%1)'' [unat gle] True w2"
    by (auto simp: OnPipelineFatal_def)
  from stop_after_moves [OF assms(1) _ _ this(1)] this(2) assms(1) show ?thesis
    by (simp add: still_def win_inv_def) (simp add: UpdatePipelineStatus_def)
qed

lemma monitor_moves:
  assumes "win_inv P w0 w" and "CheckSelectedProcessIdentity P now w = Some w'"
  shows "\<exists>ds. set ds \<subseteq> range OnStop \<and> moves ds {#} w w'"
proof (cases "\<not> is_running w \<or> IsProcessIdentityCurrent (sys P) now (selected_process_identity w)")
  case True
  then have "still w w'" using assms(2) by (auto simp: CheckSelectedProcessIdentity_def split: if_splits)
  then show ?thesis by (intro stops_moves still_stops)
next
  case False
  let ?w = "w\<lparr>target_pids := Clear (target_pids w), selected_process_identity := no_identity\<rparr>"
  obtain w2 where "StopPipeline P ?w = Some w2"
    "w' = UpdatePipelineStatus ''Selected process exited or was replaced; stopped.'' [] True w2"
    using assms(2) False by (auto simp: CheckSelectedProcessIdentity_def)
  from stop_after_moves [OF assms(1) _ _ this(1)] this(2) assms(1) show ?thesis
    by (simp add: still_def win_inv_def) (simp add: UpdatePipelineStatus_def)
qed

lemma window_step_moves:
  assumes "platform_ok P" and "win_inv P w0 w" and "window_step P e w = Some w'"
  shows "\<exists>ds new. departs_on e ds \<and> moves ds new w w' \<and> new = taken_by e w w' \<and> (\<forall>x \<in># new. copied_by P e w x)"
proof -
  have quiet: "\<exists>ds new. departs_on e ds \<and> moves ds new w w' \<and> new = taken_by e w w' \<and> (\<forall>x \<in># new. copied_by P e w x)"
    if "departs_on e []" and "still w w'" and "taken_by e w w' = {#}"
    using that still_moves by (intro exI [of _ "[]"] exI [of _ "{#}"]) simp
  show ?thesis
  proof (cases e)
    case (CaptureRuns clock)
    then have "capture_thread P clock w = Some w'" using assms(3) by simp
    from captures_move [OF assms(1,2) this] obtain ds new where
      c: "departs_on (CaptureRuns clock :: ('a, 'c) event) ds" "moves ds new w w'" "\<forall>x \<in># new. copied_by P (CaptureRuns clock) w x"
      by blast
    have z: "concat (map delayed_in ds) = []" using c(1) by simp
    have "window_held w' = window_held w + new" using c(2) unfolding moves_def z by simp
    then have "new = window_held w' - window_held w" by simp
    with c CaptureRuns show ?thesis by (intro exI [of _ ds] exI [of _ new]) simp
  next
    case (DelayRuns now now2)
    then have "delay_thread P now now2 w = Some w'" using assms(3) by simp
    from delay_thread_moves [OF assms(2) this] DelayRuns show ?thesis by auto
  next
    case (PanelUsed a)
    with assms(3) show ?thesis by (intro quiet) auto
  next
    case TrackingRuns
    with assms(3) tracking_thread_still [of w P] show ?thesis by (intro quiet) simp_all
  next
    case (StartStopClicked now s1 s2)
    with assms(3) click_moves [OF assms(1,2)] show ?thesis by simp
  next
    case (HotkeyTriggered now s1 s2 a)
    with assms(3) hotkey_moves [OF assms(1,2)] show ?thesis by simp
  next
    case (MonitorTick now)
    show ?thesis
    proof (cases "target_monitor_timer w")
      case True
      with MonitorTick assms(3) monitor_moves [OF assms(2)] show ?thesis by simp
    next
      case False
      with MonitorTick assms(3) show ?thesis by (intro quiet) (simp_all add: still_def)
    qed
  next
    case FatalDelivered
    with assms(3) fatal_moves [OF assms(2), of w'] show ?thesis by simp
  qed (rule quiet; insert assms(3); auto split: if_splits)+
qed

section \<open>Runs\<close>

lemma window_run_moves:
  assumes "platform_ok P" and "win_inv P w0 w" and "window_run P es w = Some w'"
  shows "\<exists>dss. list_all2 departs_on es dss \<and> moves (concat dss) (taken_in P es w) w w' \<and>
    (\<forall>x \<in># taken_in P es w. copied_in P es w x)"
  using assms(2,3)
proof (induction es arbitrary: w)
  case Nil
  then show ?case by (simp add: moves_def)
next
  case (Cons e es)
  then obtain w1 where w1: "window_step P e w = Some w1" "window_run P es w1 = Some w'" by (auto simp: bind_eq_Some_conv)
  have "win_inv P w0 w1" using window_step_inv [OF assms(1) Cons.prems(1), of e] w1(1) by auto
  from Cons.IH [OF this w1(2)] obtain dss where
    r: "list_all2 departs_on es dss" "moves (concat dss) (taken_in P es w1) w1 w'" "\<forall>x \<in># taken_in P es w1. copied_in P es w1 x"
    by blast
  from window_step_moves [OF assms(1) Cons.prems(1) w1(1)] obtain ds where
    s: "departs_on e ds" "moves ds (taken_by e w w1) w w1" "\<forall>x \<in># taken_by e w w1. copied_by P e w x"
    by blast
  have "moves (concat (ds # dss)) (taken_in P (e # es) w) w w'" using moves_trans [OF s(2) r(2)] w1(1) by simp
  moreover have "\<forall>x \<in># taken_in P (e # es) w. copied_in P (e # es) w x" using r(3) s(3) w1(1) by auto
  moreover have "list_all2 departs_on (e # es) (ds # dss)" using r(1) s(1) by simp
  ultimately show ?case by blast
qed

section \<open>Properties\<close>

text \<open>
  C1: In the whole program every delayed packet leaves exactly once. Whatever the user, the timers and the
  threads do, with any number of starts and stops, errors of the driver included: what the capture
  rounds put into delay queues, each a copy of a packet the driver gave them, due no earlier than the delay
  then set for its direction, is exactly what left in the rounds of the delay thread, sorted, due and at most
  128 to a call, and one to a call in the stops, up to the last one when the program ends. No other event
  sends anything, and nothing is held at the end.
\<close>

theorem program_delays_conserved:
  assumes "platform_ok P"
  shows "\<exists>x w req w' dss flushed. program_main P S T es s v = Some (x, w, req, w') \<and> window_held w = {#} \<and>
    list_all2 departs_on es dss \<and>
    sends_of (calls (outer w)) = sends_of (calls v) @ map call_of (concat dss) @ map single_send flushed \<and>
    taken_in P es (win (session_start P S s v)) = mset (concat (map delayed_in (concat dss))) + mset flushed \<and>
    (\<forall>y \<in># taken_in P es (win (session_start P S s v)). copied_in P es (win (session_start P S s v)) y)"
proof -
  let ?start = "session_start P S s v"
  obtain x where r: "session_run P S es ?start = Some x" and i: "session_inv P S (world v) x"
    using session_total [OF assms] .
  have run: "window_run P es (win ?start) = Some (win x)" using session_run_window [of P S es ?start] r by simp
  have inv0: "win_inv P (world v) (win ?start)" and inv: "win_inv P (world v) (win x)"
    using session_start_inv [OF assms, of S v s] i by (simp_all add: session_inv_def)
  from window_run_moves [OF assms inv0 run] obtain dss where
    m: "list_all2 departs_on es dss" "moves (concat dss) (taken_in P es (win ?start)) (win ?start) (win x)"
      "\<forall>y \<in># taken_in P es (win ?start). copied_in P es (win ?start) y" by blast
  from StopPipeline_inv [OF inv] obtain w where w: "StopPipeline P (win x) = Some w" "win_inv P (world v) w" by blast
  have "objects_ok (tracker_obj (win x)) (interceptor_obj (win x))" using inv by (simp add: win_inv_def)
  from StopPipeline_stops [OF this w(1)] obtain flushed where f: "moves (map OnStop flushed) {#} (win x) w" by (auto simp: stops_def)
  have "\<not> is_running w"
  proof (cases "is_running (win x)")
    case True
    from StopPipeline_spec [OF inv True] w(1) show ?thesis by (auto simp: stopped_def)
  qed (use w(1) in \<open>simp add: StopPipeline_def\<close>)
  with w(2) have h: "window_held w = {#}" by (simp add: win_inv_def visible_ok_def window_held_def)
  have "window_held (win ?start) = {#}" "calls (outer (win ?start)) = calls v"
    by (simp_all add: session_start_def window_init_def window_held_def UpdatePipelineStatus_def RefreshProcessList_def split: prod.split)
  with moves_trans [OF m(2) f] h have
    "sends_of (calls (outer w)) = sends_of (calls v) @ map call_of (concat dss) @ map single_send flushed"
    "taken_in P es (win ?start) = mset (concat (map delayed_in (concat dss))) + mset flushed"
    by (simp_all add: moves_def)
  moreover obtain req w' where "program_main P S T es s v = Some (x, w, req, w')"
    using r w(1) by (cases "StopWinDivertService T (world (outer w))") (simp add: program_main_def MainWindow_destroy_def)
  ultimately show ?thesis using h m(1,3) by blast
qed

text \<open>Two starts, a capture round, a round of the delay thread and a stop.\<close>

definition sample_traffic :: "(bool, unit) event list" where
  "sample_traffic = start_events @ [CaptureRuns (\<lambda>_. 0), DelayRuns 5 5, StartStopClicked False () (), StartStopClicked False () ()]"

theorem program_delays_conserved_witness:
  "\<exists>x w req w' dss. program_main handles_platform map_store handles_services sample_traffic sounding_store (env_init ({#}, [])) = Some (x, w, req, w') \<and>
    window_held w = {#} \<and> list_all2 departs_on sample_traffic dss"
  using program_delays_conserved [OF handles_platform_ok, of map_store handles_services sample_traffic sounding_store "env_init ({#}, [])"] by blast

end
