(* ===== verification/Process_Handles.thy ===== *)
theory Process_Handles
  imports Process_Ident Interfaces
begin

text \<open>
  The handles behind the process list (src/platform/ProcessEnumerator.cpp): what is opened is closed on
  every path. The functions of \<open>Process_Ident\<close>, which ask the system at a moment, are what these functions
  compute call by call.
\<close>

section \<open>Handles\<close>

type_synonym handle = u64

definition nullptr :: handle where "nullptr = 0"
definition INVALID_HANDLE_VALUE :: handle where "INVALID_HANDLE_VALUE = - 1"
definition MAX_PATH :: nat where "MAX_PATH = 260"

text \<open>The calls on handles, each with the size of the buffer it is given where it has one.\<close>

record 'w handle_ops =
  open_process :: "u32 \<Rightarrow> 'w \<Rightarrow> handle \<times> 'w"
  image_name :: "handle \<Rightarrow> nat \<Rightarrow> 'w \<Rightarrow> wstring option \<times> 'w"
  process_times :: "handle \<Rightarrow> 'w \<Rightarrow> (u32 \<times> u32) option \<times> 'w"
  session_of :: "u32 \<Rightarrow> 'w \<Rightarrow> u32 option \<times> 'w"
  create_snapshot :: "'w \<Rightarrow> handle \<times> 'w"
  process_first :: "handle \<Rightarrow> 'w \<Rightarrow> process_entry option \<times> 'w"
  process_next :: "handle \<Rightarrow> 'w \<Rightarrow> process_entry option \<times> 'w"
  windows_directory :: "nat \<Rightarrow> 'w \<Rightarrow> (nat \<times> wstring) \<times> 'w"
  close_handle :: "handle \<Rightarrow> 'w \<Rightarrow> 'w"

definition HandleCloser :: "'w handle_ops \<Rightarrow> handle \<Rightarrow> 'w \<Rightarrow> 'w" where
  "HandleCloser K h w = (if h \<noteq> nullptr \<and> h \<noteq> INVALID_HANDLE_VALUE then close_handle K h w else w)"

text \<open>The function's static string, computed at the first call; the state is the world and that string.\<close>

definition GetWindowsDir :: "'w handle_ops \<Rightarrow> 'w \<times> wstring option \<Rightarrow> wstring \<times> 'w \<times> wstring option" where
  "GetWindowsDir K = (\<lambda>(w, dir).
     case dir of
       Some d \<Rightarrow> (d, w, dir)
     | None \<Rightarrow>
         (case windows_directory K MAX_PATH w of
            ((len, buffer), w) \<Rightarrow> (let d = take len buffer in (d, w, Some d))))"

definition read_identity :: "'w handle_ops \<Rightarrow> handle \<Rightarrow> u32 \<Rightarrow> 'w \<Rightarrow> (identity_error + process_identity) \<times> 'w" where
  "read_identity K process p w =
     (case image_name K process MAX_PATH w of
        (None, w) \<Rightarrow> (Inl kImagePathUnavailable, w)
      | (Some path, w) \<Rightarrow>
          (if path = [] then (Inl kImagePathUnavailable, w)
           else
             (case process_times K process w of
                (None, w) \<Rightarrow> (Inl kCreationTimeUnavailable, w)
              | (Some t, w) \<Rightarrow> (Inr \<lparr>id_pid = p, creation_time = FileTimeToUint64 t, exe_path = path\<rparr>, w))))"

definition get_identity :: "'w handle_ops \<Rightarrow> u32 \<Rightarrow> 'w \<Rightarrow> ((identity_error + process_identity) \<times> 'w) option" where
  "get_identity K p w =
     scoped (open_process K p) (HandleCloser K)
       (\<lambda>process w. Some (if process = nullptr then (Inl kOpenFailed, w) else read_identity K process p w)) w"

definition identity_current :: "'w handle_ops \<Rightarrow> 'm system_ops \<Rightarrow> process_identity \<Rightarrow> 'w \<Rightarrow> (bool \<times> 'w) option" where
  "identity_current K Y i w =
     (if \<not> identity_IsValid i then Some (False, w)
      else
        map_option (\<lambda>(r, w).
          (case r of
             Inl _ \<Rightarrow> False
           | Inr current \<Rightarrow> creation_time current = creation_time i \<and> EqualsInsensitive (fold_case Y) (exe_path current) (exe_path i), w))
          (get_identity K (id_pid i) w))"

definition is_system_path :: "'w handle_ops \<Rightarrow> 'm system_ops \<Rightarrow> wstring \<Rightarrow> 'w \<times> wstring option \<Rightarrow> bool \<times> 'w \<times> wstring option" where
  "is_system_path K Y path s =
     (if path = [] then (True, s)
      else (case GetWindowsDir K s of (win, s) \<Rightarrow> (IsSystemProcessPath (Y\<lparr>WindowsDirectory := win\<rparr>) path, s)))"

definition is_session_zero :: "'w handle_ops \<Rightarrow> u32 \<Rightarrow> 'w \<Rightarrow> bool \<times> 'w" where
  "is_session_zero K p w = (case session_of K p w of (None, w) \<Rightarrow> (False, w) | (Some session_id, w) \<Rightarrow> (session_id = 0, w))"

text \<open>The body of the loop over the snapshot. The session is asked for only if the path is no system path.\<close>

definition visit_process ::
  "'w handle_ops \<Rightarrow> 'm system_ops \<Rightarrow> process_entry \<Rightarrow> process_info list \<Rightarrow> 'w \<times> wstring option \<Rightarrow>
   (process_info list \<times> 'w \<times> wstring option) option" where
  "visit_process K Y entry result s =
     (let p = th32ProcessID entry in
      if p \<noteq> 0 \<and> p \<noteq> kSystemPid \<and> p \<noteq> GetCurrentProcessId Y then
        (case get_identity K p (fst s) of
           None \<Rightarrow> None
         | Some (Inl _, w) \<Rightarrow> Some (result, w, snd s)
         | Some (Inr identity, w) \<Rightarrow>
             (case is_system_path K Y (exe_path identity) (w, snd s) of
                (system, w, dir) \<Rightarrow>
                  (if system then Some (result, w, dir)
                   else
                     (case is_session_zero K p w of
                        (zero, w) \<Rightarrow>
                          Some (if zero then result
                                else result @ [\<lparr>info_pid = p, info_parent_pid = th32ParentProcessID entry,
                                       info_name = WideToUtf8 Y (szExeFile entry), info_exe_path = exe_path identity,
                                       info_creation_time = creation_time identity\<rparr>], w, dir)))))
      else Some (result, s))"

text \<open>The loop ends when the snapshot has no further entry.\<close>

partial_function (option) process_loop ::
  "'w handle_ops \<Rightarrow> 'm system_ops \<Rightarrow> handle \<Rightarrow> process_entry \<Rightarrow> process_info list \<Rightarrow> 'w \<times> wstring option \<Rightarrow>
   (process_info list \<times> 'w \<times> wstring option) option" where
  "process_loop K Y h entry result s =
     (case visit_process K Y entry result s of
        None \<Rightarrow> None
      | Some (result, w, dir) \<Rightarrow>
          (case process_next K h w of
             (None, w) \<Rightarrow> Some (result, w, dir)
           | (Some entry, w) \<Rightarrow> process_loop K Y h entry result (w, dir)))"

declare process_loop.simps [code]

definition on_world :: "('w \<Rightarrow> 'r \<times> 'w) \<Rightarrow> 'w \<times> 's \<Rightarrow> 'r \<times> 'w \<times> 's" where
  "on_world f s = (case f (fst s) of (r, w) \<Rightarrow> (r, w, snd s))"

definition enumerate_processes ::
  "'w handle_ops \<Rightarrow> 'm system_ops \<Rightarrow> 'w \<times> wstring option \<Rightarrow> (process_info list \<times> 'w \<times> wstring option) option" where
  "enumerate_processes K Y =
     scoped (on_world (create_snapshot K)) (\<lambda>h (w, dir). (HandleCloser K h w, dir))
       (\<lambda>snapshot s.
          if snapshot = INVALID_HANDLE_VALUE then Some ([], s)
          else
            (case on_world (process_first K snapshot) s of
               (None, s) \<Rightarrow> Some ([], s)
             | (Some entry, s) \<Rightarrow> process_loop K Y snapshot entry [] s))"

section \<open>What the system promises\<close>

text \<open>
  \<open>L\<close> are the open handles of the program and \<open>E h\<close> the entries a snapshot still has to give. A call on a
  handle is specified only while it is open. Calls that get no snapshot handle leave the snapshots alone.
\<close>

definition quiet_call :: "('w \<Rightarrow> handle multiset) \<Rightarrow> (handle \<Rightarrow> 'w \<Rightarrow> process_entry list) \<Rightarrow> 'w \<Rightarrow> 'w \<Rightarrow> bool" where
  "quiet_call L E w w' \<longleftrightarrow> L w' = L w \<and> (\<forall>g. E g w' = E g w)"

definition handles_lawful ::
  "'w handle_ops \<Rightarrow> wstring \<Rightarrow> ('w \<Rightarrow> handle multiset) \<Rightarrow> (handle \<Rightarrow> 'w \<Rightarrow> process_entry list) \<Rightarrow> bool" where
  "handles_lawful K win L E \<longleftrightarrow>
     (\<forall>p w h w'. open_process K p w = (h, w') \<longrightarrow> h \<noteq> INVALID_HANDLE_VALUE \<and> (h \<noteq> nullptr \<longrightarrow> h \<notin># L w) \<and>
        L w' = (if h = nullptr then L w else add_mset h (L w)) \<and> (\<forall>g \<in># L w. E g w' = E g w)) \<and>
     (\<forall>h n w r w'. h \<in># L w \<longrightarrow> image_name K h n w = (r, w') \<longrightarrow> quiet_call L E w w') \<and>
     (\<forall>h w r w'. h \<in># L w \<longrightarrow> process_times K h w = (r, w') \<longrightarrow> quiet_call L E w w') \<and>
     (\<forall>p w r w'. session_of K p w = (r, w') \<longrightarrow> quiet_call L E w w') \<and>
     (\<forall>n w len buffer w'. windows_directory K n w = ((len, buffer), w') \<longrightarrow> quiet_call L E w w' \<and> take len buffer = win) \<and>
     (\<forall>w h w'. create_snapshot K w = (h, w') \<longrightarrow> h \<noteq> nullptr \<and> (h \<noteq> INVALID_HANDLE_VALUE \<longrightarrow> h \<notin># L w) \<and>
        L w' = (if h = INVALID_HANDLE_VALUE then L w else add_mset h (L w))) \<and>
     (\<forall>h w r w'. h \<in># L w \<longrightarrow> process_first K h w = (r, w') \<longrightarrow> L w' = L w) \<and>
     (\<forall>h w. h \<in># L w \<longrightarrow> (\<exists>w'. process_next K h w = (case E h w of [] \<Rightarrow> None | e # _ \<Rightarrow> Some e, w') \<and> L w' = L w \<and> E h w' = tl (E h w))) \<and>
     (\<forall>h w. h \<in># L w \<longrightarrow> L (close_handle K h w) = L w - {#h#} \<and> (\<forall>g. g \<noteq> h \<longrightarrow> E g (close_handle K h w) = E g w))"

text \<open>
  The system as \<open>Process_Ident\<close> asks it: at the moment a process is looked at, the answers are what the
  calls give one after the other.
\<close>

definition system_of ::
  "'w handle_ops \<Rightarrow> 'm system_ops \<Rightarrow> wstring \<Rightarrow> (handle \<Rightarrow> 'w \<Rightarrow> process_entry list) \<Rightarrow> ('w \<times> wstring option) system_ops" where
  "system_of K Y win E =
     \<lparr>OpenProcess = (\<lambda>p (w, dir). fst (open_process K p w) \<noteq> nullptr),
      QueryFullProcessImageName = (\<lambda>p (w, dir). case open_process K p w of (h, w) \<Rightarrow> fst (image_name K h MAX_PATH w)),
      GetProcessTimes = (\<lambda>p (w, dir). case open_process K p w of (h, w) \<Rightarrow>
        (case image_name K h MAX_PATH w of (_, w) \<Rightarrow> fst (process_times K h w))),
      ProcessIdToSessionId = (\<lambda>p (w, dir). case get_identity K p w of
          Some (Inr identity, w) \<Rightarrow> (case is_system_path K Y (exe_path identity) (w, dir) of (_, w, dir) \<Rightarrow> fst (session_of K p w))
        | _ \<Rightarrow> None),
      Toolhelp32Snapshot = (\<lambda>(w, dir). case create_snapshot K w of (h, w) \<Rightarrow>
        (if h = INVALID_HANDLE_VALUE then None
         else (case process_first K h w of (None, w) \<Rightarrow> Some [] | (Some entry, w) \<Rightarrow> Some (entry # E h w)))),
      GetCurrentProcessId = GetCurrentProcessId Y, WindowsDirectory = win, fold_case = fold_case Y,
      utf8_length = utf8_length Y, utf8_write = utf8_write Y\<rparr>"

section \<open>One process\<close>

lemma quiet_call_refl [simp]: "quiet_call L E w w"
  by (simp add: quiet_call_def)

lemma quiet_call_trans: "quiet_call L E w w1 \<Longrightarrow> quiet_call L E w1 w2 \<Longrightarrow> quiet_call L E w w2"
  by (simp add: quiet_call_def)

lemma lawsD:
  assumes "handles_lawful K win L E"
  shows "open_process K p w = (h, w') \<Longrightarrow> h \<noteq> INVALID_HANDLE_VALUE \<and> (h \<noteq> nullptr \<longrightarrow> h \<notin># L w) \<and>
      L w' = (if h = nullptr then L w else add_mset h (L w)) \<and> (\<forall>g \<in># L w. E g w' = E g w)"
    and "h \<in># L w \<Longrightarrow> image_name K h n w = (r, w') \<Longrightarrow> quiet_call L E w w'"
    and "h \<in># L w \<Longrightarrow> process_times K h w = (t, w') \<Longrightarrow> quiet_call L E w w'"
    and "session_of K p w = (x, w') \<Longrightarrow> quiet_call L E w w'"
    and "windows_directory K n w = ((len, buffer), w') \<Longrightarrow> quiet_call L E w w' \<and> take len buffer = win"
    and "create_snapshot K w = (h, w') \<Longrightarrow> h \<noteq> nullptr \<and> (h \<noteq> INVALID_HANDLE_VALUE \<longrightarrow> h \<notin># L w) \<and>
      L w' = (if h = INVALID_HANDLE_VALUE then L w else add_mset h (L w))"
    and "h \<in># L w \<Longrightarrow> process_first K h w = (e, w') \<Longrightarrow> L w' = L w"
    and "h \<in># L w \<Longrightarrow> \<exists>w'. process_next K h w = (case E h w of [] \<Rightarrow> None | e # _ \<Rightarrow> Some e, w') \<and> L w' = L w \<and> E h w' = tl (E h w)"
    and "h \<in># L w \<Longrightarrow> L (close_handle K h w) = L w - {#h#} \<and> (\<forall>g. g \<noteq> h \<longrightarrow> E g (close_handle K h w) = E g w)"
proof -
  note h = assms [unfolded handles_lawful_def]
  show "open_process K p w = (h, w') \<Longrightarrow> h \<noteq> INVALID_HANDLE_VALUE \<and> (h \<noteq> nullptr \<longrightarrow> h \<notin># L w) \<and>
      L w' = (if h = nullptr then L w else add_mset h (L w)) \<and> (\<forall>g \<in># L w. E g w' = E g w)"
    using h [THEN conjunct1] by blast
  show "h \<in># L w \<Longrightarrow> image_name K h n w = (r, w') \<Longrightarrow> quiet_call L E w w'"
    using h [THEN conjunct2, THEN conjunct1] by blast
  show "h \<in># L w \<Longrightarrow> process_times K h w = (t, w') \<Longrightarrow> quiet_call L E w w'"
    using h [THEN conjunct2, THEN conjunct2, THEN conjunct1] by blast
  show "session_of K p w = (x, w') \<Longrightarrow> quiet_call L E w w'"
    using h [THEN conjunct2, THEN conjunct2, THEN conjunct2, THEN conjunct1] by blast
  show "windows_directory K n w = ((len, buffer), w') \<Longrightarrow> quiet_call L E w w' \<and> take len buffer = win"
    using h [THEN conjunct2, THEN conjunct2, THEN conjunct2, THEN conjunct2, THEN conjunct1] by blast
  show "create_snapshot K w = (h, w') \<Longrightarrow> h \<noteq> nullptr \<and> (h \<noteq> INVALID_HANDLE_VALUE \<longrightarrow> h \<notin># L w) \<and>
      L w' = (if h = INVALID_HANDLE_VALUE then L w else add_mset h (L w))"
    using h [THEN conjunct2, THEN conjunct2, THEN conjunct2, THEN conjunct2, THEN conjunct2, THEN conjunct1] by blast
  show "h \<in># L w \<Longrightarrow> process_first K h w = (e, w') \<Longrightarrow> L w' = L w"
    using h [THEN conjunct2, THEN conjunct2, THEN conjunct2, THEN conjunct2, THEN conjunct2, THEN conjunct2, THEN conjunct1] by blast
  show "h \<in># L w \<Longrightarrow> \<exists>w'. process_next K h w = (case E h w of [] \<Rightarrow> None | e # _ \<Rightarrow> Some e, w') \<and> L w' = L w \<and> E h w' = tl (E h w)"
    using h [THEN conjunct2, THEN conjunct2, THEN conjunct2, THEN conjunct2, THEN conjunct2, THEN conjunct2, THEN conjunct2, THEN conjunct1] by blast
  show "h \<in># L w \<Longrightarrow> L (close_handle K h w) = L w - {#h#} \<and> (\<forall>g. g \<noteq> h \<longrightarrow> E g (close_handle K h w) = E g w)"
    using h [THEN conjunct2, THEN conjunct2, THEN conjunct2, THEN conjunct2, THEN conjunct2, THEN conjunct2, THEN conjunct2, THEN conjunct2] by blast
qed

abbreviation real_handle :: "handle \<Rightarrow> bool" where
  "real_handle h \<equiv> h \<noteq> nullptr \<and> h \<noteq> INVALID_HANDLE_VALUE"

interpretation process: scoped_resource "open_process K p" "HandleCloser K" real_handle L "handles_lawful K win L E" for K p win L E
  by unfold_locales (auto simp: HandleCloser_def dest: lawsD(1) lawsD(9))

interpretation snapshot: scoped_resource "on_world (create_snapshot K)" "\<lambda>h (w, dir). (HandleCloser K h w, dir)" real_handle
    "\<lambda>s. L (fst s)" "handles_lawful K win L E" for K win L E
  by unfold_locales (auto simp: HandleCloser_def on_world_def split: prod.splits dest: lawsD(6) lawsD(9))

section \<open>One process\<close>

lemma read_identity_quiet:
  assumes "handles_lawful K win L E" and "h \<in># L w" and "read_identity K h p w = (r, w')"
  shows "quiet_call L E w w'"
proof -
  obtain n w1 where 1: "image_name K h MAX_PATH w = (n, w1)" by force
  note q1 = lawsD(2) [OF assms(1,2) 1]
  then have "h \<in># L w1" using assms(2) by (simp add: quiet_call_def)
  then have "process_times K h w1 = (t, w2) \<Longrightarrow> quiet_call L E w w2" for t w2
    using lawsD(3) [OF assms(1)] quiet_call_trans [OF q1] by blast
  then show ?thesis using assms(3) 1 q1 by (auto simp: read_identity_def split: option.splits if_splits prod.splits)
qed

text \<open>What a look at a process leaves alone: the open handles, and what open snapshots still have to give.\<close>

definition keeps_handles :: "('w \<Rightarrow> handle multiset) \<Rightarrow> (handle \<Rightarrow> 'w \<Rightarrow> process_entry list) \<Rightarrow> 'w \<Rightarrow> 'w \<Rightarrow> bool" where
  "keeps_handles L E w w' \<longleftrightarrow> L w' = L w \<and> (\<forall>g \<in># L w. E g w' = E g w)"

lemma keeps_handles_refl [simp]: "keeps_handles L E w w"
  by (simp add: keeps_handles_def)

lemma keeps_handles_trans: "keeps_handles L E w w1 \<Longrightarrow> keeps_handles L E w1 w2 \<Longrightarrow> keeps_handles L E w w2"
  by (simp add: keeps_handles_def)

lemma quiet_keeps: "quiet_call L E w w' \<Longrightarrow> keeps_handles L E w w'"
  by (simp add: quiet_call_def keeps_handles_def)

lemma get_identity_spec:
  assumes "handles_lawful K win L E"
  shows "\<exists>w'. get_identity K p w = Some (GetProcessIdentity (system_of K Y win E) (w, dir) p, w') \<and> keeps_handles L E w w'"
proof -
  obtain h w1 where o: "open_process K p w = (h, w1)" by force
  note l = lawsD(1) [OF assms o]
  show ?thesis
  proof (cases "h = nullptr")
    case True
    then show ?thesis using o l
      by (simp add: get_identity_def scoped_def HandleCloser_def GetProcessIdentity_def system_of_def keeps_handles_def)
  next
    case False
    obtain r w2 where r: "read_identity K h p w1 = (r, w2)" by force
    have h: "h \<in># L w1" using l False by simp
    from read_identity_quiet [OF assms h r] have q: "L w2 = L w1" "\<forall>g. E g w2 = E g w1" by (simp_all add: quiet_call_def)
    have res: "r = GetProcessIdentity (system_of K Y win E) (w, dir) p"
      using r o False
      by (auto simp: read_identity_def GetProcessIdentity_def ReadProcessIdentity_def system_of_def split: option.splits if_splits prod.splits)
    have g: "get_identity K p w = Some (r, close_handle K h w2)"
      using o r l False by (simp add: get_identity_def scoped_def HandleCloser_def)
    have "L (close_handle K h w2) = L w"
      by (rule process.scoped_balanced [OF assms g [unfolded get_identity_def]]) (use o r q False in auto)
    then have "keeps_handles L E w (close_handle K h w2)"
      using lawsD(9) [OF assms, of h w2] l q h False by (auto simp: keeps_handles_def)
    then show ?thesis using g res by simp
  qed
qed

definition dir_ok :: "wstring \<Rightarrow> wstring option \<Rightarrow> bool" where
  "dir_ok win dir \<longleftrightarrow> dir = None \<or> dir = Some win"

lemma is_system_path_spec:
  assumes "handles_lawful K win L E" and "dir_ok win dir"
  shows "\<exists>w' dir'. is_system_path K Y path (w, dir) = (IsSystemProcessPath (system_of K Y win E) path, w', dir') \<and>
    keeps_handles L E w w' \<and> dir_ok win dir'"
proof -
  have same: "IsSystemProcessPath (Y\<lparr>WindowsDirectory := win\<rparr>) path = IsSystemProcessPath (system_of K Y win E) path"
    by (simp add: IsSystemProcessPath_def system_of_def Let_def)
  obtain len buffer w1 where d: "windows_directory K MAX_PATH w = ((len, buffer), w1)" by (metis prod.exhaust)
  note l = lawsD(5) [OF assms(1) d]
  show ?thesis
  proof (cases "path = []")
    case True
    then show ?thesis using assms(2) by (simp add: is_system_path_def IsSystemProcessPath_def)
  next
    case False
    then show ?thesis using assms(2) same d l quiet_keeps [of L E w w1]
      by (cases dir) (auto simp: is_system_path_def GetWindowsDir_def dir_ok_def Let_def)
  qed
qed

lemma WideToUtf8_system [simp]: "WideToUtf8 (system_of K Y win E) = WideToUtf8 Y"
  by (simp add: WideToUtf8_def system_of_def fun_eq_iff Let_def)

lemma visit_process_spec:
  assumes "handles_lawful K win L E" and "dir_ok win dir"
  shows "\<exists>w' dir'. visit_process K Y entry result (w, dir) =
      Some (result @ (case listed (system_of K Y win E) (w, dir) entry of None \<Rightarrow> [] | Some r \<Rightarrow> [r]), w', dir') \<and>
    keeps_handles L E w w' \<and> dir_ok win dir'"
proof -
  let ?p = "th32ProcessID entry" and ?S = "system_of K Y win E"
  have self: "GetCurrentProcessId ?S = GetCurrentProcessId Y" by (simp add: system_of_def)
  show ?thesis
  proof (cases "?p \<in> {0, kSystemPid, GetCurrentProcessId Y}")
    case True
    then show ?thesis using assms(2) self by (auto simp: visit_process_def listed_def Let_def)
  next
    case False
    obtain w1 where g: "get_identity K ?p w = Some (GetProcessIdentity ?S (w, dir) ?p, w1)" "keeps_handles L E w w1"
      using get_identity_spec [OF assms(1)] by blast
    show ?thesis
    proof (cases "GetProcessIdentity ?S (w, dir) ?p")
      case (Inl e)
      then show ?thesis using False g assms(2) self by (auto simp: visit_process_def listed_def Let_def)
    next
      case (Inr i)
      obtain w2 dir2 where y: "is_system_path K Y (exe_path i) (w1, dir) = (IsSystemProcessPath ?S (exe_path i), w2, dir2)"
        "keeps_handles L E w1 w2" "dir_ok win dir2"
        using is_system_path_spec [OF assms] by blast
      obtain x w3 where x: "session_of K ?p w2 = (x, w3)" by force
      have k: "keeps_handles L E w w2" by (rule keeps_handles_trans [OF g(2) y(2)])
      then have k3: "keeps_handles L E w w3"
        by (rule keeps_handles_trans [OF _ quiet_keeps [OF lawsD(4) [OF assms(1) x]]])
      have "ProcessIdToSessionId ?S ?p (w, dir) = x"
        using g(1) Inr y(1) x by (simp add: system_of_def)
      then have z: "is_session_zero K ?p w2 = (IsSessionZero ?S (w, dir) ?p, w3)"
        using x by (simp add: is_session_zero_def IsSessionZero_def split: option.split)
      show ?thesis
        using False g(1) Inr y(1,3) z k k3 self by (simp add: visit_process_def listed_def Let_def)
    qed
  qed
qed

section \<open>The list\<close>

text \<open>The entries with the moments they are looked at.\<close>

definition listed_at :: "'m system_ops \<Rightarrow> 'm list \<Rightarrow> process_entry list \<Rightarrow> process_info list" where
  "listed_at S ms entries = List.map_filter (\<lambda>(m, entry). listed S m entry) (zip ms entries)"

lemma listed_at_Cons [simp]:
  "listed_at S (m # ms) (e # es) = (case listed S m e of None \<Rightarrow> [] | Some r \<Rightarrow> [r]) @ listed_at S ms es"
  by (simp add: listed_at_def List.map_filter_simps split: option.split)

lemma listed_at_Nil [simp]: "listed_at S ms [] = []"
  by (simp add: listed_at_def List.map_filter_simps)

lemma process_loop_spec:
  assumes "handles_lawful K win L E" and "h \<in># L w" and "dir_ok win dir"
  shows "\<exists>ms w' dir'. length ms = Suc (length (E h w)) \<and>
    process_loop K Y h entry result (w, dir) = Some (result @ listed_at (system_of K Y win E) ms (entry # E h w), w', dir') \<and>
    L w' = L w \<and> dir_ok win dir'"
  using assms(2,3)
proof (induction "E h w" arbitrary: w dir entry result)
  case Nil
  let ?S = "system_of K Y win E"
  from visit_process_spec [OF assms(1) Nil.prems(2)] obtain w1 dir1 where
    v: "visit_process K Y entry result (w, dir) =
        Some (result @ (case listed ?S (w, dir) entry of None \<Rightarrow> [] | Some r \<Rightarrow> [r]), w1, dir1)"
      "keeps_handles L E w w1" "dir_ok win dir1" by metis
  have h: "h \<in># L w1" "E h w1 = []" using v(2) Nil by (simp_all add: keeps_handles_def)
  from lawsD(8) [OF assms(1) h(1)] h(2) obtain w2 where "process_next K h w1 = (None, w2)" "L w2 = L w1" by auto
  then show ?case using v Nil.hyps
    by (intro exI [of _ "[(w, dir)]"] exI [of _ w2] exI [of _ dir1])
      (subst process_loop.simps, simp add: keeps_handles_def)
next
  case (Cons e es)
  let ?S = "system_of K Y win E"
  from visit_process_spec [OF assms(1) Cons.prems(2)] obtain w1 dir1 where
    v: "visit_process K Y entry result (w, dir) =
        Some (result @ (case listed ?S (w, dir) entry of None \<Rightarrow> [] | Some r \<Rightarrow> [r]), w1, dir1)"
      "keeps_handles L E w w1" "dir_ok win dir1" by metis
  have h: "h \<in># L w1" "E h w1 = e # es" using v(2) Cons.prems(1) Cons.hyps(2) by (simp_all add: keeps_handles_def)
  from lawsD(8) [OF assms(1) h(1)] h(2) obtain w2 where n: "process_next K h w1 = (Some e, w2)" "L w2 = L w1" "E h w2 = es" by auto
  have "es = E h w2" "h \<in># L w2" using n h(1) by simp_all
  from Cons.hyps(1) [OF this v(3)] obtain ms w' dir' where
    r: "length ms = Suc (length es)" "\<And>result. True \<Longrightarrow> L w' = L w2" "dir_ok win dir'"
      "process_loop K Y h e (result @ (case listed ?S (w, dir) entry of None \<Rightarrow> [] | Some r \<Rightarrow> [r])) (w2, dir1) =
        Some ((result @ (case listed ?S (w, dir) entry of None \<Rightarrow> [] | Some r \<Rightarrow> [r])) @ listed_at ?S ms (e # es), w', dir')"
    unfolding n(3) by metis
  have "L w' = L w" using r(2) n(2) v(2) by (simp add: keeps_handles_def)
  then show ?case using v(1) n(1) r(1,3,4) Cons.hyps(2) [symmetric]
    by (intro exI [of _ "(w, dir) # ms"] exI [of _ w'] exI [of _ dir'])
      (subst process_loop.simps, simp)
qed

lemma listed_at_enumerate:
  assumes "length ms = length entries" and "Toolhelp32Snapshot S m0 = Some entries"
  shows "listed_at S ms entries = EnumerateProcesses S m0 ((!) ms)"
proof -
  have "zip ms entries = map (\<lambda>(j, e). (ms ! j, e)) (enumerate 0 entries)"
    by (rule nth_equalityI) (simp_all add: assms(1) nth_enumerate_eq)
  then show ?thesis
    by (simp add: EnumerateProcesses_def assms(2) enumerate_entries_listed listed_at_def List.map_filter_def filter_map o_def
        case_prod_beta)
qed

text \<open>The body of the snapshot's scope, for a handle that is open.\<close>

lemma snapshot_body_spec:
  assumes "handles_lawful K win L E" and "dir_ok win dir" and "h \<in># L w1" and "real_handle h"
    and "create_snapshot K w = (h, w1)" and "process_first K h w1 = (e, w2)"
  shows "\<exists>ms w' dir'. (case e of None \<Rightarrow> Some ([], w2, dir) | Some entry \<Rightarrow> process_loop K Y h entry [] (w2, dir)) =
      Some (EnumerateProcesses (system_of K Y win E) (w, dir) ((!) ms), w', dir') \<and> L w' = L w1 \<and> dir_ok win dir'"
proof -
  let ?S = "system_of K Y win E"
  have 2: "L w2 = L w1" using lawsD(7) [OF assms(1,3,6)] .
  show ?thesis
  proof (cases e)
    case None
    then have "EnumerateProcesses ?S (w, dir) ((!) []) = []" using assms(4-6) by (simp add: EnumerateProcesses_def system_of_def)
    then show ?thesis using None 2 assms(2) by (intro exI [of _ "[]"] exI [of _ w2] exI [of _ dir]) simp
  next
    case (Some entry)
    have "h \<in># L w2" using assms(3) 2 by simp
    from process_loop_spec [OF assms(1) this assms(2), of Y entry "[]"] obtain ms w3 dir3 where
      r: "length ms = length (entry # E h w2)" "process_loop K Y h entry [] (w2, dir) = Some (listed_at ?S ms (entry # E h w2), w3, dir3)"
        "L w3 = L w2" "dir_ok win dir3" by auto
    have "Toolhelp32Snapshot ?S (w, dir) = Some (entry # E h w2)" using assms(4-6) Some by (simp add: system_of_def)
    from listed_at_enumerate [OF r(1) this] r Some 2 show ?thesis by auto
  qed
qed

lemma enumerate_processes_spec:
  assumes "handles_lawful K win L E" and "dir_ok win dir"
  shows "\<exists>ms w' dir'. enumerate_processes K Y (w, dir) = Some (EnumerateProcesses (system_of K Y win E) (w, dir) ((!) ms), w', dir') \<and>
    L w' = L w \<and> dir_ok win dir'"
proof -
  let ?S = "system_of K Y win E"
  obtain h w1 where s: "create_snapshot K w = (h, w1)" by force
  note l = lawsD(6) [OF assms(1) s]
  obtain e w2 where f: "process_first K h w1 = (e, w2)" by force
  show ?thesis
  proof (cases "h = INVALID_HANDLE_VALUE")
    case True
    then have "enumerate_processes K Y (w, dir) = Some (EnumerateProcesses ?S (w, dir) ((!) []), w1, dir)"
      using s by (simp add: enumerate_processes_def scoped_def on_world_def HandleCloser_def EnumerateProcesses_def) (simp add: system_of_def)
    then show ?thesis using True l assms(2) by metis
  next
    case False
    then have h: "h \<in># L w1" "real_handle h" using l by simp_all
    from snapshot_body_spec [OF assms h s f, of Y] obtain ms w3 dir3 where
      r: "(case e of None \<Rightarrow> Some ([], w2, dir) | Some entry \<Rightarrow> process_loop K Y h entry [] (w2, dir)) =
        Some (EnumerateProcesses ?S (w, dir) ((!) ms), w3, dir3)" "L w3 = L w1" "dir_ok win dir3" by blast
    have e: "enumerate_processes K Y (w, dir) = Some (EnumerateProcesses ?S (w, dir) ((!) ms), HandleCloser K h w3, dir3)"
      using s f h(2) r(1) by (simp add: enumerate_processes_def scoped_def on_world_def split: option.splits)
    have "L (fst (HandleCloser K h w3, dir3)) = L (fst (w, dir))"
      by (rule snapshot.scoped_balanced [OF assms(1) e [unfolded enumerate_processes_def]])
        (use s f r h in \<open>auto simp: on_world_def split: option.splits\<close>)
    then show ?thesis using e r(3) by auto
  qed
qed

lemma identity_current_spec:
  assumes "handles_lawful K win L E"
  shows "\<exists>w'. identity_current K Y i w = Some (IsProcessIdentityCurrent (system_of K Y win E) (w, dir) i, w') \<and> L w' = L w"
proof -
  let ?S = "system_of K Y win E"
  obtain w1 where "get_identity K (id_pid i) w = Some (GetProcessIdentity ?S (w, dir) (id_pid i), w1)" "keeps_handles L E w w1"
    using get_identity_spec [OF assms] by blast
  then show ?thesis
    by (cases "identity_IsValid i")
      (auto simp: identity_current_def IsProcessIdentityCurrent_def keeps_handles_def system_of_def split: sum.splits)
qed

section \<open>Properties\<close>

text \<open>
  C15: The process list is made without leaking a handle, and it is the list of the specification. On every
  path, with any failing call, the handles of processes and of the snapshot that were opened are closed once
  and only while open, and what comes out is the list of \<open>Process_Ident\<close> for moments at which the
  processes were looked at; the loop ends with the snapshot. The same holds for the check of one identity.
\<close>

theorem process_handles_closed:
  assumes "handles_lawful K win L E" and "dir_ok win dir"
  shows "(\<exists>ms w' dir'. enumerate_processes K Y (w, dir) = Some (EnumerateProcesses (system_of K Y win E) (w, dir) ((!) ms), w', dir') \<and>
      L w' = L w \<and> dir_ok win dir') \<and>
    (\<exists>w'. identity_current K Y i w = Some (IsProcessIdentityCurrent (system_of K Y win E) (w, dir) i, w') \<and> L w' = L w)"
  using enumerate_processes_spec [OF assms] identity_current_spec [OF assms(1)] by blast

text \<open>A system with one handle for a process and one for a snapshot; the world holds what is open and what the snapshot still gives.\<close>

definition sample_handles :: "(handle multiset \<times> process_entry list) handle_ops" where
  "sample_handles =
     \<lparr>open_process = (\<lambda>p (l, es). if p = 8 \<and> 4 \<notin># l then (4, (add_mset 4 l, es)) else (nullptr, (l, es))),
      image_name = (\<lambda>h n w. (Some [0x43, 0x3A, 0x78], w)), process_times = (\<lambda>h w. (Some (1, 2), w)), session_of = (\<lambda>p w. (Some 1, w)),
      create_snapshot = (\<lambda>(l, es). if 12 \<in># l then (INVALID_HANDLE_VALUE, (l, es))
        else (12, (add_mset 12 l, [\<lparr>th32ProcessID = 4, th32ParentProcessID = 0, szExeFile = []\<rparr>,
          \<lparr>th32ProcessID = 8, th32ParentProcessID = 4, szExeFile = [0x78]\<rparr>]))),
      process_first = (\<lambda>h (l, es). (case es of [] \<Rightarrow> None | e # _ \<Rightarrow> Some e, (l, tl es))),
      process_next = (\<lambda>h (l, es). (case es of [] \<Rightarrow> None | e # _ \<Rightarrow> Some e, (l, tl es))),
      windows_directory = (\<lambda>n w. ((1, wide ''W''), w)), close_handle = (\<lambda>h (l, es). (l - {#h#}, es))\<rparr>"

lemma sample_handles_lawful: "handles_lawful sample_handles (wide ''W'') fst (\<lambda>_. snd)"
  by (auto simp: handles_lawful_def quiet_call_def sample_handles_def nullptr_def INVALID_HANDLE_VALUE_def wide_def split: if_splits)

theorem process_handles_closed_witness:
  "\<exists>r w'. enumerate_processes sample_handles sample_system (({#}, []), None) = Some (r, w', Some (wide ''W'')) \<and> map info_pid r = [8] \<and> fst w' = {#}"
proof -
  have d: "dir_ok (wide ''W'') None" by (simp add: dir_ok_def)
  from process_handles_closed [OF sample_handles_lawful d, of sample_system "({#}, [])" no_identity]
  obtain r w' dir' where r: "enumerate_processes sample_handles sample_system (({#}, []), None) = Some (r, w', dir')" "fst w' = {#}"
    by auto
  moreover have "map_option (\<lambda>(r, w, dir). (map info_pid r, dir)) (enumerate_processes sample_handles sample_system (({#}, []), None)) =
      Some ([8], Some (wide ''W''))"
    by code_simp
  ultimately show ?thesis by auto
qed

end
