(* ===== verification/Control_Setup.thy ===== *)
theory Control_Setup
  imports Control_Laws
begin

text \<open>
  How \<open>SetupUi\<close> (src/ui/MainWindow.cpp) builds the effect controls: the local functions that make the rows,
  the calls in their order, the later change of the ranges of the burst length and of the copies, and the
  containers that start hidden. \<open>Effect_Controls\<close> describes the controls by their ranges and first values;
  here is shown that the code builds exactly those.
\<close>

section \<open>Widgets under construction\<close>

record control =
  ctl_range :: "int \<times> int"
  ctl_value :: int
  ctl_suffix :: string

text \<open>A new slider or spin box goes from 0 to 99 and is at 0.\<close>

definition new_control :: control where
  "new_control = \<lparr>ctl_range = (0, 99), ctl_value = 0, ctl_suffix = ''''\<rparr>"

text \<open>A new range moves the value into it; a new value is moved into the range. Nothing is connected yet.\<close>

definition setRange :: "qt_set \<Rightarrow> int \<Rightarrow> int \<Rightarrow> control \<Rightarrow> control" where
  "setRange Q lo hi c = c\<lparr>ctl_range := (lo, max lo hi), ctl_value := fst (Q (lo, max lo hi) (ctl_value c) (ctl_value c))\<rparr>"

definition setValue :: "qt_set \<Rightarrow> int \<Rightarrow> control \<Rightarrow> control" where
  "setValue Q v c = c\<lparr>ctl_value := fst (Q (ctl_range c) (ctl_value c) v)\<rparr>"

text \<open>
  The members that point to the controls, null (\<open>None\<close>) at first. A check box is its state, a container
  with directional controls says whether it is visible; \<open>row_labels\<close> are the labels in the order they are made.
\<close>

record effect_ui =
  sliders :: "row \<Rightarrow> side \<Rightarrow> control option"
  spinboxes :: "row \<Rightarrow> side \<Rightarrow> control option"
  asymmetric_box :: "row \<Rightarrow> bool option"
  burst_box :: "bool option"
  custom_box :: "bool option"
  direction_box :: "row \<Rightarrow> bool option"
  burst_container :: "bool option"
  copies_container :: "bool option"
  row_labels :: "string list"

definition no_ui :: effect_ui where
  "no_ui = \<lparr>sliders = (\<lambda>_ _. None), spinboxes = (\<lambda>_ _. None), asymmetric_box = (\<lambda>_. None), burst_box = None, custom_box = None,
     direction_box = (\<lambda>_. None), burst_container = None, copies_container = None, row_labels = []\<rparr>"

section \<open>The local functions\<close>

definition place :: "row \<Rightarrow> side \<Rightarrow> control \<Rightarrow> control \<Rightarrow> effect_ui \<Rightarrow> effect_ui" where
  "place r s sl sp u =
     u\<lparr>sliders := (sliders u)(r := (sliders u r)(s := Some sl)), spinboxes := (spinboxes u)(r := (spinboxes u r)(s := Some sp))\<rparr>"

definition add_label :: "string \<Rightarrow> effect_ui \<Rightarrow> effect_ui" where
  "add_label label_text u = u\<lparr>row_labels := row_labels u @ [label_text]\<rparr>"

definition make_effect_controls :: "qt_set \<Rightarrow> int \<Rightarrow> string \<Rightarrow> row \<Rightarrow> side \<Rightarrow> effect_ui \<Rightarrow> effect_ui" where
  "make_effect_controls Q max_value suffix r s =
     (let slider = setValue Q 0 (setRange Q 0 max_value new_control);
          spinbox = (setRange Q 0 max_value new_control)\<lparr>ctl_suffix := suffix\<rparr>
      in place r s slider spinbox)"

definition make_primary_effect_row :: "qt_set \<Rightarrow> string \<Rightarrow> int \<Rightarrow> string \<Rightarrow> row \<Rightarrow> effect_ui \<Rightarrow> effect_ui" where
  "make_primary_effect_row Q label_text max_value suffix r u =
     (let u = add_label label_text u;
          u = u\<lparr>asymmetric_box := (asymmetric_box u)(r := Some False)\<rparr>;
          slider = setValue Q 0 (setRange Q 0 max_value new_control);
          spinbox = (setRange Q 0 max_value new_control)\<lparr>ctl_suffix := suffix\<rparr>
      in place r Shared slider spinbox u)"

definition make_labeled_effect_row :: "qt_set \<Rightarrow> string \<Rightarrow> int \<Rightarrow> string \<Rightarrow> row \<Rightarrow> effect_ui \<Rightarrow> effect_ui" where
  "make_labeled_effect_row Q label_text max_value suffix r u =
     make_effect_controls Q max_value suffix r Shared (add_label label_text u)"

definition make_directional_controls :: "qt_set \<Rightarrow> int \<Rightarrow> string \<Rightarrow> row \<Rightarrow> effect_ui \<Rightarrow> effect_ui" where
  "make_directional_controls Q max_value suffix r u =
     (let u = make_effect_controls Q max_value suffix r OutSide (add_label ''Out:'' u);
          u = make_effect_controls Q max_value suffix r InSide (add_label ''In:'' u)
      in u\<lparr>direction_box := (direction_box u)(r := Some False)\<rparr>)"

definition make_duplicate_direction_row :: "qt_set \<Rightarrow> string \<Rightarrow> int \<Rightarrow> string \<Rightarrow> side \<Rightarrow> effect_ui \<Rightarrow> effect_ui" where
  "make_duplicate_direction_row Q label_text max_value suffix s u =
     make_effect_controls Q max_value suffix DuplicateRow s (add_label label_text u)"

definition make_duplicate_count_direction_row :: "qt_set \<Rightarrow> string \<Rightarrow> side \<Rightarrow> effect_ui \<Rightarrow> effect_ui" where
  "make_duplicate_count_direction_row Q label_text s u =
     make_effect_controls Q kMaxDuplicateCopies '''' CopiesRow s (add_label label_text u)"

text \<open>A control that is set up again must exist.\<close>

definition on_controls :: "(control \<Rightarrow> control) \<Rightarrow> row \<Rightarrow> side \<Rightarrow> effect_ui \<Rightarrow> effect_ui option" where
  "on_controls f r s u =
     (case (sliders u r s, spinboxes u r s) of
        (Some sl, Some sp) \<Rightarrow> Some (place r s (f sl) (f sp) u)
      | _ \<Rightarrow> None)"

definition initialize_duplicate_count_control :: "qt_set \<Rightarrow> side \<Rightarrow> effect_ui \<Rightarrow> effect_ui option" where
  "initialize_duplicate_count_control Q s =
     on_controls (\<lambda>c. setValue Q kDefaultDuplicateCopies (setRange Q kDefaultDuplicateCopies kMaxDuplicateCopies c)) CopiesRow s"

definition initialize_burst_length_control :: "qt_set \<Rightarrow> side \<Rightarrow> effect_ui \<Rightarrow> effect_ui option" where
  "initialize_burst_length_control Q s =
     on_controls (\<lambda>c. setValue Q kDefaultBurstDropLength (setRange Q 1 kMaxBurstDropLength c)) BurstLengthRow s"

section \<open>The calls\<close>

definition setup_plain_rows :: "qt_set \<Rightarrow> effect_ui \<Rightarrow> effect_ui" where
  "setup_plain_rows Q u =
     (let u = make_primary_effect_row Q ''Delay:'' 1000 '' ms'' DelayRow u;
          u = make_directional_controls Q 1000 '' ms'' DelayRow u;
          u = make_primary_effect_row Q ''Jitter:'' kMaxDelayJitterMs '' ms'' JitterRow u;
          u = make_directional_controls Q kMaxDelayJitterMs '' ms'' JitterRow u;
          u = make_primary_effect_row Q ''Throttle:'' kMaxThrottleKBytesPerSec '' KB/s'' ThrottleRow u;
          u = make_directional_controls Q kMaxThrottleKBytesPerSec '' KB/s'' ThrottleRow u
      in u)"

definition setup_drop_rows :: "qt_set \<Rightarrow> effect_ui \<Rightarrow> effect_ui" where
  "setup_drop_rows Q u =
     (let u = make_primary_effect_row Q ''Drop:'' 100 '' %'' DropRow u;
          u = u\<lparr>burst_box := Some False\<rparr>;
          u = make_directional_controls Q 100 '' %'' DropRow u;
          u = make_primary_effect_row Q ''Burst chance:'' 100 '' %'' BurstChanceRow u;
          u = make_directional_controls Q 100 '' %'' BurstChanceRow u;
          u = make_labeled_effect_row Q ''Burst length:'' kMaxBurstDropLength '''' BurstLengthRow u;
          u = make_directional_controls Q kMaxBurstDropLength '''' BurstLengthRow u
      in u\<lparr>burst_container := Some False\<rparr>)"

definition setup_duplicate_rows :: "qt_set \<Rightarrow> effect_ui \<Rightarrow> effect_ui" where
  "setup_duplicate_rows Q u =
     (let u = add_label ''Duplicate:'' u;
          u = u\<lparr>custom_box := Some False, asymmetric_box := (asymmetric_box u)(DuplicateRow := Some False)\<rparr>;
          slider = setValue Q 0 (setRange Q 0 100 new_control);
          spinbox = (setRange Q 0 100 new_control)\<lparr>ctl_suffix := '' %''\<rparr>;
          u = place DuplicateRow Shared slider spinbox u;
          u = make_labeled_effect_row Q ''Extra copies:'' kMaxDuplicateCopies '''' CopiesRow u;
          u = u\<lparr>copies_container := Some False\<rparr>;
          u = make_duplicate_direction_row Q ''Out chance:'' 100 '' %'' OutSide u;
          u = make_duplicate_direction_row Q ''In chance:'' 100 '' %'' InSide u;
          u = make_duplicate_count_direction_row Q ''Out copies:'' OutSide u;
          u = make_duplicate_count_direction_row Q ''In copies:'' InSide u;
          u = u\<lparr>direction_box := (direction_box u)(CopiesRow := Some False)\<rparr>
      in u\<lparr>direction_box := (direction_box u)(DuplicateRow := Some False)\<rparr>)"

text \<open>\<open>None\<close> would be a call through a null pointer.\<close>

definition setup_effect_controls :: "qt_set \<Rightarrow> effect_ui option" where
  "setup_effect_controls Q =
     (let u = setup_duplicate_rows Q (setup_drop_rows Q (setup_plain_rows Q no_ui)) in
      Option.bind (initialize_duplicate_count_control Q Shared u) (\<lambda>u.
      Option.bind (initialize_duplicate_count_control Q OutSide u) (\<lambda>u.
      Option.bind (initialize_duplicate_count_control Q InSide u) (\<lambda>u.
      Option.bind (initialize_burst_length_control Q Shared u) (\<lambda>u.
      Option.bind (initialize_burst_length_control Q OutSide u)
        (initialize_burst_length_control Q InSide))))))"

text \<open>
  What the panel shows of it, with the steps from the settings and a new effect configuration; no control
  was disabled so far. Then the two functions that set what is visible and enabled are called.
\<close>

definition panel_of :: "effect_ui \<Rightarrow> int \<Rightarrow> int \<Rightarrow> effect_panel" where
  "panel_of u delay_st drop_st =
     \<lparr>slider = (\<lambda>r s. ctl_value (the (sliders u r s))), spinbox = (\<lambda>r s. ctl_value (the (spinboxes u r s))),
      asymmetric = (\<lambda>r. asymmetric_box u r = Some True), burst_checked = (burst_box u = Some True),
      custom_copies = (custom_box u = Some True), shared_enabled = (\<lambda>_. True), drop_asymmetric_enabled = True,
      directions_visible = (\<lambda>r. direction_box u r = Some True), burst_controls_visible = (burst_container u = Some True),
      copies_controls_visible = (copies_container u = Some True), delay_step = delay_st, drop_step = drop_st,
      panel_effects = effect_config_init\<rparr>"

definition setup_panel :: "qt_set \<Rightarrow> int \<Rightarrow> int \<Rightarrow> effect_panel option" where
  "setup_panel Q delay_st drop_st =
     map_option (\<lambda>u. update_duplicate_copy_controls_visibility (update_burst_drop_controls_visibility (panel_of u delay_st drop_st)))
       (setup_effect_controls Q)"

section \<open>What is built\<close>

text \<open>The suffix of a row's spin boxes.\<close>

fun row_suffix :: "row \<Rightarrow> string" where
  "row_suffix DelayRow = '' ms''"
| "row_suffix JitterRow = '' ms''"
| "row_suffix ThrottleRow = '' KB/s''"
| "row_suffix BurstLengthRow = ''''"
| "row_suffix CopiesRow = ''''"
| "row_suffix _ = '' %''"

definition built :: effect_ui where
  "built =
     \<lparr>sliders = (\<lambda>r _. Some \<lparr>ctl_range = row_range r, ctl_value = initial_value r, ctl_suffix = ''''\<rparr>),
      spinboxes = (\<lambda>r _. Some \<lparr>ctl_range = row_range r, ctl_value = initial_value r, ctl_suffix = row_suffix r\<rparr>),
      asymmetric_box = (\<lambda>r. if r \<in> {BurstLengthRow, CopiesRow} then None else Some False),
      burst_box = Some False, custom_box = Some False, direction_box = (\<lambda>_. Some False), burst_container = Some False,
      copies_container = Some False,
      row_labels = [''Delay:'', ''Out:'', ''In:'', ''Jitter:'', ''Out:'', ''In:'', ''Throttle:'', ''Out:'', ''In:'', ''Drop:'', ''Out:'', ''In:'',
        ''Burst chance:'', ''Out:'', ''In:'', ''Burst length:'', ''Out:'', ''In:'', ''Duplicate:'', ''Extra copies:'', ''Out chance:'', ''In chance:'',
        ''Out copies:'', ''In copies:'']\<rparr>"

lemmas setup_defs = setup_plain_rows_def setup_drop_rows_def setup_duplicate_rows_def make_primary_effect_row_def
  make_labeled_effect_row_def make_directional_controls_def make_duplicate_direction_row_def make_duplicate_count_direction_row_def
  make_effect_controls_def

lemma place_sel [simp]:
  "sliders (place r s a b u) r' s' = (if r' = r \<and> s' = s then Some a else sliders u r' s')"
  "spinboxes (place r s a b u) r' s' = (if r' = r \<and> s' = s then Some b else spinboxes u r' s')"
  "asymmetric_box (place r s a b u) = asymmetric_box u" "burst_box (place r s a b u) = burst_box u"
  "custom_box (place r s a b u) = custom_box u" "direction_box (place r s a b u) = direction_box u"
  "burst_container (place r s a b u) = burst_container u" "copies_container (place r s a b u) = copies_container u"
  "row_labels (place r s a b u) = row_labels u"
  by (simp_all add: place_def)

lemma add_label_sel [simp]:
  "sliders (add_label l u) = sliders u" "spinboxes (add_label l u) = spinboxes u" "asymmetric_box (add_label l u) = asymmetric_box u"
  "burst_box (add_label l u) = burst_box u" "custom_box (add_label l u) = custom_box u" "direction_box (add_label l u) = direction_box u"
  "burst_container (add_label l u) = burst_container u" "copies_container (add_label l u) = copies_container u"
  "row_labels (add_label l u) = row_labels u @ [l]"
  by (simp_all add: add_label_def)

text \<open>What the rows are made of, for widgets that do as documented.\<close>

lemma control_calls:
  assumes "qt_lawful Q"
  shows "lo \<le> hi \<Longrightarrow> setRange Q lo hi c = c\<lparr>ctl_range := (lo, hi), ctl_value := clamp_int (ctl_value c) lo hi\<rparr>"
    and "fst (ctl_range c) \<le> snd (ctl_range c) \<Longrightarrow> setValue Q v c = c\<lparr>ctl_value := clamp_int v (fst (ctl_range c)) (snd (ctl_range c))\<rparr>"
  using assms by (simp add: setRange_def qt_lawful_def max_def)
    (metis assms fst_conv prod.collapse qt_lawful_def setValue_def)

text \<open>Before the last step the copies and the burst length go from 0 and are at 0.\<close>

definition first_range :: "row \<Rightarrow> int \<times> int" where
  "first_range r = (0, snd (row_range r))"

lemma rows_before:
  assumes "qt_lawful Q"
  shows "setup_duplicate_rows Q (setup_drop_rows Q (setup_plain_rows Q no_ui)) =
    built\<lparr>sliders := (\<lambda>r _. Some \<lparr>ctl_range = first_range r, ctl_value = 0, ctl_suffix = ''''\<rparr>),
      spinboxes := (\<lambda>r _. Some \<lparr>ctl_range = first_range r, ctl_value = 0, ctl_suffix = row_suffix r\<rparr>)\<rparr>"
proof -
  have c: "setValue Q 0 (setRange Q 0 hi new_control) = \<lparr>ctl_range = (0, hi), ctl_value = 0, ctl_suffix = ''''\<rparr>"
    "(setRange Q 0 hi new_control)\<lparr>ctl_suffix := suffix\<rparr> = \<lparr>ctl_range = (0, hi), ctl_value = 0, ctl_suffix = suffix\<rparr>" if "0 \<le> hi" for hi suffix
    using that by (simp_all add: control_calls [OF assms] new_control_def clamp_int_def)
  have k: "0 \<le> kMaxDelayJitterMs" "0 \<le> kMaxThrottleKBytesPerSec" "0 \<le> kMaxBurstDropLength" "0 \<le> kMaxDuplicateCopies"
    by (simp_all add: kMaxDelayJitterMs_def kMaxThrottleKBytesPerSec_def kMaxBurstDropLength_def kMaxDuplicateCopies_def)
  show ?thesis
  proof (rule effect_ui.equality)
    let ?u = "setup_duplicate_rows Q (setup_drop_rows Q (setup_plain_rows Q no_ui))"
    let ?v = "built\<lparr>sliders := (\<lambda>r _. Some \<lparr>ctl_range = first_range r, ctl_value = 0, ctl_suffix = ''''\<rparr>),
      spinboxes := (\<lambda>r _. Some \<lparr>ctl_range = first_range r, ctl_value = 0, ctl_suffix = row_suffix r\<rparr>)\<rparr>"
    show "sliders ?u = sliders ?v"
    proof (intro ext)
      show "sliders ?u r s = sliders ?v r s" for r s
        by (cases r; cases s) (simp_all add: setup_defs c k first_range_def Let_def)
    qed
    show "spinboxes ?u = spinboxes ?v"
    proof (intro ext)
      show "spinboxes ?u r s = spinboxes ?v r s" for r s
        by (cases r; cases s) (simp_all add: setup_defs c k first_range_def Let_def)
    qed
    show "asymmetric_box ?u = asymmetric_box ?v"
    proof (rule ext)
      show "asymmetric_box ?u r = asymmetric_box ?v r" for r
        by (cases r) (simp_all add: setup_defs built_def no_ui_def Let_def)
    qed
    show "direction_box ?u = direction_box ?v"
    proof (rule ext)
      show "direction_box ?u r = direction_box ?v r" for r
        by (cases r) (simp_all add: setup_defs built_def no_ui_def Let_def)
    qed
  qed (simp_all add: setup_defs built_def no_ui_def Let_def)
qed

lemma on_controls_Some:
  "sliders u r s = Some a \<Longrightarrow> spinboxes u r s = Some b \<Longrightarrow> on_controls f r s u = Some (place r s (f a) (f b) u)"
  by (simp add: on_controls_def)

lemma setup_builds:
  assumes "qt_lawful Q"
  shows "setup_effect_controls Q = Some built"
proof -
  let ?c = "\<lparr>ctl_range = row_range CopiesRow, ctl_value = initial_value CopiesRow, ctl_suffix = ''''\<rparr>"
  let ?b = "\<lparr>ctl_range = row_range BurstLengthRow, ctl_value = initial_value BurstLengthRow, ctl_suffix = ''''\<rparr>"
  let ?u = "built\<lparr>sliders := (\<lambda>r _. Some \<lparr>ctl_range = first_range r, ctl_value = 0, ctl_suffix = ''''\<rparr>),
      spinboxes := (\<lambda>r _. Some \<lparr>ctl_range = first_range r, ctl_value = 0, ctl_suffix = row_suffix r\<rparr>)\<rparr>"
  have k: "kDefaultDuplicateCopies \<le> kMaxDuplicateCopies" "1 \<le> kMaxBurstDropLength"
    by (simp_all add: kDefaultDuplicateCopies_def kMaxDuplicateCopies_def kMaxBurstDropLength_def)
  have f: "setValue Q kDefaultDuplicateCopies (setRange Q kDefaultDuplicateCopies kMaxDuplicateCopies
        \<lparr>ctl_range = first_range CopiesRow, ctl_value = 0, ctl_suffix = ''''\<rparr>) = ?c"
    "setValue Q kDefaultBurstDropLength (setRange Q 1 kMaxBurstDropLength
        \<lparr>ctl_range = first_range BurstLengthRow, ctl_value = 0, ctl_suffix = ''''\<rparr>) = ?b"
    using k by (simp_all add: control_calls [OF assms])
      (simp_all add: clamp_int_def kDefaultDuplicateCopies_def kMaxDuplicateCopies_def kDefaultBurstDropLength_def kMaxBurstDropLength_def)
  have one: "initialize_duplicate_count_control Q s u = Some (place CopiesRow s ?c ?c u)"
    if "sliders u CopiesRow s = sliders ?u CopiesRow s" "spinboxes u CopiesRow s = spinboxes ?u CopiesRow s" for s u
    using that by (simp add: initialize_duplicate_count_control_def on_controls_Some f)
  have two: "initialize_burst_length_control Q s u = Some (place BurstLengthRow s ?b ?b u)"
    if "sliders u BurstLengthRow s = sliders ?u BurstLengthRow s" "spinboxes u BurstLengthRow s = spinboxes ?u BurstLengthRow s" for s u
    using that by (simp add: initialize_burst_length_control_def on_controls_Some f)
  let ?v = "place BurstLengthRow InSide ?b ?b (place BurstLengthRow OutSide ?b ?b (place BurstLengthRow Shared ?b ?b
    (place CopiesRow InSide ?c ?c (place CopiesRow OutSide ?c ?c (place CopiesRow Shared ?c ?c ?u)))))"
  have "setup_effect_controls Q = Some ?v"
    unfolding setup_effect_controls_def Let_def rows_before [OF assms] by (simp add: one two)
  moreover have "?v = built"
  proof (rule effect_ui.equality)
    show "sliders ?v = sliders built"
    proof (intro ext)
      show "sliders ?v r s = sliders built r s" for r s
        by (cases r; cases s) (simp_all add: first_range_def, simp_all add: built_def)
    qed
    show "spinboxes ?v = spinboxes built"
    proof (intro ext)
      show "spinboxes ?v r s = spinboxes built r s" for r s
        by (cases r; cases s) (simp_all add: first_range_def, simp_all add: built_def)
    qed
  qed simp_all
  ultimately show ?thesis by simp
qed

section \<open>Properties\<close>

text \<open>
  C21: The window builds the controls the rest of it counts on. With widgets that behave as documented no
  control is used before it is made, and at the end all 24 pairs of a slider and a spin box exist, both with
  the range of their row and at its first value, the spin boxes with the row's suffix; every container is hidden
  and every check box unchecked; and after the two calls that set what is visible and enabled the panel is the
  one all other properties of the controls start from.
\<close>

theorem setup_builds_panel:
  assumes "qt_lawful Q"
  shows "\<exists>u. setup_effect_controls Q = Some u \<and>
    (\<forall>r s. sliders u r s = Some \<lparr>ctl_range = row_range r, ctl_value = initial_value r, ctl_suffix = ''''\<rparr> \<and>
       spinboxes u r s = Some \<lparr>ctl_range = row_range r, ctl_value = initial_value r, ctl_suffix = row_suffix r\<rparr>) \<and>
    (\<forall>r. direction_box u r = Some False \<and> asymmetric_box u r \<noteq> Some True) \<and> burst_container u = Some False \<and> copies_container u = Some False \<and>
    burst_box u = Some False \<and> custom_box u = Some False \<and>
    setup_panel Q delay_st drop_st = Some (panel_init delay_st drop_st)"
proof -
  have "panel_of built delay_st drop_st =
      \<lparr>slider = (\<lambda>r _. initial_value r), spinbox = (\<lambda>r _. initial_value r), asymmetric = (\<lambda>_. False),
        burst_checked = False, custom_copies = False, shared_enabled = (\<lambda>_. True), drop_asymmetric_enabled = True,
        directions_visible = (\<lambda>_. False), burst_controls_visible = False, copies_controls_visible = False,
        delay_step = delay_st, drop_step = drop_st, panel_effects = effect_config_init\<rparr>"
    by (simp add: panel_of_def built_def fun_eq_iff)
  then have "setup_panel Q delay_st drop_st = Some (panel_init delay_st drop_st)"
    by (simp add: setup_panel_def setup_builds [OF assms] panel_init_def)
  then show ?thesis by (intro exI [of _ built]) (simp add: setup_builds [OF assms], simp add: built_def)
qed

theorem setup_builds_panel_witness:
  "setup_panel plain_qt 10 1 = Some (panel_init 10 1)"
  using setup_builds_panel [OF plain_lawful, of 10 1] by blast

end
