(* ===== verification/Drain_Loop.thy ===== *)
theory Drain_Loop
  imports Delay_Queue
begin

text \<open>
  The delay thread as a whole (\<open>DelayQueue::DrainLoop\<close> in src/core/DelayQueue.cpp): it asks for a timer
  period of one millisecond, makes its rounds until \<open>running_\<close> is false, and ends the period if it got it.
\<close>

section \<open>The timer period\<close>

text \<open>The timer is a part of the outside, beside the driver: \<open>'t\<close>. A request answers an error code.\<close>

record 't timer_ops =
  timeBeginPeriod :: "u32 \<Rightarrow> 't \<Rightarrow> u32 \<times> 't"
  timeEndPeriod :: "u32 \<Rightarrow> 't \<Rightarrow> 't"

definition TIMERR_NOERROR :: u32 where "TIMERR_NOERROR = 0"
definition kPeriodMs :: u32 where "kPeriodMs = 1"

text \<open>The constructor gives \<open>active_\<close>; the destructor reads it.\<close>

definition TimerResolutionScope :: "'t timer_ops \<Rightarrow> 's \<times> 't \<Rightarrow> bool \<times> 's \<times> 't" where
  "TimerResolutionScope T = (\<lambda>(s, t). case timeBeginPeriod T kPeriodMs t of (r, t) \<Rightarrow> (r = TIMERR_NOERROR, s, t))"

definition TimerResolutionScope_destroy :: "'t timer_ops \<Rightarrow> bool \<Rightarrow> 's \<times> 't \<Rightarrow> 's \<times> 't" where
  "TimerResolutionScope_destroy T active = (\<lambda>(s, t). (s, if active then timeEndPeriod T kPeriodMs t else t))"

text \<open>\<open>N\<close> are the periods that were begun and not ended. Ending is specified only for a period that was begun.\<close>

definition timer_lawful :: "'t timer_ops \<Rightarrow> ('t \<Rightarrow> u32 multiset) \<Rightarrow> bool" where
  "timer_lawful T N \<longleftrightarrow>
     (\<forall>p t r t'. timeBeginPeriod T p t = (r, t') \<longrightarrow> N t' = (if r = TIMERR_NOERROR then add_mset p (N t) else N t)) \<and>
     (\<forall>p t. p \<in># N t \<longrightarrow> N (timeEndPeriod T p t) = N t - {#p#})"

text \<open>The periods the scopes of the delay thread own, each standing for its \<open>active_\<close>.\<close>

definition own_periods :: "('t \<Rightarrow> u32 multiset) \<Rightarrow> 's \<times> 't \<Rightarrow> bool multiset" where
  "own_periods N s = replicate_mset (count (N (snd s)) kPeriodMs) True"

interpretation timer_period: scoped_resource "TimerResolutionScope T" "TimerResolutionScope_destroy T" "\<lambda>active. active"
    "own_periods N" "timer_lawful T N" for T N
proof (unfold_locales)
  fix w r w'
  assume "timer_lawful T N" "TimerResolutionScope T w = (r, w')"
  then show "own_periods N w' = (if r then add_mset r (own_periods N w) else own_periods N w)"
    by (auto simp: timer_lawful_def TimerResolutionScope_def own_periods_def split: prod.splits)
next
  fix r w
  assume l: "timer_lawful T N" and r: "r \<longrightarrow> r \<in># own_periods N w"
  show "own_periods N (TimerResolutionScope_destroy T r w) = (if r then own_periods N w - {#r#} else own_periods N w)"
  proof (cases r)
    case True
    obtain s t where w: "w = (s, t)" by force
    have n: "0 < count (N t) kPeriodMs" using r True w by (simp add: own_periods_def split: if_splits)
    then have "kPeriodMs \<in># N t" by simp
    with l have "N (timeEndPeriod T kPeriodMs t) = N t - {#kPeriodMs#}" by (simp add: timer_lawful_def)
    moreover obtain k where "count (N t) kPeriodMs = Suc k" using n by (cases "count (N t) kPeriodMs") simp_all
    ultimately show ?thesis using True w by (simp add: TimerResolutionScope_destroy_def own_periods_def)
  qed (auto simp: TimerResolutionScope_destroy_def split: prod.split)
qed

section \<open>The loop\<close>

text \<open>
  \<open>reads k\<close> is what round \<open>k\<close> from the end reads: \<open>running_\<close>, which another thread clears, and the two moments
  of the clock. The number bounds the rounds; the flag says whether the loop has ended.
\<close>

fun drain_rounds ::
  "'w divert_ops \<Rightarrow> (nat \<Rightarrow> bool \<times> int \<times> int) \<Rightarrow> nat \<Rightarrow> delay_queue \<Rightarrow> 'w env \<Rightarrow> (bool \<times> delay_queue \<times> 'w env) option" where
  "drain_rounds D reads 0 q v = Some (False, q, v)"
| "drain_rounds D reads (Suc k) q v =
     (case reads k of
        (go, now, now2) \<Rightarrow>
          (if \<not> go then Some (True, q, v)
           else
             (case drain_round D now now2 q v of
                None \<Rightarrow> None
              | Some (_, q, v) \<Rightarrow> drain_rounds D reads k q v)))"

definition DrainLoop ::
  "'t timer_ops \<Rightarrow> 'w divert_ops \<Rightarrow> (nat \<Rightarrow> bool \<times> int \<times> int) \<Rightarrow> nat \<Rightarrow> (delay_queue \<times> 'w env) \<times> 't \<Rightarrow>
   (bool \<times> (delay_queue \<times> 'w env) \<times> 't) option" where
  "DrainLoop T D reads k =
     scoped (TimerResolutionScope T) (TimerResolutionScope_destroy T)
       (\<lambda>_ ((q, v), t). map_option (\<lambda>(ended, q, v). (ended, (q, v), t)) (drain_rounds D reads k q v))"

section \<open>What the thread does\<close>

text \<open>
  A round's packets, given those still held after it: at most 128, all due, in the order of their times;
  none still held is earlier than one of them, and unless they are 128, none still held is due.
\<close>

definition round_ok :: "int \<Rightarrow> scheduled_packet list \<Rightarrow> scheduled_packet multiset \<Rightarrow> bool" where
  "round_ok now ps left \<longleftrightarrow>
     sorted (map release_at ps) \<and> length ps \<le> 128 \<and> (\<forall>p \<in> set ps. release_at p \<le> now) \<and>
     (\<forall>p \<in> set ps. \<forall>r \<in># left. release_at p \<le> release_at r) \<and>
     (length ps < 128 \<longrightarrow> (\<forall>r \<in># left. now < release_at r))"

lemma drain_rounds_spec:
  assumes "dq_inv q"
  shows "\<exists>ended q' v' rounds. drain_rounds D reads k q v = Some (ended, q', v') \<and> dq_inv q' \<and>
    held q = mset (concat rounds) + held q' \<and> length rounds \<le> k \<and>
    (\<forall>i < length rounds. fst (reads (k - 1 - i)) \<and>
      round_ok (fst (snd (reads (k - 1 - i)))) (rounds ! i) (mset (concat (drop (Suc i) rounds)) + held q')) \<and>
    sends_of (calls v') = sends_of (calls v) @ map batch_send (filter (\<lambda>ps. ps \<noteq> []) rounds) \<and>
    (ended \<longleftrightarrow> (\<exists>j < k. \<not> fst (reads j))) \<and> (ended \<longrightarrow> length rounds < k \<and> \<not> fst (reads (k - 1 - length rounds)))"
  using assms
proof (induction k arbitrary: q v)
  case 0
  then show ?case by (intro exI [of _ False] exI [of _ q] exI [of _ v] exI [of _ "[]"]) simp
next
  case (Suc k)
  obtain go now now2 where r: "reads k = (go, now, now2)" by (metis prod_cases3)
  show ?case
  proof (cases go)
    case False
    with r Suc.prems show ?thesis
      by (intro exI [of _ True] exI [of _ q] exI [of _ v] exI [of _ "[]"]) auto
  next
    case True
    from drain_round_spec [OF Suc.prems, of D now now2 v] obtain pz q1 v1 ps where
      d: "drain_round D now now2 q v = Some (pz, q1, v1)" "dq_inv q1" "held q = mset ps + held q1"
        "sorted (map release_at ps)" "\<forall>p \<in> set ps. release_at p \<le> now" "length ps \<le> 128"
        "length ps < 128 \<longrightarrow> (\<forall>p \<in># held q1. now < release_at p)"
        "\<forall>p \<in> set ps. \<forall>r \<in># held q1. release_at p \<le> release_at r"
        "sends_of (calls v1) = sends_of (calls v) @ (if ps = [] then [] else [batch_send ps])"
      unfolding kBatchSize_def by blast
    from Suc.IH [OF d(2), of v1] obtain ended q' v' rounds where
      s: "drain_rounds D reads k q1 v1 = Some (ended, q', v')" "dq_inv q'" "held q1 = mset (concat rounds) + held q'"
        "length rounds \<le> k"
        "\<forall>i < length rounds. fst (reads (k - 1 - i)) \<and>
          round_ok (fst (snd (reads (k - 1 - i)))) (rounds ! i) (mset (concat (drop (Suc i) rounds)) + held q')"
        "sends_of (calls v') = sends_of (calls v1) @ map batch_send (filter (\<lambda>ps. ps \<noteq> []) rounds)"
        "ended \<longleftrightarrow> (\<exists>j < k. \<not> fst (reads j))"
        "ended \<longrightarrow> length rounds < k \<and> \<not> fst (reads (k - 1 - length rounds))" by blast
    have "round_ok now ps (mset (concat rounds) + held q')"
      using d(4-8) unfolding s(3) round_ok_def by blast
    then have "fst (reads (Suc k - 1 - i)) \<and>
        round_ok (fst (snd (reads (Suc k - 1 - i)))) ((ps # rounds) ! i) (mset (concat (drop (Suc i) (ps # rounds))) + held q')"
      if "i < length (ps # rounds)" for i
      using that s(5) r True by (cases i) auto
    moreover have "(\<exists>j < Suc k. \<not> fst (reads j)) \<longleftrightarrow> (\<exists>j < k. \<not> fst (reads j))"
      using r True by (auto simp: less_Suc_eq)
    ultimately show ?thesis using r True d(1,3,9) s(1-4,6-8)
      by (intro exI [of _ ended] exI [of _ q'] exI [of _ v'] exI [of _ "ps # rounds"]) (simp add: ac_simps)
  qed
qed

lemma DrainLoop_period:
  assumes "timer_lawful T N" and "DrainLoop T D reads k (s, t) = Some (ended, s', t')"
  shows "count (N t') kPeriodMs = count (N t) kPeriodMs"
proof -
  have "own_periods N (s', t') = own_periods N (s, t)"
    by (rule timer_period.scoped_balanced [OF assms(1), where w = "(s, t)"])
      (rule assms(2) [unfolded DrainLoop_def], auto simp: own_periods_def split: prod.splits)
  then show ?thesis unfolding own_periods_def by (metis size_replicate_mset snd_conv)
qed

section \<open>Properties\<close>

text \<open>
  C10: The delay thread ends when it is told to and leaves nothing behind. From the moment at which nothing
  is pushed any more, its loop comes back from every round and ends at the first round that finds
  \<open>running_\<close> false; the timer period it asked for is ended if it was granted and not otherwise. Each round
  before sent the earliest packets that were due by its reading of the clock, in the order of their times and
  in one call: 128 of them, or all that were due if these were fewer. Nothing else was sent, and the packets
  sent and those still held are the ones it began with.
\<close>

theorem delay_thread_ends:
  assumes "dq_inv q" and "timer_lawful T N"
  shows "\<exists>ended q' v' t' rounds. DrainLoop T D reads k ((q, v), t) = Some (ended, (q', v'), t') \<and>
    (ended \<longleftrightarrow> (\<exists>j < k. \<not> fst (reads j))) \<and> (ended \<longrightarrow> \<not> fst (reads (k - 1 - length rounds))) \<and>
    count (N t') kPeriodMs = count (N t) kPeriodMs \<and> dq_inv q' \<and> held q = mset (concat rounds) + held q' \<and>
    (\<forall>i < length rounds. fst (reads (k - 1 - i)) \<and>
      round_ok (fst (snd (reads (k - 1 - i)))) (rounds ! i) (mset (concat (drop (Suc i) rounds)) + held q')) \<and>
    sends_of (calls v') = sends_of (calls v) @ map batch_send (filter (\<lambda>ps. ps \<noteq> []) rounds)"
proof -
  from drain_rounds_spec [OF assms(1), of D reads k v] obtain ended q' v' rounds where
    r: "drain_rounds D reads k q v = Some (ended, q', v')" "dq_inv q'" "held q = mset (concat rounds) + held q'"
      "\<forall>i < length rounds. fst (reads (k - 1 - i)) \<and>
          round_ok (fst (snd (reads (k - 1 - i)))) (rounds ! i) (mset (concat (drop (Suc i) rounds)) + held q')"
      "sends_of (calls v') = sends_of (calls v) @ map batch_send (filter (\<lambda>ps. ps \<noteq> []) rounds)"
      "ended \<longleftrightarrow> (\<exists>j < k. \<not> fst (reads j))" "ended \<longrightarrow> \<not> fst (reads (k - 1 - length rounds))" by blast
  obtain t' where d: "DrainLoop T D reads k ((q, v), t) = Some (ended, (q', v'), t')"
    using r(1) by (cases "timeBeginPeriod T kPeriodMs t")
      (auto simp: DrainLoop_def scoped_def TimerResolutionScope_def TimerResolutionScope_destroy_def)
  from DrainLoop_period [OF assms(2) d] have n: "count (N t') kPeriodMs = count (N t) kPeriodMs" .
  show ?thesis
    by (rule exI [of _ ended], rule exI [of _ q'], rule exI [of _ v'], rule exI [of _ t'], rule exI [of _ rounds])
      (use d n r(2-7) in blast)
qed

text \<open>A timer that grants every request.\<close>

definition granting_timer :: "u32 multiset timer_ops" where
  "granting_timer = \<lparr>timeBeginPeriod = (\<lambda>p t. (TIMERR_NOERROR, add_mset p t)), timeEndPeriod = (\<lambda>p t. t - {#p#})\<rparr>"

lemma granting_timer_lawful: "timer_lawful granting_timer (\<lambda>t. t)"
  by (simp add: timer_lawful_def granting_timer_def)

theorem delay_thread_ends_witness:
  "\<exists>q q' v' t'. DelayQueue_new (\<lambda>n. n) 8 = Some q \<and>
    DrainLoop granting_timer (scripted_driver (\<lambda>_. None) 0) (\<lambda>k. (k \<noteq> 0, 5, 5)) 3 ((q, env_init []), {#}) = Some (True, (q', v'), t') \<and>
    count t' kPeriodMs = 0"
proof -
  from DelayQueue_new_ok [OF sample_alloc_ok] obtain q where q: "DelayQueue_new (\<lambda>n. n) 8 = Some q" "dq_inv q" by blast
  from delay_thread_ends [OF q(2) granting_timer_lawful, of "scripted_driver (\<lambda>_. None) 0" "\<lambda>k. (k \<noteq> 0, 5, 5)" 3 "env_init []" "{#}"]
  obtain ended q' v' t' where "DrainLoop granting_timer (scripted_driver (\<lambda>_. None) 0) (\<lambda>k. (k \<noteq> 0, 5, 5)) 3 ((q, env_init []), {#}) =
      Some (ended, (q', v'), t')" "ended \<longleftrightarrow> (\<exists>j < 3. \<not> fst ((\<lambda>k. (k \<noteq> 0, 5 :: int, 5 :: int)) (j :: nat)))" "count t' kPeriodMs = count {#} kPeriodMs"
    by (elim exE conjE)
  moreover have "ended" using calculation(2) by (auto intro: exI [of _ 0])
  ultimately show ?thesis using q(1) by auto
qed

end
