(* ===== verification/Hotkey_Laws.thy ===== *)
theory Hotkey_Laws
  imports Hotkeys
begin

unbundle bit_operations_syntax

text \<open>
  What the hotkeys guarantee: key codes and modifiers translate back and forth, hooks are never
  leaked, bindings survive a restart, and a captured hotkey triggers its action.
\<close>

section \<open>Codes\<close>

lemma event_mods_QtModsToWin32: "event_mods mods = QtModsToWin32 mods"
  by (simp add: event_mods_def QtModsToWin32_def or_if_def Let_def or.left_commute or.commute)

lemma and_single_bit: "(w :: 'a::len word) AND push_bit n 1 = (if bit w n then push_bit n 1 else 0)"
  by (rule bit_word_eqI) (auto simp: bit_simps)

lemma and_win32:
  "(w :: u32) AND MOD_ALT = (if bit w 0 then MOD_ALT else 0)"
  "w AND MOD_CONTROL = (if bit w 1 then MOD_CONTROL else 0)"
  "w AND MOD_SHIFT = (if bit w 2 then MOD_SHIFT else 0)"
  using and_single_bit [of w 0] and_single_bit [of w 1] and_single_bit [of w 2] by simp_all

lemma and_qt:
  "(w :: u32) AND ShiftModifier = (if bit w 25 then ShiftModifier else 0)"
  "w AND ControlModifier = (if bit w 26 then ControlModifier else 0)"
  "w AND AltModifier = (if bit w 27 then AltModifier else 0)"
  using and_single_bit [of w 25] and_single_bit [of w 26] and_single_bit [of w 27] by simp_all

lemma or_three: "(w :: u32) AND (a OR b OR c) = (w AND a) OR (w AND b) OR (w AND c)"
  by (simp only: bit.conj_disj_distrib)

text \<open>The modifiers a Win32 mask and a Qt mask can hold.\<close>

definition win32_mask :: u32 where
  "win32_mask = MOD_CONTROL OR MOD_ALT OR MOD_SHIFT"

definition qt_mask :: u32 where
  "qt_mask = ControlModifier OR AltModifier OR ShiftModifier"

lemma QtModsToWin32_back: "QtModsToWin32 (Win32ModsToQt w) = w AND win32_mask"
  unfolding win32_mask_def or_three and_win32
  by (simp add: and_win32 QtModsToWin32_def Win32ModsToQt_def or_if_def Let_def)

lemma Win32ModsToQt_back: "Win32ModsToQt (QtModsToWin32 w) = w AND qt_mask"
  unfolding qt_mask_def or_three and_qt
  by (simp add: and_qt QtModsToWin32_def Win32ModsToQt_def or_if_def Let_def)

definition known_keys :: "int list" where
  "known_keys = [Key_0..Key_9] @ [Key_A..Key_Z] @ [Key_F1..Key_F24] @
     [Key_Space, Key_Return, Key_Enter, Key_Escape, Key_Tab, Key_Backspace, Key_Delete, Key_Insert, Key_Home,
      Key_End, Key_PageUp, Key_PageDown, Key_Up, Key_Down, Key_Left, Key_Right, Key_Plus, Key_Minus,
      Key_BracketLeft, Key_BracketRight, Key_Semicolon, Key_Apostrophe, Key_Comma, Key_Period, Key_Slash,
      Key_Backslash, Key_QuoteLeft]"

lemma QtKeyToVk_known: "QtKeyToVk k \<noteq> 0 \<Longrightarrow> k \<in> set known_keys"
  unfolding known_keys_def set_append set_upto by (auto simp: QtKeyToVk_def split: if_splits)

lemma known_keys_back: "list_all (\<lambda>k. k = Key_Enter \<or> VkToQtKey (QtKeyToVk k) = k) known_keys"
  by code_simp

lemma known_keys_nonzero: "list_all (\<lambda>k. k \<noteq> 0) known_keys"
  by code_simp

lemma VkToQtKey_back: "QtKeyToVk k \<noteq> 0 \<Longrightarrow> k \<noteq> Key_Enter \<Longrightarrow> VkToQtKey (QtKeyToVk k) = k \<and> k \<noteq> 0"
  using QtKeyToVk_known [of k] known_keys_back known_keys_nonzero by (auto simp: list_all_iff)

lemma VkToQtKey_known: "VkToQtKey v \<noteq> 0 \<Longrightarrow> unat v \<in> set (map (\<lambda>k. unat (QtKeyToVk k)) known_keys)"
proof -
  have codes: "map (\<lambda>k. unat (QtKeyToVk k)) known_keys = [48..<58] @ [65..<91] @ [112..<136] @
      [32, 13, 13, 27, 9, 8, 46, 45, 36, 35, 33, 34, 38, 40, 37, 39, 187, 189, 219, 221, 186, 222, 188, 190, 191, 220, 192]"
    by code_simp
  show "VkToQtKey v \<noteq> 0 \<Longrightarrow> ?thesis"
    unfolding codes set_append set_upt by (auto simp: VkToQtKey_def word_le_nat_alt split: if_splits)
qed

lemma QtKeyToVk_back: "VkToQtKey v \<noteq> 0 \<Longrightarrow> QtKeyToVk (VkToQtKey v) = v"
proof -
  assume "VkToQtKey v \<noteq> 0"
  from VkToQtKey_known [OF this] obtain k where k: "k \<in> set known_keys" and u: "unat v = unat (QtKeyToVk k)" by auto
  have v: "v = QtKeyToVk k" using u by (simp only: word_unat_eq_iff)
  have "k = Key_Enter \<or> VkToQtKey (QtKeyToVk k) = k" using known_keys_back k by (simp add: list_all_iff)
  moreover have "QtKeyToVk (VkToQtKey (QtKeyToVk Key_Enter)) = QtKeyToVk Key_Enter" by code_simp
  ultimately show ?thesis unfolding v by metis
qed

section \<open>Hooks\<close>

definition owned_hooks :: "'h hotkey_manager \<Rightarrow> 'h set" where
  "owned_hooks m = set_option (keyboard_hook m) \<union> set_option (mouse_hook m)"

definition hook_inv :: "('h, 'o) hook_ops \<Rightarrow> 'h set \<Rightarrow> 'h hotkey_manager \<times> 'o \<Rightarrow> bool" where
  "hook_inv H base = (\<lambda>(m, w).
     live_hooks H w = base \<union> owned_hooks m \<and> base \<inter> owned_hooks m = {} \<and>
     (if registered m then keyboard_hook m \<noteq> None \<and> mouse_hook m \<noteq> None \<and> keyboard_hook m \<noteq> mouse_hook m
      else keyboard_hook m = None \<and> mouse_hook m = None))"

lemma close_hook_live:
  "hook_lawful H \<Longrightarrow> live_hooks H (close_hook H h w) = live_hooks H w - set_option h"
  by (auto simp: hook_lawful_def close_hook_def split: option.splits)

lemma RemoveHooks_inv:
  assumes "hook_lawful H" and "hook_inv H base (m, w)" and "RemoveHooks H (m, w) = (m', w')"
  shows "hook_inv H base (m', w') \<and> live_hooks H w' = base \<and> \<not> registered m'"
  using assms(2,3)
  by (auto simp: hook_inv_def RemoveHooks_def owned_hooks_def close_hook_live [OF assms(1)])

lemma set_hook_live:
  assumes "hook_lawful H" and "SetWindowsHookEx H k w = (h, w')"
  shows "live_hooks H w' = live_hooks H w \<union> set_option h \<and> live_hooks H w \<inter> set_option h = {}"
  using assms(1) [unfolded hook_lawful_def, THEN conjunct1, THEN spec, of k, THEN spec, of w] assms(2)
  by (auto split: option.splits)

lemma InstallHooks_inv:
  assumes "hook_lawful H" and "hook_inv H base mw"
  shows "hook_inv H base (InstallHooks H mw)"
proof -
  obtain m w where mw: "mw = (m, w)" by (cases mw)
  obtain m1 w1 where r: "RemoveHooks H (m, w) = (m1, w1)" by (cases "RemoveHooks H (m, w)")
  obtain kb w2 where k: "SetWindowsHookEx H WH_KEYBOARD_LL w1 = (kb, w2)" by (cases "SetWindowsHookEx H WH_KEYBOARD_LL w1")
  obtain ms w3 where s: "SetWindowsHookEx H WH_MOUSE_LL w2 = (ms, w3)" by (cases "SetWindowsHookEx H WH_MOUSE_LL w2")
  have "live_hooks H w1 = base" using RemoveHooks_inv [OF assms(1) _ r, of base] assms(2) mw by simp
  with set_hook_live [OF assms(1) k] set_hook_live [OF assms(1) s]
  have l: "live_hooks H w2 = base \<union> set_option kb" "base \<inter> set_option kb = {}"
    "live_hooks H w3 = base \<union> set_option kb \<union> set_option ms" "(base \<union> set_option kb) \<inter> set_option ms = {}" by auto
  show ?thesis
  proof (cases "kb = None \<or> ms = None")
    case True
    then have "InstallHooks H mw = (m1\<lparr>keyboard_hook := None, mouse_hook := None, registered := False\<rparr>,
        close_hook H kb (close_hook H ms w3))"
      by (simp add: InstallHooks_def mw r k s)
    moreover have "live_hooks H (close_hook H kb (close_hook H ms w3)) = base"
      unfolding close_hook_live [OF assms(1)] l(3) using l(2,4) by blast
    ultimately show ?thesis by (simp add: hook_inv_def owned_hooks_def)
  next
    case False
    then have "InstallHooks H mw = (m1\<lparr>keyboard_hook := kb, mouse_hook := ms, registered := True\<rparr>, w3)"
      by (auto simp: InstallHooks_def mw r k s)
    moreover from False obtain h g where "kb = Some h" "ms = Some g" by auto
    moreover from this l have "live_hooks H w3 = base \<union> ({h} \<union> {g})" "base \<inter> ({h} \<union> {g}) = {}" "h \<noteq> g" by auto
    ultimately show ?thesis by (simp add: hook_inv_def owned_hooks_def)
  qed
qed

lemma hook_inv_frame [simp]:
  "hook_inv H base (m\<lparr>bindings := bs\<rparr>, w) = hook_inv H base (m, w)"
  "hook_inv H base (m\<lparr>has_instance := i\<rparr>, w) = hook_inv H base (m, w)"
  by (simp_all add: hook_inv_def owned_hooks_def)

lemma SetBinding_inv:
  assumes "hook_lawful H" and "hook_inv H base (m, w)" and "SetBinding H S a b (m, w, s) = (m', w', s')"
  shows "hook_inv H base (m', w')"
proof (cases "action_index a \<ge> kHotkeyActionCount")
  case True
  with assms show ?thesis by (simp add: SetBinding_def)
next
  case False
  obtain m1 w1 where r: "(if registered m then RemoveHooks H (m, w) else (m, w)) = (m1, w1)" by force
  then have "hook_inv H base (m1, w1)"
    using assms(2) RemoveHooks_inv [OF assms(1,2)] by (cases "registered m") auto
  then have i: "hook_inv H base (m1\<lparr>bindings := (bindings m1)[action_index a := b]\<rparr>, w1)"
    by simp
  from False assms(3) have "(m', w') = (if registered m then InstallHooks H (m1\<lparr>bindings := (bindings m1)[action_index a := b]\<rparr>, w1)
      else (m1\<lparr>bindings := (bindings m1)[action_index a := b]\<rparr>, w1))"
    by (auto simp: SetBinding_def r Let_def split: prod.splits if_splits)
  with InstallHooks_inv [OF assms(1) i] i show ?thesis by (auto split: if_splits)
qed

section \<open>Bindings and settings\<close>

lemma action_index_less [simp]: "action_index a < kHotkeyActionCount \<longleftrightarrow> a \<noteq> kActionCount"
  by (cases a) (simp_all add: kHotkeyActionCount_def)

lemma action_index_le [simp]: "kHotkeyActionCount \<le> action_index a \<longleftrightarrow> a = kActionCount"
  by (cases a) (simp_all add: kHotkeyActionCount_def)

lemma action_index_inject [simp]: "action_index a = action_index b \<longleftrightarrow> a = b"
  by (cases a; cases b) simp_all

lemma set_all_actions: "set all_actions = - {kActionCount}"
  by (auto simp: all_actions_def) (metis hotkey_action.exhaust)

lemma settings_keys [simp]:
  "mods_key a = mods_key b \<longleftrightarrow> a = b" "vk_key a = vk_key b \<longleftrightarrow> a = b" "mods_key a \<noteq> vk_key b"
  "vk_key b \<noteq> mods_key a"
  by (cases a; cases b; simp add: mods_key_def vk_key_def)+

text \<open>After saving, every key answers the binding it stands for.\<close>

lemma get_SaveSettings:
  assumes "settings_lawful S" and "a \<noteq> kActionCount"
  shows "get_value S (mods_key a) d (SaveSettings S m s) = modifiers (bindings m ! action_index a)"
    and "get_value S (vk_key a) d (SaveSettings S m s) = vk (bindings m ! action_index a)"
proof -
  have law: "get_value S k d (set_value S k' x s) = (if k = k' then x else get_value S k d s)" for k k' x s
    using assms(1) by (simp add: settings_lawful_def)
  show "get_value S (mods_key a) d (SaveSettings S m s) = modifiers (bindings m ! action_index a)"
    and "get_value S (vk_key a) d (SaveSettings S m s) = vk (bindings m ! action_index a)"
    using assms(2) by (cases a; simp add: SaveSettings_def all_actions_def Let_def law)+
qed

lemma fold_update_bindings:
  "bindings (fold (\<lambda>a m. m\<lparr>bindings := (bindings m)[action_index a := f a]\<rparr>) xs m) =
   fold (\<lambda>a bs. bs[action_index a := f a]) xs (bindings m)"
  by (induction xs arbitrary: m) simp_all

lemma bindings_LoadSettings:
  assumes "length (bindings m) = kHotkeyActionCount" and "a \<noteq> kActionCount"
  shows "bindings (LoadSettings S s m) ! action_index a =
    \<lparr>modifiers = get_value S (mods_key a) 0 s, vk = get_value S (vk_key a) 0 s\<rparr>"
  unfolding LoadSettings_def fold_update_bindings
  using assms by (cases a) (simp_all add: all_actions_def kHotkeyActionCount_def)

lemma hook_ops_frame [simp]:
  "bindings (fst (RemoveHooks H mw)) = bindings (fst mw)"
  "bindings (fst (InstallHooks H mw)) = bindings (fst mw)"
  "has_instance (fst (RemoveHooks H mw)) = has_instance (fst mw)"
  "has_instance (fst (InstallHooks H mw)) = has_instance (fst mw)"
  by (auto simp: RemoveHooks_def InstallHooks_def Let_def split: prod.splits)

lemma SetBinding_sel:
  assumes "SetBinding H S a b (m, w, s) = (m', w', s')" and "a \<noteq> kActionCount"
  shows "bindings m' = (bindings m)[action_index a := b]" and "has_instance m' = has_instance m"
    and "s' = SaveSettings S m' s"
proof -
  obtain m1 w1 where r: "(if registered m then RemoveHooks H (m, w) else (m, w)) = (m1, w1)" by force
  let ?m2 = "m1\<lparr>bindings := (bindings m1)[action_index a := b]\<rparr>"
  obtain m3 w3 where i: "(if registered m then InstallHooks H (?m2, w1) else (?m2, w1)) = (m3, w3)" by force
  have "SetBinding H S a b (m, w, s) = (m3, w3, SaveSettings S m3 s)"
    using assms(2) by (simp add: SetBinding_def Let_def r i)
  moreover have "bindings m1 = bindings m" "has_instance m1 = has_instance m"
    using arg_cong [OF r, of "\<lambda>x. bindings (fst x)"] arg_cong [OF r, of "\<lambda>x. has_instance (fst x)"]
    by (simp_all split: if_splits)
  moreover have "bindings m3 = bindings ?m2" "has_instance m3 = has_instance m1"
    using arg_cong [OF i, of "\<lambda>x. bindings (fst x)"] arg_cong [OF i, of "\<lambda>x. has_instance (fst x)"]
    by (simp_all split: if_splits)
  ultimately show "bindings m' = (bindings m)[action_index a := b]" and "has_instance m' = has_instance m"
    and "s' = SaveSettings S m' s" using assms(1) by simp_all
qed

lemma GetBinding_nth: "a \<noteq> kActionCount \<Longrightarrow> GetBinding a m = bindings m ! action_index a"
  by (simp add: GetBinding_def Let_def)

lemma GetBinding_SetBinding:
  assumes "SetBinding H S a b (m, w, s) = (m', w', s')" and "a \<noteq> kActionCount" and "c \<noteq> kActionCount"
    and "length (bindings m) = kHotkeyActionCount"
  shows "GetBinding c m' = (if c = a then b else GetBinding c m)"
  using assms(2-4) by (simp add: GetBinding_nth SetBinding_sel(1) [OF assms(1,2)] nth_list_update)

section \<open>A concrete system\<close>

definition sample_hooks :: "(nat, nat list) hook_ops" where
  "sample_hooks = \<lparr>SetWindowsHookEx = (\<lambda>k w. (Some (Suc (sum_list w)), Suc (sum_list w) # w)),
     UnhookWindowsHookEx = (\<lambda>h w. removeAll h w), live_hooks = set\<rparr>"

lemma sample_hooks_lawful: "hook_lawful sample_hooks"
  using member_le_sum_list [where 'a = nat]
  by (auto simp: hook_lawful_def sample_hooks_def dest: member_le_sum_list)

definition sample_settings :: "(string \<Rightarrow> u32 option) settings_ops" where
  "sample_settings = \<lparr>set_value = (\<lambda>k x s. s(k := Some x)),
     get_value = (\<lambda>k d s. case s k of None \<Rightarrow> d | Some x \<Rightarrow> x)\<rparr>"

lemma sample_settings_lawful: "settings_lawful sample_settings"
  by (simp add: settings_lawful_def sample_settings_def)

section \<open>Properties\<close>

text \<open>
  A binding and a key sequence translate back and forth. A binding that can be shown as a key
  sequence is got back from it with its key and its three modifiers; a chord whose key has a virtual key
  code is got back with its modifiers, except that the numeric pad's Enter becomes Return.
\<close>

theorem hotkey_sequence_roundtrip:
  "(ToKeySequence b \<noteq> [] \<longrightarrow>
      FromKeySequence (ToKeySequence b) = \<lparr>modifiers = modifiers b AND win32_mask, vk = vk b\<rparr>) \<and>
   (QtKeyToVk key \<noteq> 0 \<and> key \<noteq> Key_Enter \<longrightarrow>
      ToKeySequence (FromKeySequence [(key, mods)]) = [(key, mods AND qt_mask)])"
proof (intro conjI impI)
  assume "ToKeySequence b \<noteq> []"
  then have "VkToQtKey (vk b) \<noteq> 0" and t: "ToKeySequence b = [(VkToQtKey (vk b), Win32ModsToQt (modifiers b))]"
    by (auto simp: ToKeySequence_def Let_def split: if_splits)
  then show "FromKeySequence (ToKeySequence b) = \<lparr>modifiers = modifiers b AND win32_mask, vk = vk b\<rparr>"
    by (simp add: FromKeySequence_def QtModsToWin32_back QtKeyToVk_back)
next
  assume "QtKeyToVk key \<noteq> 0 \<and> key \<noteq> Key_Enter"
  with VkToQtKey_back [of key] show "ToKeySequence (FromKeySequence [(key, mods)]) = [(key, mods AND qt_mask)]"
    by (simp add: FromKeySequence_def ToKeySequence_def IsValid_def Win32ModsToQt_back)
qed

lemma hotkey_sequence_roundtrip_witness:
  "ToKeySequence (FromKeySequence [(Key_F1, ControlModifier)]) = [(Key_F1, ControlModifier)]"
proof -
  have "QtKeyToVk Key_F1 \<noteq> 0" by code_simp
  with hotkey_sequence_roundtrip [of no_binding Key_F1 ControlModifier] show ?thesis by (simp add: qt_mask_def)
qed

text \<open>The calls that change the manager.\<close>

datatype hotkey_call = CallInstall | CallRemove | CallSet hotkey_action hotkey_binding

fun run_call ::
  "('h, 'o) hook_ops \<Rightarrow> 's settings_ops \<Rightarrow> hotkey_call \<Rightarrow> 'h hotkey_manager \<times> 'o \<times> 's \<Rightarrow> 'h hotkey_manager \<times> 'o \<times> 's" where
  "run_call H S CallInstall (m, w, s) = (case InstallHooks H (m, w) of (m, w) \<Rightarrow> (m, w, s))"
| "run_call H S CallRemove (m, w, s) = (case RemoveHooks H (m, w) of (m, w) \<Rightarrow> (m, w, s))"
| "run_call H S (CallSet a b) (m, w, s) = SetBinding H S a b (m, w, s)"

lemma run_call_inv:
  assumes "hook_lawful H" and "hook_inv H base (m, w)" and "run_call H S c (m, w, s) = (m', w', s')"
  shows "hook_inv H base (m', w')"
proof (cases c)
  case CallInstall
  with assms InstallHooks_inv [OF assms(1,2)] show ?thesis by (auto split: prod.splits)
next
  case CallRemove
  then have "RemoveHooks H (m, w) = (m', w')" using assms(3) by (auto split: prod.splits)
  with RemoveHooks_inv [OF assms(1,2)] show ?thesis by blast
next
  case (CallSet a b)
  with assms(3) SetBinding_inv [OF assms(1,2)] show ?thesis by simp
qed

lemma run_calls_inv:
  assumes "hook_lawful H" and "hook_inv H base (m, w)" and "fold (run_call H S) cs (m, w, s) = (m', w', s')"
  shows "hook_inv H base (m', w')"
  using assms(2,3)
proof (induction cs arbitrary: m w s)
  case (Cons c cs)
  obtain m1 w1 s1 where c: "run_call H S c (m, w, s) = (m1, w1, s1)" by (metis prod_cases3)
  from Cons.IH [OF run_call_inv [OF assms(1) Cons.prems(1) c]] Cons.prems(2) c show ?case by simp
qed simp

lemma HotkeyManager_new_inv:
  assumes "hook_lawful H"
  shows "hook_inv H (live_hooks H w) (HotkeyManager_new H S s w)"
proof -
  have "keyboard_hook (LoadSettings S s m) = keyboard_hook m \<and> mouse_hook (LoadSettings S s m) = mouse_hook m \<and>
      registered (LoadSettings S s m) = registered m" for m :: "'a hotkey_manager"
    by (simp add: LoadSettings_def all_actions_def)
  then have "hook_inv H (live_hooks H w) (LoadSettings S s (hotkey_manager_blank\<lparr>has_instance := True\<rparr>), w)"
    by (simp add: hook_inv_def owned_hooks_def hotkey_manager_blank_def)
  then show ?thesis unfolding HotkeyManager_new_def by (rule InstallHooks_inv [OF assms])
qed

text \<open>
  Hooks are never leaked. Starting from a new manager, after any calls that install, remove and
  rebind, the hooks the system holds beyond those of other programs are exactly the two the manager has
  stored when it is registered and none when it is not, also when installing fails half way; and
  the destructor removes them all.
\<close>

theorem hooks_never_leak:
  assumes "hook_lawful H" and "HotkeyManager_new H S s w = (m, w1)"
    and "fold (run_call H S) cs (m, w1, s) = (m', w', s')"
  shows "live_hooks H w' = live_hooks H w \<union> owned_hooks m' \<and> live_hooks H w \<inter> owned_hooks m' = {} \<and>
    card (owned_hooks m') = (if registered m' then 2 else 0) \<and>
    live_hooks H (snd (HotkeyManager_destroy H (m', w'))) = live_hooks H w"
proof -
  let ?base = "live_hooks H w"
  have i: "hook_inv H ?base (m', w')"
    using run_calls_inv [OF assms(1) _ assms(3)] HotkeyManager_new_inv [OF assms(1), of w S s] assms(2) by simp
  obtain m2 w2 where r: "RemoveHooks H (m'\<lparr>has_instance := False\<rparr>, w') = (m2, w2)" by force
  have "hook_inv H ?base (m'\<lparr>has_instance := False\<rparr>, w')" using i by simp
  from RemoveHooks_inv [OF assms(1) this r] have "live_hooks H (snd (HotkeyManager_destroy H (m', w'))) = ?base"
    by (simp add: HotkeyManager_destroy_def r)
  moreover have "card (owned_hooks m') = (if registered m' then 2 else 0)"
    using i by (auto simp: hook_inv_def owned_hooks_def)
  ultimately show ?thesis using i by (simp add: hook_inv_def)
qed

lemma hooks_never_leak_witness:
  "set (snd (HotkeyManager_destroy sample_hooks (HotkeyManager_new sample_hooks sample_settings (\<lambda>_. None) [7]))) = {7}"
proof -
  obtain m w where n: "HotkeyManager_new sample_hooks sample_settings (\<lambda>_. None) [7] = (m, w)" by force
  from hooks_never_leak [OF sample_hooks_lawful n, of "[]"]
  have "live_hooks sample_hooks (snd (HotkeyManager_destroy sample_hooks (m, w))) = live_hooks sample_hooks [7]" by simp
  then show ?thesis by (simp add: n) (simp add: sample_hooks_def)
qed

text \<open>
  Bindings survive a restart. After \<open>SetBinding\<close> a new manager that loads the settings has the
  new binding for that action and the old ones for all others.
\<close>

theorem binding_survives_restart:
  assumes "settings_lawful S" and "length (bindings m) = kHotkeyActionCount"
    and "SetBinding H S a b (m, w, s) = (m', w', s')" and "a \<noteq> kActionCount" and "c \<noteq> kActionCount"
  shows "GetBinding c (fst (HotkeyManager_new H S s' w'')) = (if c = a then b else GetBinding c m)"
proof -
  have "length (bindings (hotkey_manager_blank\<lparr>has_instance := True\<rparr>)) = kHotkeyActionCount"
    by (simp add: hotkey_manager_blank_def)
  from bindings_LoadSettings [OF this assms(5)]
  have "GetBinding c (fst (HotkeyManager_new H S s' w'')) =
      \<lparr>modifiers = get_value S (mods_key c) 0 s', vk = get_value S (vk_key c) 0 s'\<rparr>"
    by (simp add: HotkeyManager_new_def GetBinding_nth [OF assms(5)])
  also have "\<dots> = GetBinding c m'"
    by (simp add: SetBinding_sel(3) [OF assms(3,4)] get_SaveSettings [OF assms(1,5)] GetBinding_nth [OF assms(5)])
  finally show ?thesis using GetBinding_SetBinding [OF assms(3,4,5,2)] by simp
qed

lemma binding_survives_restart_witness:
  "GetBinding kIncrementDelay (fst (HotkeyManager_new sample_hooks sample_settings
     (snd (snd (SetBinding sample_hooks sample_settings kIncrementDelay \<lparr>modifiers = 2, vk = 0x70\<rparr>
       (hotkey_manager_blank, [], \<lambda>_. None)))) [])) = \<lparr>modifiers = 2, vk = 0x70\<rparr>"
proof -
  obtain m w s where b: "SetBinding sample_hooks sample_settings kIncrementDelay \<lparr>modifiers = 2, vk = 0x70\<rparr>
       (hotkey_manager_blank, [], \<lambda>_. None) = (m, w, s)" by (metis prod_cases3)
  have "length (bindings hotkey_manager_blank) = kHotkeyActionCount" by (simp add: hotkey_manager_blank_def)
  from binding_survives_restart [OF sample_settings_lawful this b, of kIncrementDelay "[]"] show ?thesis
    by (simp add: b)
qed

text \<open>A manager that was made and used has its instance, its five bindings, and its hooks in order.\<close>

lemma SetBinding_none: "SetBinding H S kActionCount b x = x"
  by (cases x) (simp add: SetBinding_def kHotkeyActionCount_def)

lemma run_call_sel:
  assumes "run_call H S c (m, w, s) = (m', w', s')"
  shows "has_instance m' = has_instance m" and "length (bindings m') = length (bindings m)"
proof -
  have "has_instance m' = has_instance m \<and> length (bindings m') = length (bindings m)"
  proof (cases c)
    case CallInstall
    then have "m' = fst (InstallHooks H (m, w))" using assms by (auto split: prod.splits)
    then show ?thesis by simp
  next
    case CallRemove
    then have "m' = fst (RemoveHooks H (m, w))" using assms by (auto split: prod.splits)
    then show ?thesis by simp
  next
    case (CallSet a b)
    then have st: "SetBinding H S a b (m, w, s) = (m', w', s')" using assms by simp
    show ?thesis
    proof (cases "a = kActionCount")
      case True
      with st show ?thesis by (simp add: SetBinding_none)
    next
      case False
      from SetBinding_sel [OF st False] show ?thesis by simp
    qed
  qed
  then show "has_instance m' = has_instance m" and "length (bindings m') = length (bindings m)" by simp_all
qed

lemma run_calls_sel:
  assumes "fold (run_call H S) cs (m, w, s) = (m', w', s')"
  shows "has_instance m' = has_instance m \<and> length (bindings m') = length (bindings m)"
  using assms
proof (induction cs arbitrary: m w s)
  case (Cons c cs)
  obtain m1 w1 s1 where c: "run_call H S c (m, w, s) = (m1, w1, s1)" by (metis prod_cases3)
  from Cons.IH [of m1 w1 s1] Cons.prems c run_call_sel [OF c] show ?case by simp
qed simp

lemma LoadSettings_sel: "has_instance (LoadSettings S s m) = has_instance m" "length (bindings (LoadSettings S s m)) = length (bindings m)"
  by (simp_all add: LoadSettings_def all_actions_def)

lemma managed:
  assumes "hook_lawful H" and "HotkeyManager_new H S s0 w0 = (m1, w1)" and "fold (run_call H S) cs (m1, w1, s0) = (m, w, s)"
  shows "has_instance m" and "length (bindings m) = kHotkeyActionCount" and "hook_inv H (live_hooks H w0) (m, w)"
proof -
  have "has_instance m1" "length (bindings m1) = kHotkeyActionCount"
    using arg_cong [OF assms(2), of "has_instance \<circ> fst"] arg_cong [OF assms(2), of "length \<circ> bindings \<circ> fst"]
    by (simp_all add: HotkeyManager_new_def LoadSettings_sel) (simp add: hotkey_manager_blank_def)
  with run_calls_sel [OF assms(3)] show "has_instance m" "length (bindings m) = kHotkeyActionCount" by simp_all
  have "hook_inv H (live_hooks H w0) (m1, w1)" using HotkeyManager_new_inv [OF assms(1), of w0 S s0] assms(2) by simp
  with run_calls_inv [OF assms(1) _ assms(3)] show "hook_inv H (live_hooks H w0) (m, w)" by blast
qed

text \<open>Rebinding puts the hooks in place again, if the system grants them.\<close>

lemma SetBinding_registered:
  assumes "SetBinding H S a b (m, w, s) = (m', w', s')" and "a \<noteq> kActionCount" and "registered m"
    and "\<forall>k x. fst (SetWindowsHookEx H k x) \<noteq> None"
  shows "registered m'"
proof -
  have i: "registered (fst (InstallHooks H mw))" for mw
  proof -
    obtain m1 x1 where r: "RemoveHooks H mw = (m1, x1)" by force
    obtain kb x2 where k: "SetWindowsHookEx H WH_KEYBOARD_LL x1 = (kb, x2)" by force
    obtain ms x3 where g: "SetWindowsHookEx H WH_MOUSE_LL x2 = (ms, x3)" by force
    have "kb \<noteq> None" "ms \<noteq> None"
      using assms(4) [THEN spec, THEN spec, of WH_KEYBOARD_LL x1] assms(4) [THEN spec, THEN spec, of WH_MOUSE_LL x2] k g by simp_all
    then show ?thesis by (simp add: InstallHooks_def r k g)
  qed
  have "\<exists>mw. m' = fst (InstallHooks H mw)"
    using assms(1-3) by (auto simp: SetBinding_def Let_def split: prod.splits) (metis fst_conv)+
  with i show ?thesis by blast
qed

text \<open>
  C33: a captured hotkey triggers its action. Let a manager have been made and used in any way. If a key with a code other than zero that
  is not a modifier key (nor the bare Escape, which clears the binding) is pressed in the edit of an
  action, then a press of that key with the same modifiers, which the hook hears of as WM_KEYDOWN or, while
  Alt is held and for F10, as WM_SYSKEYDOWN, triggers in another program exactly that action and the
  actions that had the same binding already; nothing is triggered while the program's own window has the
  focus, nor by another message. The hooks that are to hear of the press are live if they were before and the system grants
  the two that \<open>SetBinding\<close> asks for again.
\<close>

theorem captured_hotkey_triggers:
  assumes "hook_lawful H" and "HotkeyManager_new H S s0 w0 = (m1, w1)" and "fold (run_call H S) cs (m1, w1, s0) = (m, w, s)"
    and "\<not> is_modifier_key key" and "key \<noteq> 0" and "\<not> (key = VK_ESCAPE \<and> event_mods mods = 0)"
    and "keyPressEvent N key mods e = (e', bs)" and "store_signals H S a bs (m, w, s) = (m', w', s')"
    and "a \<noteq> kActionCount" and "GetCurrentModifiers key_state = event_mods mods" and "fg \<noteq> my"
  shows "(\<forall>w_param.
      KeyboardHookProc fg my key_state 0 w_param key m' =
        (if w_param \<in> {WM_KEYDOWN, WM_SYSKEYDOWN}
         then filter (\<lambda>c. c = a \<or> GetBinding c m = \<lparr>modifiers = event_mods mods, vk = key\<rparr>) all_actions else []) \<and>
      KeyboardHookProc my my key_state 0 w_param key m' = []) \<and>
    (registered m \<and> (\<forall>k x. fst (SetWindowsHookEx H k x) \<noteq> None) \<longrightarrow>
      (\<exists>kb mouse. keyboard_hook m' = Some kb \<and> mouse_hook m' = Some mouse \<and> kb \<noteq> mouse \<and>
        live_hooks H w' = live_hooks H w0 \<union> {kb, mouse}))"
proof -
  let ?b = "\<lparr>modifiers = event_mods mods, vk = key\<rparr>"
  note m = managed [OF assms(1-3)]
  have "bs = [?b]" using assms(4,6,7) by (auto simp: keyPressEvent_def Let_def)
  with assms(8) have s: "SetBinding H S a ?b (m, w, s) = (m', w', s')" by (simp add: store_signals_def)
  have "IsValid (bindings m' ! action_index c) \<and> vk (bindings m' ! action_index c) = key \<and>
      modifiers (bindings m' ! action_index c) = event_mods mods \<longleftrightarrow> c = a \<or> GetBinding c m = ?b"
    if "c \<in> set all_actions" for c
  proof -
    have c: "c \<noteq> kActionCount" using that by (simp add: set_all_actions)
    have "bindings m' ! action_index c = (if c = a then ?b else GetBinding c m)"
      using GetBinding_SetBinding [OF s assms(9) c m(2)] by (simp add: GetBinding_nth [OF c])
    then show ?thesis using assms(5) by (cases "GetBinding c m") (auto simp: IsValid_def)
  qed
  then have "CheckAndTrigger fg my key (event_mods mods) m' =
      filter (\<lambda>c. c = a \<or> GetBinding c m = ?b) all_actions"
    using assms(11) by (simp add: CheckAndTrigger_def Let_def cong: filter_cong)
  then have "KeyboardHookProc fg my key_state 0 w_param key m' =
        (if w_param \<in> {WM_KEYDOWN, WM_SYSKEYDOWN} then filter (\<lambda>c. c = a \<or> GetBinding c m = ?b) all_actions else [])"
      "KeyboardHookProc my my key_state 0 w_param key m' = []" for w_param
    using assms(4,10) m(1) by (simp_all add: KeyboardHookProc_def CheckAndTrigger_def SetBinding_sel(2) [OF s assms(9)])
  moreover have "\<exists>kb mouse. keyboard_hook m' = Some kb \<and> mouse_hook m' = Some mouse \<and> kb \<noteq> mouse \<and>
        live_hooks H w' = live_hooks H w0 \<union> {kb, mouse}"
    if g: "registered m" "\<forall>k x. fst (SetWindowsHookEx H k x) \<noteq> None"
    using SetBinding_inv [OF assms(1) m(3) s] SetBinding_registered [OF s assms(9) g]
    by (auto simp: hook_inv_def owned_hooks_def)
  ultimately show ?thesis by blast
qed

definition sample_names :: key_names where
  "sample_names = \<lparr>MapVirtualKeyW = (\<lambda>v. v), GetKeyNameTextW = (\<lambda>_. None), number = (\<lambda>_. ''key'')\<rparr>"

lemma captured_hotkey_triggers_witness:
  "\<exists>m w m' w' s'. HotkeyManager_new sample_hooks sample_settings (\<lambda>_. None) [7] = (m, w) \<and>
    store_signals sample_hooks sample_settings kIncrementDelay [\<lparr>modifiers = MOD_ALT, vk = 0x70\<rparr>] (m, w, \<lambda>_. None) = (m', w', s') \<and>
    KeyboardHookProc (Some 1) (None :: nat option) (\<lambda>v. if v = VK_MENU then 0x8000 else 0) 0 WM_SYSKEYDOWN 0x70 m' =
      [kIncrementDelay] \<and> (\<exists>kb. keyboard_hook m' = Some kb \<and> kb \<in> live_hooks sample_hooks w')"
proof -
  let ?ks = "\<lambda>v. if v = VK_MENU then 0x8000 else 0" and ?b = "\<lparr>modifiers = MOD_ALT, vk = 0x70\<rparr>"
  let ?e = "\<lparr>edit_binding = no_binding, edit_text = ''''\<rparr>"
  have "(\<lambda>(m, w). (map (\<lambda>c. GetBinding c m) all_actions, registered m))
      (HotkeyManager_new sample_hooks sample_settings (\<lambda>_. None) [7]) =
      ([no_binding, no_binding, no_binding, no_binding, no_binding], True)" by code_simp
  then obtain m w where new: "HotkeyManager_new sample_hooks sample_settings (\<lambda>_. None) [7] = (m, w)"
    "map (\<lambda>c. GetBinding c m) all_actions = [no_binding, no_binding, no_binding, no_binding, no_binding]" "registered m" by (auto split: prod.splits)
  obtain m' w' s' where st: "store_signals sample_hooks sample_settings kIncrementDelay [?b] (m, w, \<lambda>_. None) = (m', w', s')"
    by (metis prod_cases3)
  have mods: "event_mods AltModifier = MOD_ALT" by code_simp
  have k: "\<not> is_modifier_key 0x70" "(0x70 :: u32) \<noteq> 0" "\<not> (0x70 = VK_ESCAPE \<and> event_mods AltModifier = 0)"
    "keyPressEvent sample_names 0x70 AltModifier ?e = (edit_SetBinding sample_names ?b ?e, [?b])"
    by (simp_all add: keyPressEvent_def is_modifier_key_def mods Let_def)
  have cur: "GetCurrentModifiers ?ks = event_mods AltModifier"
    unfolding mods by (simp add: GetCurrentModifiers_def or_if_def)
  have n: "fold (run_call sample_hooks sample_settings) [] (m, w, \<lambda>_. None) = (m, w, \<lambda>_. None)" "kIncrementDelay \<noteq> kActionCount"
    "Some 1 \<noteq> (None :: nat option)" by simp_all
  from captured_hotkey_triggers [OF sample_hooks_lawful new(1) n(1) k st n(2) cur n(3)] have
    t: "KeyboardHookProc (Some 1) (None :: nat option) ?ks 0 WM_SYSKEYDOWN 0x70 m' =
        filter (\<lambda>c. c = kIncrementDelay \<or> GetBinding c m = \<lparr>modifiers = event_mods AltModifier, vk = 0x70\<rparr>) all_actions" and
    h: "registered m \<and> (\<forall>k x. fst (SetWindowsHookEx sample_hooks k x) \<noteq> None) \<longrightarrow>
      (\<exists>kb mouse. keyboard_hook m' = Some kb \<and> mouse_hook m' = Some mouse \<and> kb \<noteq> mouse \<and>
        live_hooks sample_hooks w' = live_hooks sample_hooks [7] \<union> {kb, mouse})"
    by auto
  have "filter (\<lambda>c. c = kIncrementDelay \<or> GetBinding c m = \<lparr>modifiers = event_mods AltModifier, vk = 0x70\<rparr>) all_actions =
      [kIncrementDelay]"
    using new(2) unfolding mods by (simp add: all_actions_def no_binding_def)
  moreover have "\<exists>kb. keyboard_hook m' = Some kb \<and> kb \<in> live_hooks sample_hooks w'"
    using h new(3) by (auto simp: sample_hooks_def)
  ultimately show ?thesis using t new(1) st by auto
qed

end
