(* ===== verification/Hotkey_Page.thy ===== *)
theory Hotkey_Page
  imports Hotkey_Laws
begin

text \<open>
  The hotkeys of the Settings tab as a whole (\<open>SetupUi\<close> in src/ui/MainWindow.cpp): five line edits, each
  with its clear button, loaded from the manager and connected to it, and the button that clears all. The
  edits, the manager, its hooks and the settings store change together.
\<close>

section \<open>The page\<close>

record ('h, 'o, 's) hotkey_page =
  edits :: "hotkey_action \<Rightarrow> hotkey_edit"
  hotkeys :: "'h hotkey_manager"
  hook_world :: 'o
  hotkey_store :: 's

definition HotkeyEdit_new :: hotkey_edit where
  "HotkeyEdit_new = \<lparr>edit_binding = no_binding, edit_text = ''''\<rparr>"

definition load_hotkey_edit :: "key_names \<Rightarrow> 'h hotkey_manager \<Rightarrow> hotkey_action \<Rightarrow> hotkey_edit \<Rightarrow> hotkey_edit" where
  "load_hotkey_edit N m a = edit_SetBinding N (GetBinding a m)"

text \<open>The manager is made first; it loads the bindings and installs the hooks. Then the edits are loaded.\<close>

definition hotkey_page_start ::
  "('h, 'o) hook_ops \<Rightarrow> 's settings_ops \<Rightarrow> key_names \<Rightarrow> 's \<Rightarrow> 'o \<Rightarrow> ('h, 'o, 's) hotkey_page" where
  "hotkey_page_start H S N s w =
     (case HotkeyManager_new H S s w of
        (m, w) \<Rightarrow>
          \<lparr>edits = fold (\<lambda>a es. es(a := load_hotkey_edit N m a (es a))) all_actions (\<lambda>_. HotkeyEdit_new),
           hotkeys = m, hook_world = w, hotkey_store = s\<rparr>)"

text \<open>An edit's handler runs; the signals it emits reach the manager under the action the edit is connected with.\<close>

definition edit_event ::
  "('h, 'o) hook_ops \<Rightarrow> 's settings_ops \<Rightarrow> hotkey_action \<Rightarrow> (hotkey_edit \<Rightarrow> hotkey_edit \<times> hotkey_binding list) \<Rightarrow>
   ('h, 'o, 's) hotkey_page \<Rightarrow> ('h, 'o, 's) hotkey_page" where
  "edit_event H S a handler x =
     (case handler (edits x a) of
        (e, signals) \<Rightarrow>
          (case store_signals H S a signals (hotkeys x, hook_world x, hotkey_store x) of
             (m, w, s) \<Rightarrow> x\<lparr>edits := (edits x)(a := e), hotkeys := m, hook_world := w, hotkey_store := s\<rparr>))"

datatype page_event =
    EditKey hotkey_action u32 u32
  | EditMouse hotkey_action mouse_button u32
  | ClearClicked hotkey_action
  | ClearAllClicked

fun page_step ::
  "('h, 'o) hook_ops \<Rightarrow> 's settings_ops \<Rightarrow> key_names \<Rightarrow> page_event \<Rightarrow> ('h, 'o, 's) hotkey_page \<Rightarrow> ('h, 'o, 's) hotkey_page" where
  "page_step H S N (EditKey a key mods) = edit_event H S a (keyPressEvent N key mods)"
| "page_step H S N (EditMouse a button mods) = edit_event H S a (mousePressEvent N button mods)"
| "page_step H S N (ClearClicked a) = edit_event H S a (clear_edit N)"
| "page_step H S N ClearAllClicked = fold (\<lambda>a. edit_event H S a (clear_edit N)) all_actions"

text \<open>There are edits for the five actions only.\<close>

fun page_event_ok :: "page_event \<Rightarrow> bool" where
  "page_event_ok (EditKey a key mods) \<longleftrightarrow> a \<noteq> kActionCount"
| "page_event_ok (EditMouse a button mods) \<longleftrightarrow> a \<noteq> kActionCount"
| "page_event_ok (ClearClicked a) \<longleftrightarrow> a \<noteq> kActionCount"
| "page_event_ok ClearAllClicked \<longleftrightarrow> True"

section \<open>Edits, manager, hooks and store agree\<close>

definition shown :: "key_names \<Rightarrow> hotkey_binding \<Rightarrow> hotkey_edit" where
  "shown N b = \<lparr>edit_binding = b, edit_text = BindingToString N b\<rparr>"

definition page_ok ::
  "('h, 'o) hook_ops \<Rightarrow> 's settings_ops \<Rightarrow> key_names \<Rightarrow> 'h set \<Rightarrow> ('h, 'o, 's) hotkey_page \<Rightarrow> bool" where
  "page_ok H S N base x \<longleftrightarrow>
     length (bindings (hotkeys x)) = kHotkeyActionCount \<and> hook_inv H base (hotkeys x, hook_world x) \<and>
     (\<forall>a. a \<noteq> kActionCount \<longrightarrow> edits x a = shown N (GetBinding a (hotkeys x)) \<and>
        GetBinding a (hotkeys x) =
          \<lparr>modifiers = get_value S (mods_key a) 0 (hotkey_store x), vk = get_value S (vk_key a) 0 (hotkey_store x)\<rparr>)"

lemma edit_SetBinding_shown: "edit_SetBinding N b e = shown N b"
  by (simp add: edit_SetBinding_def shown_def)

text \<open>What the three handlers have in common: they emit nothing, or the binding they then show.\<close>

definition captures :: "key_names \<Rightarrow> (hotkey_edit \<Rightarrow> hotkey_edit \<times> hotkey_binding list) \<Rightarrow> bool" where
  "captures N f \<longleftrightarrow> (\<forall>e. f e = (e, []) \<or> (\<exists>b. f e = (shown N b, [b])))"

lemma handlers_capture: "captures N (keyPressEvent N key mods)" "captures N (mousePressEvent N button mods)" "captures N (clear_edit N)"
  by (auto simp: captures_def keyPressEvent_def mousePressEvent_def clear_edit_def edit_SetBinding_shown Let_def split: mouse_button.split)
    (simp_all add: shown_def BindingToString_def IsValid_def no_binding_def)

lemma edit_event_ok:
  assumes "hook_lawful H" and "settings_lawful S" and "captures N f" and "a \<noteq> kActionCount" and "page_ok H S N base x"
  shows "page_ok H S N base (edit_event H S a f x)"
proof (cases "f (edits x a) = (edits x a, [])")
  case True
  then show ?thesis using assms(5) by (simp add: edit_event_def store_signals_def)
next
  case False
  then obtain b where f: "f (edits x a) = (shown N b, [b])" using assms(3) by (auto simp: captures_def)
  obtain m w s where st: "SetBinding H S a b (hotkeys x, hook_world x, hotkey_store x) = (m, w, s)" by (metis prod_cases3)
  have l: "length (bindings (hotkeys x)) = kHotkeyActionCount" and i: "hook_inv H base (hotkeys x, hook_world x)"
    using assms(5) by (simp_all add: page_ok_def)
  note sel = SetBinding_sel [OF st assms(4)]
  have "length (bindings m) = kHotkeyActionCount" using l sel(1) by simp
  moreover have "hook_inv H base (m, w)" by (rule SetBinding_inv [OF assms(1) i st])
  moreover have "GetBinding c m = (if c = a then b else GetBinding c (hotkeys x))" if "c \<noteq> kActionCount" for c
    by (rule GetBinding_SetBinding [OF st assms(4) that l])
  moreover have "GetBinding c m = \<lparr>modifiers = get_value S (mods_key c) 0 s, vk = get_value S (vk_key c) 0 s\<rparr>"
    if "c \<noteq> kActionCount" for c
    by (simp add: sel(3) get_SaveSettings [OF assms(2) that] GetBinding_nth [OF that])
  ultimately show ?thesis using assms(5) f st by (simp add: edit_event_def store_signals_def page_ok_def)
qed

lemma page_step_ok:
  assumes "hook_lawful H" and "settings_lawful S" and "page_ok H S N base x" and "page_event_ok e"
  shows "page_ok H S N base (page_step H S N e x)"
proof (cases e)
  case ClearAllClicked
  have "page_ok H S N base (fold (\<lambda>a. edit_event H S a (clear_edit N)) as x)" if "set as \<subseteq> set all_actions" for as
    using that assms(3)
  proof (induction as arbitrary: x)
    case (Cons a as)
    then have "a \<noteq> kActionCount" by (auto simp: set_all_actions)
    from edit_event_ok [OF assms(1,2) handlers_capture(3) this Cons.prems(2)] Cons show ?case by simp
  qed simp
  then show ?thesis using ClearAllClicked by simp
qed (use assms edit_event_ok [OF assms(1,2)] handlers_capture in auto)

lemma page_run_ok:
  "hook_lawful H \<Longrightarrow> settings_lawful S \<Longrightarrow> page_ok H S N base x \<Longrightarrow> \<forall>e \<in> set es. page_event_ok e \<Longrightarrow>
    page_ok H S N base (fold (page_step H S N) es x)"
  by (induction es arbitrary: x) (simp_all add: page_step_ok)

lemma page_start_sel:
  "hotkeys (hotkey_page_start H S N s w) = fst (HotkeyManager_new H S s w)"
  "hook_world (hotkey_page_start H S N s w) = snd (HotkeyManager_new H S s w)"
  "hotkey_store (hotkey_page_start H S N s w) = s"
  "a \<noteq> kActionCount \<Longrightarrow> edits (hotkey_page_start H S N s w) a = shown N (GetBinding a (fst (HotkeyManager_new H S s w)))"
  by (simp_all add: hotkey_page_start_def split: prod.split)
    (cases a, simp_all add: all_actions_def load_hotkey_edit_def edit_SetBinding_shown)

lemma new_manager_bindings:
  assumes "a \<noteq> kActionCount"
  shows "GetBinding a (fst (HotkeyManager_new H S s w)) = \<lparr>modifiers = get_value S (mods_key a) 0 s, vk = get_value S (vk_key a) 0 s\<rparr>"
proof -
  have "length (bindings (hotkey_manager_blank\<lparr>has_instance := True\<rparr>)) = kHotkeyActionCount"
    by (simp add: hotkey_manager_blank_def)
  from bindings_LoadSettings [OF this assms] show ?thesis by (simp add: HotkeyManager_new_def GetBinding_nth [OF assms])
qed

lemma page_start_ok:
  assumes "hook_lawful H"
  shows "page_ok H S N (live_hooks H w) (hotkey_page_start H S N s w)"
proof -
  have "length (bindings (LoadSettings S s m)) = length (bindings m)" for m :: "'a hotkey_manager"
    by (simp add: LoadSettings_def all_actions_def)
  then have "length (bindings (fst (HotkeyManager_new H S s w))) = kHotkeyActionCount"
    by (simp add: HotkeyManager_new_def hotkey_manager_blank_def)
  moreover have "hook_inv H (live_hooks H w) (fst (HotkeyManager_new H S s w), snd (HotkeyManager_new H S s w))"
    using HotkeyManager_new_inv [OF assms, of w S s] by simp
  ultimately show ?thesis by (simp add: page_ok_def page_start_sel new_manager_bindings)
qed

section \<open>Properties\<close>

text \<open>
  C32: The hotkey page tells the truth, and the next run of the program shows it again. After any keys and
  mouse buttons in any of the five edits and any use of the clear buttons, each edit holds and names the
  binding the manager triggers its action on; a program that starts later from the stored settings has the same
  bindings and the same five edits; and the hooks of the system are those of others and the manager's own.
\<close>

theorem hotkey_page_consistent:
  assumes "hook_lawful H" and "settings_lawful S" and "\<forall>e \<in> set es. page_event_ok e" and "a \<noteq> kActionCount"
    and "fold (page_step H S N) es (hotkey_page_start H S N s w) = x"
  shows "edits x a = \<lparr>edit_binding = GetBinding a (hotkeys x), edit_text = BindingToString N (GetBinding a (hotkeys x))\<rparr> \<and>
    edits (hotkey_page_start H S N (hotkey_store x) w') a = edits x a \<and>
    GetBinding a (hotkeys (hotkey_page_start H S N (hotkey_store x) w')) = GetBinding a (hotkeys x) \<and>
    live_hooks H (hook_world x) = live_hooks H w \<union> owned_hooks (hotkeys x)"
proof -
  have ok: "page_ok H S N (live_hooks H w) x"
    using page_run_ok [OF assms(1,2) page_start_ok [OF assms(1), where w = w and N = N and S = S and s = s] assms(3)] assms(5) by simp
  then have "edits x a = shown N (GetBinding a (hotkeys x))"
    "GetBinding a (hotkeys x) = \<lparr>modifiers = get_value S (mods_key a) 0 (hotkey_store x), vk = get_value S (vk_key a) 0 (hotkey_store x)\<rparr>"
    "live_hooks H (hook_world x) = live_hooks H w \<union> owned_hooks (hotkeys x)"
    using assms(4) by (simp_all add: page_ok_def hook_inv_def)
  then show ?thesis using assms(4) by (simp add: page_start_sel new_manager_bindings) (simp add: shown_def)
qed

theorem hotkey_page_consistent_witness:
  "\<exists>x. fold (page_step sample_hooks sample_settings sample_names) [EditKey kIncrementDelay 0x70 ControlModifier, ClearAllClicked,
      EditMouse kToggleEffects XButton1 0] (hotkey_page_start sample_hooks sample_settings sample_names (\<lambda>_. None) [7]) = x \<and>
    edits x kToggleEffects = \<lparr>edit_binding = \<lparr>modifiers = 0, vk = VK_XBUTTON1\<rparr>, edit_text = ''Mouse 4''\<rparr> \<and>
    edits (hotkey_page_start sample_hooks sample_settings sample_names (hotkey_store x) [7]) kToggleEffects = edits x kToggleEffects"
proof -
  let ?es = "[EditKey kIncrementDelay 0x70 ControlModifier, ClearAllClicked, EditMouse kToggleEffects XButton1 0]"
  obtain x where x: "fold (page_step sample_hooks sample_settings sample_names) ?es
      (hotkey_page_start sample_hooks sample_settings sample_names (\<lambda>_. None) [7]) = x" by blast
  have "\<forall>e \<in> set ?es. page_event_ok e" by simp
  from hotkey_page_consistent [OF sample_hooks_lawful sample_settings_lawful this _ x, of kToggleEffects "[7]"]
  have "edits (hotkey_page_start sample_hooks sample_settings sample_names (hotkey_store x) [7]) kToggleEffects = edits x kToggleEffects"
    by simp
  moreover have "edits x kToggleEffects = \<lparr>edit_binding = \<lparr>modifiers = 0, vk = VK_XBUTTON1\<rparr>, edit_text = ''Mouse 4''\<rparr>"
    unfolding x [symmetric] by code_simp
  ultimately show ?thesis using x by blast
qed

end
