(* ===== verification/Counter_Balance.thy ===== *)
theory Counter_Balance
  imports Pipeline_Run
begin

text \<open>
  The numbers of the diagnostics tab (\<open>Counter\<close> in include/core/Diagnostics.h, counted in
  PacketInterceptor.cpp and DelayQueue.cpp) add up while the pipeline runs: every packet received and every
  copy made is in exactly one of the other counters or still held. The counters are 64 bits wide and wrap; so
  do the sums here.
\<close>

section \<open>Sums of counters\<close>

abbreviation cnt :: "counter \<Rightarrow> 'w env \<Rightarrow> u64" where
  "cnt k v \<equiv> Get k (logs v)"

definition captured :: "'w env \<Rightarrow> u64" where
  "captured v = cnt kPacketsCapturedOutbound v + cnt kPacketsCapturedInbound v"

definition duplicated :: "'w env \<Rightarrow> u64" where
  "duplicated v = cnt kPacketsDuplicatedOutbound v + cnt kPacketsDuplicatedInbound v"

definition dropped :: "'w env \<Rightarrow> u64" where
  "dropped v = cnt kPacketsDroppedOutbound v + cnt kPacketsDroppedInbound v"

definition lost :: "'w env \<Rightarrow> u64" where
  "lost v = cnt kPoolExhausted v + cnt kPacketsOversized v"

text \<open>The packets in calls the driver accepted, and in calls it refused.\<close>

definition passed :: "send_call list \<Rightarrow> nat" where
  "passed cs = sum_list (map (\<lambda>c. length (call_addrs c)) (filter (\<lambda>c. call_error c = 0) cs))"

definition refused :: "send_call list \<Rightarrow> nat" where
  "refused cs = sum_list (map (\<lambda>c. length (call_addrs c)) (filter (\<lambda>c. call_error c \<noteq> 0) cs))"

lemma passed_append [simp]: "passed (cs @ ds) = passed cs + passed ds"
  by (simp add: passed_def)

lemma refused_append [simp]: "refused (cs @ ds) = refused cs + refused ds"
  by (simp add: refused_def)

lemma passed_simps [simp]:
  "passed [] = 0" "refused [] = 0"
  "passed (c # cs) = (if call_error c = 0 then length (call_addrs c) else 0) + passed cs"
  "refused (c # cs) = (if call_error c = 0 then 0 else length (call_addrs c)) + refused cs"
  by (simp_all add: passed_def refused_def)

text \<open>\<open>n\<close> packets are held.\<close>

definition books_balance :: "nat \<Rightarrow> 'w env \<Rightarrow> bool" where
  "books_balance n v \<longleftrightarrow>
     captured v + duplicated v = dropped v + lost v + cnt kPacketsReinjected v + cnt kReinjectFailures v + of_nat n \<and>
     cnt kPacketsReinjected v = of_nat (passed (calls v)) \<and> cnt kReinjectFailures v = of_nat (refused (calls v))"

lemma books_balance_init: "books_balance 0 (env_init w)"
  by (simp add: books_balance_def env_init_def captured_def duplicated_def dropped_def lost_def diagnostics_init_def Get_def)

lemmas sums_def = captured_def duplicated_def dropped_def lost_def

section \<open>What does not count packets\<close>

text \<open>The counters of the flow lookup and of the driver's errors count no packets.\<close>

definition same_counts :: "'w env \<Rightarrow> 'w env \<Rightarrow> bool" where
  "same_counts v v' \<longleftrightarrow> calls v' = calls v \<and>
     (\<forall>k. k \<notin> {kFlowCacheHits, kFlowCacheKernelScans, kDriverErrors, kParseFailures} \<longrightarrow> cnt k v' = cnt k v)"

lemma same_counts_refl [simp]: "same_counts v v"
  by (simp add: same_counts_def)

lemma same_countsD:
  assumes "same_counts v v'"
  shows "calls v' = calls v" "captured v' = captured v" "duplicated v' = duplicated v" "dropped v' = dropped v" "lost v' = lost v"
    "cnt kPacketsReinjected v' = cnt kPacketsReinjected v" "cnt kReinjectFailures v' = cnt kReinjectFailures v"
  using assms by (simp_all add: same_counts_def sums_def)

lemma LookupPid_counts:
  "LookupPid T tup d t v = Some (p, t', v') \<Longrightarrow> same_counts v v'"
  by (auto simp: same_counts_def LookupPid_def LookupPidFromSystem_def ForEachUdpEntry_def Let_def
      split: option.splits prod.splits if_splits)

section \<open>One packet\<close>

text \<open>
  The packet's copies are gathered for the call, held, or counted as gone: nothing else becomes of the \<open>n\<close> packets
  of a step. \<open>fate\<close> is what the counters say of the packets that were handled.
\<close>

definition fate :: "'w env \<Rightarrow> u64" where
  "fate v = duplicated v - dropped v - lost v"

definition pending :: "delay_queue \<Rightarrow> outgoing \<Rightarrow> 'w env \<Rightarrow> u64" where
  "pending q ob v = of_nat (length (out_addrs ob) + size (held q)) - fate v"

definition accounts ::
  "nat \<Rightarrow> 'g pipeline \<Rightarrow> outgoing \<Rightarrow> 'w env \<Rightarrow> 'g pipeline \<Rightarrow> outgoing \<Rightarrow> 'w env \<Rightarrow> bool" where
  "accounts n s ob v s' ob' v' \<longleftrightarrow>
     calls v' = calls v \<and> captured v' = captured v \<and>
     cnt kPacketsReinjected v' = cnt kPacketsReinjected v \<and> cnt kReinjectFailures v' = cnt kReinjectFailures v \<and>
     (\<exists>q q'. delay s = Some q \<and> delay s' = Some q' \<and> pending q' ob' v' = pending q ob v + of_nat n)"

lemma accounts_trans:
  "accounts n s ob v s1 ob1 v1 \<Longrightarrow> accounts m s1 ob1 v1 s2 ob2 v2 \<Longrightarrow> accounts (n + m) s ob v s2 ob2 v2"
  by (auto simp: accounts_def ac_simps)

lemma accounts_refl: "delay s = Some q \<Longrightarrow> accounts 0 s ob v s ob v"
  by (simp add: accounts_def)

lemma append_accounts:
  assumes "append_immediate_packet data addr (ob, v0) = (ob', v')" and "delay s = Some q" and "delay s0 = Some q"
    and "same_counts v v0"
  shows "accounts 1 s ob v s0 ob' v'"
proof -
  note c = same_countsD [OF assms(4)]
  have f: "fate v0 = fate v" using c by (simp add: fate_def)
  show ?thesis
  proof (cases "length data > kStandardMtuSize")
    case True
    then have e: "ob' = ob" "calls v' = calls v0" "captured v' = captured v0" "fate v' = fate v0 - 1"
      "cnt kPacketsReinjected v' = cnt kPacketsReinjected v0" "cnt kReinjectFailures v' = cnt kReinjectFailures v0"
      using assms(1) by (auto simp: append_immediate_packet_def sums_def fate_def)
    show ?thesis using assms(2,3) e c f by (simp add: accounts_def pending_def)
  next
    case False
    then have e: "length (out_addrs ob') = Suc (length (out_addrs ob))" "v' = v0"
      using assms(1) by (auto simp: append_immediate_packet_def)
    show ?thesis using assms(2,3) e c f by (simp add: accounts_def pending_def)
  qed
qed

lemma count_effects_counts:
  "calls (count_effects d em v) = calls v"
  "captured (count_effects d em v) = captured v" "lost (count_effects d em v) = lost v"
  "cnt kPacketsReinjected (count_effects d em v) = cnt kPacketsReinjected v"
  "cnt kReinjectFailures (count_effects d em v) = cnt kReinjectFailures v"
  "duplicated (count_effects d em v) = duplicated v + (if HasEffect kDuplicate em then of_nat (TotalEmittedCount em) - 1 else 0)"
  "dropped (count_effects d em v) = dropped v + (if HasEffect kDrop em then 1 else 0)"
  by (simp_all add: count_effects_def sums_def Let_def)

lemma Process_counts:
  assumes "rng_lawful R" and "config_ok (outbound cfg)" and "config_ok (inbound cfg)" and "Process R cfg p now e = (em, e')"
  shows "fate (count_effects d em v) = fate v + of_nat (TotalEmittedCount em) - 1"
proof -
  obtain c d d' where c: "config_ok c" "dir_Process R (Snapshot c) p now d = (em, d')"
    using assms by (auto simp: Process_def ConfigForDirection_def split: if_splits prod.splits)
  have "\<not> (HasEffect kDrop em \<and> HasEffect kDuplicate em)"
    using dir_Process_outcome [OF assms(1) c(2)] by (auto simp: dropped_outcome_def kept_outcome_def Let_def)
  with dir_Process_copies [OF assms(1) c] show ?thesis
    by (auto simp: fate_def count_effects_counts)
qed

lemma dq_Push_counts:
  assumes "dq_Push p q v = Some (q', v')"
  shows "calls v' = calls v" "k \<noteq> kPoolExhausted \<Longrightarrow> cnt k v' = cnt k v"
  using assms by (auto simp: dq_Push_def Let_def split: prod.splits option.splits)

lemma push_scheduled_counts:
  assumes "push_scheduled ps q v = Some (q', v')"
  shows "calls v' = calls v \<and> (k \<noteq> kPoolExhausted \<longrightarrow> cnt k v' = cnt k v)"
  using assms
  by (induction ps q v rule: push_scheduled.induct) (auto simp: dq_Push_counts split: option.splits prod.splits)

lemma apply_effects_accounts:
  assumes X: "outside_ok X" and inv: "pl_inv s" and q: "delay s = Some q" and p: "packet_ok p"
    and r: "apply_effects X now p s ob v = Some (s', ob', v')"
  shows "accounts 1 s ob v s' ob' v'"
proof -
  have dq: "dq_inv q" using inv q by (simp add: pl_inv_def)
  have ok: "rng_lawful (rand X)" "config_ok (outbound (effects s))" "config_ok (inbound (effects s))"
    using X inv by (simp_all add: outside_ok_def pl_inv_def)
  obtain em eng where em: "Process (rand X) (effects s) p now (engine s) = (em, eng)" by force
  note pe = Process_emission [OF ok em]
  let ?v = "count_effects (is_outbound (metadata p)) em v"
  have len: "length (Bytes p) \<le> kStandardMtuSize" using p by (simp add: length_Bytes packet_ok_def)
  have f: "fold (\<lambda>ip. append_immediate_packet (Bytes ip) (pkt_addr ip)) (immediate_packets em) (ob, ?v) =
      (ob\<lparr>out_bytes := out_bytes ob @ concat (map Bytes (immediate_packets em)),
          out_addrs := out_addrs ob @ map pkt_addr (immediate_packets em)\<rparr>, ?v)"
    by (rule append_immediate_fold) (subst pe(1), use len in auto)
  have "\<forall>x \<in> set (scheduled_packets em). packet_ok (packet x)" using pe(2) p by simp
  from push_scheduled_spec [OF dq this, of ?v] obtain q' v1 where
    ps: "push_scheduled (scheduled_packets em) q ?v = Some (q', v1)"
      "held q' = held q + mset (take (kDelayQueueCapacity - size (held q)) (scheduled_packets em))"
      "cnt kPoolExhausted v1 = cnt kPoolExhausted ?v + of_nat (length (scheduled_packets em) - (kDelayQueueCapacity - size (held q)))"
    by auto
  note c = push_scheduled_counts [OF ps(1)]
  from r em f ps(1) q have s': "s' = s\<lparr>engine := eng, delay := Some q'\<rparr>" "v' = v1"
    "out_addrs ob' = out_addrs ob @ map pkt_addr (immediate_packets em)"
    by (auto simp: apply_effects_def Let_def)
  have "size (held q') + (length (scheduled_packets em) - (kDelayQueueCapacity - size (held q))) = size (held q) + length (scheduled_packets em)"
    using ps(2) by simp
  then have n: "length (out_addrs ob') + size (held q') + (length (scheduled_packets em) - (kDelayQueueCapacity - size (held q))) =
      length (out_addrs ob) + size (held q) + TotalEmittedCount em"
    using s'(3) by (simp add: TotalEmittedCount_def ImmediateCount_def ScheduledCount_def)
  have n': "(of_nat (length (out_addrs ob') + size (held q')) :: u64) + of_nat (length (scheduled_packets em) - (kDelayQueueCapacity - size (held q))) =
      of_nat (length (out_addrs ob) + size (held q)) + of_nat (TotalEmittedCount em)"
    using n by (metis of_nat_add)
  have "fate v1 = fate ?v - of_nat (length (scheduled_packets em) - (kDelayQueueCapacity - size (held q)))"
    using c ps(3) by (simp add: fate_def sums_def)
  then have "pending q' ob' v1 = of_nat (length (out_addrs ob) + size (held q)) + of_nat (TotalEmittedCount em) - fate ?v"
    unfolding pending_def n' [symmetric] by simp
  also have "\<dots> = pending q ob v + of_nat 1"
    by (simp add: pending_def Process_counts [OF ok em])
  finally show ?thesis
    using c s' q by (simp add: accounts_def captured_def count_effects_counts [unfolded captured_def])
qed

lemma handle_packet_accounts:
  assumes X: "outside_ok X" and inv: "pl_inv s" and q: "delay s = Some q"
    and r: "handle_packet X now data pr addr s ob v = Some (s', ob', v')"
  shows "accounts 1 s ob v s' ob' v'"
proof (cases "\<exists>ip udp. parsed_ip pr = Some ip \<and> parsed_udp pr = Some udp")
  case False
  with r have "append_immediate_packet data addr (ob, v) = (ob', v')" "s' = s"
    by (auto simp: handle_packet_def Let_def split: option.splits prod.splits)
  with append_accounts [OF _ q q same_counts_refl] show ?thesis by blast
next
  case True
  then obtain ip udp where hd: "parsed_ip pr = Some ip" "parsed_udp pr = Some udp" by blast
  let ?tup = "TupleFromPacket ip udp"
  obtain p t v1 where l: "LookupPid (udp_table X) ?tup (Outbound addr) (tracker s) v = Some (p, t, v1)"
    using r hd by (auto simp: handle_packet_def Let_def split: option.splits prod.splits)
  let ?s1 = "s\<lparr>tracker := t\<rparr>" and ?meta = "\<lparr>tuple = ?tup, pid = p, is_outbound = Outbound addr\<rparr>"
  have s1: "pl_inv ?s1" using inv LookupPid_inv [OF _ l] by (simp add: pl_inv_def)
  note c = LookupPid_counts [OF l]
  show ?thesis
  proof (cases "p \<noteq> 0 \<and> Contains p (targets s) \<and> CopyFrom data addr ?meta \<noteq> None")
    case False
    with r hd l have "append_immediate_packet data addr (ob, v1) = (ob', v')" "s' = ?s1"
      by (auto simp: handle_packet_def Let_def split: if_splits option.splits prod.splits)
    with append_accounts [OF _ q _ c, of _ _ _ _ _ ?s1] q show ?thesis by simp
  next
    case True
    then obtain op where op: "CopyFrom data addr ?meta = Some op" by blast
    with r hd l True have a: "apply_effects X now op ?s1 ob v1 = Some (s', ob', v')"
      by (auto simp: handle_packet_def Let_def)
    from apply_effects_accounts [OF X s1 _ CopyFrom_Some(2) [OF op] a] q
    have "accounts 1 ?s1 ob v1 s' ob' v'" by simp
    with same_countsD [OF c] q show ?thesis by (simp add: accounts_def pending_def fate_def)
  qed
qed

section \<open>A batch\<close>

text \<open>A batch in which every address has its packet, or the parser gives up on the rest.\<close>

fun batch_whole :: "(u8 list \<Rightarrow> parsed option) \<Rightarrow> wd_address list \<Rightarrow> u8 list \<Rightarrow> bool" where
  "batch_whole P [] cur \<longleftrightarrow> True"
| "batch_whole P (a # as) cur \<longleftrightarrow>
     (case P cur of
        None \<Rightarrow> True
      | Some pr \<Rightarrow> (if next_len pr = 0 then as = [] else batch_whole P as (drop (length cur - next_len pr) cur)))"

lemma capture_packets_accounts:
  assumes "outside_ok X" and "pl_inv s" and "delay s = Some q" and "batch_whole (parse_packet (driver X)) addrs cur"
    and "capture_packets X clock num addrs i cur s ob v = Some (s', ob', v')"
  shows "accounts (length addrs) s ob v s' ob' v'"
  using assms(2-)
proof (induction addrs arbitrary: i cur s q ob v)
  case Nil
  then show ?case by (simp add: accounts_refl)
next
  case (Cons a as)
  show ?case
  proof (cases "parse_packet (driver X) cur")
    case None
    with Cons.prems show ?thesis by (auto simp: accounts_def pending_def fate_def sums_def)
  next
    case (Some pr)
    let ?n = "length cur - next_len pr"
    obtain s1 ob1 v1 where h: "handle_packet X (clock i) (take ?n cur) pr a s ob v = Some (s1, ob1, v1)"
      and rest: "if next_len pr = 0 then (s', ob', v') = (s1, ob1, v1)
        else capture_packets X clock num as (i + 1) (drop ?n cur) s1 ob1 v1 = Some (s', ob', v')"
      using Cons.prems(4) Some by (auto simp: Let_def split: option.splits if_splits)
    have a: "accounts 1 s ob v s1 ob1 v1" by (rule handle_packet_accounts [OF assms(1) Cons.prems(1,2) h])
    show ?thesis
    proof (cases "next_len pr = 0")
      case True
      with Cons.prems(3) Some rest a show ?thesis by simp
    next
      case False
      obtain q1 where i1: "pl_inv s1" "delay s1 = Some q1"
        using handle_packet_step [OF assms(1) Cons.prems(1,2), of "clock i" "take ?n cur" pr a ob v] h
        by (auto simp: step_ok_def)
      have "accounts (length as) s1 ob1 v1 s' ob' v'"
        by (rule Cons.IH [OF i1]) (use Cons.prems(3) Some False rest in simp_all)
      with accounts_trans [OF a this] show ?thesis by simp
    qed
  qed
qed

lemma send_outgoing_counts:
  fixes v :: "'w env" and ob :: outgoing and D :: "'w divert_ops"
  defines "v' \<equiv> send_outgoing D ob v"
  shows "captured v' = captured v" "duplicated v' = duplicated v" "dropped v' = dropped v" "lost v' = lost v"
    "cnt kPacketsReinjected v' + cnt kReinjectFailures v' = cnt kPacketsReinjected v + cnt kReinjectFailures v + of_nat (length (out_addrs ob))"
    "cnt kPacketsReinjected v = of_nat (passed (calls v)) \<Longrightarrow> cnt kPacketsReinjected v' = of_nat (passed (calls v'))"
    "cnt kReinjectFailures v = of_nat (refused (calls v)) \<Longrightarrow> cnt kReinjectFailures v' = of_nat (refused (calls v'))"
  unfolding v'_def
  by (auto simp: send_outgoing_def sums_def Let_def dest!: env_send_calls split: prod.split)

text \<open>The batch's packets were received; the rest is booked.\<close>

lemma process_batch_books:
  assumes "outside_ok X" and "pl_inv s" and "delay s = Some q" and "batch_whole (parse_packet (driver X)) addrs bytes"
    and "books_balance (size (held q)) v"
  shows "\<exists>s' v' q'. process_batch X clock bytes addrs s v = Some (s', v') \<and> pl_inv s' \<and> delay s' = Some q' \<and>
    books_balance (size (held q')) v' \<and> captured v' = captured v + of_nat (length addrs)"
proof -
  obtain pks rb ra where b: "batch_packets (parse_packet (driver X)) addrs bytes = (pks, rb, ra)" by (metis prod_cases3)
  from process_batch_spec [OF assms(1-3) b, of clock v] obtain s' q' v' where
    r: "process_batch X clock bytes addrs s v = Some (s', v')" "pl_inv s'" "delay s' = Some q'" by blast
  let ?ob = "\<lparr>out_bytes = [], out_addrs = []\<rparr>" and ?v = "count_captured addrs v"
  obtain ob1 v1 where c: "capture_packets X clock (length addrs) addrs 0 bytes s ?ob ?v = Some (s', ob1, v1)"
    and v': "v' = send_outgoing (driver X) ob1 v1"
    using r(1) by (auto simp: process_batch_def Let_def split: option.splits)
  have cc: "captured ?v = captured v + of_nat (length addrs)" "calls ?v = calls v" "duplicated ?v = duplicated v" "dropped ?v = dropped v"
    "lost ?v = lost v" "cnt kPacketsReinjected ?v = cnt kPacketsReinjected v" "cnt kReinjectFailures ?v = cnt kReinjectFailures v"
    by (simp_all add: count_captured_def sums_def Let_def)
  have a: "accounts (length addrs) s ?ob ?v s' ob1 v1" by (rule capture_packets_accounts [OF assms(1-4) c])
  have p: "pending q' ob1 v1 = pending q ?ob ?v + of_nat (length addrs)" and k: "calls v1 = calls v" "captured v1 = captured ?v"
    "cnt kPacketsReinjected v1 = cnt kPacketsReinjected v" "cnt kReinjectFailures v1 = cnt kReinjectFailures v"
    using a assms(3) r(3) cc by (simp_all add: accounts_def)
  note s = send_outgoing_counts [where D = "driver X" and ob = ob1 and v = v1, folded v']
  have bk: "captured v + duplicated v = dropped v + lost v + cnt kPacketsReinjected v + cnt kReinjectFailures v + of_nat (size (held q))"
    "cnt kPacketsReinjected v = of_nat (passed (calls v))" "cnt kReinjectFailures v = of_nat (refused (calls v))"
    using assms(5) by (simp_all add: books_balance_def)
  have "captured v' + duplicated v' - dropped v' - lost v' =
      cnt kPacketsReinjected v' + cnt kReinjectFailures v' + of_nat (size (held q'))"
  proof -
    have "captured v' + fate v' = captured v + of_nat (length addrs) + fate v1" using s k cc by (simp add: fate_def)
    also have "\<dots> = captured v + fate v + of_nat (length (out_addrs ob1)) + of_nat (size (held q')) - of_nat (size (held q))"
      using p cc by (simp add: pending_def fate_def algebra_simps)
    also have "captured v + fate v = cnt kPacketsReinjected v + cnt kReinjectFailures v + of_nat (size (held q))"
      using bk(1) by (simp add: fate_def algebra_simps)
    finally show ?thesis using s(5) k by (simp add: fate_def algebra_simps)
  qed
  moreover have "cnt kPacketsReinjected v' = of_nat (passed (calls v'))" "cnt kReinjectFailures v' = of_nat (refused (calls v'))"
    using s(6,7) k bk by simp_all
  ultimately have "books_balance (size (held q')) v'" by (simp add: books_balance_def algebra_simps)
  moreover have "captured v' = captured v + of_nat (length addrs)" using s(1) k cc by simp
  ultimately show ?thesis using r by blast
qed

section \<open>A round of the delay thread\<close>

text \<open>What a batched send keeps of the books: it settles the packets it was given.\<close>

definition settles :: "nat \<Rightarrow> 'w env \<Rightarrow> 'w env \<Rightarrow> bool" where
  "settles n v v' \<longleftrightarrow> captured v' = captured v \<and> duplicated v' = duplicated v \<and> dropped v' = dropped v \<and> lost v' = lost v \<and>
     cnt kPacketsReinjected v' + cnt kReinjectFailures v' = cnt kPacketsReinjected v + cnt kReinjectFailures v + of_nat n \<and>
     (cnt kPacketsReinjected v = of_nat (passed (calls v)) \<longrightarrow> cnt kPacketsReinjected v' = of_nat (passed (calls v'))) \<and>
     (cnt kReinjectFailures v = of_nat (refused (calls v)) \<longrightarrow> cnt kReinjectFailures v' = of_nat (refused (calls v')))"

lemma settles_books: "settles n v v' \<Longrightarrow> books_balance (n + m) v \<Longrightarrow> books_balance m v' \<and> captured v' = captured v"
  by (auto simp: settles_def books_balance_def algebra_simps)

lemma send_batch_settles:
  assumes "(ucast (send_count b) :: u64) = of_nat n" and "length (send_addrs b) = n"
  shows "settles n v (send_batch D b v)"
  using assms by (auto simp: settles_def send_batch_def sums_def Let_def dest!: env_send_calls split: prod.split)

lemma send_ready_settles:
  assumes inv: "dq_inv q" and r: "send_ready D now q v = Some (snt, q', v')"
  shows "\<exists>n. settles n v v' \<and> size (held q) = n + size (held q')"
proof -
  let ?pool = "memory_pool q"
  obtain ii left where pr: "PopReady (slot_key ?pool) now kBatchSize (sched q) = (ii, left)" by force
  have hp: "heap_ok (slot_key ?pool) (sched q)" and pk: "\<forall>i \<in> set (held_slots q). packet_ok (packet (?pool ! i))"
    using inv by (simp_all add: dq_inv_def)
  note sp = PopReady_split [OF hp pr]
  have "set ii \<subseteq> set (held_slots q)"
    using sp(2) unfolding held_slots_def by (metis le_supI2 mset_subset_eq_add_left set_append set_mset_mono set_mset_mset)
  then have pki: "\<forall>i \<in> set ii. packet_ok (packet (?pool ! i))" using pk by blast
  let ?b = "fold (batch_add ?pool) ii batch_init"
  note bt = ready_batch [OF pki sp(4)]
  have len: "length (send_addrs ?b) = length ii" by (simp add: bt(2) batch_send_def)
  have sz: "size (held q) = length ii + length (spsc_items (handoff_queue q)) + length left"
    using arg_cong [OF sp(2), of size] by (simp add: size_held held_slots_def)
  show ?thesis
  proof (cases "ii = []")
    case True
    then have "v' = v" "q' = q\<lparr>sched := left\<rparr>" using r pr bt(4) by (auto simp: send_ready_def Let_def batch_init_def)
    then show ?thesis using sz True by (intro exI [of _ 0]) (simp add: settles_def size_held held_slots_def)
  next
    case False
    with r pr bt(3,4) obtain f where "v' = send_batch D ?b v" "q' = q\<lparr>sched := left, free_queue := f\<rparr>"
      by (auto simp: send_ready_def Let_def split: option.splits)
    with send_batch_settles [OF bt(5) len, of v D] sz show ?thesis
      by (intro exI [of _ "length ii"]) (simp add: size_held held_slots_def)
  qed
qed

lemma drain_round_books:
  assumes inv: "dq_inv q" and r: "drain_round D now now2 q v = Some (pz, q', v')" and b: "books_balance (size (held q)) v"
  shows "books_balance (size (held q')) v' \<and> captured v' = captured v"
proof -
  obtain did q1 where th: "take_handoff q = (did, q1)" by force
  note t = take_handoff_spec [OF inv th]
  obtain snt where "send_ready D now q1 v = Some (snt, q', v')"
    using r th by (auto simp: drain_round_def split: option.splits prod.splits)
  from send_ready_settles [OF _ this] t obtain n where "settles n v v'" "size (held q) = n + size (held q')" by auto
  with settles_books [of n v v' "size (held q')"] b show ?thesis by simp
qed

section \<open>Runs\<close>

fun event_whole :: "(u8 list \<Rightarrow> parsed option) \<Rightarrow> pipe_event \<Rightarrow> bool" where
  "event_whole P (Captured _ _ _ bytes addrs) \<longleftrightarrow> batch_whole P addrs bytes"
| "event_whole P (Drained _ _) \<longleftrightarrow> True"

fun received :: "pipe_event \<Rightarrow> nat" where
  "received (Captured _ _ _ _ addrs) = length addrs"
| "received (Drained _ _) = 0"

lemma pipe_step_books:
  assumes "outside_ok X" and inv: "pl_inv s" and q: "delay s = Some q" and e: "event_ok e" "event_whole (parse_packet (driver X)) e"
    and b: "books_balance (size (held q)) v"
  shows "\<exists>s' v' q'. pipe_step X e (s, v) = Some (s', v') \<and> pl_inv s' \<and> delay s' = Some q' \<and>
    books_balance (size (held q')) v' \<and> captured v' = captured v + of_nat (received e)"
proof (cases e)
  case (Captured cfg ts clock bytes addrs)
  let ?s = "s\<lparr>effects := cfg, targets := ts\<rparr>"
  have "pl_inv ?s" "delay ?s = Some q" using inv e q Captured by (simp_all add: pl_inv_def)
  from process_batch_books [OF assms(1) this _ b, of addrs bytes clock] e Captured show ?thesis by simp
next
  case (Drained now now2)
  have dq: "dq_inv q" using inv q by (simp add: pl_inv_def)
  from drain_round_spec [OF dq, of "driver X" now now2 v] obtain pz q' v' where
    d: "drain_round (driver X) now now2 q v = Some (pz, q', v')" "dq_inv q'" by blast
  from drain_round_books [OF dq d(1) b] d inv q Drained show ?thesis by (simp add: pl_inv_def)
qed

lemma pipe_run_books:
  assumes "outside_ok X" and "pl_inv s" and "delay s = Some q" and "\<forall>e \<in> set es. event_ok e \<and> event_whole (parse_packet (driver X)) e"
    and "books_balance (size (held q)) v"
  shows "\<exists>s' v' q'. pipe_run X es (s, v) = Some (s', v') \<and> pl_inv s' \<and> delay s' = Some q' \<and>
    books_balance (size (held q')) v' \<and> captured v' = captured v + of_nat (sum_list (map received es))"
  using assms(2-)
proof (induction es arbitrary: s v q)
  case (Cons e es)
  from pipe_step_books [OF assms(1) Cons.prems(1,2) _ _ Cons.prems(4), of e] Cons.prems(3) obtain s1 v1 q1 where
    s: "pipe_step X e (s, v) = Some (s1, v1)" "pl_inv s1" "delay s1 = Some q1" "books_balance (size (held q1)) v1"
      "captured v1 = captured v + of_nat (received e)" by auto
  from Cons.IH [OF s(2,3) _ s(4)] Cons.prems(3) obtain s2 v2 q2 where
    "pipe_run X es (s1, v1) = Some (s2, v2)" "pl_inv s2" "delay s2 = Some q2" "books_balance (size (held q2)) v2"
      "captured v2 = captured v1 + of_nat (sum_list (map received es))" by auto
  with s show ?case by (intro exI [of _ s2] exI [of _ v2] exI [of _ q2]) simp
qed simp

section \<open>A stop\<close>

text \<open>A single send that is accepted is counted nowhere.\<close>

definition accepts_all :: "'w divert_ops \<Rightarrow> bool" where
  "accepts_all D \<longleftrightarrow> (\<forall>bs as w. fst (divert_send D bs as w) = 0)"

definition flushes :: "'w divert_ops \<Rightarrow> send_call list \<Rightarrow> 'w env \<Rightarrow> 'w env \<Rightarrow> bool" where
  "flushes D cs v v' \<longleftrightarrow>
     calls v' = calls v @ cs \<and> (\<forall>c \<in> set cs. length (call_addrs c) = 1) \<and> (accepts_all D \<longrightarrow> refused cs = 0) \<and>
     (\<forall>k. cnt k v' = cnt k v + (if k = kReinjectFailures then of_nat (refused cs) else 0))"

lemma flushes_refl: "flushes D [] v v"
  by (simp add: flushes_def)

lemma flushes_trans: "flushes D cs v v1 \<Longrightarrow> flushes D ds v1 v2 \<Longrightarrow> flushes D (cs @ ds) v v2"
  by (auto simp: flushes_def)

lemma Reinject_flushes: "\<exists>c. flushes D [c] v (Reinject D p v)"
proof -
  obtain gle v1 where e: "env_send D (Bytes (packet p)) [pkt_addr (packet p)] v = (gle, v1)" by force
  moreover have "accepts_all D \<longrightarrow> gle = 0"
  proof -
    have "fst (divert_send D (Bytes (packet p)) [pkt_addr (packet p)] (world v)) = gle" using e by (auto simp: env_send_def split: prod.splits)
    then show ?thesis by (auto simp: accepts_all_def)
  qed
  ultimately show ?thesis using env_send_calls [OF e]
    by (intro exI [of _ "\<lparr>call_bytes = Bytes (packet p), call_addrs = [pkt_addr (packet p)], call_error = gle\<rparr>"])
      (auto simp: flushes_def Reinject_def)
qed

lemma flush_scheduled_flushes:
  "flush_scheduled D ii q v = Some (q', v') \<Longrightarrow> \<exists>cs. flushes D cs v v'"
proof (induction ii arbitrary: q v)
  case (Cons i ii)
  then obtain f where "flush_scheduled D ii (q\<lparr>free_queue := f\<rparr>) (Reinject D (memory_pool q ! i) v) = Some (q', v')"
    by (auto simp: Let_def split: option.splits)
  from Cons.IH [OF this] Reinject_flushes show ?case by (meson flushes_trans)
qed (auto intro: flushes_refl)

lemma flush_handoff_flushes:
  "flush_handoff D n q v = Some (q', v') \<Longrightarrow> \<exists>cs. flushes D cs v v'"
proof (induction n arbitrary: q v)
  case (Suc n)
  show ?case
  proof (cases "v' = v")
    case False
    with Suc.prems obtain i q1 where "flush_handoff D n q1 (Reinject D (memory_pool q ! i) v) = Some (q', v')"
      by (auto simp: Let_def split: option.splits prod.splits)
    from Suc.IH [OF this] Reinject_flushes show ?thesis by (meson flushes_trans)
  qed (auto intro: flushes_refl)
qed (auto intro: flushes_refl)

lemma FlushPackets_flushes:
  assumes "FlushPackets D q v = Some (q', v')"
  shows "\<exists>cs. flushes D cs v v'"
proof -
  obtain q1 v1 popped q2 where "flush_handoff D (Suc (capacity (handoff_queue q))) q v = Some (q1, v1)"
    "flush_scheduled D popped q2 v1 = Some (q', v')"
    using assms by (auto simp: FlushPackets_def split: option.splits prod.splits)
  then show ?thesis by (meson flush_handoff_flushes flush_scheduled_flushes flushes_trans)
qed

lemma pi_Stop_flushes_books:
  assumes inv: "pl_inv s" and q: "delay s = Some q"
  shows "\<exists>s' v' cs. pi_Stop D s v = Some (s', v') \<and> delay s' = None \<and> flushes D cs v v' \<and> length cs = size (held q)"
proof -
  from pi_Stop_flushes [OF assms, of D v] obtain s' v' ps where
    p: "pi_Stop D s v = Some (s', v')" "mset ps = held q" "sends_of (calls v') = sends_of (calls v) @ map single_send ps" "delay s' = None"
    by blast
  let ?v = "if pi_handle s then v\<lparr>world := divert_shutdown D LayerNetwork ShutdownRecv (world v)\<rparr> else v"
  obtain q1 v1 where f: "FlushPackets D (q\<lparr>running := False, thread_alive := False\<rparr>) ?v = Some (q1, v1)"
    and v': "calls v' = calls v1" "\<And>k. cnt k v' = cnt k v1"
    using p(1) q by (auto simp: pi_Stop_def dq_Stop_def Let_def split: option.splits if_splits)
  from FlushPackets_flushes [OF f] obtain cs where "flushes D cs ?v v1" by blast
  then have fl: "flushes D cs v v'" using v' by (simp add: flushes_def split: if_splits)
  then have "length cs = length ps"
    using arg_cong [OF p(3), of length] by (simp add: flushes_def sends_of_def)
  also have "\<dots> = size (held q)" using p(2) by (metis size_mset)
  finally show ?thesis using p(1,4) fl by blast
qed

lemma singles: "\<forall>c \<in> set cs. length (call_addrs c) = 1 \<Longrightarrow> passed cs + refused cs = length cs"
  by (induction cs) auto

section \<open>Properties\<close>

text \<open>
  C4: The numbers on the diagnostics tab add up while the pipeline runs. After any batches and rounds, with
  any changes of the effects between them and whatever the driver answers, the captured packets are those
  received; together with the duplicates they are the dropped, the oversized and those that found no free
  slot, the reinjected, the refused, and the ones still held; and the last two numbers are exactly the packets of
  the calls the driver accepted and refused.
\<close>

theorem counters_add_up:
  assumes "outside_ok X" and "pl_inv s" and "delay s = Some q" and "held q = {#}" and "\<forall>c. Get c (logs v) = 0" and "calls v = []"
    and "\<forall>e \<in> set es. event_ok e \<and> event_whole (parse_packet (driver X)) e"
  shows "\<exists>s' v' q'. pipe_run X es (s, v) = Some (s', v') \<and> delay s' = Some q' \<and>
    captured v' = of_nat (sum_list (map received es)) \<and>
    captured v' + duplicated v' =
      dropped v' + lost v' + Get kPacketsReinjected (logs v') + Get kReinjectFailures (logs v') + of_nat (size (held q')) \<and>
    Get kPacketsReinjected (logs v') = of_nat (passed (calls v')) \<and> Get kReinjectFailures (logs v') = of_nat (refused (calls v'))"
proof -
  have "books_balance (size (held q)) v" "captured v = 0" using assms(4-6) by (simp_all add: books_balance_def sums_def)
  with pipe_run_books [OF assms(1-3,7), of v] show ?thesis by (auto simp: books_balance_def)
qed

theorem counters_add_up_witness:
  "\<exists>q s' v' q'. DelayQueue_new (\<lambda>n. n) 8 = Some q \<and>
    pipe_run sample_world sample_events (sample_pipeline 9 effect_config_init (Some q), env_init []) = Some (s', v') \<and>
    delay s' = Some q' \<and> captured v' = 1"
proof -
  obtain q where q: "pl_inv (sample_pipeline 9 effect_config_init (Some q))" "held q = {#}"
    "delay (sample_pipeline 9 effect_config_init (Some q)) = Some q" "DelayQueue_new (\<lambda>n. n) 8 = Some q"
    using sample_start by metis
  have "\<forall>e \<in> set sample_events. event_whole (parse_packet (driver sample_world)) e" by code_simp
  then have ok: "\<forall>e \<in> set sample_events. event_ok e \<and> event_whole (parse_packet (driver sample_world)) e"
    using sample_events_ok by blast
  have "sum_list (map received sample_events) = 1" by (simp add: sample_events_def)
  with counters_add_up [OF sample_outside_ok q(1,3,2) _ _ ok, of "env_init []"] q(4)
  show ?thesis by (auto simp: env_init_def diagnostics_init_def Get_def)
qed

text \<open>
  C13: A stop breaks the sum. Stopping the interceptor sends every packet that is still held, one to a call,
  but only a refused call is counted: the packets the driver accepts are in no counter, although
  they were reinjected, and nothing is held any more. With a driver that accepts everything the tab is off by all
  of them.
\<close>

theorem stop_reinjects_uncounted:
  assumes "pl_inv s" and "delay s = Some q" and "books_balance (size (held q)) v"
  shows "\<exists>s' v' cs. pi_Stop D s v = Some (s', v') \<and> delay s' = None \<and> calls v' = calls v @ cs \<and> length cs = size (held q) \<and>
    Get kPacketsReinjected (logs v') = of_nat (passed (calls v)) \<and> Get kReinjectFailures (logs v') = of_nat (refused (calls v')) \<and>
    captured v' + duplicated v' =
      dropped v' + lost v' + Get kPacketsReinjected (logs v') + Get kReinjectFailures (logs v') + of_nat (passed cs) \<and>
    (accepts_all D \<longrightarrow> passed cs = size (held q))"
proof -
  from pi_Stop_flushes_books [OF assms(1,2), of D v] obtain s' v' cs where
    p: "pi_Stop D s v = Some (s', v')" "delay s' = None" "flushes D cs v v'" "length cs = size (held q)" by blast
  have n: "passed cs + refused cs = size (held q)" using singles [of cs] p(3,4) by (simp add: flushes_def)
  then have "(of_nat (size (held q)) :: u64) = of_nat (passed cs) + of_nat (refused cs)" by (metis of_nat_add)
  then have "captured v' + duplicated v' =
      dropped v' + lost v' + Get kPacketsReinjected (logs v') + Get kReinjectFailures (logs v') + of_nat (passed cs)"
    "Get kPacketsReinjected (logs v') = of_nat (passed (calls v))" "Get kReinjectFailures (logs v') = of_nat (refused (calls v'))"
    using assms(3) p(3) by (simp_all add: books_balance_def flushes_def sums_def algebra_simps)
  moreover have "accepts_all D \<longrightarrow> passed cs = size (held q)" using n p(3) by (auto simp: flushes_def)
  ultimately show ?thesis using p by (auto simp: flushes_def)
qed

text \<open>One packet was captured and delayed when the pipeline is stopped: it leaves, and no counter says so.\<close>

theorem stop_reinjects_uncounted_witness:
  "\<exists>q s' v' c. pi_Stop (scripted_driver (\<lambda>_. None) 0) (sample_pipeline 9 effect_config_init (Some q))
      (env_count kPacketsCapturedOutbound 1 (env_init [])) = Some (s', v') \<and> size (held q) = 1 \<and> calls v' = [c] \<and> call_error c = 0 \<and>
    Get kPacketsCapturedOutbound (logs v') = 1 \<and> Get kPacketsReinjected (logs v') = 0"
proof -
  from DelayQueue_new_ok [OF sample_alloc_ok] obtain q0 where q0: "dq_inv q0" "held q0 = {#}" by blast
  let ?p = "\<lparr>packet = sample_packet 10, release_at = 5\<rparr>" and ?D = "scripted_driver (\<lambda>_. None) 0"
  let ?v = "env_count kPacketsCapturedOutbound 1 (env_init ([] :: script))"
  have "packet_ok (packet ?p)" by (simp add: packet_ok_def sample_packet_def kStandardMtuSize_def)
  from dq_Push_spec [OF q0(1) this, of ?v] q0(2) obtain q where q: "dq_inv q" "held q = {#?p#}"
    by (auto simp: kDelayQueueCapacity_def)
  have "pid_set_inv (SetSelectedPid 9 pid_set_init)" using apply_pid_op_inv [OF pid_set_inv_init, of "OpSelect 9"] by simp
  then have inv: "pl_inv (sample_pipeline 9 effect_config_init (Some q))" "delay (sample_pipeline 9 effect_config_init (Some q)) = Some q"
    using q(1) ft_inv_init config_ok_init by (simp_all add: pl_inv_def sample_pipeline_def effect_config_init_def)
  have b: "books_balance (size (held q)) ?v"
    using q(2) by (simp add: books_balance_def sums_def, simp add: env_init_def diagnostics_init_def Get_def)
  have a: "accepts_all ?D" by (simp add: accepts_all_def scripted_driver_def)
  from stop_reinjects_uncounted [OF inv b, of ?D] obtain s' v' cs where
    p: "pi_Stop ?D (sample_pipeline 9 effect_config_init (Some q)) ?v = Some (s', v')" "calls v' = calls ?v @ cs" "length cs = size (held q)"
      "Get kPacketsReinjected (logs v') = of_nat (passed (calls ?v))" "accepts_all ?D \<longrightarrow> passed cs = size (held q)"
    by (elim exE conjE) (rule that)
  from pi_Stop_flushes_books [OF inv, of ?D ?v] p(1) have "cnt kPacketsCapturedOutbound v' = cnt kPacketsCapturedOutbound ?v"
    by (auto simp: flushes_def)
  moreover obtain c where "cs = [c]" using p(3) q(2) by (auto simp: length_Suc_conv)
  moreover have "calls ?v = []" "cnt kPacketsCapturedOutbound ?v = 1" by (simp_all add: env_init_def diagnostics_init_def Get_def Increment_def env_count_def)
  ultimately show ?thesis using p(1,2,4,5) q(2) a by (intro exI [of _ q] exI [of _ s'] exI [of _ v'] exI [of _ c]) (auto split: if_splits)
qed

end
