(* ===== verification/Flow_Threads.thy ===== *)
theory Flow_Threads
  imports Flow_Tracker
begin

text \<open>
  The flow tracker between its two threads (src/core/FlowTracker.cpp): the tracking thread changes the maps
  under the unique lock, one critical section for each event; the capture thread's \<open>LookupPid\<close> looks under the
  shared lock, lets it go, scans the kernel table without a lock, and remembers what it found under the
  unique lock. \<open>Flow_Tracker\<close> has the lookup as one function; here events come between its parts.
\<close>

section \<open>Steps\<close>

text \<open>Where the capture thread is in a lookup, with the number of changes of the maps at its call.\<close>

datatype lookup_pc =
    LIdle
  | LCalled five_tuple bool nat
  | LMissed five_tuple bool nat
  | LScanned five_tuple bool nat u32
  | LAnswered five_tuple bool nat u32

text \<open>A change of the maps, in the order in which the unique lock was held.\<close>

datatype map_change = Tracked flow_event | Remembered five_tuple u32 | Bootstrapped "(u32 \<times> u16 \<times> u32) list"

record flow_sys =
  shared :: flow_tracker
  lookup :: lookup_pc
  changes :: "map_change list"

definition flow_sys_init :: flow_sys where
  "flow_sys_init = \<lparr>shared = flow_tracker_init, lookup = LIdle, changes = []\<rparr>"

text \<open>
  \<open>Scan\<close> and \<open>Bootstrap\<close>, which starts the tracker, carry the entries of the kernel table. The first critical section of \<open>OnFlowDeleted\<close> only reads for
  the debug output and is left out.
\<close>

datatype flow_act =
    TrackEvent flow_event
  | Bootstrap "(u32 \<times> u16 \<times> u32) list"
  | CallLookup five_tuple bool
  | LookMaps
  | Scan "(u32 \<times> u16 \<times> u32) list"
  | Remember

definition scan_for :: "five_tuple \<Rightarrow> bool \<Rightarrow> (u32 \<times> u16 \<times> u32) list \<Rightarrow> u32" where
  "scan_for tup is_out entries =
     fold (system_visit (if is_out then src_addr tup else dst_addr tup) (if is_out then src_port tup else dst_port tup)) entries 0"

fun flow_act_step :: "flow_act \<Rightarrow> flow_sys \<Rightarrow> flow_sys option" where
  "flow_act_step (TrackEvent e) s = Some (s\<lparr>shared := apply_flow_event e (shared s), changes := changes s @ [Tracked e]\<rparr>)"
| "flow_act_step (Bootstrap entries) s =
     Some (s\<lparr>shared := (shared s)\<lparr>endpoint_to_pid := fold bootstrap_visit entries []\<rparr>, changes := changes s @ [Bootstrapped entries]\<rparr>)"
| "flow_act_step (CallLookup tup is_out) s =
     (case lookup s of
        LIdle \<Rightarrow> Some (s\<lparr>lookup := LCalled tup is_out (length (changes s))\<rparr>)
      | LAnswered _ _ _ _ \<Rightarrow> Some (s\<lparr>lookup := LCalled tup is_out (length (changes s))\<rparr>)
      | _ \<Rightarrow> None)"
| "flow_act_step LookMaps s =
     (case lookup s of
        LCalled tup is_out n \<Rightarrow>
          Some (s\<lparr>lookup := (case cached_pid_of tup is_out (shared s) of
                               Some p \<Rightarrow> LAnswered tup is_out n p
                             | None \<Rightarrow> LMissed tup is_out n)\<rparr>)
      | _ \<Rightarrow> None)"
| "flow_act_step (Scan entries) s =
     (case lookup s of
        LMissed tup is_out n \<Rightarrow>
          (let p = scan_for tup is_out entries in
           Some (s\<lparr>lookup := (if p \<noteq> 0 then LScanned tup is_out n p else LAnswered tup is_out n 0)\<rparr>))
      | _ \<Rightarrow> None)"
| "flow_act_step Remember s =
     (case lookup s of
        LScanned tup is_out n p \<Rightarrow>
          Some (s\<lparr>shared := InsertFlow tup p (shared s), lookup := LAnswered tup is_out n p,
                  changes := changes s @ [Remembered tup p]\<rparr>)
      | _ \<Rightarrow> None)"

fun flow_acts :: "flow_act list \<Rightarrow> flow_sys \<Rightarrow> flow_sys option" where
  "flow_acts [] s = Some s"
| "flow_acts (a # as) s = Option.bind (flow_act_step a s) (flow_acts as)"

lemma flow_acts_append: "flow_acts (as @ bs) s = Option.bind (flow_acts as s) (flow_acts bs)"
  by (induction as arbitrary: s) (simp_all split: Option.bind_split)

text \<open>With nothing in between the parts are the lookup of \<open>Flow_Tracker\<close>.\<close>

lemma lookup_alone:
  assumes "LookupPid T tup d t v = Some (p, t', v')" and "lookup s = LIdle" and "shared s = t"
  shows "\<exists>as s'. flow_acts (CallLookup tup d # LookMaps # as) s = Some s' \<and> shared s' = t' \<and>
    lookup s' = LAnswered tup d (length (changes s)) p"
proof (cases "cached_pid_of tup d t")
  case (Some q)
  with assms show ?thesis by (intro exI [of _ "[]"]) (auto simp: LookupPid_def)
next
  case None
  with assms(1) obtain b entries v1 where "ForEachUdpEntry T (env_count kFlowCacheKernelScans 1 v) = Some (b, entries, v1)"
    "p = scan_for tup d entries" "t' = (if p \<noteq> 0 then InsertFlow tup p t else t)"
    by (auto simp: LookupPid_def LookupPidFromSystem_def scan_for_def Let_def split: option.splits prod.splits)
  with None assms show ?thesis
    by (intro exI [of _ "if p = 0 then [Scan entries] else [Scan entries, Remember]"]) (auto simp: Let_def)
qed

section \<open>The maps as a function of their changes\<close>

text \<open>The owner of a flow and of an endpoint after the changes, the newest first.\<close>

fun flow_of :: "map_change list \<Rightarrow> five_tuple \<Rightarrow> u32 option" where
  "flow_of [] x = None"
| "flow_of (Tracked (Established tup p) # cs) x =
     (if (x = tup \<or> x = Reversed tup) \<and> \<not> IsNoisePid p then Some p else flow_of cs x)"
| "flow_of (Tracked (Deleted tup) # cs) x = (if x = tup \<or> x = Reversed tup then None else flow_of cs x)"
| "flow_of (Bootstrapped entries # cs) x = flow_of cs x"
| "flow_of (Remembered tup p # cs) x = (if x = tup \<or> x = Reversed tup then Some p else flow_of cs x)"

fun endpoint_of :: "map_change list \<Rightarrow> u64 \<Rightarrow> u32 option" where
  "endpoint_of [] k = None"
| "endpoint_of (Tracked (Established tup p) # cs) k =
     (if k = MakeEndpointKey (src_addr tup) (src_port tup) \<and> \<not> IsNoisePid p then Some p else endpoint_of cs k)"
| "endpoint_of (Tracked (Deleted tup) # cs) k =
     (if k = MakeEndpointKey (src_addr tup) (src_port tup) \<or> k = MakeEndpointKey 0 (src_port tup) then None else endpoint_of cs k)"
| "endpoint_of (Bootstrapped entries # cs) k = map_of (fold bootstrap_visit entries []) k"
| "endpoint_of (Remembered tup p # cs) k = endpoint_of cs k"

text \<open>What a lookup under the lock would answer after the changes.\<close>

definition answer_of :: "map_change list \<Rightarrow> five_tuple \<Rightarrow> bool \<Rightarrow> u32 option" where
  "answer_of cs tup is_out =
     (case flow_of (rev cs) tup of
        Some p \<Rightarrow> Some p
      | None \<Rightarrow>
          (case endpoint_of (rev cs) (LocalEndpointKey tup is_out) of
             Some p \<Rightarrow> Some p
           | None \<Rightarrow> endpoint_of (rev cs) (MakeEndpointKey 0 (if is_out then src_port tup else dst_port tup))))"

lemma answer_remembered [simp]: "answer_of (cs @ [Remembered tup p]) tup d = Some p"
  by (simp add: answer_of_def)

text \<open>Nothing in the maps belongs to process 0.\<close>

definition no_zero :: "map_change list \<Rightarrow> bool" where
  "no_zero cs \<longleftrightarrow> (\<forall>tup. Remembered tup 0 \<notin> set cs)"

lemma owners_nonzero:
  assumes "no_zero cs"
  shows "flow_of cs x \<noteq> Some 0" and "endpoint_of cs k \<noteq> Some 0"
proof -
  show "flow_of cs x \<noteq> Some 0"
    using assms by (induction cs x rule: flow_of.induct) (auto simp: no_zero_def IsNoisePid_def)
  have boot: "map_of (fold bootstrap_visit entries []) k \<noteq> Some 0" for entries k
  proof
    assume "map_of (fold bootstrap_visit entries []) k = Some 0"
    moreover have "\<forall>k p. map_of (fold bootstrap_visit entries []) k = Some p \<longrightarrow> \<not> IsNoisePid p"
      by (rule fold_bootstrap [THEN conjunct2]) simp_all
    ultimately have "\<not> IsNoisePid 0" by blast
    then show False by (simp add: IsNoisePid_def)
  qed
  show "endpoint_of cs k \<noteq> Some 0"
    using assms by (induction cs k rule: endpoint_of.induct) (auto simp: no_zero_def IsNoisePid_def boot)
qed

lemma answer_nonzero: "no_zero cs \<Longrightarrow> answer_of cs tup d \<noteq> Some 0"
  using owners_nonzero [of "rev cs"] by (auto simp: answer_of_def no_zero_def split: option.splits)

text \<open>At some moment since there were \<open>n\<close> changes the maps answered \<open>r\<close>.\<close>

definition answered_since :: "nat \<Rightarrow> map_change list \<Rightarrow> five_tuple \<Rightarrow> bool \<Rightarrow> u32 option \<Rightarrow> bool" where
  "answered_since n cs tup d r \<longleftrightarrow> (\<exists>k. n \<le> k \<and> k \<le> length cs \<and> answer_of (take k cs) tup d = r)"

lemma answered_now: "n \<le> length cs \<Longrightarrow> answer_of cs tup d = r \<Longrightarrow> answered_since n cs tup d r"
  unfolding answered_since_def by (intro exI [of _ "length cs"]) simp

lemma answered_later [intro]: "answered_since n cs tup d r \<Longrightarrow> answered_since n (cs @ ds) tup d r"
  unfolding answered_since_def by fastforce

definition answer_pid :: "u32 \<Rightarrow> u32 option" where
  "answer_pid p = (if p = 0 then None else Some p)"

fun pc_ok :: "map_change list \<Rightarrow> lookup_pc \<Rightarrow> bool" where
  "pc_ok cs LIdle \<longleftrightarrow> True"
| "pc_ok cs (LCalled tup d n) \<longleftrightarrow> n \<le> length cs"
| "pc_ok cs (LMissed tup d n) \<longleftrightarrow> answered_since n cs tup d None"
| "pc_ok cs (LScanned tup d n p) \<longleftrightarrow> n \<le> length cs \<and> p \<noteq> 0"
| "pc_ok cs (LAnswered tup d n p) \<longleftrightarrow> answered_since n cs tup d (answer_pid p)"

lemma pc_ok_later: "pc_ok cs l \<Longrightarrow> pc_ok (cs @ ds) l"
  by (cases l) auto

definition flow_sys_ok :: "flow_sys \<Rightarrow> bool" where
  "flow_sys_ok s \<longleftrightarrow>
     map_of (flow_table (shared s)) = flow_of (rev (changes s)) \<and> map_of (endpoint_to_pid (shared s)) = endpoint_of (rev (changes s)) \<and>
     no_zero (changes s) \<and>
     pc_ok (changes s) (lookup s)"

lemma flow_sys_init_ok: "flow_sys_ok flow_sys_init"
  by (simp add: flow_sys_ok_def flow_sys_init_def flow_tracker_init_def no_zero_def fun_eq_iff)

lemma cached_answer:
  assumes "flow_sys_ok s"
  shows "cached_pid_of tup d (shared s) = answer_of (changes s) tup d"
proof -
  have "map_of (flow_table (shared s)) = flow_of (rev (changes s))" "map_of (endpoint_to_pid (shared s)) = endpoint_of (rev (changes s))"
    using assms by (simp_all add: flow_sys_ok_def)
  then show ?thesis unfolding cached_pid_of_def answer_of_def Let_def by (simp only:)
qed

lemma tracked_ok:
  assumes "flow_sys_ok s"
  shows "flow_sys_ok (s\<lparr>shared := apply_flow_event e (shared s), changes := changes s @ [Tracked e]\<rparr>)"
proof -
  note ok = assms [unfolded flow_sys_ok_def]
  have m: "map_of (flow_table (apply_flow_event e (shared s))) = flow_of (Tracked e # rev (changes s))"
    using ok by (cases e) (auto simp: fun_eq_iff apply_flow_event_map simp del: apply_flow_event.simps)
  have k: "map_of (endpoint_to_pid (apply_flow_event e (shared s))) = endpoint_of (Tracked e # rev (changes s))"
    using ok by (cases e) (auto simp: fun_eq_iff OnFlowEstablished_def OnFlowDeleted_def)
  have l: "pc_ok (changes s @ [Tracked e]) (lookup s)" using ok by (simp add: pc_ok_later)
  show ?thesis using m k l ok by (simp add: flow_sys_ok_def no_zero_def)
qed

lemma bootstrapped_ok:
  assumes "flow_sys_ok s"
  shows "flow_sys_ok (s\<lparr>shared := (shared s)\<lparr>endpoint_to_pid := fold bootstrap_visit entries []\<rparr>, changes := changes s @ [Bootstrapped entries]\<rparr>)"
proof -
  note ok = assms [unfolded flow_sys_ok_def]
  have "map_of (flow_table (shared s)) = flow_of (Bootstrapped entries # rev (changes s))"
    "map_of (fold bootstrap_visit entries []) = endpoint_of (Bootstrapped entries # rev (changes s))"
    using ok by (simp_all add: fun_eq_iff)
  then show ?thesis using ok by (simp add: flow_sys_ok_def no_zero_def pc_ok_later)
qed

lemma remembered_ok:
  assumes "flow_sys_ok s" and "lookup s = LScanned tup d n p"
  shows "flow_sys_ok (s\<lparr>shared := InsertFlow tup p (shared s), lookup := LAnswered tup d n p, changes := changes s @ [Remembered tup p]\<rparr>)"
proof -
  note ok = assms(1) [unfolded flow_sys_ok_def]
  have p: "p \<noteq> 0" "n \<le> length (changes s)" using ok assms(2) by simp_all
  have "map_of (flow_table (InsertFlow tup p (shared s))) = flow_of (Remembered tup p # rev (changes s))"
    using ok by (simp add: fun_eq_iff InsertFlow_map)
  moreover have "map_of (endpoint_to_pid (InsertFlow tup p (shared s))) = endpoint_of (Remembered tup p # rev (changes s))"
    using ok by (simp add: fun_eq_iff InsertFlow_def)
  moreover have "answered_since n (changes s @ [Remembered tup p]) tup d (answer_pid p)"
    using p by (intro answered_now) (simp_all add: answer_pid_def)
  moreover have "no_zero (changes s @ [Remembered tup p])" using ok p by (auto simp: no_zero_def)
  ultimately show ?thesis using ok by (simp add: flow_sys_ok_def)
qed

lemma flow_act_step_ok:
  assumes "flow_act_step a s = Some s'" and "flow_sys_ok s"
  shows "flow_sys_ok s'"
proof (cases a)
  case (TrackEvent e)
  with assms tracked_ok show ?thesis by auto
next
  case (Bootstrap entries)
  with assms bootstrapped_ok show ?thesis by auto
next
  case (CallLookup tup d)
  with assms show ?thesis by (auto simp: flow_sys_ok_def split: lookup_pc.splits)
next
  case LookMaps
  then obtain tup d n where l: "lookup s = LCalled tup d n" using assms(1) by (auto split: lookup_pc.splits)
  have n: "n \<le> length (changes s)" "no_zero (changes s)" using assms(2) l by (simp_all add: flow_sys_ok_def)
  have "answered_since n (changes s) tup d (cached_pid_of tup d (shared s))"
    by (rule answered_now [OF n(1)]) (simp add: cached_answer [OF assms(2)])
  moreover have "cached_pid_of tup d (shared s) \<noteq> Some 0" using answer_nonzero [OF n(2)] by (simp add: cached_answer [OF assms(2)])
  ultimately show ?thesis using assms LookMaps l
    by (auto simp: flow_sys_ok_def answer_pid_def split: option.splits)
next
  case (Scan entries)
  then obtain tup d n where l: "lookup s = LMissed tup d n" using assms(1) by (auto split: lookup_pc.splits)
  with assms(2) have "answered_since n (changes s) tup d None" by (simp add: flow_sys_ok_def)
  moreover from this have "n \<le> length (changes s)" by (auto simp: answered_since_def)
  ultimately show ?thesis using assms Scan l by (auto simp: flow_sys_ok_def answer_pid_def Let_def split: if_splits)
next
  case Remember
  then obtain tup d n p where l: "lookup s = LScanned tup d n p" using assms(1) by (auto split: lookup_pc.splits)
  with remembered_ok [OF assms(2) l] assms(1) Remember show ?thesis by auto
qed

lemma flow_acts_ok: "flow_acts as s = Some s' \<Longrightarrow> flow_sys_ok s \<Longrightarrow> flow_sys_ok s'"
  by (induction as arbitrary: s) (auto simp: bind_eq_Some_conv dest: flow_act_step_ok)

text \<open>The changes by the tracking thread are the events of the run, in their order.\<close>

definition tracked :: "map_change list \<Rightarrow> flow_event list" where
  "tracked cs = concat (map (\<lambda>c. case c of Tracked e \<Rightarrow> [e] | _ \<Rightarrow> []) cs)"

definition track_events :: "flow_act list \<Rightarrow> flow_event list" where
  "track_events as = concat (map (\<lambda>a. case a of TrackEvent e \<Rightarrow> [e] | _ \<Rightarrow> []) as)"

lemma tracked_run: "flow_acts as s = Some s' \<Longrightarrow> tracked (changes s') = tracked (changes s) @ track_events as"
proof (induction as arbitrary: s)
  case (Cons a as)
  then obtain s1 where "flow_act_step a s = Some s1" "tracked (changes s') = tracked (changes s1) @ track_events as"
    by (auto simp: bind_eq_Some_conv)
  moreover have "tracked (changes s1) = tracked (changes s) @ track_events [a]"
    using calculation(1) by (cases a) (auto simp: tracked_def track_events_def Let_def split: lookup_pc.splits)
  ultimately show ?case by (simp add: track_events_def)
qed (simp add: track_events_def)

section \<open>Properties\<close>

text \<open>
  C28: With events and lookups interleaved in any way at the granularity of the lock, the maps are a function
  of their changes in the order of the lock, the changes of the tracking thread being the flow events in their
  order; and the answer of a finished lookup, 0 for none, is the one these maps had at some moment between its
  call and its return.
\<close>

theorem lookups_linearizable:
  assumes "flow_acts as flow_sys_init = Some s"
  shows "map_of (flow_table (shared s)) x = flow_of (rev (changes s)) x \<and>
    map_of (endpoint_to_pid (shared s)) k = endpoint_of (rev (changes s)) k \<and>
    tracked (changes s) = track_events as \<and>
    (\<forall>tup d n p. lookup s = LAnswered tup d n p \<longrightarrow>
       (\<exists>k. n \<le> k \<and> k \<le> length (changes s) \<and> answer_of (take k (changes s)) tup d = (if p = 0 then None else Some p)))"
proof -
  have "flow_sys_ok s" by (rule flow_acts_ok [OF assms flow_sys_init_ok])
  moreover have "tracked (changes s) = track_events as" using tracked_run [OF assms] by (simp add: flow_sys_init_def tracked_def)
  ultimately show ?thesis by (auto simp: flow_sys_ok_def answered_since_def answer_pid_def)
qed

definition sample_flow :: five_tuple where
  "sample_flow = \<lparr>src_addr = 1, dst_addr = 2, src_port = 3, dst_port = 4, protocol = 17\<rparr>"

definition sample_acts :: "flow_act list" where
  "sample_acts = [Bootstrap [(7, 5, 6)], CallLookup sample_flow True, LookMaps, Scan [(1, 3, 9)], TrackEvent (Established sample_flow 8), Remember]"

theorem lookups_linearizable_witness:
  "\<exists>s. flow_acts sample_acts flow_sys_init = Some s \<and> map_of (flow_table (shared s)) sample_flow = flow_of (rev (changes s)) sample_flow \<and>
    tracked (changes s) = [Established sample_flow 8]"
proof -
  have "flow_acts sample_acts flow_sys_init \<noteq> None" by code_simp
  then obtain s where s: "flow_acts sample_acts flow_sys_init = Some s" by auto
  with lookups_linearizable [OF s] show ?thesis by (simp add: sample_acts_def track_events_def)
qed

text \<open>An event about a flow, in either direction.\<close>

fun concerns :: "flow_event \<Rightarrow> five_tuple \<Rightarrow> bool" where
  "concerns (Established u q) x \<longleftrightarrow> x = u \<or> x = Reversed u"
| "concerns (Deleted u) x \<longleftrightarrow> x = u \<or> x = Reversed u"

lemma unconcerned:
  assumes "\<forall>e \<in> set es. \<not> concerns e tup"
  shows "map_of (flow_table (fold apply_flow_event es t)) tup = map_of (flow_table t) tup"
    and "flow_owner (rev es @ fs) tup = flow_owner fs tup"
proof -
  show "map_of (flow_table (fold apply_flow_event es t)) tup = map_of (flow_table t) tup"
    using assms
  proof (induction es arbitrary: t)
    case (Cons e es)
    then show ?case by (cases e) (simp_all add: apply_flow_event_map del: apply_flow_event.simps)
  qed simp
  show "flow_owner (rev es @ fs) tup = flow_owner fs tup"
    using assms
  proof (induction es arbitrary: fs)
    case (Cons e es)
    from Cons.IH [of "e # fs"] Cons.prems show ?case by (cases e) auto
  qed simp
qed

lemma track_events_run:
  "flow_acts (map TrackEvent es) s = Some (s\<lparr>shared := fold apply_flow_event es (shared s), changes := changes s @ map Tracked es\<rparr>)"
  by (induction es arbitrary: s) (simp_all del: apply_flow_event.simps)

text \<open>
  C19: A lookup overrides the news. If the flow is established by another process, or deleted, while the capture
  thread is between its scan and its remembering, the older answer of the scan is written over it: the flow is
  then attributed, in both directions, to the process of the scan, against the history of the events, and stays so
  whatever other flows do.
\<close>

theorem late_scan_overrides_event:
  assumes "lookup s = LIdle" and "cached_pid_of tup d (shared s) = None" and "scan_for tup d entries = p" and "p \<noteq> 0"
    and "e = Established tup q \<and> \<not> IsNoisePid q \<and> q \<noteq> p \<or> e = Deleted tup" and "\<forall>e' \<in> set es. \<not> concerns e' tup"
  shows "\<exists>s'. flow_acts ([CallLookup tup d, LookMaps, Scan entries, TrackEvent e, Remember] @ map TrackEvent es) s = Some s' \<and>
    cached_pid_of tup d (shared s') = Some p \<and> cached_pid_of (Reversed tup) (\<not> d) (shared s') = Some p \<and>
    flow_owner (rev (e # es)) tup \<noteq> Some p"
proof -
  let ?t = "InsertFlow tup p (apply_flow_event e (shared s))"
  have nc: "\<forall>e' \<in> set es. \<not> concerns e' (Reversed tup)"
  proof
    fix e' assume "e' \<in> set es"
    with assms(6) have "\<not> concerns e' tup" by blast
    then show "\<not> concerns e' (Reversed tup)" by (cases e') (auto simp: Reversed_eq_swap)
  qed
  have "map_of (flow_table (fold apply_flow_event es ?t)) tup = Some p"
    "map_of (flow_table (fold apply_flow_event es ?t)) (Reversed tup) = Some p"
    using unconcerned(1) [OF assms(6)] unconcerned(1) [OF nc] by (simp_all add: InsertFlow_map)
  then have c: "cached_pid_of tup d (fold apply_flow_event es ?t) = Some p"
    "cached_pid_of (Reversed tup) (\<not> d) (fold apply_flow_event es ?t) = Some p"
    by (simp_all add: cached_pid_of_def)
  have "flow_owner (rev (e # es)) tup \<noteq> Some p"
    using unconcerned(2) [OF assms(6), of "[e]"] assms(5) by auto
  then show ?thesis using c assms(1-4)
    by (auto simp: flow_acts_append track_events_run Let_def simp del: apply_flow_event.simps)
qed

theorem late_scan_overrides_event_witness:
  "\<exists>s'. flow_acts ([CallLookup sample_flow True, LookMaps, Scan [(1, 3, 9)], TrackEvent (Established sample_flow 8), Remember] @
      map TrackEvent [Deleted \<lparr>src_addr = 5, dst_addr = 2, src_port = 3, dst_port = 4, protocol = 17\<rparr>]) flow_sys_init = Some s' \<and>
    cached_pid_of sample_flow True (shared s') = Some 9"
proof -
  have c: "lookup flow_sys_init = LIdle" "cached_pid_of sample_flow True (shared flow_sys_init) = None"
    "scan_for sample_flow True [(1, 3, 9)] = 9" by code_simp+
  have n: "Established sample_flow 8 = Established sample_flow 8 \<and> \<not> IsNoisePid 8 \<and> (8 :: u32) \<noteq> 9 \<or> Established sample_flow 8 = Deleted sample_flow"
    by (simp add: IsNoisePid_def kSystemPid_def)
  have u: "\<forall>e' \<in> set [Deleted \<lparr>src_addr = 5, dst_addr = 2, src_port = 3, dst_port = 4, protocol = 17\<rparr>]. \<not> concerns e' sample_flow"
    by (simp add: sample_flow_def Reversed_def)
  from late_scan_overrides_event [OF c _ n u] show ?thesis by auto
qed

end
