(* ===== verification/Spec2Isabelle.thy ===== *)
theory Spec2Isabelle
  imports Spsc_Relaxed Log_Lines App_Session Batch_Limit Throttle_Race Icon_Cache Window_Packets Process_Handles
    Control_Setup Drain_Loop Hotkey_Page Counter_Balance Flow_Threads
begin

text \<open>
  A verification library for Scrambler, a Windows program that disturbs the UDP traffic of chosen
  processes: it drops, delays, duplicates and throttles packets it takes from the WinDivert driver.

  The program's parts and how they fit together. The flow tracker learns from the driver which process
  owns a UDP flow. The packet interceptor takes batches of packets from the driver, asks the tracker for
  each packet's owner, and, if the owner is in the target set, runs the packet through the effect engine,
  which reads the effect configuration that the user interface writes. Copies that leave now go back
  to the driver in one call per batch; copies that leave later go into the delay queue, whose thread
  sends them when they are due. Everything counts and logs into the diagnostics object, which the
  diagnostics tab shows. The main window owns tracker and interceptor, starts and stops them for the
  selected process, and holds the process list, the effect controls, the hotkeys, the sound player and the
  preferences; \<open>main\<close> makes the window and asks for the driver's service to be stopped on exit.

  Theories, in the order of their imports:

  \<^item> Prelude: machine types, \<open>std::clamp\<close> on integers and on single-precision values with NaN,
    the random engine as a record of its two distributions with their laws.
  \<^item> Interfaces: the locales, that is the contracts several parts rely on: a bounded FIFO, a queue with the
    least key on top, the run of a component that reacts to events, and a resource that a scope acquires and its
    end releases (\<open>scoped_resource\<close>). The first is interpreted on the ring (Spsc_Queue), the second on the heap
    (Sched_Queue), the third on the effect controls (Control_Laws), the main window (Window_Laws), the sound player
    (Sound_Player) and a whole session (App_Session), the fourth on the handles of processes and of their
    snapshot (Process_Handles) and on the timer period of the delay thread (Drain_Loop).
  \<^item> Packet_Types: include/core/Types.h, PacketData.h, StartupError.h, StartupError.cpp.
  \<^item> Diagnostics: Diagnostics.h and Diagnostics.cpp; Diagnostics_Tab: src/ui/DiagnosticsTab.cpp, with the
    interleaving of two logging threads and the refresh timer; Log_Lines: the text of a log line and of a
    copied log, and a reader that gets the entries back.
  \<^item> Spsc_Queue, Spsc_Threads, Spsc_Relaxed: third_party/rigtorp/SPSCQueue.h, sequentially, under every
    interleaving of its two threads at the granularity of its atomic accesses, and with the release and
    acquire orders of the code, where a load may be stale: the ring is a FIFO there too, and the two threads
    never race on a slot.
  \<^item> Sched_Queue: include/core/ScheduledPacketQueue.h on the binary heap of \<open>std::priority_queue\<close>.
  \<^item> Effect_Config, Target_Pids: include/core/EffectConfig.h; the target set also as threads; Throttle_Race:
    the throttle setter and the engine's snapshot, access by access.
  \<^item> Effect_Engine, Effect_Laws: PacketEffectEngine.h, PacketEffectEngine.cpp and what the engine
    guarantees over runs of packets.
  \<^item> Divert: what the program relies on from WinDivert, as a record of functions (a parameter), the
    observable world and the calls made to it.
  \<^item> Delay_Queue, Flow_Tracker, Interceptor: DelayQueue, FlowTracker and PacketInterceptor: a batch sends and
    holds only copies of its packets, at most 65 of each together (\<open>copied\<close>), and without targeted owners it sends
    exactly its packets within the MTU, unchanged.
    Flow_Threads: a lookup between the events of the tracking thread, at the granularity of the lock.
    Pipeline_Frame: what their rounds keep, and the driver handles they open and close. Pipeline_Run: the
    running pipeline refines a ledger of delayed packets; what enters leaves once, never early, not late.
    Batch_Limit: the driver's limit on a send call. Drain_Loop: the delay thread from its start to its end,
    with what each of its rounds sends and leaves behind (\<open>round_ok\<close>).
    Counter_Balance: the counters of the diagnostics add up over a run, and no longer after a stop.
  \<^item> Hotkeys, Hotkey_Laws: HotkeyManager and HotkeyEdit; Hotkey_Page: the five edits, the manager, its hooks and the
    stored settings together. Process_Ident: ProcessEnumerator as questions to the system, and
    which processes are listed, in terms of the answers alone (\<open>to_be_shown\<close>); Process_Handles: the
    same call by call, with every handle it opens and closes. Process_Tree: the process list of the main
    window, with what stands at the top level and below each item when no process is its own ancestor
    (\<open>ranked\<close>), and its filter; Icon_Cache: its icons.
  \<^item> Effect_Controls, Control_Laws: the sliders, spin boxes and check boxes of the main window with their signals,
    and the configuration they write; Control_Setup: how \<open>SetupUi\<close> makes these controls.
  \<^item> Main_Window, Window_Laws: the window as the owner of the pipeline, driven by a list of events.
    Window_Packets: the packets in such a run, across any number of starts and stops.
  \<^item> Sound_Player: SoundPlayer. App_Session: the preferences of the Settings tab, the tones of a session, and
    src/main.cpp.

  Conventions. A class is a record; a method is a function from the object (and the environment \<open>env\<close>:
  the driver's world, the diagnostics object, the log of send calls) to the results and the new object. A method
  that may block or spin for ever is an option, \<open>None\<close> being the run that does not end. Integers that may
  wrap are words (\<open>u8\<close> to \<open>u64\<close>); \<open>int\<close> settings and the clock's nanoseconds are HOL integers with
  their range stated as an invariant. Floats are rationals with NaN and infinities; the sound player's doubles are
  rationals with a rounding function. Errors are sums.

  What is outside the repository is a parameter, with its documented behaviour as a named predicate: the
  driver (\<open>handles_tracked\<close>, and \<open>refuses_large\<close> for its limit of 255 packets a call), the UDP table, the random
  engine (\<open>rng_lawful\<close>), the value a Qt widget takes (\<open>qt_lawful\<close>), the settings stores (\<open>settings_lawful\<close>,
  \<open>preference_lawful\<close>), the system's hooks (\<open>hook_lawful\<close>), the service manager (\<open>service_lawful\<close>), the handles of processes
  (\<open>handles_lawful\<close>), the system's timer (\<open>timer_lawful\<close>), the local time, and double arithmetic (\<open>double_lawful\<close>). Each has an instance in a witness.

  Events and threads. The window is a list of events: what the user does, what the timers do, queued calls, and
  whole rounds of the three threads; a message box is one event. The pipeline's steps are whole batches and
  rounds; what happens inside them between two threads is in Spsc_Threads, Spsc_Relaxed, Target_Pids,
  Flow_Threads, Diagnostics_Tab and Throttle_Race.

  Bounds and fuel. The three loops that only end from outside, \<open>CaptureLoop\<close>, \<open>TrackingLoop\<close> and \<open>DrainLoop\<close>,
  take the number of rounds to run and report whether they have ended; \<open>delay_thread_ends\<close> shows that the last
  ends exactly when a round finds its flag cleared; \<open>tracking_loop_gives_up\<close> shows 33 rounds to be
  enough, and 32 not, for a driver that only fails. A delay round sends 128 packets, so 32 rounds empty the 4096
  slots. A signal of the effect controls runs its slots with a depth of 7, which \<open>slide_eq\<close> and \<open>spin_eq\<close> show to
  be enough. The retry loop of the UDP table and the loop over the process snapshot are
  \<open>partial_function\<close>s with no fuel; that they end is proved. All other loops are
  structural or have a termination proof.

  Not modelled: widget layout, styles, sorting, scrolling and translations; the debug output of builds without
  NDEBUG; the colours and names \<open>main\<close> gives the application; blocks of the log view for messages with line breaks.
\<close>

end
